(* ===== verification/Cheviot_Prelude.thy ===== *)
theory Cheviot_Prelude
  imports Main "HOL-Library.Word" "HOL-Library.Monad_Syntax"
begin

unbundle bit_operations_syntax

text \<open>
  Shared material of the development: the machine types and error codes of the kernel, the result
  of a system call that may sleep, the simplification collections of the components, and the
  generic facts on lists and on the bits of 32-bit words that several components use.
\<close>

section \<open>Types\<close>

type_synonym u8 = "8 word"
type_synonym u32 = "32 word"

text \<open>
  The negative error numbers the kernel returns.  A C function that returns a non-negative
  \<^verbatim>\<open>int\<close> or \<open>-E\<close> is modelled with the result type \<open>errno + 'a\<close>, where \<open>Inl E\<close> is \<open>-E\<close>.
\<close>

datatype errno =
    EPERM | ENOENT | EIO | EBADF | EAGAIN | ENOMEM | EACCES | EFAULT | EEXIST
  | ENOTDIR | EINVAL | EMFILE | ENOSYS | ETIMEDOUT | ENOTSUP

type_synonym 'a result = "errno + 'a"

text \<open>
  A kernel function that may call \<open>TaskSleep\<close> in a wait loop either completes, or puts the
  calling task to sleep.  A task that was put to sleep evaluates the loop again when it next
  holds the big kernel lock, so the model of such a function is run again.
\<close>

datatype 'a sys = Done 'a | Blocked

section \<open>Simplification collections\<close>

named_theorems repr_simps \<open>unfolding rules of the list representation predicates\<close>
named_theorems frame_simps \<open>fields of the kernel state an operation does not change\<close>

section \<open>Lists\<close>

definition firstof :: "'a list \<Rightarrow> 'a option \<Rightarrow> 'a option" where
  "firstof xs n = (case xs of [] \<Rightarrow> n | x # _ \<Rightarrow> Some x)"

definition lastof :: "'a option \<Rightarrow> 'a list \<Rightarrow> 'a option" where
  "lastof p xs = (if xs = [] then p else Some (last xs))"

lemma firstof_simps [simp]:
  "firstof [] n = n"
  "firstof (x # xs) n = Some x"
  "firstof (xs @ ys) n = firstof xs (firstof ys n)"
  by (auto simp: firstof_def split: list.splits)

lemma lastof_simps [simp]:
  "lastof p [] = p"
  "lastof p (x # xs) = lastof (Some x) xs"
  "lastof p (xs @ ys) = lastof (lastof p xs) ys"
  by (auto simp: lastof_def)

lemma firstof_None_iff [simp]: "firstof xs None = None \<longleftrightarrow> xs = []"
  by (cases xs) auto

lemma firstof_Some_neq [simp]: "firstof xs (Some y) \<noteq> None"
  by (cases xs) auto

lemma lastof_None_iff [simp]: "lastof None xs = None \<longleftrightarrow> xs = []"
  by (auto simp: lastof_def)

lemma lastof_Some [simp]: "xs \<noteq> [] \<Longrightarrow> lastof p xs = Some (last xs)"
  by (simp add: lastof_def)

lemma firstof_Some [simp]: "xs \<noteq> [] \<Longrightarrow> firstof xs n = Some (hd xs)"
  by (cases xs) auto

lemma lastof_eq_Some_append: "lastof None xs = Some x \<Longrightarrow> \<exists>ys. xs = ys @ [x]"
  by (cases xs rule: rev_cases) auto

section \<open>Bits of a 32-bit map\<close>

text \<open>The mask \<open>(1 << t)\<close> of the C code, for \<open>t < 32\<close>.\<close>

definition shl1 :: "nat \<Rightarrow> u32" where
  "shl1 t = push_bit t 1"

lemma bit_shl1_iff: "bit (shl1 t) n \<longleftrightarrow> n = t \<and> t < 32"
  unfolding shl1_def bit_push_bit_iff bit_1_iff by auto

lemma bit_set1_iff: "t < 32 \<Longrightarrow> bit (w OR shl1 t) n \<longleftrightarrow> n = t \<or> bit w n"
  by (auto simp: bit_or_iff bit_shl1_iff)

lemma bit_u32_less: "bit (w :: u32) n \<Longrightarrow> n < 32"
  using bit_imp_le_length [of w n] by simp

lemma bit_clear1_iff: "bit (w AND NOT (shl1 t)) n \<longleftrightarrow> n \<noteq> t \<and> bit w n"
  by (auto simp: bit_and_iff bit_not_iff bit_shl1_iff dest: bit_u32_less)

lemma and_shl1_eq_0_iff: "(w AND shl1 t) = 0 \<longleftrightarrow> \<not> bit w t"
proof
  assume "(w AND shl1 t) = 0"
  then have "\<not> bit (w AND shl1 t) t" by simp
  then show "\<not> bit w t"
    by (auto simp: bit_and_iff bit_shl1_iff dest: bit_u32_less)
next
  assume "\<not> bit w t"
  then have "\<not> bit (w AND shl1 t) n" for n
    by (auto simp: bit_and_iff bit_shl1_iff)
  then show "(w AND shl1 t) = 0"
    by (intro bit_word_eqI) simp
qed

lemma word32_eq_0_iff: "(w :: u32) = 0 \<longleftrightarrow> (\<forall>n < 32. \<not> bit w n)"
  by (auto simp: bit_eq_iff dest: bit_u32_less)

lemma in_set_tlD: "x \<in> set (tl xs) \<Longrightarrow> x \<in> set xs"
  by (cases xs) auto

end
