(* ===== verification/Kernel_Strings.thy ===== *)
theory Kernel_Strings
  imports Cheviot_Prelude
begin

text \<open>
  The string functions of \<^verbatim>\<open>kernel/utility/string.c\<close>.  Memory is a list of characters, a pointer into it is
  the rest of the list, and the result \<open>None\<close> is an access outside of it.  A string of length \<open>n\<close> is \<open>n\<close>
  characters other than NUL, followed by a NUL.  The lemmas relate the functions to those on lists;
  the other components use lists of characters for the names of files.
\<close>

section \<open>The functions\<close>

abbreviation NUL :: char where
  "NUL \<equiv> CHR 0x00"

fun StrLen :: "char list \<Rightarrow> nat option" where
  "StrLen [] = None"
| "StrLen (c # s) = (if c = NUL then Some 0 else map_option Suc (StrLen s))"

fun StrCmp :: "char list \<Rightarrow> char list \<Rightarrow> int option" where
  "StrCmp (c # s) (d # t) =
     (if c = d then (if c = NUL then Some (int (of_char c) - int (of_char d)) else StrCmp s t)
      else Some (int (of_char c) - int (of_char d)))"
| "StrCmp s t = None"

text \<open>The index of the character, or \<open>Some None\<close> for the result NULL.\<close>

fun StrChr :: "char list \<Rightarrow> char \<Rightarrow> nat option option" where
  "StrChr [] ch = None"
| "StrChr (c # s) ch = (if c = NUL then Some None else if c = ch then Some (Some 0) else map_option (map_option Suc) (StrChr s ch))"

text \<open>
  The copy loop of \<open>StrLCpy\<close> at index \<open>d\<close> of the destination, with room for \<open>n\<close> characters: the
  destination, the next index, the room and the rest of the source after it.
\<close>

definition put_char :: "nat \<Rightarrow> char \<Rightarrow> char list \<Rightarrow> char list option" where
  "put_char d c dst = (if d < length dst then Some (dst[d := c]) else None)"

fun lcpy_loop :: "nat \<Rightarrow> nat \<Rightarrow> char list \<Rightarrow> char list \<Rightarrow> (char list \<times> nat \<times> nat \<times> char list) option" where
  "lcpy_loop n d dst [] = None"
| "lcpy_loop n d dst (c # s) = do {
     dst \<leftarrow> put_char d c dst;
     if c = NUL then Some (dst, Suc d, n, s)
     else if n - 1 = 0 then Some (dst, Suc d, 0, s)
     else lcpy_loop (n - 1) (Suc d) dst s
   }"

definition StrLCpy :: "char list \<Rightarrow> char list \<Rightarrow> nat \<Rightarrow> (char list \<times> nat) option" where
  "StrLCpy dst src siz = do {
     (dst, d, n, s) \<leftarrow> (if siz \<noteq> 0 \<and> siz - 1 \<noteq> 0 then lcpy_loop (siz - 1) 0 dst src else Some (dst, 0, 0, src));
     if n = 0 then do {
       dst \<leftarrow> (if siz \<noteq> 0 then put_char d NUL dst else Some dst);
       k \<leftarrow> StrLen s;
       Some (dst, length src - length s + k)
     } else Some (dst, length src - length s - 1)
   }"

text \<open>The search of \<open>StrLCat\<close> for the end of the destination.\<close>

fun lcat_end :: "nat \<Rightarrow> char list \<Rightarrow> nat option" where
  "lcat_end 0 d = Some 0"
| "lcat_end (Suc n) [] = None"
| "lcat_end (Suc n) (c # d) = (if c = NUL then Some 0 else map_option Suc (lcat_end n d))"

fun lcat_loop :: "nat \<Rightarrow> nat \<Rightarrow> char list \<Rightarrow> char list \<Rightarrow> (char list \<times> nat \<times> char list) option" where
  "lcat_loop n d dst [] = None"
| "lcat_loop n d dst (c # s) =
     (if c = NUL then Some (dst, d, c # s)
      else if n \<noteq> 1 then do { dst \<leftarrow> put_char d c dst; lcat_loop (n - 1) (Suc d) dst s }
      else lcat_loop n d dst s)"

definition StrLCat :: "char list \<Rightarrow> char list \<Rightarrow> nat \<Rightarrow> (char list \<times> nat) option" where
  "StrLCat dst src siz = do {
     dlen \<leftarrow> lcat_end siz dst;
     let n = siz - dlen;
     if n = 0 then do { k \<leftarrow> StrLen src; Some (dst, dlen + k) }
     else do {
       (dst, d, s) \<leftarrow> lcat_loop n dlen dst src;
       dst \<leftarrow> put_char d NUL dst;
       Some (dst, dlen + (length src - length s))
     }
   }"

section \<open>Strings are lists\<close>

definition str :: "char list \<Rightarrow> char list \<Rightarrow> char list" where
  "str xs rest = xs @ NUL # rest"

lemma StrLen_str: "NUL \<notin> set xs \<Longrightarrow> StrLen (str xs r) = Some (length xs)"
  by (induction xs) (auto simp: str_def)

lemma of_char_pos: "NUL \<noteq> c \<Longrightarrow> 0 < (of_char c :: nat)"
  using of_char_eq_iff [of c NUL, where 'a = nat] by (intro neq0_conv [THEN iffD1]) simp

lemma StrCmp_str:
  assumes "NUL \<notin> set xs" "NUL \<notin> set ys"
  shows "\<exists>n. StrCmp (str xs r) (str ys q) = Some n \<and> (n = 0 \<longleftrightarrow> xs = ys)"
  using assms
proof (induction xs arbitrary: ys)
  case Nil
  then show ?case by (cases ys) (auto simp: str_def of_char_pos)
next
  case (Cons x xs)
  show ?case
  proof (cases ys)
    case Nil
    then show ?thesis using Cons.prems by (auto simp: str_def of_char_pos)
  next
    case (Cons y ys')
    then show ?thesis using Cons.IH [of ys'] Cons.prems by (auto simp: str_def)
  qed
qed

lemma StrChr_str:
  assumes "NUL \<notin> set xs" "ch \<noteq> NUL"
  shows "StrChr (str xs r) ch = Some (if ch \<in> set xs then Some (length (takeWhile (\<lambda>c. c \<noteq> ch) xs)) else None)"
  using assms by (induction xs) (auto simp: str_def)

lemma lcpy_loop_str:
  assumes "NUL \<notin> set xs" "0 < n" "d + min (Suc (length xs)) n \<le> length dst"
  shows "lcpy_loop n d dst (str xs r) =
    (if length xs < n then Some (take d dst @ str xs (drop (d + Suc (length xs)) dst), d + Suc (length xs), n - length xs, r)
     else Some (take d dst @ take n xs @ drop (d + n) dst, d + n, 0, str (drop n xs) r))"
  using assms
proof (induction xs arbitrary: n d dst)
  case Nil
  then show ?case by (simp add: str_def put_char_def upd_conv_take_nth_drop)
next
  case (Cons x xs)
  let ?dst = "dst[d := x]"
  have d: "d < length dst" "x \<noteq> NUL" using Cons.prems by auto
  show ?case
  proof (cases "n - 1 = 0")
    case True
    then have "n = 1" using Cons.prems(2) by simp
    then show ?thesis using d by (simp add: str_def put_char_def upd_conv_take_nth_drop)
  next
    case False
    have "lcpy_loop (n - 1) (Suc d) ?dst (str xs r) =
      (if length xs < n - 1 then Some (take (Suc d) ?dst @ str xs (drop (Suc d + Suc (length xs)) ?dst), Suc d + Suc (length xs), n - 1 - length xs, r)
       else Some (take (Suc d) ?dst @ take (n - 1) xs @ drop (Suc d + (n - 1)) ?dst, Suc d + (n - 1), 0, str (drop (n - 1) xs) r))"
      using Cons.prems False by (intro Cons.IH) auto
    moreover have "take (Suc d) ?dst = take d dst @ [x]" using d by (simp add: take_Suc_conv_app_nth)
    moreover obtain m where "n = Suc m" using Cons.prems(2) by (cases n) auto
    ultimately show ?thesis using d False by (simp add: str_def put_char_def)
  qed
qed

text \<open>\<open>StrLCpy\<close> copies as much as fits and terminates it, and returns the length of the source.\<close>

lemma StrLCpy_str:
  assumes "NUL \<notin> set xs" "siz \<le> length dst"
  shows "StrLCpy dst (str xs r) siz =
    Some (if siz = 0 then dst else str (take (siz - 1) xs) (drop (Suc (min (siz - 1) (length xs))) dst), length xs)"
proof (cases "siz - 1 = 0")
  case True
  then show ?thesis using assms StrLen_str [OF assms(1), of r]
    by (cases dst) (auto simp: StrLCpy_def put_char_def str_def)
next
  case False
  show ?thesis
  proof (cases "length xs < siz - 1")
    case True
    then have "lcpy_loop (siz - 1) 0 dst (str xs r) = Some (str xs (drop (Suc (length xs)) dst), Suc (length xs), siz - 1 - length xs, r)"
      using False assms lcpy_loop_str [OF assms(1), of "siz - 1" 0 dst r] by simp
    moreover have "\<not> siz \<le> Suc (length xs)" using True by linarith
    ultimately show ?thesis using True False by (simp add: StrLCpy_def) (simp add: str_def)
  next
    case long: False
    have "lcpy_loop (siz - 1) 0 dst (str xs r) = Some (take (siz - 1) xs @ drop (siz - 1) dst, siz - 1, 0, str (drop (siz - 1) xs) r)"
      using False long assms lcpy_loop_str [OF assms(1), of "siz - 1" 0 dst r] by simp
    moreover have "NUL \<notin> set (drop (siz - 1) xs)" using assms(1) by (auto dest: in_set_dropD)
    moreover have "put_char (siz - 1) NUL (take (siz - 1) xs @ drop (siz - 1) dst) = Some (str (take (siz - 1) xs) (drop siz dst))"
      using False long assms(2) by (auto simp: put_char_def str_def list_update_append upd_conv_take_nth_drop)
    ultimately show ?thesis using False long by (simp add: StrLCpy_def StrLen_str min_def) (simp add: str_def)
  qed
qed

lemma lcat_end_str: "NUL \<notin> set ds \<Longrightarrow> length ds < n \<Longrightarrow> lcat_end n (str ds r) = Some (length ds)"
proof (induction ds arbitrary: n)
  case Nil
  then show ?case by (cases n) (auto simp: str_def)
next
  case (Cons d ds)
  then show ?case by (cases n) (auto simp: str_def)
qed

lemma lcat_loop_str:
  assumes "NUL \<notin> set xs" "0 < n" "d + n \<le> length dst"
  shows "lcat_loop n d dst (str xs r) =
    Some (take d dst @ take (n - 1) xs @ drop (d + min (n - 1) (length xs)) dst, d + min (n - 1) (length xs), NUL # r)"
  using assms
proof (induction xs arbitrary: n d dst)
  case Nil
  then show ?case by (simp add: str_def)
next
  case (Cons x xs)
  have x: "x \<noteq> NUL" "NUL \<notin> set xs" using Cons.prems by auto
  show ?case
  proof (cases "n = 1")
    case True
    then show ?thesis using Cons.IH [of 1 d dst] Cons.prems x by (simp add: str_def)
  next
    case False
    then obtain m where m: "n = Suc m" "0 < m" using Cons.prems(2) by (cases n) auto
    let ?dst = "dst[d := x]"
    have "take (Suc d) ?dst = take d dst @ [x]" using Cons.prems m by (simp add: take_Suc_conv_app_nth)
    moreover have "lcat_loop m (Suc d) ?dst (str xs r) =
      Some (take (Suc d) ?dst @ take (m - 1) xs @ drop (Suc d + min (m - 1) (length xs)) ?dst, Suc d + min (m - 1) (length xs), NUL # r)"
      using Cons.prems m x by (intro Cons.IH) auto
    moreover obtain k where "m = Suc k" using m(2) by (cases m) auto
    ultimately show ?thesis using Cons.prems m x by (simp add: str_def put_char_def)
  qed
qed

text \<open>\<open>StrLCat\<close> appends as much as fits.\<close>

lemma StrLCat_str:
  assumes "NUL \<notin> set ds" "NUL \<notin> set xs" "length ds < siz" "siz \<le> length (str ds q)"
  shows "\<exists>rest. StrLCat (str ds q) (str xs r) siz = Some (str (ds @ take (siz - length ds - 1) xs) rest, length ds + length xs)"
proof -
  let ?n = "siz - length ds" and ?dst = "str ds q"
  let ?k = "min (?n - 1) (length xs)"
  have e: "lcat_end siz ?dst = Some (length ds)" using assms by (simp add: lcat_end_str)
  have l: "lcat_loop ?n (length ds) ?dst (str xs r) = Some (ds @ take (?n - 1) xs @ drop (length ds + ?k) ?dst, length ds + ?k, NUL # r)"
    using assms lcat_loop_str [OF assms(2), of ?n "length ds" ?dst r] by (simp add: str_def)
  have "length ds + ?k < length ?dst" using assms(3,4) by (auto simp: str_def min_def)
  then have "put_char (length ds + ?k) NUL (ds @ take (?n - 1) xs @ drop (length ds + ?k) ?dst) =
    Some (str (ds @ take (?n - 1) xs) (drop (Suc (length ds + ?k)) ?dst))"
    by (auto simp: put_char_def list_update_append upd_conv_take_nth_drop min_def str_def)
  then show ?thesis using assms(3) e l by (auto simp: StrLCat_def Let_def) (simp add: str_def)
qed

end
