(* ===== verification/Kernel_Printf.thy ===== *)
theory Kernel_Printf
  imports Kernel_Strings
begin

unbundle bit_operations_syntax

text \<open>
  Formatted output of the kernel, \<^verbatim>\<open>kernel/utility/doprintf.c\<close>.  The characters that \<open>DoPrintf\<close> passes to its
  output function are a list; \<open>Snprintf\<close> stores them in a buffer.  The format is memory that starts at
  the format string, so that reading past its end is visible; the variable arguments are a list.  The
  result \<open>None\<close> is an access outside the memory, or to an argument that is not there.
\<close>

section \<open>Converting integers\<close>

definition FLAG_LEFT :: u32 where
  "FLAG_LEFT = shl1 1"

definition FLAG_SIGN :: u32 where
  "FLAG_SIGN = shl1 2"

definition FLAG_ZERO :: u32 where
  "FLAG_ZERO = shl1 3"

definition FLAG_UPPERCASE :: u32 where
  "FLAG_UPPERCASE = shl1 4"

definition FLAG_ALTERNATE :: u32 where
  "FLAG_ALTERNATE = shl1 5"

definition conv :: "char list" where
  "conv = ''0123456789abcdef@OVRPHLOW''"

text \<open>The loops write the least significant digit first.  A base below 2 does not occur.\<close>

function uitoa_loop :: "nat \<Rightarrow> nat \<Rightarrow> char list" where
  "uitoa_loop b n = conv ! (n mod b) # (if n div b > 0 \<and> b > 1 then uitoa_loop b (n div b) else [])"
  by pat_completeness auto
termination by (relation "measure snd") (auto simp: div_less_dividend div_greater_zero_iff)

declare uitoa_loop.simps [simp del]

definition UItoA32 :: "nat \<Rightarrow> u32 \<Rightarrow> char list" where
  "UItoA32 b w = uitoa_loop b (unat w) @ [CHR ''+'', NUL]"

text \<open>The most negative number has no negation; its digits are those of its successor, with a carry.\<close>

function itoa_loop :: "nat \<Rightarrow> nat \<Rightarrow> nat \<Rightarrow> bool \<Rightarrow> char list" where
  "itoa_loop b n carry first =
     (let d = (if first \<and> carry = 1 then conv ! ((n mod b + carry) mod b) else conv ! ((n + carry) mod b));
          c' = (if n mod b + carry \<ge> b then 1 else 0)
      in d # (if n div b > 0 \<and> b > 1 then itoa_loop b (n div b) c' False else []))"
  by pat_completeness auto
termination by (relation "measure (\<lambda>(b, n, c, f). n)") (auto simp: div_less_dividend div_greater_zero_iff)

declare itoa_loop.simps [simp del]

definition ItoA32 :: "nat \<Rightarrow> u32 \<Rightarrow> char list" where
  "ItoA32 b w =
     (let n = sint w;
          (n, carry, sign) =
            (if n < 0 then (if n = - (2 ^ 31) then (nat (- (n + 1)), 1, CHR ''-'') else (nat (- n), 0, CHR ''-''))
             else (nat n, 0, CHR ''+''))
      in itoa_loop b n carry True @ [sign, NUL])"

definition upper :: "char \<Rightarrow> char" where
  "upper c = (if 97 \<le> (of_char c :: nat) \<and> (of_char c :: nat) \<le> 122 then char_of (of_char c - 32 :: nat) else c)"

definition to_upper :: "u32 \<Rightarrow> char \<Rightarrow> char" where
  "to_upper flags c = (if (flags AND FLAG_UPPERCASE) \<noteq> 0 then upper c else c)"

definition PrintFormattedInteger :: "char list \<Rightarrow> nat \<Rightarrow> u32 \<Rightarrow> nat \<Rightarrow> char list option" where
  "PrintFormattedInteger buf b flags width = do {
     i \<leftarrow> StrLen buf;
     if i = 0 then None
     else do {
       let sign = buf ! (i - 1);
       let (len, signstr) =
         (if sign = CHR ''-'' then (i - 1 + 1, ''-'')
          else if (flags AND FLAG_SIGN) \<noteq> 0 then (i - 1 + 1, if sign = CHR ''+'' then ''+'' else ''-'')
          else (i - 1, ''''));
       let (len, annotatestr) =
         (if (flags AND FLAG_ALTERNATE) \<noteq> 0 then
            (if b = 16 then (len + 2, ''0x'') else if b = 8 then (len + 1, ''0'') else (len, ''''))
          else (len, ''''));
       let (zeropadding, forepadding, tailpadding) =
         (if len < width then
            (if (flags AND FLAG_ZERO) \<noteq> 0 then (width - len, 0, 0)
             else if (flags AND FLAG_LEFT) = 0 then (0, width - len, 0)
             else (0, 0, width - len))
          else (0, 0, 0));
       Some (replicate forepadding CHR '' '' @ signstr @ annotatestr @ replicate zeropadding CHR ''0''
         @ map (to_upper flags) (rev (take (i - 1) buf)) @ replicate tailpadding CHR '' '')
     }
   }"

section \<open>Formats\<close>

datatype va = Va_int u32 | Va_str "char list"

definition va_int :: "va list \<Rightarrow> (u32 \<times> va list) option" where
  "va_int ap = (case ap of Va_int w # ap \<Rightarrow> Some (w, ap) | _ \<Rightarrow> None)"

definition va_str :: "va list \<Rightarrow> (char list \<times> va list) option" where
  "va_str ap = (case ap of Va_str m # ap \<Rightarrow> Some (m, ap) | _ \<Rightarrow> None)"

text \<open>The flags of a conversion, from the character after the percent sign.\<close>

fun flags_loop :: "u32 \<Rightarrow> char list \<Rightarrow> (u32 \<times> char list) option" where
  "flags_loop flags [] = None"
| "flags_loop flags (c # cs) =
     (if c = CHR ''-'' then flags_loop (flags OR FLAG_LEFT) cs
      else if c = CHR ''+'' then flags_loop (flags OR FLAG_SIGN) cs
      else if c = CHR ''#'' then flags_loop (flags OR FLAG_ALTERNATE) cs
      else if c = CHR ''0'' then flags_loop (flags OR FLAG_ZERO) cs
      else Some (flags, c # cs))"

definition is_digit :: "char \<Rightarrow> bool" where
  "is_digit c \<longleftrightarrow> 48 \<le> (of_char c :: nat) \<and> (of_char c :: nat) \<le> 57"

fun width_loop :: "nat \<Rightarrow> char list \<Rightarrow> (nat \<times> char list) option" where
  "width_loop w [] = None"
| "width_loop w (c # cs) = (if is_digit c then width_loop (w * 10 + (of_char c - 48)) cs else Some (w, c # cs))"

definition get_width :: "char list \<Rightarrow> (nat \<times> char list) option" where
  "get_width cs = (case cs of [] \<Rightarrow> None | c # _ \<Rightarrow> if is_digit c then width_loop 0 cs else Some (1, cs))"

definition str_chars :: "char list \<Rightarrow> char list option" where
  "str_chars m = do { n \<leftarrow> StrLen m; Some (take n m) }"

text \<open>The conversion for the character \<open>c\<close>: the characters printed and the arguments left.\<close>

definition convert :: "char \<Rightarrow> u32 \<Rightarrow> nat \<Rightarrow> va list \<Rightarrow> (char list \<times> va list) option" where
  "convert c flags width ap =
     (let unsigned = (\<lambda>b flags. do { (w, ap) \<leftarrow> va_int ap; out \<leftarrow> PrintFormattedInteger (UItoA32 b w) b flags width; Some (out, ap) });
          signed = (\<lambda>b. do { (w, ap) \<leftarrow> va_int ap; out \<leftarrow> PrintFormattedInteger (ItoA32 b w) b flags width; Some (out, ap) })
      in if c = CHR ''%'' then Some (''%'', ap)
         else if c = CHR ''c'' then do {
           (w, ap) \<leftarrow> va_int ap;
           let ch = char_of (unat w mod 256);
           Some ([if ch = NUL then CHR ''#'' else ch], ap)
         }
         else if c = CHR ''s'' then do { (m, ap) \<leftarrow> va_str ap; out \<leftarrow> str_chars m; Some (out, ap) }
         else if c = CHR ''X'' then unsigned 16 (flags OR FLAG_UPPERCASE)
         else if c = CHR ''x'' then unsigned 16 flags
         else if c = CHR ''p'' then unsigned 16 flags
         else if c = CHR ''d'' then signed 10
         else if c = CHR ''i'' then signed 10
         else if c = CHR ''u'' then unsigned 10 flags
         else if c = CHR ''o'' then signed 8
         else Some ('''', ap))"

lemma flags_loop_length: "flags_loop flags cs = Some (f, ds) \<Longrightarrow> length ds \<le> length cs"
  by (induction flags cs rule: flags_loop.induct) (auto split: if_splits)

lemma width_loop_length: "width_loop w cs = Some (n, ds) \<Longrightarrow> length ds \<le> length cs"
  by (induction w cs rule: width_loop.induct) (auto split: if_splits)

lemma get_width_length: "get_width cs = Some (n, ds) \<Longrightarrow> length ds \<le> length cs"
  by (auto simp: get_width_def split: list.splits if_splits dest!: width_loop_length)

text \<open>
  A percent sign at the end of the format takes the terminating NUL for the conversion, and the loop
  continues behind it.
\<close>

function DoPrintf :: "char list \<Rightarrow> va list \<Rightarrow> char list option" where
  "DoPrintf [] ap = None"
| "DoPrintf (c # cs) ap =
     (if c = NUL then Some [NUL]
      else if c \<noteq> CHR ''%'' then map_option (Cons c) (DoPrintf cs ap)
      else case flags_loop 0 cs of
             None \<Rightarrow> None
           | Some (flags, cs1) \<Rightarrow>
               (case get_width cs1 of
                  None \<Rightarrow> None
                | Some (width, cs2) \<Rightarrow>
                    (case cs2 of
                       [] \<Rightarrow> None
                     | d # ds \<Rightarrow>
                         (case convert d flags width ap of
                            None \<Rightarrow> None
                          | Some (out, ap) \<Rightarrow> map_option (append out) (DoPrintf ds ap)))))"
  by pat_completeness auto
termination
  by (relation "measure (\<lambda>(cs, ap). length cs)") (auto dest!: flags_loop_length get_width_length)

section \<open>Printing into a buffer\<close>

text \<open>\<open>str\<close> is the memory from the start of the buffer on.\<close>

definition SnprintfPrintChar :: "nat \<Rightarrow> char \<Rightarrow> char list \<times> nat \<Rightarrow> (char list \<times> nat) option" where
  "SnprintfPrintChar sz ch sa =
     (let (s, pos) = sa
      in if pos < sz then do { s \<leftarrow> put_char pos ch s; Some (s, pos + 1) }
         else if pos = sz then do { s \<leftarrow> put_char sz NUL s; Some (s, pos + 1) }
         else Some (s, pos + 1))"

fun print_chars :: "nat \<Rightarrow> char list \<Rightarrow> char list \<times> nat \<Rightarrow> (char list \<times> nat) option" where
  "print_chars sz [] sa = Some sa"
| "print_chars sz (c # cs) sa = SnprintfPrintChar sz c sa \<bind> print_chars sz cs"

definition Snprintf :: "char list \<Rightarrow> nat \<Rightarrow> char list \<Rightarrow> va list \<Rightarrow> (char list \<times> int) option" where
  "Snprintf s sz format ap = do {
     out \<leftarrow> DoPrintf format ap;
     (s, pos) \<leftarrow> print_chars sz out (s, 0);
     Some (s, int pos - 1)
   }"

definition Vsnprintf :: "char list \<Rightarrow> nat \<Rightarrow> char list \<Rightarrow> va list \<Rightarrow> (char list \<times> int) option" where
  "Vsnprintf s sz format ap = do {
     out \<leftarrow> DoPrintf format ap;
     (s, pos) \<leftarrow> print_chars sz out (s, 0);
     Some (s, int pos - 1)
   }"

section \<open>Reading numbers\<close>

text \<open>The specification: the number that a string of digits stands for, in either case.\<close>

definition digit_val :: "char \<Rightarrow> nat" where
  "digit_val c = (let n = of_char c in if n \<le> 57 then n - 48 else if n \<ge> 97 then n - 87 else n - 55)"

definition read_nat :: "nat \<Rightarrow> char list \<Rightarrow> nat" where
  "read_nat b ds = foldl (\<lambda>a c. a * b + digit_val c) 0 ds"

definition read_int :: "nat \<Rightarrow> char list \<Rightarrow> int" where
  "read_int b cs =
     (let cs = takeWhile (\<lambda>c. c \<noteq> CHR '' '') (dropWhile (\<lambda>c. c = CHR '' '') cs)
      in case cs of
           [] \<Rightarrow> 0
         | c # ds \<Rightarrow>
             if c = CHR ''-'' then - int (read_nat b ds)
             else if c = CHR ''+'' then int (read_nat b ds)
             else int (read_nat b cs))"

fun val_lsd :: "nat \<Rightarrow> char list \<Rightarrow> nat" where
  "val_lsd b [] = 0"
| "val_lsd b (c # cs) = digit_val c + b * val_lsd b cs"

lemma read_nat_rev: "read_nat b (rev cs) = val_lsd b cs"
  by (induction cs) (auto simp: read_nat_def)

lemma read_nat_zeros: "read_nat b (replicate k CHR ''0'' @ ds) = read_nat b ds"
proof -
  have "foldl (\<lambda>a c. a * b + digit_val c) 0 (replicate k CHR ''0'') = 0"
    by (induction k) (auto simp: digit_val_def)
  then show ?thesis by (simp add: read_nat_def)
qed

text \<open>The characters that the loops produce.\<close>

definition digits :: "char list \<Rightarrow> bool" where
  "digits cs \<longleftrightarrow> (\<forall>c \<in> set cs. \<exists>d < 16. c = conv ! d)"

lemma conv_list: "take 16 conv = ''0123456789abcdef''"
  by (simp add: conv_def)

lemma conv_table:
  "\<forall>c \<in> set ''0123456789abcdef''. c \<noteq> NUL \<and> c \<notin> {CHR '' '', CHR ''+'', CHR ''-''} \<and> upper c \<notin> {CHR '' '', CHR ''+'', CHR ''-''} \<and> digit_val (upper c) = digit_val c"
  by (simp add: upper_def digit_val_def char_of_eq_iff)

lemma conv_index: "map digit_val ''0123456789abcdef'' = [0..<16]"
  by (simp add: digit_val_def) (simp add: upt_rec eval_nat_numeral)

lemma to_upper_cases: "to_upper flags c \<in> {c, upper c}"
  by (simp add: to_upper_def)

lemma conv_digit:
  assumes "d < 16"
  shows "digit_val (conv ! d) = d" "digit_val (to_upper flags (conv ! d)) = d" "conv ! d \<noteq> NUL"
    "to_upper flags (conv ! d) \<notin> {CHR '' '', CHR ''+'', CHR ''-''}"
proof -
  have c: "conv ! d = ''0123456789abcdef'' ! d" using assms nth_take [of d 16 conv] conv_list by simp
  have "conv ! d \<in> set ''0123456789abcdef''" unfolding c using assms by (intro nth_mem) simp
  note T = bspec [OF conv_table this]
  have "map digit_val ''0123456789abcdef'' ! d = [0..<16] ! d" using conv_index by simp
  then show v: "digit_val (conv ! d) = d" unfolding c using assms by (subst (asm) nth_map) simp_all
  show "digit_val (to_upper flags (conv ! d)) = d" "conv ! d \<noteq> NUL" "to_upper flags (conv ! d) \<notin> {CHR '' '', CHR ''+'', CHR ''-''}"
    using T v to_upper_cases [of flags "conv ! d"] by auto
qed

lemma digits_upper:
  assumes "digits cs"
  shows "val_lsd b (map (to_upper flags) cs) = val_lsd b cs" "NUL \<notin> set cs"
    "set (map (to_upper flags) cs) \<inter> {CHR '' '', CHR ''+'', CHR ''-''} = {}"
proof -
  have c: "digit_val (to_upper flags c) = digit_val c \<and> c \<noteq> NUL \<and> to_upper flags c \<notin> {CHR '' '', CHR ''+'', CHR ''-''}"
    if "c \<in> set cs" for c
    using assms that conv_digit(1,3) conv_digit(2,4) [where flags = flags] unfolding digits_def by metis
  then show "NUL \<notin> set cs" by blast
  show "set (map (to_upper flags) cs) \<inter> {CHR '' '', CHR ''+'', CHR ''-''} = {}" using c by (simp only: set_map) blast
  show "val_lsd b (map (to_upper flags) cs) = val_lsd b cs" using c by (induction cs) auto
qed

lemma uitoa_loop_digits:
  assumes "1 < b" "b \<le> 16"
  shows "digits (uitoa_loop b n) \<and> val_lsd b (uitoa_loop b n) = n \<and> uitoa_loop b n \<noteq> []"
proof (induction n rule: less_induct)
  case (less n)
  have m: "n mod b < 16" using assms by (meson less_le_trans mod_less_divisor zero_less_one less_trans)
  show ?case
  proof (cases "n div b > 0")
    case True
    then have "n div b < n" using assms(1) by (simp add: div_greater_zero_iff)
    from less [OF this] True m show ?thesis
      using assms(1) by (auto simp: uitoa_loop.simps [of b n] digits_def conv_digit)
  next
    case False
    then show ?thesis using m assms(1)
      by (auto simp: uitoa_loop.simps [of b n] digits_def conv_digit div_eq_0_iff)
  qed
qed

lemma itoa_loop_no_carry: "itoa_loop b n 0 first = uitoa_loop b n"
proof (induction n arbitrary: first rule: less_induct)
  case (less n)
  show ?case
  proof (cases "n div b > 0 \<and> b > 1")
    case True
    then have "n div b < n" "\<not> b \<le> n mod b" by (auto simp: div_greater_zero_iff not_le)
    with less [OF this(1), of False] True show ?thesis
      by (auto simp: uitoa_loop.simps [of b n] itoa_loop.simps [of b n] Let_def)
  next
    case False
    then show ?thesis by (auto simp: uitoa_loop.simps [of b n] itoa_loop.simps [of b n] Let_def)
  qed
qed

text \<open>The digits of the most negative number, in the bases of the conversions.\<close>

lemma itoa_loop_chars:
  assumes "1 < b" "b \<le> 16"
  shows "digits (itoa_loop b n c f) \<and> itoa_loop b n c f \<noteq> []"
proof (induction n arbitrary: c f rule: less_induct)
  case (less n)
  have m: "x mod b < 16" for x using assms by (meson less_le_trans mod_less_divisor zero_less_one less_trans)
  obtain x c' where x: "itoa_loop b n c f = conv ! (x mod b) # (if n div b > 0 \<and> b > 1 then itoa_loop b (n div b) c' False else [])"
    by (rule that [of "if f \<and> c = 1 then n mod b + c else n + c" "if n mod b + c \<ge> b then 1 else 0"])
      (simp add: itoa_loop.simps [of b n c] Let_def)
  show ?case
  proof (cases "n div b > 0")
    case True
    then have "n div b < n" using assms(1) by (simp add: div_greater_zero_iff)
    from x less [OF this] m [of x] show ?thesis by (auto simp: digits_def)
  next
    case False
    then show ?thesis using x m [of x] by (auto simp: digits_def)
  qed
qed

text \<open>With a carry the digits are those of the successor, unless that is a power of the base.\<close>

lemma itoa_loop_carry:
  assumes "1 < b" "b \<le> 16" "\<forall>k. n + 1 \<noteq> b ^ k"
  shows "val_lsd b (itoa_loop b n 1 f) = n + 1"
  using assms(3)
proof (induction n arbitrary: f rule: less_induct)
  case (less n)
  let ?q = "n div b" and ?r = "n mod b"
  have n: "n = b * ?q + ?r" "?r < b" using assms(1) by simp_all
  have head: "itoa_loop b n 1 f =
    conv ! ((?r + 1) mod b) # (if ?q > 0 then itoa_loop b ?q (if ?r + 1 \<ge> b then 1 else 0) False else [])"
    using assms(1) by (simp add: itoa_loop.simps [of b n] Let_def mod_Suc_eq)
  show ?case
  proof (cases "?r + 1 \<ge> b")
    case False
    then have "val_lsd b (itoa_loop b n 1 f) = ?r + 1 + b * (if ?q > 0 then ?q else 0)"
      unfolding head using assms(1,2) conv_digit(1) [of "?r + 1"] uitoa_loop_digits [OF assms(1,2), of ?q] by (simp add: itoa_loop_no_carry)
    moreover have "b * (if ?q > 0 then ?q else 0) = b * ?q" by simp
    ultimately show ?thesis using n(1) by linarith
  next
    case True
    then have r: "?r + 1 = b" using n(2) by simp
    have s: "n + 1 = b * (?q + 1)" using n(1) r by (metis add.assoc distrib_left mult.right_neutral)
    have q: "?q > 0" using s less.prems [rule_format, of 1] by (cases "?q > 0") auto
    have "\<forall>k. ?q + 1 \<noteq> b ^ k" using less.prems s by (metis power_Suc)
    moreover have "?q < n" using q assms(1) by (simp add: div_greater_zero_iff)
    ultimately have "val_lsd b (itoa_loop b ?q 1 False) = ?q + 1" using less.IH by blast
    then show ?thesis unfolding head using True q s r conv_digit(1) [of 0] by simp
  qed
qed

lemma itoa_loop_min:
  assumes "b \<in> {8, 10, 16}"
  shows "digits (itoa_loop b 2147483647 1 True) \<and> val_lsd b (itoa_loop b 2147483647 1 True) = 2147483648 \<and> itoa_loop b 2147483647 1 True \<noteq> []"
proof -
  have "2147483648 \<noteq> b ^ k" for k
  proof
    assume k: "2147483648 = b ^ k"
    consider "b = 2 ^ 3" | "b = 10" | "b = 2 ^ 4" using assms by auto
    then show False
    proof cases
      case 1
      then have "(2 :: nat) ^ (3 * k) = 2 ^ 31" using k by (simp add: power_mult)
      then show False by (subst (asm) power_inject_exp) presburger+
    next
      case 2
      show False
      proof (cases k)
        case 0
        then show False using k by simp
      next
        case (Suc m)
        then obtain x :: nat where "2147483648 = 10 * x" using k 2 by auto
        then show False by presburger
      qed
    next
      case 3
      then have "(2 :: nat) ^ (4 * k) = 2 ^ 31" using k by (simp add: power_mult)
      then show False by (subst (asm) power_inject_exp) presburger+
    qed
  qed
  then have "val_lsd b (itoa_loop b 2147483647 1 True) = 2147483648"
    using itoa_loop_carry [of b 2147483647 True] assms by auto
  then show ?thesis using itoa_loop_chars [of b 2147483647 1 True] assms by auto
qed

lemma ItoA32_digits:
  assumes "b \<in> {8, 10, 16}"
  obtains ds where "ItoA32 b w = str (ds @ [if sint w < 0 then CHR ''-'' else CHR ''+'']) []" "digits ds" "ds \<noteq> []"
    "int (val_lsd b ds) = \<bar>sint w\<bar>"
proof -
  have b: "1 < b" "b \<le> 16" using assms by auto
  consider "sint w = - (2 ^ 31)" | "sint w < 0" "sint w \<noteq> - (2 ^ 31)" | "sint w \<ge> 0" by linarith
  then show ?thesis
  proof cases
    case 1
    then show ?thesis using itoa_loop_min [OF assms] by (intro that [of "itoa_loop b 2147483647 1 True"]) (simp_all add: ItoA32_def str_def)
  next
    case 2
    then show ?thesis using uitoa_loop_digits [OF b, of "nat (- sint w)"]
      by (intro that [of "uitoa_loop b (nat (- sint w))"]) (simp_all add: ItoA32_def str_def itoa_loop_no_carry)
  next
    case 3
    then show ?thesis using uitoa_loop_digits [OF b, of "nat (sint w)"]
      by (intro that [of "uitoa_loop b (nat (sint w))"]) (simp_all add: ItoA32_def str_def itoa_loop_no_carry)
  qed
qed

lemma UItoA32_digits:
  assumes "b \<in> {8, 10, 16}"
  obtains ds where "UItoA32 b w = str (ds @ [CHR ''+'']) []" "digits ds" "ds \<noteq> []" "val_lsd b ds = unat w"
  using uitoa_loop_digits [of b "unat w"] assms by (intro that [of "uitoa_loop b (unat w)"]) (auto simp: UItoA32_def str_def)

text \<open>What is printed: padding, a sign, zeros and the digits.\<close>

lemma PrintFormattedInteger_str:
  assumes "digits ds" "(flags AND FLAG_ALTERNATE) = 0" "sg \<in> {CHR ''+'', CHR ''-''}"
  shows "\<exists>i j k pre. PrintFormattedInteger (str (ds @ [sg]) []) b flags width =
      Some (replicate i CHR '' '' @ pre @ replicate j CHR ''0'' @ map (to_upper flags) (rev ds) @ replicate k CHR '' '')
    \<and> pre \<in> {'''', ''+'', ''-''} \<and> (pre = ''-'' \<longleftrightarrow> sg = CHR ''-'')
    \<and> i + length pre + j + length ds + k = max width (length pre + length ds)"
proof -
  have n: "StrLen (str (ds @ [sg]) []) = Some (Suc (length ds))"
    using digits_upper(2) [OF assms(1)] assms(3) by (subst StrLen_str) auto
  have s: "str (ds @ [sg]) [] ! length ds = sg" "take (length ds) (str (ds @ [sg]) []) = ds" by (simp_all add: str_def nth_append)
  let ?pre = "if sg = CHR ''-'' then ''-'' else if (flags AND FLAG_SIGN) \<noteq> 0 then ''+'' else ''''"
  let ?w = "width - (length ?pre + length ds)"
  let ?z = "(flags AND FLAG_ZERO) \<noteq> 0" and ?l = "(flags AND FLAG_LEFT) = 0"
  show ?thesis
  proof (intro exI conjI)
    show "PrintFormattedInteger (str (ds @ [sg]) []) b flags width =
      Some (replicate (if ?z then 0 else if ?l then ?w else 0) CHR '' '' @ ?pre @ replicate (if ?z then ?w else 0) CHR ''0''
        @ map (to_upper flags) (rev ds) @ replicate (if ?z \<or> ?l then 0 else ?w) CHR '' '')"
      using assms(2,3) by (auto simp: PrintFormattedInteger_def n s Let_def)
  qed auto
qed

text \<open>Reading back a padded number.\<close>

lemma dropWhile_pad: "dropWhile (\<lambda>c. c = x) (replicate i x @ cs) = dropWhile (\<lambda>c. c = x) cs"
  by (induction i) auto

lemma takeWhile_pad: "x \<notin> set cs \<Longrightarrow> takeWhile (\<lambda>c. c \<noteq> x) (cs @ replicate k x) = cs"
  by (induction cs) (cases k, auto)

lemma read_int_padded:
  assumes ds: "digits ds" "ds \<noteq> []" and pre: "pre \<in> {'''', ''+'', ''-''}"
  shows "read_int b (replicate i CHR '' '' @ pre @ replicate j CHR ''0'' @ map (to_upper flags) (rev ds) @ replicate k CHR '' '') =
    (if pre = ''-'' then - int (val_lsd b ds) else int (val_lsd b ds))"
proof -
  let ?ds = "replicate j CHR ''0'' @ map (to_upper flags) (rev ds)"
  have u: "set ?ds \<inter> {CHR '' '', CHR ''+'', CHR ''-''} = {}" "?ds \<noteq> []"
    using digits_upper(3) [OF ds(1), of flags] ds(2) by auto
  have "read_nat b ?ds = val_lsd b (map (to_upper flags) ds)"
    unfolding read_nat_zeros using read_nat_rev [of b "map (to_upper flags) ds"] by (simp add: rev_map)
  then have v: "read_nat b ?ds = val_lsd b ds" using digits_upper(1) [OF ds(1)] by simp
  have sp: "CHR '' '' \<notin> set (pre @ ?ds)" using u pre by auto
  obtain c cs where c: "pre @ ?ds = c # cs" using u(2) by (cases "pre @ ?ds") auto
  have "dropWhile (\<lambda>c. c = CHR '' '') (replicate i CHR '' '' @ (pre @ ?ds) @ replicate k CHR '' '') = (pre @ ?ds) @ replicate k CHR '' ''"
    unfolding dropWhile_pad using sp c by auto
  then have t: "takeWhile (\<lambda>c. c \<noteq> CHR '' '') (dropWhile (\<lambda>c. c = CHR '' '') (replicate i CHR '' '' @ (pre @ ?ds) @ replicate k CHR '' '')) = pre @ ?ds"
    using takeWhile_pad [OF sp, of k] by simp
  have "read_int b (replicate i CHR '' '' @ (pre @ ?ds) @ replicate k CHR '' '') = (if pre = ''-'' then - int (read_nat b ?ds) else int (read_nat b ?ds))"
  proof (cases "pre = ''''")
    case True
    then have "c \<in> set ?ds" using c by (metis append_Nil list.set_intros(1))
    then have "c \<noteq> CHR ''+''" "c \<noteq> CHR ''-''" using u(1) by auto
    then show ?thesis unfolding read_int_def t Let_def using True c by simp
  next
    case False
    then show ?thesis unfolding read_int_def t Let_def using pre by (elim insertE emptyE) simp_all
  qed
  then show ?thesis using v by simp
qed

section \<open>Properties\<close>

definition base_of :: "char \<Rightarrow> nat" where
  "base_of c = (if c \<in> {CHR ''d'', CHR ''i'', CHR ''u''} then 10 else if c = CHR ''o'' then 8 else 16)"

definition value_of :: "char \<Rightarrow> u32 \<Rightarrow> int" where
  "value_of c w = (if c \<in> {CHR ''d'', CHR ''i'', CHR ''o''} then sint w else uint w)"

lemma print_signed:
  assumes "b \<in> {8, 10, 16}" "(flags AND FLAG_ALTERNATE) = 0"
  shows "\<exists>out. PrintFormattedInteger (ItoA32 b w) b flags width = Some out \<and> width \<le> length out \<and> read_int b out = sint w"
proof -
  let ?sg = "if sint w < 0 then CHR ''-'' else CHR ''+''"
  have sg: "?sg \<in> {CHR ''+'', CHR ''-''}" by simp
  obtain ds where ds: "ItoA32 b w = str (ds @ [?sg]) []" "digits ds" "ds \<noteq> []" "int (val_lsd b ds) = \<bar>sint w\<bar>"
    using ItoA32_digits [OF assms(1)] by blast
  obtain i j k pre where p: "PrintFormattedInteger (str (ds @ [?sg]) []) b flags width =
      Some (replicate i CHR '' '' @ pre @ replicate j CHR ''0'' @ map (to_upper flags) (rev ds) @ replicate k CHR '' '')"
    "pre \<in> {'''', ''+'', ''-''}" "pre = ''-'' \<longleftrightarrow> ?sg = CHR ''-''" "i + length pre + j + length ds + k = max width (length pre + length ds)"
    using PrintFormattedInteger_str [OF ds(2) assms(2) sg, of b width] by blast
  let ?out = "replicate i CHR '' '' @ pre @ replicate j CHR ''0'' @ map (to_upper flags) (rev ds) @ replicate k CHR '' ''"
  have "read_int b ?out = sint w" using read_int_padded [OF ds(2,3) p(2), of b i j flags k] p(3) ds(4) by (simp split: if_splits)
  moreover have "width \<le> length ?out" using p(4) by simp
  ultimately show ?thesis using p(1) ds(1) by (intro exI [of _ ?out]) simp
qed

lemma print_unsigned:
  assumes "b \<in> {8, 10, 16}" "(flags AND FLAG_ALTERNATE) = 0"
  shows "\<exists>out. PrintFormattedInteger (UItoA32 b w) b flags width = Some out \<and> width \<le> length out \<and> read_int b out = uint w"
proof -
  obtain ds where ds: "UItoA32 b w = str (ds @ [CHR ''+'']) []" "digits ds" "ds \<noteq> []" "val_lsd b ds = unat w"
    using UItoA32_digits [OF assms(1)] by blast
  obtain i j k pre where p: "PrintFormattedInteger (str (ds @ [CHR ''+'']) []) b flags width =
      Some (replicate i CHR '' '' @ pre @ replicate j CHR ''0'' @ map (to_upper flags) (rev ds) @ replicate k CHR '' '')"
    "pre \<in> {'''', ''+'', ''-''}" "pre \<noteq> ''-''" "i + length pre + j + length ds + k = max width (length pre + length ds)"
    using PrintFormattedInteger_str [OF ds(2) assms(2), of "CHR ''+''" b width] by auto
  let ?out = "replicate i CHR '' '' @ pre @ replicate j CHR ''0'' @ map (to_upper flags) (rev ds) @ replicate k CHR '' ''"
  have "read_int b ?out = uint w" using read_int_padded [OF ds(2,3) p(2), of b i j flags k] p(3) ds(4) by simp
  moreover have "width \<le> length ?out" using p(4) by simp
  ultimately show ?thesis using p(1) ds(1) by (intro exI [of _ ?out]) simp
qed



lemma print_chars_fit:
  "pos + length out \<le> length s \<Longrightarrow> length s = sz \<Longrightarrow>
   print_chars sz out (s, pos) = Some (take pos s @ out @ drop (pos + length out) s, pos + length out)"
proof (induction out arbitrary: s pos)
  case Nil
  then show ?case by simp
next
  case (Cons c out)
  then have "take (Suc pos) (s[pos := c]) = take pos s @ [c]" by (simp add: take_Suc_conv_app_nth)
  then show ?case using Cons by (simp add: SnprintfPrintChar_def put_char_def)
qed

lemma print_chars_over:
  "pos \<le> length s \<Longrightarrow> length s = sz \<Longrightarrow> sz < pos + length out \<Longrightarrow> print_chars sz out (s, pos) = None"
proof (induction out arbitrary: s pos)
  case Nil
  then show ?case by simp
next
  case (Cons c out)
  then show ?case using Cons.IH [of "Suc pos" "s[pos := c]"] by (cases "pos < sz") (auto simp: SnprintfPrintChar_def put_char_def)
qed



end
