(* ===== verification/Kernel_Lists.thy ===== *)
theory Kernel_Lists
  imports Cheviot_Prelude
begin

text \<open>
  The intrusive linked lists of \<^verbatim>\<open>kernel/h/kernel/lists.h\<close>, at the level of their pointers.  A
  header holds the head and tail pointers, and every node holds its link fields; the link fields
  of all nodes are the maps \<open>lnext\<close> and \<open>lprev\<close>.  Each macro is a function on the links and the
  header; a macro that dereferences NULL has the result \<open>None\<close>.  The lemmas show that the \<open>LIST\<close>,
  \<open>QUEUE\<close> and \<open>CIRCLEQ\<close> macros implement operations on HOL lists (append, tail, \<open>remove1\<close>,
  rotation) and leave every other list with disjoint nodes alone.  The other theories of the
  development use these abstract operations for the lists of the kernel.
\<close>

section \<open>Links and headers\<close>

record 'a links =
  lnext :: "'a \<Rightarrow> 'a option"
  lprev :: "'a \<Rightarrow> 'a option"

record 'a header =
  head :: "'a option"
  tail :: "'a option"

type_synonym 'a lstate = "'a links \<times> 'a header"

definition set_next :: "'a \<Rightarrow> 'a option \<Rightarrow> 'a links \<Rightarrow> 'a links" where
  "set_next x v h = h\<lparr>lnext := (lnext h)(x := v)\<rparr>"

definition set_prev :: "'a \<Rightarrow> 'a option \<Rightarrow> 'a links \<Rightarrow> 'a links" where
  "set_prev x v h = h\<lparr>lprev := (lprev h)(x := v)\<rparr>"

lemma set_next_sel [simp]:
  "lnext (set_next x v h) = (lnext h)(x := v)"
  "lprev (set_next x v h) = lprev h"
  by (simp_all add: set_next_def)

lemma set_prev_sel [simp]:
  "lprev (set_prev x v h) = (lprev h)(x := v)"
  "lnext (set_prev x v h) = lnext h"
  by (simp_all add: set_prev_def)

lemma set_next_prev_commute: "set_prev y w (set_next x v h) = set_next x v (set_prev y w h)"
  by (simp add: set_next_def set_prev_def)

section \<open>The doubly linked list with head and tail: LIST\<close>

definition LIST_INIT :: "'a lstate \<Rightarrow> 'a lstate" where
  "LIST_INIT = (\<lambda>(h, l). (h, l\<lparr>head := None, tail := None\<rparr>))"

definition LIST_CONCAT :: "'a lstate \<Rightarrow> 'a header \<Rightarrow> 'a lstate option" where
  "LIST_CONCAT = (\<lambda>(h, dest) src.
     (case head src of
        None \<Rightarrow> Some (h, dest)
      | Some s \<Rightarrow>
          (case head dest of
             Some _ \<Rightarrow>
               (case tail dest of
                  None \<Rightarrow> None
                | Some t \<Rightarrow>
                    (let h = set_next t (head src) h; h = set_prev s (tail dest) h
                     in Some (h, dest\<lparr>tail := tail src\<rparr>)))
           | None \<Rightarrow>
               Some (set_prev s None h, dest\<lparr>head := head src, tail := tail src\<rparr>))))"

definition LIST_EMPTY :: "'a lstate \<Rightarrow> bool" where
  "LIST_EMPTY = (\<lambda>(h, l). head l = None)"

definition LIST_HEAD :: "'a lstate \<Rightarrow> 'a option" where
  "LIST_HEAD = (\<lambda>(h, l). head l)"

definition LIST_TAIL :: "'a lstate \<Rightarrow> 'a option" where
  "LIST_TAIL = (\<lambda>(h, l). tail l)"

definition LIST_NEXT :: "'a lstate \<Rightarrow> 'a \<Rightarrow> 'a option" where
  "LIST_NEXT = (\<lambda>(h, l) x. lnext h x)"

definition LIST_PREV :: "'a lstate \<Rightarrow> 'a \<Rightarrow> 'a option" where
  "LIST_PREV = (\<lambda>(h, l) x. lprev h x)"

definition LIST_ADD_HEAD :: "'a \<Rightarrow> 'a lstate \<Rightarrow> 'a lstate" where
  "LIST_ADD_HEAD x = (\<lambda>(h, l).
     (let h = set_next x (head l) h;
          h = set_prev x None h
      in (case head l of
            Some y \<Rightarrow> (set_prev y (Some x) h, l\<lparr>head := Some x\<rparr>)
          | None \<Rightarrow> (h, l\<lparr>tail := Some x, head := Some x\<rparr>))))"

definition LIST_ADD_TAIL :: "'a \<Rightarrow> 'a lstate \<Rightarrow> 'a lstate" where
  "LIST_ADD_TAIL x = (\<lambda>(h, l).
     (let h = set_next x None h;
          h = set_prev x (tail l) h
      in (case tail l of
            Some y \<Rightarrow> (set_next y (Some x) h, l\<lparr>tail := Some x\<rparr>)
          | None \<Rightarrow> (h, l\<lparr>head := Some x, tail := Some x\<rparr>))))"

definition LIST_REM_HEAD :: "'a lstate \<Rightarrow> 'a lstate option" where
  "LIST_REM_HEAD = (\<lambda>(h, l).
     (case head l of
        None \<Rightarrow> None
      | Some x \<Rightarrow>
          (case lnext h x of
             Some y \<Rightarrow> Some (set_prev y None h, l\<lparr>head := Some y\<rparr>)
           | None \<Rightarrow> Some (h, l\<lparr>head := None, tail := None\<rparr>))))"

definition LIST_REM_TAIL :: "'a lstate \<Rightarrow> 'a lstate option" where
  "LIST_REM_TAIL = (\<lambda>(h, l).
     (case tail l of
        None \<Rightarrow> None
      | Some x \<Rightarrow>
          (case lprev h x of
             Some y \<Rightarrow> Some (set_next y None h, l\<lparr>tail := Some y\<rparr>)
           | None \<Rightarrow> Some (h, l\<lparr>tail := None, head := None\<rparr>))))"

definition LIST_INSERT_AFTER :: "'a \<Rightarrow> 'a \<Rightarrow> 'a lstate \<Rightarrow> 'a lstate" where
  "LIST_INSERT_AFTER p x = (\<lambda>(h, l).
     (let h = set_next x (lnext h p) h;
          h = set_prev x (Some p) h;
          h = set_next p (Some x) h
      in (case lnext h x of
            Some y \<Rightarrow> (set_prev y (Some x) h, l)
          | None \<Rightarrow> (h, l\<lparr>tail := Some x\<rparr>))))"

definition LIST_INSERT_BEFORE :: "'a \<Rightarrow> 'a \<Rightarrow> 'a lstate \<Rightarrow> 'a lstate" where
  "LIST_INSERT_BEFORE n x = (\<lambda>(h, l).
     (let h = set_prev x (lprev h n) h;
          h = set_next x (Some n) h;
          h = set_prev n (Some x) h
      in (case lprev h x of
            Some y \<Rightarrow> (set_next y (Some x) h, l)
          | None \<Rightarrow> (h, l\<lparr>head := Some x\<rparr>))))"

definition LIST_REM_ENTRY :: "'a \<Rightarrow> 'a lstate \<Rightarrow> 'a lstate" where
  "LIST_REM_ENTRY x = (\<lambda>(h, l).
     (let (h, l) = (case lprev h x of
                      Some p \<Rightarrow> (set_next p (lnext h x) h, l)
                    | None \<Rightarrow> (h, l\<lparr>head := lnext h x\<rparr>))
      in (case lnext h x of
            Some n \<Rightarrow> (set_prev n (lprev h x) h, l)
          | None \<Rightarrow> (h, l\<lparr>tail := lprev h x\<rparr>))))"

section \<open>Singly linked queue with head and tail: QUEUE\<close>

definition QUEUE_INIT :: "'a lstate \<Rightarrow> 'a lstate" where
  "QUEUE_INIT = (\<lambda>(h, q). (h, q\<lparr>head := None, tail := None\<rparr>))"

definition QUEUE_EMPTY :: "'a lstate \<Rightarrow> bool" where
  "QUEUE_EMPTY = (\<lambda>(h, q). head q = None)"

definition QUEUE_HEAD :: "'a lstate \<Rightarrow> 'a option" where
  "QUEUE_HEAD = (\<lambda>(h, q). head q)"

definition QUEUE_ADD_TAIL :: "'a \<Rightarrow> 'a lstate \<Rightarrow> 'a lstate" where
  "QUEUE_ADD_TAIL x = (\<lambda>(h, q).
     (let h = set_next x None h
      in (case tail q of
            Some y \<Rightarrow> (set_next y (Some x) h, q\<lparr>tail := Some x\<rparr>)
          | None \<Rightarrow> (h, q\<lparr>head := Some x, tail := Some x\<rparr>))))"

definition QUEUE_REM_HEAD :: "'a lstate \<Rightarrow> 'a lstate option" where
  "QUEUE_REM_HEAD = (\<lambda>(h, q).
     (case head q of
        None \<Rightarrow> None
      | Some x \<Rightarrow>
          (case lnext h x of
             None \<Rightarrow> Some (h, q\<lparr>head := None, tail := None\<rparr>)
           | Some y \<Rightarrow> Some (h, q\<lparr>head := Some y\<rparr>))))"

section \<open>Circular queue with a head: CIRCLEQ\<close>

text \<open>The header of a circular queue has a head pointer only; \<open>tail\<close> is not used.\<close>

definition CIRCLEQ_INIT :: "'a lstate \<Rightarrow> 'a lstate" where
  "CIRCLEQ_INIT = (\<lambda>(h, c). (h, c\<lparr>head := None\<rparr>))"

definition CIRCLEQ_EMPTY :: "'a lstate \<Rightarrow> bool" where
  "CIRCLEQ_EMPTY = (\<lambda>(h, c). head c = None)"

definition CIRCLEQ_HEAD :: "'a lstate \<Rightarrow> 'a option" where
  "CIRCLEQ_HEAD = (\<lambda>(h, c). head c)"

definition CIRCLEQ_TAIL :: "'a lstate \<Rightarrow> 'a option" where
  "CIRCLEQ_TAIL = (\<lambda>(h, c). (case head c of Some x \<Rightarrow> lprev h x | None \<Rightarrow> None))"

definition CIRCLEQ_FORWARD :: "'a lstate \<Rightarrow> 'a lstate option" where
  "CIRCLEQ_FORWARD = (\<lambda>(h, c).
     (case head c of None \<Rightarrow> None | Some x \<Rightarrow> Some (h, c\<lparr>head := lnext h x\<rparr>)))"

definition CIRCLEQ_REVERSE :: "'a lstate \<Rightarrow> 'a lstate" where
  "CIRCLEQ_REVERSE = (\<lambda>(h, c).
     (case head c of None \<Rightarrow> (h, c) | Some x \<Rightarrow> (h, c\<lparr>head := lnext h x\<rparr>)))"

definition CIRCLEQ_ADD_HEAD :: "'a \<Rightarrow> 'a lstate \<Rightarrow> 'a lstate option" where
  "CIRCLEQ_ADD_HEAD x = (\<lambda>(h, c).
     (case head c of
        Some y \<Rightarrow>
          (let h = set_next x (Some y) h;
               h = set_prev x (lprev h y) h;
               h = set_prev y (Some x) h
           in (case lprev h x of
                 None \<Rightarrow> None
               | Some z \<Rightarrow> Some (set_next z (Some x) h, c\<lparr>head := Some x\<rparr>)))
      | None \<Rightarrow>
          (let h = set_next x (Some x) h; h = set_prev x (Some x) h
           in Some (h, c\<lparr>head := Some x\<rparr>))))"

definition CIRCLEQ_ADD_TAIL :: "'a \<Rightarrow> 'a lstate \<Rightarrow> 'a lstate option" where
  "CIRCLEQ_ADD_TAIL x = (\<lambda>(h, c).
     (case head c of
        Some y \<Rightarrow>
          (let h = set_next x (Some y) h;
               h = set_prev x (lprev h y) h
           in (case lnext h x of
                 None \<Rightarrow> None
               | Some n \<Rightarrow>
                   (let h = set_prev n (Some x) h
                    in (case lprev h x of
                          None \<Rightarrow> None
                        | Some z \<Rightarrow> Some (set_next z (Some x) h, c)))))
      | None \<Rightarrow>
          (let h = set_next x (Some x) h; h = set_prev x (Some x) h
           in Some (h, c\<lparr>head := Some x\<rparr>))))"

definition CIRCLEQ_REM_ENTRY :: "'a \<Rightarrow> 'a lstate \<Rightarrow> 'a lstate option" where
  "CIRCLEQ_REM_ENTRY x = (\<lambda>(h, c).
     (if lnext h x \<noteq> Some x then
        (case lnext h x of
           None \<Rightarrow> None
         | Some n \<Rightarrow>
             (let h = set_prev n (lprev h x) h
              in (case lprev h x of
                    None \<Rightarrow> None
                  | Some p \<Rightarrow>
                      (let h = set_next p (lnext h x) h
                       in Some (h, if head c = Some x then c\<lparr>head := lnext h x\<rparr> else c)))))
      else Some (h, c\<lparr>head := None\<rparr>)))"

definition CIRCLEQ_REM_HEAD :: "'a lstate \<Rightarrow> 'a lstate option" where
  "CIRCLEQ_REM_HEAD = (\<lambda>(h, c).
     (case head c of
        None \<Rightarrow> None
      | Some x \<Rightarrow>
          (if lnext h x \<noteq> Some x then
             (case lnext h x of
                None \<Rightarrow> None
              | Some n \<Rightarrow>
                  (let h = set_prev n (lprev h x) h
                   in (case lprev h x of
                         None \<Rightarrow> None
                       | Some p \<Rightarrow>
                           (let h = set_next p (lnext h x) h
                            in Some (h, c\<lparr>head := lnext h x\<rparr>)))))
           else Some (h, c\<lparr>head := None\<rparr>))))"

definition CIRCLEQ_REM_TAIL :: "'a lstate \<Rightarrow> 'a lstate option" where
  "CIRCLEQ_REM_TAIL = (\<lambda>(h, c).
     (case head c of
        None \<Rightarrow> None
      | Some x \<Rightarrow>
          (if lnext h x \<noteq> Some x then
             (case lprev h x of
                None \<Rightarrow> None
              | Some t \<Rightarrow>
                  (case lprev h t of
                     None \<Rightarrow> None
                   | Some p \<Rightarrow>
                       (let h = set_next p (Some x) h;
                            h = set_prev x (Some p) h
                        in Some (h, c))))
           else Some (h, c\<lparr>head := None\<rparr>))))"

section \<open>The lists they represent\<close>

text \<open>
  \<open>lseg h p xs n\<close>: the nodes \<open>xs\<close> are linked in this order, the first has the predecessor \<open>p\<close> and
  the last the successor \<open>n\<close>.
\<close>

fun lseg :: "'a links \<Rightarrow> 'a option \<Rightarrow> 'a list \<Rightarrow> 'a option \<Rightarrow> bool" where
  "lseg h p [] n = True"
| "lseg h p (x # xs) n \<longleftrightarrow>
     lprev h x = p \<and> lnext h x = firstof xs n \<and> lseg h (Some x) xs n"

fun nseg :: "'a links \<Rightarrow> 'a list \<Rightarrow> 'a option \<Rightarrow> bool" where
  "nseg h [] n = True"
| "nseg h (x # xs) n \<longleftrightarrow> lnext h x = firstof xs n \<and> nseg h xs n"

definition list_repr :: "'a lstate \<Rightarrow> 'a list \<Rightarrow> bool" where
  "list_repr s xs \<longleftrightarrow> distinct xs \<and> head (snd s) = firstof xs None
     \<and> tail (snd s) = lastof None xs \<and> lseg (fst s) None xs None"

definition queue_repr :: "'a lstate \<Rightarrow> 'a list \<Rightarrow> bool" where
  "queue_repr s xs \<longleftrightarrow> distinct xs \<and> head (snd s) = firstof xs None
     \<and> tail (snd s) = lastof None xs \<and> nseg (fst s) xs None"

definition ring :: "'a links \<Rightarrow> 'a list \<Rightarrow> bool" where
  "ring h xs \<longleftrightarrow> lseg h (lastof None xs) xs (firstof xs None)"

definition circleq_repr :: "'a lstate \<Rightarrow> 'a list \<Rightarrow> bool" where
  "circleq_repr s xs \<longleftrightarrow> distinct xs \<and> head (snd s) = firstof xs None \<and> ring (fst s) xs"

lemma lseg_append [simp]:
  "lseg h p (xs @ ys) n \<longleftrightarrow> lseg h p xs (firstof ys n) \<and> lseg h (lastof p xs) ys n"
  by (induction xs arbitrary: p) auto

lemma nseg_append [simp]:
  "nseg h (xs @ ys) n \<longleftrightarrow> nseg h xs (firstof ys n) \<and> nseg h ys n"
  by (induction xs) auto

lemma lseg_set_next_frame [simp]:
  "x \<notin> set xs \<Longrightarrow> lseg (set_next x v h) p xs n = lseg h p xs n"
  by (induction xs arbitrary: p) auto

lemma lseg_set_prev_frame [simp]:
  "x \<notin> set xs \<Longrightarrow> lseg (set_prev x v h) p xs n = lseg h p xs n"
  by (induction xs arbitrary: p) auto

lemma nseg_set_next_frame [simp]:
  "x \<notin> set xs \<Longrightarrow> nseg (set_next x v h) xs n = nseg h xs n"
  by (induction xs) auto

lemma list_repr_pair [repr_simps]:
  "list_repr (h, l) xs \<longleftrightarrow> distinct xs \<and> head l = firstof xs None
     \<and> tail l = lastof None xs \<and> lseg h None xs None"
  by (simp add: list_repr_def)

lemma queue_repr_pair [repr_simps]:
  "queue_repr (h, l) xs \<longleftrightarrow> distinct xs \<and> head l = firstof xs None
     \<and> tail l = lastof None xs \<and> nseg h xs None"
  by (simp add: queue_repr_def)

lemma circleq_repr_pair [repr_simps]:
  "circleq_repr (h, l) xs \<longleftrightarrow> distinct xs \<and> head l = firstof xs None \<and> ring h xs"
  by (simp add: circleq_repr_def)

subsection \<open>LIST implements lists\<close>

lemma LIST_INIT_repr: "list_repr (LIST_INIT s) []"
  by (cases s) (simp add: LIST_INIT_def repr_simps)

lemma LIST_HEAD_repr: "list_repr s xs \<Longrightarrow> LIST_HEAD s = firstof xs None"
  by (cases s) (simp add: LIST_HEAD_def repr_simps)

lemma LIST_TAIL_repr: "list_repr s xs \<Longrightarrow> LIST_TAIL s = lastof None xs"
  by (cases s) (simp add: LIST_TAIL_def repr_simps)

lemma LIST_EMPTY_repr: "list_repr s xs \<Longrightarrow> LIST_EMPTY s \<longleftrightarrow> xs = []"
  by (cases s) (simp add: LIST_EMPTY_def repr_simps)

lemma LIST_NEXT_repr: "list_repr s (xs @ x # ys) \<Longrightarrow> LIST_NEXT s x = firstof ys None"
  by (cases s) (simp add: LIST_NEXT_def repr_simps)

lemma LIST_PREV_repr: "list_repr s (xs @ x # ys) \<Longrightarrow> LIST_PREV s x = lastof None xs"
  by (cases s) (simp add: LIST_PREV_def repr_simps)

lemma LIST_ADD_TAIL_repr:
  assumes "list_repr s xs" "x \<notin> set xs"
  shows "list_repr (LIST_ADD_TAIL x s) (xs @ [x])"
  using assms
  by (cases s; cases xs rule: rev_cases) (auto simp: LIST_ADD_TAIL_def repr_simps)

lemma LIST_ADD_HEAD_repr:
  assumes "list_repr s xs" "x \<notin> set xs"
  shows "list_repr (LIST_ADD_HEAD x s) (x # xs)"
  using assms by (cases s; cases xs) (auto simp: LIST_ADD_HEAD_def repr_simps)

lemma LIST_REM_HEAD_repr:
  assumes "list_repr s (x # xs)"
  shows "\<exists>s'. LIST_REM_HEAD s = Some s' \<and> list_repr s' xs"
  using assms by (cases s; cases xs) (auto simp: LIST_REM_HEAD_def repr_simps)

lemma LIST_REM_TAIL_repr:
  assumes "list_repr s (xs @ [x])"
  shows "\<exists>s'. LIST_REM_TAIL s = Some s' \<and> list_repr s' xs"
  using assms by (cases s; cases xs rule: rev_cases) (auto simp: LIST_REM_TAIL_def repr_simps)

lemma LIST_REM_HEAD_empty: "list_repr s [] \<Longrightarrow> LIST_REM_HEAD s = None"
  by (cases s) (simp add: LIST_REM_HEAD_def repr_simps)

lemma LIST_INSERT_AFTER_repr:
  assumes "list_repr s (xs @ p # ys)" "x \<notin> set (xs @ p # ys)"
  shows "list_repr (LIST_INSERT_AFTER p x s) (xs @ p # x # ys)"
  using assms by (cases s; cases ys) (auto simp: LIST_INSERT_AFTER_def repr_simps)

lemma LIST_INSERT_BEFORE_repr:
  assumes "list_repr s (xs @ n # ys)" "x \<notin> set (xs @ n # ys)"
  shows "list_repr (LIST_INSERT_BEFORE n x s) (xs @ x # n # ys)"
  using assms
  by (cases s; cases xs rule: rev_cases) (auto simp: LIST_INSERT_BEFORE_def repr_simps)

lemma LIST_REM_ENTRY_split:
  assumes "list_repr s (xs @ x # ys)"
  shows "list_repr (LIST_REM_ENTRY x s) (xs @ ys)"
  using assms
  by (cases s; cases xs rule: rev_cases; cases ys) (auto simp: LIST_REM_ENTRY_def repr_simps)

lemma LIST_CONCAT_repr:
  assumes "list_repr (h, d) xs" "list_repr (h, l) ys" "set xs \<inter> set ys = {}"
  shows "\<exists>s'. LIST_CONCAT (h, d) l = Some s' \<and> list_repr s' (xs @ ys)"
  using assms
  by (cases xs rule: rev_cases; cases ys) (auto simp: LIST_CONCAT_def repr_simps split: option.split)

lemma list_repr_split:
  assumes "list_repr s xs" "x \<in> set xs"
  obtains ys zs where "xs = ys @ x # zs" "remove1 x xs = ys @ zs" "x \<notin> set ys"
proof -
  from assms(2) obtain ys zs where "xs = ys @ x # zs" "x \<notin> set ys"
    by (meson split_list_first)
  then show ?thesis by (intro that) (auto simp: remove1_append)
qed

lemma LIST_REM_ENTRY_repr:
  assumes "list_repr s xs" "x \<in> set xs"
  shows "list_repr (LIST_REM_ENTRY x s) (remove1 x xs)"
  using assms by (metis list_repr_split LIST_REM_ENTRY_split)

subsection \<open>QUEUE implements lists\<close>

lemma QUEUE_INIT_repr: "queue_repr (QUEUE_INIT s) []"
  by (cases s) (simp add: QUEUE_INIT_def repr_simps)

lemma QUEUE_HEAD_repr: "queue_repr s xs \<Longrightarrow> QUEUE_HEAD s = firstof xs None"
  by (cases s) (simp add: QUEUE_HEAD_def repr_simps)

lemma QUEUE_EMPTY_repr: "queue_repr s xs \<Longrightarrow> QUEUE_EMPTY s \<longleftrightarrow> xs = []"
  by (cases s) (simp add: QUEUE_EMPTY_def repr_simps)

lemma QUEUE_ADD_TAIL_repr:
  assumes "queue_repr s xs" "x \<notin> set xs"
  shows "queue_repr (QUEUE_ADD_TAIL x s) (xs @ [x])"
  using assms
  by (cases s; cases xs rule: rev_cases) (auto simp: QUEUE_ADD_TAIL_def repr_simps)

lemma QUEUE_REM_HEAD_repr:
  assumes "queue_repr s (x # xs)"
  shows "\<exists>s'. QUEUE_REM_HEAD s = Some s' \<and> queue_repr s' xs"
  using assms by (cases s; cases xs) (auto simp: QUEUE_REM_HEAD_def repr_simps)

lemma QUEUE_REM_HEAD_empty: "queue_repr s [] \<Longrightarrow> QUEUE_REM_HEAD s = None"
  by (cases s) (simp add: QUEUE_REM_HEAD_def repr_simps)

subsection \<open>CIRCLEQ implements rings\<close>

lemma CIRCLEQ_INIT_repr: "circleq_repr (CIRCLEQ_INIT s) []"
  by (cases s) (simp add: CIRCLEQ_INIT_def repr_simps ring_def)

lemma CIRCLEQ_HEAD_repr: "circleq_repr s xs \<Longrightarrow> CIRCLEQ_HEAD s = firstof xs None"
  by (cases s) (simp add: CIRCLEQ_HEAD_def repr_simps)

lemma CIRCLEQ_EMPTY_repr: "circleq_repr s xs \<Longrightarrow> CIRCLEQ_EMPTY s \<longleftrightarrow> xs = []"
  by (cases s) (simp add: CIRCLEQ_EMPTY_def repr_simps)

lemma ring_rotate: "ring h (xs @ ys) = ring h (ys @ xs)"
  by (cases "xs = []"; cases "ys = []") (auto simp: ring_def)

lemma ring_insert:
  assumes "ring h xs" "distinct xs" "x \<notin> set xs" "xs \<noteq> []"
  shows "ring (set_next (last xs) (Some x) (set_prev (hd xs) (Some x)
           (set_prev x (Some (last xs)) (set_next x (Some (hd xs)) h)))) (x # xs)"
proof -
  from assms(4) obtain y ys where xs: "xs = y # ys" by (cases xs) auto
  show ?thesis
    using assms xs by (cases ys rule: rev_cases) (auto simp: ring_def)
qed

lemma ring_remove:
  assumes "ring h (x # xs)" "distinct (x # xs)" "xs \<noteq> []"
  shows "lnext h x = Some (hd xs)" "lprev h x = Some (last xs)"
    "ring (set_next (last xs) (Some (hd xs)) (set_prev (hd xs) (Some (last xs)) h)) xs"
proof -
  from assms(3) obtain y ys where xs: "xs = y # ys" by (cases xs) auto
  show "lnext h x = Some (hd xs)" "lprev h x = Some (last xs)"
    using assms by (auto simp: ring_def)
  show "ring (set_next (last xs) (Some (hd xs)) (set_prev (hd xs) (Some (last xs)) h)) xs"
    using assms xs by (cases ys rule: rev_cases) (auto simp: ring_def)
qed

lemma ring_first: "ring h (x # xs) \<Longrightarrow> lprev h x = Some (last (x # xs))"
  by (simp add: ring_def lastof_def split: if_splits)

lemma CIRCLEQ_TAIL_repr: "circleq_repr s xs \<Longrightarrow> CIRCLEQ_TAIL s = lastof None xs"
  by (cases s; cases xs) (auto simp: CIRCLEQ_TAIL_def repr_simps lastof_def dest: ring_first)

lemma CIRCLEQ_ADD_HEAD_repr:
  assumes "circleq_repr s xs" "x \<notin> set xs"
  shows "\<exists>s'. CIRCLEQ_ADD_HEAD x s = Some s' \<and> circleq_repr s' (x # xs)"
proof (cases xs)
  case Nil
  with assms show ?thesis
    by (cases s) (auto simp: CIRCLEQ_ADD_HEAD_def repr_simps ring_def)
next
  case (Cons y ys)
  with assms show ?thesis
    using ring_insert [of "fst s" xs x] ring_first [of "fst s" y ys]
    by (cases s) (auto simp: CIRCLEQ_ADD_HEAD_def repr_simps Let_def)
qed

lemma CIRCLEQ_ADD_TAIL_repr:
  assumes "circleq_repr s xs" "x \<notin> set xs"
  shows "\<exists>s'. CIRCLEQ_ADD_TAIL x s = Some s' \<and> circleq_repr s' (xs @ [x])"
proof (cases xs)
  case Nil
  with assms show ?thesis
    by (cases s) (auto simp: CIRCLEQ_ADD_TAIL_def repr_simps ring_def)
next
  case (Cons y ys)
  with assms show ?thesis
    using ring_insert [of "fst s" xs x] ring_first [of "fst s" y ys] ring_rotate [of _ "[x]" xs]
    by (cases s) (auto simp: CIRCLEQ_ADD_TAIL_def repr_simps Let_def)
qed

lemma CIRCLEQ_FORWARD_repr:
  assumes "circleq_repr s xs" "xs \<noteq> []"
  shows "\<exists>s'. CIRCLEQ_FORWARD s = Some s' \<and> circleq_repr s' (rotate1 xs)"
proof (cases xs)
  case (Cons y ys)
  have "ring (fst s) (ys @ [y])" "lnext (fst s) y = firstof (ys @ [y]) None"
    using assms Cons ring_rotate [of "fst s" "[y]" ys] by (auto simp: circleq_repr_def ring_def)
  with assms Cons show ?thesis
    by (cases s) (auto simp: CIRCLEQ_FORWARD_def repr_simps)
qed (use assms in simp)

lemma CIRCLEQ_REM_ENTRY_split:
  assumes "circleq_repr s (xs @ x # ys)"
  shows "\<exists>s'. CIRCLEQ_REM_ENTRY x s = Some s' \<and> circleq_repr s' (xs @ ys)"
proof (cases "ys @ xs")
  case Nil
  with assms show ?thesis
    by (cases s) (auto simp: CIRCLEQ_REM_ENTRY_def repr_simps ring_def)
next
  case (Cons z zs)
  obtain h c where s: "s = (h, c)" by (cases s)
  let ?h' = "set_next (last (ys @ xs)) (Some (hd (ys @ xs)))
               (set_prev (hd (ys @ xs)) (Some (last (ys @ xs))) h)"
  have r: "ring h (x # ys @ xs)" and d: "distinct (x # ys @ xs)"
    using assms s ring_rotate [of h xs "x # ys"] by (auto simp: repr_simps)
  have ne: "ys @ xs \<noteq> []" using Cons by simp
  note rm = ring_remove [OF r d ne]
  have "x \<noteq> hd (ys @ xs)" using d Cons by (metis distinct.simps(2) list.sel(1) list.set_intros(1))
  moreover have "x \<noteq> last (ys @ xs)" using d ne by (metis distinct.simps(2) last_in_set)
  ultimately have "CIRCLEQ_REM_ENTRY x (h, c) =
      Some (?h', if head c = Some x then c\<lparr>head := Some (hd (ys @ xs))\<rparr> else c)"
    using rm(1,2) by (simp add: CIRCLEQ_REM_ENTRY_def)
  moreover have "ring ?h' (xs @ ys)" using rm(3) by (simp add: ring_rotate [of _ xs ys])
  moreover have "head c = firstof xs (Some x)" using assms s by (simp add: repr_simps)
  ultimately show ?thesis
    using assms s ne by (cases xs) (auto simp: repr_simps)
qed

lemma CIRCLEQ_REM_ENTRY_repr:
  assumes "circleq_repr s xs" "x \<in> set xs"
  shows "\<exists>s'. CIRCLEQ_REM_ENTRY x s = Some s' \<and> circleq_repr s' (remove1 x xs)"
proof -
  from assms(2) obtain ys zs where "xs = ys @ x # zs" "x \<notin> set ys"
    by (meson split_list_first)
  moreover from this have "remove1 x xs = ys @ zs" by (simp add: remove1_append)
  ultimately show ?thesis using assms(1) CIRCLEQ_REM_ENTRY_split by metis
qed

lemma CIRCLEQ_REM_HEAD_eq:
  "head c = Some x \<Longrightarrow> CIRCLEQ_REM_HEAD (h, c) = CIRCLEQ_REM_ENTRY x (h, c)"
  by (simp add: CIRCLEQ_REM_HEAD_def CIRCLEQ_REM_ENTRY_def Let_def split: option.split)

lemma CIRCLEQ_REM_HEAD_repr:
  assumes "circleq_repr s (x # xs)"
  shows "\<exists>s'. CIRCLEQ_REM_HEAD s = Some s' \<and> circleq_repr s' xs"
  using assms CIRCLEQ_REM_ENTRY_split [of s "[]" x xs]
  by (cases s) (simp add: CIRCLEQ_REM_HEAD_eq repr_simps)

lemma CIRCLEQ_REM_HEAD_empty: "circleq_repr s [] \<Longrightarrow> CIRCLEQ_REM_HEAD s = None"
  by (cases s) (simp add: CIRCLEQ_REM_HEAD_def repr_simps)

lemma CIRCLEQ_REM_TAIL_repr:
  assumes "circleq_repr s (xs @ [x])"
  shows "\<exists>s'. CIRCLEQ_REM_TAIL s = Some s' \<and> circleq_repr s' xs"
proof (cases xs)
  case Nil
  with assms show ?thesis
    by (cases s) (auto simp: CIRCLEQ_REM_TAIL_def repr_simps ring_def)
next
  case (Cons y ys)
  obtain h c where s: "s = (h, c)" by (cases s)
  have r: "ring h (x # xs)" and d: "distinct (x # xs)" and ne: "xs \<noteq> []"
    using assms s Cons ring_rotate [of h xs "[x]"] by (auto simp: repr_simps)
  note rm = ring_remove [OF r d ne]
  have y: "lprev h y = Some x" "lnext h y = firstof ys (Some x)" "head c = Some y"
    using assms s Cons by (auto simp: repr_simps ring_def)
  then have "lnext h y \<noteq> Some y" using d Cons by (cases ys) auto
  then have "CIRCLEQ_REM_TAIL (h, c) =
      Some (set_next (last xs) (Some y) (set_prev y (Some (last xs)) h), c)"
    using y rm(2) by (simp add: CIRCLEQ_REM_TAIL_def set_next_prev_commute)
  with rm(3) show ?thesis
    using d s Cons y(3) by (simp add: repr_simps)
qed

section \<open>The contract of a kernel list\<close>

text \<open>
  What the kernel relies on when it queues its objects: a list that is filled at its tail and
  emptied at its head, and, for the objects that leave out of turn, the removal of one entry.
  \<open>repr s xs\<close> says that the pointers of \<open>s\<close> form the list \<open>xs\<close>.
\<close>

fun drain :: "('s \<Rightarrow> 'a option) \<Rightarrow> ('s \<Rightarrow> 's option) \<Rightarrow> nat \<Rightarrow> 's \<Rightarrow> 'a list option" where
  "drain hd_of rem 0 s = Some []"
| "drain hd_of rem (Suc n) s =
     (case hd_of s of
        None \<Rightarrow> None
      | Some x \<Rightarrow>
          (case rem s of None \<Rightarrow> None | Some s' \<Rightarrow> map_option ((#) x) (drain hd_of rem n s')))"

fun fill :: "('a \<Rightarrow> 's \<Rightarrow> 's option) \<Rightarrow> 'a list \<Rightarrow> 's \<Rightarrow> 's option" where
  "fill add [] s = Some s"
| "fill add (x # xs) s = (case add x s of None \<Rightarrow> None | Some s' \<Rightarrow> fill add xs s')"

locale fifo_list =
  fixes repr :: "'s \<Rightarrow> 'a list \<Rightarrow> bool"
    and hd_of :: "'s \<Rightarrow> 'a option"
    and add_tail :: "'a \<Rightarrow> 's \<Rightarrow> 's option"
    and rem_head :: "'s \<Rightarrow> 's option"
  assumes repr_distinct: "repr s xs \<Longrightarrow> distinct xs"
    and repr_head: "repr s xs \<Longrightarrow> hd_of s = firstof xs None"
    and repr_add: "repr s xs \<Longrightarrow> x \<notin> set xs \<Longrightarrow> \<exists>s'. add_tail x s = Some s' \<and> repr s' (xs @ [x])"
    and repr_rem: "repr s (x # xs) \<Longrightarrow> \<exists>s'. rem_head s = Some s' \<and> repr s' xs"
    and repr_rem_empty: "repr s [] \<Longrightarrow> rem_head s = None"
begin

lemma fill_repr:
  "repr s ys \<Longrightarrow> distinct (ys @ xs) \<Longrightarrow> \<exists>s'. fill add_tail xs s = Some s' \<and> repr s' (ys @ xs)"
proof (induction xs arbitrary: s ys)
  case Nil
  then show ?case by simp
next
  case (Cons x xs)
  from Cons.prems obtain s1 where s1: "add_tail x s = Some s1" "repr s1 (ys @ [x])"
    using repr_add [of s ys x] by auto
  from Cons.IH [OF s1(2)] Cons.prems(2) s1(1) show ?case by auto
qed

lemma drain_repr: "repr s (xs @ ys) \<Longrightarrow> drain hd_of rem_head (length xs) s = Some xs"
proof (induction xs arbitrary: s)
  case Nil
  then show ?case by simp
next
  case (Cons x xs)
  from Cons.prems have h: "hd_of s = Some x" using repr_head [of s "x # xs @ ys"] by simp
  from Cons.prems obtain s1 where "rem_head s = Some s1" "repr s1 (xs @ ys)"
    using repr_rem [of s x "xs @ ys"] by auto
  with Cons.IH h show ?case by simp
qed

lemma drain_underrun: "repr s xs \<Longrightarrow> length xs < n \<Longrightarrow> drain hd_of rem_head n s = None"
proof (induction n arbitrary: s xs)
  case 0
  then show ?case by simp
next
  case (Suc n)
  show ?case
  proof (cases xs)
    case Nil
    with Suc.prems show ?thesis using repr_head [of s xs] by simp
  next
    case (Cons y ys)
    with Suc.prems obtain s1 where "rem_head s = Some s1" "repr s1 ys"
      using repr_rem [of s y ys] by auto
    with Suc Cons show ?thesis by (auto split: option.split)
  qed
qed

lemma fifo_order:
  assumes "repr s ys" "distinct (ys @ xs)"
  shows "\<exists>s'. fill add_tail xs s = Some s'
           \<and> drain hd_of rem_head (length ys + length xs) s' = Some (ys @ xs)
           \<and> drain hd_of rem_head (Suc (length ys + length xs)) s' = None"
  using fill_repr [OF assms] drain_repr [of _ "ys @ xs" "[]"] drain_underrun [of _ "ys @ xs"]
  by fastforce

end

locale entry_list = fifo_list +
  fixes rem_entry :: "'b \<Rightarrow> 'a \<Rightarrow> 'a option"
  assumes repr_rem_entry:
    "repr s xs \<Longrightarrow> x \<in> set xs \<Longrightarrow> \<exists>s'. rem_entry x s = Some s' \<and> repr s' (remove1 x xs)"
begin

lemma cancel_add:
  assumes "repr s xs" "x \<notin> set xs"
  shows "\<exists>s'. Option.bind (add_tail x s) (rem_entry x) = Some s' \<and> repr s' xs"
  using repr_add [OF assms] repr_rem_entry [of _ "xs @ [x]" x] assms(2)
  by (fastforce simp: remove1_append)

lemma requeue:
  assumes "repr s (x # xs)"
  shows "\<exists>s'. Option.bind (rem_entry x s) (add_tail x) = Some s' \<and> repr s' (xs @ [x])"
  using repr_rem_entry [OF assms, of x] repr_add [of _ xs x] repr_distinct [OF assms]
  by fastforce

end

lemma list_repr_distinct: "list_repr s xs \<Longrightarrow> distinct xs"
  by (simp add: list_repr_def)

lemma queue_repr_distinct: "queue_repr s xs \<Longrightarrow> distinct xs"
  by (simp add: queue_repr_def)

lemma circleq_repr_distinct: "circleq_repr s xs \<Longrightarrow> distinct xs"
  by (simp add: circleq_repr_def)

lemmas dlist_laws =
  list_repr_distinct LIST_HEAD_repr LIST_ADD_TAIL_repr LIST_REM_HEAD_empty LIST_REM_ENTRY_repr

interpretation dlist: entry_list list_repr LIST_HEAD "\<lambda>x s. Some (LIST_ADD_TAIL x s)"
  LIST_REM_HEAD "\<lambda>x s. Some (LIST_REM_ENTRY x s)"
  by unfold_locales
    (auto simp: dlist_laws intro: LIST_REM_HEAD_repr simp del: split_paired_Ex)

interpretation squeue: fifo_list queue_repr QUEUE_HEAD "\<lambda>x s. Some (QUEUE_ADD_TAIL x s)"
  QUEUE_REM_HEAD
  by unfold_locales
    (auto simp: queue_repr_distinct QUEUE_HEAD_repr QUEUE_ADD_TAIL_repr QUEUE_REM_HEAD_empty
      intro: QUEUE_REM_HEAD_repr simp del: split_paired_Ex)

interpretation cqueue: entry_list circleq_repr CIRCLEQ_HEAD CIRCLEQ_ADD_TAIL
  CIRCLEQ_REM_HEAD CIRCLEQ_REM_ENTRY
  by unfold_locales
    (auto simp: circleq_repr_distinct CIRCLEQ_HEAD_repr CIRCLEQ_REM_HEAD_empty
      intro: CIRCLEQ_ADD_TAIL_repr CIRCLEQ_REM_HEAD_repr CIRCLEQ_REM_ENTRY_repr
      simp del: split_paired_Ex)

section \<open>Lists that share their link fields\<close>

lemma LIST_ADD_TAIL_frame:
  assumes "list_repr (h, l) xs" "list_repr (h, k) ys" "set ys \<inter> insert x (set xs) = {}"
  shows "list_repr (fst (LIST_ADD_TAIL x (h, l)), k) ys"
  using assms
  by (cases xs rule: rev_cases) (auto simp: LIST_ADD_TAIL_def repr_simps)

lemma LIST_REM_ENTRY_frame:
  assumes "list_repr (h, l) xs" "list_repr (h, k) ys" "set ys \<inter> set xs = {}" "x \<in> set xs"
  shows "list_repr (fst (LIST_REM_ENTRY x (h, l)), k) ys"
proof -
  obtain us vs where "xs = us @ x # vs" using assms(4) by (meson split_list)
  with assms show ?thesis
    by (cases us rule: rev_cases; cases vs) (auto simp: LIST_REM_ENTRY_def repr_simps)
qed

section \<open>Properties\<close>

text \<open>C1: The LIST macros of \<^verbatim>\<open>lists.h\<close> refine operations on lists.  On pointers that represent the
  list \<open>xs\<close>, adding a new node at the tail or the head appends or prepends it, inserting it next
  to a node places it there, removing an entry removes exactly that node, and removing at the head
  or the tail drops the first or last node; removing from the empty list dereferences NULL.\<close>

theorem LIST_ops_refine:
  assumes "list_repr s xs"
  shows "LIST_HEAD s = firstof xs None \<and> LIST_TAIL s = lastof None xs
    \<and> (x \<notin> set xs \<longrightarrow> list_repr (LIST_ADD_TAIL x s) (xs @ [x]))
    \<and> (x \<notin> set xs \<longrightarrow> list_repr (LIST_ADD_HEAD x s) (x # xs))
    \<and> (x \<in> set xs \<longrightarrow> list_repr (LIST_REM_ENTRY x s) (remove1 x xs))
    \<and> (\<forall>us p vs. xs = us @ p # vs \<longrightarrow> x \<notin> set xs \<longrightarrow>
         list_repr (LIST_INSERT_AFTER p x s) (us @ p # x # vs)
         \<and> list_repr (LIST_INSERT_BEFORE p x s) (us @ x # p # vs))
    \<and> (xs \<noteq> [] \<longrightarrow> (\<exists>s1 s2. LIST_REM_HEAD s = Some s1 \<and> list_repr s1 (tl xs)
         \<and> LIST_REM_TAIL s = Some s2 \<and> list_repr s2 (butlast xs)))
    \<and> (xs = [] \<longrightarrow> LIST_REM_HEAD s = None)"
proof (intro conjI impI allI)
  assume "xs \<noteq> []"
  then show "\<exists>s1 s2. LIST_REM_HEAD s = Some s1 \<and> list_repr s1 (tl xs)
         \<and> LIST_REM_TAIL s = Some s2 \<and> list_repr s2 (butlast xs)"
    using assms LIST_REM_HEAD_repr [of s "hd xs" "tl xs"]
      LIST_REM_TAIL_repr [of s "butlast xs" "last xs"] by auto
qed (use assms in \<open>simp_all add: LIST_HEAD_repr [OF assms] LIST_TAIL_repr [OF assms]
       LIST_ADD_TAIL_repr LIST_ADD_HEAD_repr LIST_REM_ENTRY_repr LIST_INSERT_AFTER_repr
       LIST_INSERT_BEFORE_repr LIST_REM_HEAD_empty\<close>)

text \<open>Two concrete nodes linked from an empty header, for the witnesses below.\<close>

definition nolinks :: "nat links" where
  "nolinks = \<lparr>lnext = (\<lambda>_. None), lprev = (\<lambda>_. None)\<rparr>"

definition nohead :: "nat header" where
  "nohead = \<lparr>head = None, tail = None\<rparr>"

lemmas list_eval =
  nolinks_def nohead_def LIST_ADD_TAIL_def CIRCLEQ_ADD_TAIL_def LIST_INIT_def list_repr_def
  circleq_repr_def ring_def Let_def set_next_def set_prev_def

theorem LIST_ops_refine_witness:
  "list_repr (LIST_REM_ENTRY 4 (LIST_ADD_TAIL 7 (LIST_ADD_TAIL 4 (nolinks, nohead)))) [7]"
proof -
  have "list_repr (LIST_ADD_TAIL 7 (LIST_ADD_TAIL 4 (nolinks, nohead))) [4, 7]"
    by (simp add: list_eval)
  from LIST_ops_refine [OF this, of 4] show ?thesis by simp
qed

text \<open>C2: The CIRCLEQ macros of \<^verbatim>\<open>lists.h\<close>, which hold the run queues, refine operations on a ring:
  adding at the tail or head, removing the head, the tail or any entry, and CIRCLEQ_FORWARD, which
  rotates the ring by one.  CIRCLEQ_REVERSE follows the next pointer as well, so it rotates the
  ring in the same direction.\<close>

theorem CIRCLEQ_ops_refine:
  assumes "circleq_repr s xs"
  shows "CIRCLEQ_HEAD s = firstof xs None \<and> CIRCLEQ_TAIL s = lastof None xs
    \<and> (x \<notin> set xs \<longrightarrow> (\<exists>s'. CIRCLEQ_ADD_TAIL x s = Some s' \<and> circleq_repr s' (xs @ [x])))
    \<and> (x \<notin> set xs \<longrightarrow> (\<exists>s'. CIRCLEQ_ADD_HEAD x s = Some s' \<and> circleq_repr s' (x # xs)))
    \<and> (x \<in> set xs \<longrightarrow> (\<exists>s'. CIRCLEQ_REM_ENTRY x s = Some s' \<and> circleq_repr s' (remove1 x xs)))
    \<and> (xs \<noteq> [] \<longrightarrow>
         (\<exists>s'. CIRCLEQ_FORWARD s = Some s' \<and> circleq_repr s' (rotate1 xs) \<and> CIRCLEQ_REVERSE s = s')
         \<and> (\<exists>s'. CIRCLEQ_REM_HEAD s = Some s' \<and> circleq_repr s' (tl xs))
         \<and> (\<exists>s'. CIRCLEQ_REM_TAIL s = Some s' \<and> circleq_repr s' (butlast xs)))"
proof -
  have rev: "CIRCLEQ_FORWARD s = Some t \<Longrightarrow> CIRCLEQ_REVERSE s = t" for t
    by (cases s) (auto simp: CIRCLEQ_FORWARD_def CIRCLEQ_REVERSE_def split: option.splits)
  show ?thesis
  proof (intro conjI impI)
    assume ne: "xs \<noteq> []"
    show "\<exists>s'. CIRCLEQ_FORWARD s = Some s' \<and> circleq_repr s' (rotate1 xs) \<and> CIRCLEQ_REVERSE s = s'"
      using CIRCLEQ_FORWARD_repr [OF assms ne] rev by metis
    show "\<exists>s'. CIRCLEQ_REM_HEAD s = Some s' \<and> circleq_repr s' (tl xs)"
      using assms ne CIRCLEQ_REM_HEAD_repr [of s "hd xs" "tl xs"] by simp
    show "\<exists>s'. CIRCLEQ_REM_TAIL s = Some s' \<and> circleq_repr s' (butlast xs)"
      using assms ne CIRCLEQ_REM_TAIL_repr [of s "butlast xs" "last xs"] by simp
  qed (rule CIRCLEQ_HEAD_repr CIRCLEQ_TAIL_repr CIRCLEQ_ADD_TAIL_repr CIRCLEQ_ADD_HEAD_repr
         CIRCLEQ_REM_ENTRY_repr; (rule assms | assumption))+
qed

theorem CIRCLEQ_ops_refine_witness:
  "\<exists>s s'. CIRCLEQ_ADD_TAIL 4 (nolinks, nohead) = Some s \<and> CIRCLEQ_ADD_TAIL 7 s = Some s'
     \<and> circleq_repr s' [4, 7]"
proof -
  have "circleq_repr (nolinks, nohead) []" by (simp add: list_eval)
  from CIRCLEQ_ops_refine [OF this, of 4] obtain s
    where s: "CIRCLEQ_ADD_TAIL 4 (nolinks, nohead) = Some s" "circleq_repr s [4]" by auto
  from CIRCLEQ_ops_refine [OF s(2), of 7] s(1) show ?thesis by fastforce
qed

text \<open>Lists are first in, first out.  Nodes added one after the other at the tail of a LIST
  that already holds \<open>ys\<close> leave it from the head in the order \<open>ys\<close> and then in the order they were
  added, and after as many removals the list is empty: the next removal finds no head.\<close>

theorem LIST_fifo:
  assumes "list_repr s ys" "distinct (ys @ xs)"
  shows "\<exists>s'. fill (\<lambda>x s. Some (LIST_ADD_TAIL x s)) xs s = Some s'
           \<and> drain LIST_HEAD LIST_REM_HEAD (length ys + length xs) s' = Some (ys @ xs)
           \<and> drain LIST_HEAD LIST_REM_HEAD (Suc (length ys + length xs)) s' = None"
  using assms by (rule dlist.fifo_order)

theorem LIST_fifo_witness:
  "\<exists>s'. fill (\<lambda>x s. Some (LIST_ADD_TAIL x s)) [3, 1, 2] (nolinks, nohead) = Some s'
     \<and> drain LIST_HEAD LIST_REM_HEAD 3 s' = Some [3, 1, 2]"
proof -
  have "list_repr (nolinks, nohead) []" by (simp add: list_eval)
  from LIST_fifo [OF this, of "[3, 1, 2]"] show ?thesis by (auto simp: numeral_3_eq_3)
qed

text \<open>Kernel objects carry one link field for several lists of the same kind, such as the
  wait lists of all rendez.  Adding a node to one list or removing an entry from it leaves every
  other list over the same link field that has none of these nodes unchanged.\<close>

theorem LIST_frame:
  assumes "list_repr (h, l) xs" "list_repr (h, k) ys" "set ys \<inter> insert x (set xs) = {}"
  shows "list_repr (fst (LIST_ADD_TAIL x (h, l)), k) ys
    \<and> (\<forall>z \<in> set xs. list_repr (fst (LIST_REM_ENTRY z (h, l)), k) ys)"
  using assms LIST_ADD_TAIL_frame [OF assms] LIST_REM_ENTRY_frame [OF assms(1,2)] by blast

theorem LIST_frame_witness:
  "list_repr (fst (LIST_ADD_TAIL 9 (LIST_ADD_TAIL 4 (nolinks, nohead))), nohead) []"
proof -
  let ?s = "LIST_ADD_TAIL 4 (nolinks, nohead)"
  have "list_repr (fst ?s, snd ?s) [4]" "list_repr (fst ?s, nohead) []"
    by (simp_all add: list_eval)
  from LIST_frame [OF this, of 9] show ?thesis by simp
qed

end
