(* ===== verification/Scheduler.thy ===== *)
theory Scheduler
  imports Kernel_Lists
begin

unbundle bit_operations_syntax

text \<open>
  The scheduler, the big kernel lock (BKL) and the rendez condition variables of
  \<^verbatim>\<open>kernel/proc/sched.c\<close>.  The global variables of that file are the record \<open>sched\<close>; the processes
  of the process table are named by their index.  The list macros are the list operations that
  \<^verbatim>\<open>Kernel_Lists\<close> shows they implement.  A function has the result \<open>None\<close> where the code calls
  \<open>KernelPanic\<close> or dereferences NULL.  \<open>KASSERT\<close> is compiled out (\<open>KDEBUG\<close> is undefined).  A call of
  \<open>Reschedule\<close> ends the step of the calling task: what the task does when it next runs is a later
  step.
\<close>

section \<open>Processes, run queues, locks\<close>

datatype proc_state =
    PROC_STATE_UNALLOC | PROC_STATE_INIT | PROC_STATE_ZOMBIE | PROC_STATE_RUNNING
  | PROC_STATE_READY | PROC_STATE_SEND | PROC_STATE_RENDEZ_BLOCKED | PROC_STATE_BKL_BLOCKED

datatype policy = SCHED_OTHER | SCHED_FIFO | SCHED_RR | SCHED_IDLE | SCHED_UNKNOWN int

definition SCHED_QUANTA_JIFFIES :: int where
  "SCHED_QUANTA_JIFFIES = 5"

definition PROCF_ALLOW_IO :: u32 where
  "PROCF_ALLOW_IO = 2"

record process =
  pstate :: proc_state
  sched_policy :: policy
  quanta_used :: int
  priority :: nat
  desired_priority :: nat
  pflags :: u32

text \<open>The condition variables of the kernel, by the object that holds them.\<close>

datatype rendez =
    Rz_timer
  | Rz_proc nat
  | Rz_reply_port nat
  | Rz_vnode nat
  | Rz_pipe nat
  | Rz_superblock nat
  | Rz_msgport nat
  | Rz_kqueue_busy nat
  | Rz_kqueue_event nat
  | Rz_buf nat
  | Rz_buf_list

text \<open>The owner of the BKL; a free lock holds one of the code's poison addresses.\<close>

datatype owner = Owner nat | Poison u32

record sched =
  procs :: "nat \<Rightarrow> process"
  sched_queue :: "nat \<Rightarrow> nat list"
  sched_queue_bitmap :: u32
  current :: nat
  idle_process :: nat
  reschedule_request :: bool
  bkl_locked :: bool
  bkl_owner :: owner
  bkl_blocked_list :: "nat list"
  blocked_list :: "rendez \<Rightarrow> nat list"

definition upd_proc ::
  "nat \<Rightarrow> (process \<Rightarrow> process) \<Rightarrow> 'a sched_scheme \<Rightarrow> 'a sched_scheme" where
  "upd_proc p f s = s\<lparr>procs := (procs s)(p := f (procs s p))\<rparr>"

definition set_queue :: "nat \<Rightarrow> nat list \<Rightarrow> 'a sched_scheme \<Rightarrow> 'a sched_scheme" where
  "set_queue q xs s = s\<lparr>sched_queue := (sched_queue s)(q := xs)\<rparr>"

section \<open>Choosing a task\<close>

text \<open>
  The accounting of \<open>Reschedule\<close>: a round-robin task rotates its run queue, a task of the
  niceness scheduler that has used up its quanta moves to the next lower run queue.
\<close>

definition resched_account :: "'a sched_scheme \<Rightarrow> 'a sched_scheme option" where
  "resched_account s =
     (let c = current s;
          s = upd_proc c (\<lambda>p. p\<lparr>quanta_used := quanta_used p + 1\<rparr>) s;
          q = priority (procs s c)
      in if sched_policy (procs s c) = SCHED_RR then
           (if sched_queue s q \<noteq> [] then
              Some (upd_proc c (\<lambda>p. p\<lparr>quanta_used := 0\<rparr>) (set_queue q (rotate1 (sched_queue s q)) s))
            else Some s)
         else if sched_policy (procs s c) = SCHED_OTHER then
           (if quanta_used (procs s c) = SCHED_QUANTA_JIFFIES then
              (if q > 1 then
                 (case sched_queue s q of
                    [] \<Rightarrow> None
                  | x # xs \<Rightarrow>
                      (let s = set_queue q xs s;
                           s = upd_proc c (\<lambda>p. p\<lparr>priority := q - 1\<rparr>) s;
                           s = set_queue (q - 1) (sched_queue s (q - 1) @ [c]) s
                       in Some (upd_proc c (\<lambda>p. p\<lparr>quanta_used := 0\<rparr>) s)))
               else
                 (if sched_queue s q = [] then None
                  else Some (upd_proc c (\<lambda>p. p\<lparr>quanta_used := 0\<rparr>)
                              (set_queue q (rotate1 (sched_queue s q)) s))))
            else Some s)
         else Some s)"

text \<open>The loop that looks for the highest bit of the map, from bit \<open>n - 1\<close> downwards.\<close>

fun find_top :: "u32 \<Rightarrow> nat \<Rightarrow> nat option" where
  "find_top w 0 = None"
| "find_top w (Suc n) = (if (w AND shl1 n) \<noteq> 0 then Some n else find_top w n)"

definition sched_pick :: "'a sched_scheme \<Rightarrow> nat" where
  "sched_pick s =
     (let cand = (if sched_queue_bitmap s \<noteq> 0 then
                    (case find_top (sched_queue_bitmap s) 32 of
                       Some q \<Rightarrow> firstof (sched_queue s q) None
                     | None \<Rightarrow> None)
                  else None)
      in (case cand of Some p \<Rightarrow> p | None \<Rightarrow> idle_process s))"

definition Reschedule :: "'a sched_scheme \<Rightarrow> 'a sched_scheme option" where
  "Reschedule s = do {
     s \<leftarrow> resched_account s;
     let nxt = sched_pick s;
     Some ((upd_proc nxt (\<lambda>p. p\<lparr>pstate := PROC_STATE_RUNNING\<rparr>) s)\<lparr>current := nxt\<rparr>)
   }"

definition SchedReady :: "nat \<Rightarrow> 'a sched_scheme \<Rightarrow> 'a sched_scheme option" where
  "SchedReady p s =
     (let q = priority (procs s p)
      in if sched_policy (procs s p) \<in> {SCHED_RR, SCHED_FIFO, SCHED_OTHER} then
           (let s = set_queue q (sched_queue s q @ [p]) s;
                s = s\<lparr>sched_queue_bitmap := sched_queue_bitmap s OR shl1 q\<rparr>;
                s = upd_proc p (\<lambda>p. p\<lparr>quanta_used := 0\<rparr>) s
            in Some (s\<lparr>reschedule_request := True\<rparr>))
         else None)"

definition SchedUnready :: "nat \<Rightarrow> 'a sched_scheme \<Rightarrow> 'a sched_scheme option" where
  "SchedUnready p s =
     (let q = priority (procs s p); pol = sched_policy (procs s p)
      in if pol \<in> {SCHED_RR, SCHED_FIFO, SCHED_OTHER} then
           (let s = set_queue q (remove1 p (sched_queue s q)) s;
                s = (if sched_queue s q = []
                     then s\<lparr>sched_queue_bitmap := sched_queue_bitmap s AND NOT (shl1 q)\<rparr> else s);
                s = (if pol = SCHED_OTHER
                     then upd_proc p (\<lambda>p. p\<lparr>priority := desired_priority p\<rparr>) s else s);
                s = upd_proc p (\<lambda>p. p\<lparr>quanta_used := 0\<rparr>) s
            in Some (s\<lparr>reschedule_request := True\<rparr>))
         else None)"

definition sys_setschedparams ::
  "policy \<Rightarrow> int \<Rightarrow> 'a sched_scheme \<Rightarrow> (unit result \<times> 'a sched_scheme) option" where
  "sys_setschedparams pol prio s =
     (let c = current s;
          change = (do {
            s \<leftarrow> SchedUnready c s;
            let s = upd_proc c (\<lambda>p. p\<lparr>sched_policy := pol, desired_priority := nat prio,
                                      priority := nat prio\<rparr>) s;
            s \<leftarrow> SchedReady c s;
            s \<leftarrow> Reschedule s;
            Some (Inr (), s)
          })
      in if pol = SCHED_RR \<or> pol = SCHED_FIFO then
           (if (pflags (procs s c) AND PROCF_ALLOW_IO) = 0 then Some (Inl EPERM, s)
            else if prio < 16 \<or> prio > 31 then Some (Inl EINVAL, s)
            else change)
         else if pol = SCHED_OTHER then
           (if prio < 0 \<or> prio > 15 then Some (Inl EINVAL, s) else change)
         else Some (Inl EINVAL, s))"

section \<open>The big kernel lock\<close>

definition KernelLock :: "'a sched_scheme \<Rightarrow> 'a sched_scheme option" where
  "KernelLock s =
     (let c = current s
      in if \<not> bkl_locked s then Some (s\<lparr>bkl_locked := True, bkl_owner := Owner c\<rparr>)
         else do {
           let s = s\<lparr>bkl_blocked_list := bkl_blocked_list s @ [c]\<rparr>;
           let s = upd_proc c (\<lambda>p. p\<lparr>pstate := PROC_STATE_BKL_BLOCKED\<rparr>) s;
           s \<leftarrow> SchedUnready c s;
           Reschedule s
         })"

definition KernelUnlock :: "'a sched_scheme \<Rightarrow> 'a sched_scheme option" where
  "KernelUnlock s =
     (if bkl_locked s then
        (case bkl_blocked_list s of
           p # ps \<Rightarrow> do {
             let s = s\<lparr>bkl_locked := True, bkl_owner := Owner p, bkl_blocked_list := ps\<rparr>;
             let s = upd_proc p (\<lambda>p. p\<lparr>pstate := PROC_STATE_READY\<rparr>) s;
             s \<leftarrow> SchedReady p s;
             Reschedule s
           }
         | [] \<Rightarrow> Some (s\<lparr>bkl_locked := False, bkl_owner := Poison 0xcafef00d\<rparr>))
      else None)"

section \<open>Condition variables\<close>

definition InitRendez :: "rendez \<Rightarrow> 'a sched_scheme \<Rightarrow> 'a sched_scheme" where
  "InitRendez r s = s\<lparr>blocked_list := (blocked_list s)(r := [])\<rparr>"

text \<open>Giving up the BKL before a sleep: it passes to the first task that waits for it.\<close>

definition bkl_pass :: "u32 \<Rightarrow> 'a sched_scheme \<Rightarrow> 'a sched_scheme option" where
  "bkl_pass poison s =
     (case bkl_blocked_list s of
        p # ps \<Rightarrow>
          (let s = s\<lparr>bkl_blocked_list := ps\<rparr>;
               s = upd_proc p (\<lambda>p. p\<lparr>pstate := PROC_STATE_READY\<rparr>) s
           in SchedReady p (s\<lparr>bkl_owner := Owner p\<rparr>))
      | [] \<Rightarrow> Some (s\<lparr>bkl_locked := False, bkl_owner := Poison poison\<rparr>))"

definition TaskSleep :: "rendez \<Rightarrow> 'a sched_scheme \<Rightarrow> 'a sched_scheme option" where
  "TaskSleep r s = do {
     let c = current s;
     s \<leftarrow> bkl_pass 0xdeadbeef s;
     let s = s\<lparr>blocked_list := (blocked_list s)(r := blocked_list s r @ [c])\<rparr>;
     let s = upd_proc c (\<lambda>p. p\<lparr>pstate := PROC_STATE_RENDEZ_BLOCKED\<rparr>) s;
     s \<leftarrow> SchedUnready c s;
     Reschedule s
   }"

definition TaskWakeup :: "rendez \<Rightarrow> 'a sched_scheme \<Rightarrow> 'a sched_scheme" where
  "TaskWakeup r s =
     (case blocked_list s r of
        [] \<Rightarrow> s
      | p # ps \<Rightarrow>
          (let s = s\<lparr>blocked_list := (blocked_list s)(r := ps)\<rparr>;
               s = s\<lparr>bkl_blocked_list := bkl_blocked_list s @ [p]\<rparr>
           in upd_proc p (\<lambda>p. p\<lparr>pstate := PROC_STATE_BKL_BLOCKED\<rparr>) s))"

definition TaskWakeupFromISR :: "rendez \<Rightarrow> 'a sched_scheme \<Rightarrow> 'a sched_scheme" where
  "TaskWakeupFromISR r s =
     (case blocked_list s r of
        [] \<Rightarrow> s
      | p # ps \<Rightarrow>
          (let s = s\<lparr>blocked_list := (blocked_list s)(r := ps)\<rparr>;
               s = s\<lparr>bkl_blocked_list := bkl_blocked_list s @ [p]\<rparr>
           in upd_proc p (\<lambda>p. p\<lparr>pstate := PROC_STATE_BKL_BLOCKED\<rparr>) s))"

text \<open>The body of the loop of \<open>TaskWakeupAll\<close> is the text of \<open>TaskWakeup\<close>.\<close>

function TaskWakeupAll :: "rendez \<Rightarrow> 'a sched_scheme \<Rightarrow> 'a sched_scheme" where
  "TaskWakeupAll r s =
     (let s' = TaskWakeup r s
      in if blocked_list s' r = [] then s' else TaskWakeupAll r s')"
  by pat_completeness auto
termination
  by (relation "measure (\<lambda>(r, s). length (blocked_list s r))")
    (auto simp: TaskWakeup_def upd_proc_def split: list.splits)

declare TaskWakeupAll.simps [simp del]

section \<open>Starting and ending tasks\<close>

text \<open>
  The scheduler's part of \<open>sys_exit\<close> and \<open>sys_fork\<close> of \<^verbatim>\<open>proc/proc.c\<close>: the last steps of an exiting
  task, the fields \<open>AllocProcess\<close> copies from the caller, and the start of the child.
\<close>

definition exit_switch :: "'a sched_scheme \<Rightarrow> 'a sched_scheme option" where
  "exit_switch s = do {
     let c = current s;
     s \<leftarrow> bkl_pass 0 s;
     let s = upd_proc c (\<lambda>p. p\<lparr>pstate := PROC_STATE_ZOMBIE\<rparr>) s;
     s \<leftarrow> SchedUnready c s;
     Reschedule s
   }"

definition child_process :: "process \<Rightarrow> process" where
  "child_process c =
     \<lparr>pstate = PROC_STATE_INIT, sched_policy = sched_policy c, quanta_used = 0,
      priority = priority c, desired_priority = desired_priority c, pflags = 0\<rparr>"

definition fork_start :: "nat \<Rightarrow> 'a sched_scheme \<Rightarrow> 'a sched_scheme option" where
  "fork_start p s =
     (let s = upd_proc p (\<lambda>_. child_process (procs s (current s))) s;
          s = upd_proc p (\<lambda>p. p\<lparr>pstate := PROC_STATE_READY\<rparr>) s
      in SchedReady p s)"

definition create_process ::
  "nat \<Rightarrow> policy \<Rightarrow> nat \<Rightarrow> u32 \<Rightarrow> 'a sched_scheme \<Rightarrow> 'a sched_scheme option" where
  "create_process pid pol prio flags s =
     (let s = InitRendez (Rz_proc pid) s;
          s = upd_proc pid (\<lambda>_. \<lparr>pstate = PROC_STATE_INIT, sched_policy = SCHED_OTHER,
                quanta_used = 0, priority = 0, desired_priority = 0, pflags = flags\<rparr>) s
      in if pol = SCHED_RR \<or> pol = SCHED_FIFO then
           SchedReady pid (upd_proc pid (\<lambda>p. p\<lparr>quanta_used := 0, sched_policy := pol,
             priority := (if prio \<ge> 16 then prio else 16), desired_priority := prio\<rparr>) s)
         else if pol = SCHED_OTHER then
           (let prio = (if prio > 15 then 15 else prio)
            in SchedReady pid (upd_proc pid (\<lambda>p. p\<lparr>quanta_used := 0, sched_policy := pol,
                 priority := prio, desired_priority := prio\<rparr>) s))
         else if pol = SCHED_IDLE then
           Some (upd_proc pid (\<lambda>p. p\<lparr>sched_policy := pol, priority := 0, desired_priority := 0\<rparr>) s)
         else Some s)"

definition PROCF_USER :: u32 where
  "PROCF_USER = 0"

definition PROCF_KERNEL :: u32 where
  "PROCF_KERNEL = 1"

definition init_processes :: "'a sched_scheme \<Rightarrow> 'a sched_scheme option" where
  "init_processes s = do {
     let s = s\<lparr>bkl_locked := False, bkl_owner := Poison 0, bkl_blocked_list := []\<rparr>;
     let s = s\<lparr>sched_queue := (\<lambda>q. if q < 32 then [] else sched_queue s q)\<rparr>;
     let s = InitRendez Rz_timer s;
     let s = s\<lparr>reschedule_request := False\<rparr>;
     s \<leftarrow> create_process 0 SCHED_RR 16 PROCF_USER s;
     s \<leftarrow> create_process 1 SCHED_RR 31 PROCF_KERNEL s;
     s \<leftarrow> create_process 2 SCHED_IDLE 0 PROCF_KERNEL s;
     let s = s\<lparr>idle_process := 2\<rparr>;
     let s = upd_proc 0 (\<lambda>p. p\<lparr>pstate := PROC_STATE_RUNNING\<rparr>) s;
     Some (s\<lparr>current := 0\<rparr>)
   }"

text \<open>The timer interrupt charges the running task one more tick (\<open>TimerTopHalf\<close>).\<close>

definition quanta_tick :: "'a sched_scheme \<Rightarrow> 'a sched_scheme" where
  "quanta_tick s = upd_proc (current s) (\<lambda>p. p\<lparr>quanta_used := quanta_used p + 1\<rparr>) s"

definition sys_getpriority :: "'a sched_scheme \<Rightarrow> int" where
  "sys_getpriority s = 0"

definition sys_setpriority :: "'a sched_scheme \<Rightarrow> int" where
  "sys_setpriority s = 0"

section \<open>Fields an operation leaves alone\<close>

lemma upd_proc_sel [simp]:
  "procs (upd_proc p f s) = (procs s)(p := f (procs s p))"
  "sched_queue (upd_proc p f s) = sched_queue s"
  "sched_queue_bitmap (upd_proc p f s) = sched_queue_bitmap s"
  "current (upd_proc p f s) = current s"
  "idle_process (upd_proc p f s) = idle_process s"
  "bkl_locked (upd_proc p f s) = bkl_locked s"
  "bkl_owner (upd_proc p f s) = bkl_owner s"
  "bkl_blocked_list (upd_proc p f s) = bkl_blocked_list s"
  "blocked_list (upd_proc p f s) = blocked_list s"
  "sched.more (upd_proc p f s) = sched.more s"
  by (simp_all add: upd_proc_def)

lemma set_queue_sel [simp]:
  "procs (set_queue q xs s) = procs s"
  "sched_queue (set_queue q xs s) = (sched_queue s)(q := xs)"
  "sched_queue_bitmap (set_queue q xs s) = sched_queue_bitmap s"
  "current (set_queue q xs s) = current s"
  "idle_process (set_queue q xs s) = idle_process s"
  "bkl_locked (set_queue q xs s) = bkl_locked s"
  "bkl_owner (set_queue q xs s) = bkl_owner s"
  "bkl_blocked_list (set_queue q xs s) = bkl_blocked_list s"
  "blocked_list (set_queue q xs s) = blocked_list s"
  "sched.more (set_queue q xs s) = sched.more s"
  by (simp_all add: set_queue_def)

definition schedulable :: "process \<Rightarrow> bool" where
  "schedulable p \<longleftrightarrow> sched_policy p \<in> {SCHED_RR, SCHED_FIFO, SCHED_OTHER}"

text \<open>What \<open>SchedReady\<close> and \<open>SchedUnready\<close> do, field by field.\<close>

lemma SchedReady_sel:
  assumes "SchedReady p s = Some s'"
  shows "schedulable (procs s p)"
    "procs s' = (procs s)(p := (procs s p)\<lparr>quanta_used := 0\<rparr>)"
    "sched_queue s' = (sched_queue s)
       (priority (procs s p) := sched_queue s (priority (procs s p)) @ [p])"
    "sched_queue_bitmap s' = sched_queue_bitmap s OR shl1 (priority (procs s p))"
    "current s' = current s" "idle_process s' = idle_process s"
    "bkl_locked s' = bkl_locked s" "bkl_owner s' = bkl_owner s"
    "bkl_blocked_list s' = bkl_blocked_list s" "blocked_list s' = blocked_list s"
    "sched.more s' = sched.more s"
  using assms by (auto simp: SchedReady_def Let_def schedulable_def split: if_splits)

lemma SchedReady_defined: "schedulable (procs s p) \<Longrightarrow> \<exists>s'. SchedReady p s = Some s'"
  by (simp add: SchedReady_def schedulable_def Let_def)

definition unready_proc :: "process \<Rightarrow> process" where
  "unready_proc p =
     (if sched_policy p = SCHED_OTHER then p\<lparr>priority := desired_priority p, quanta_used := 0\<rparr>
      else p\<lparr>quanta_used := 0\<rparr>)"

lemma unready_proc_sel [simp]:
  "pstate (unready_proc p) = pstate p"
  "sched_policy (unready_proc p) = sched_policy p"
  "desired_priority (unready_proc p) = desired_priority p"
  "quanta_used (unready_proc p) = 0"
  by (simp_all add: unready_proc_def)

lemma SchedUnready_sel:
  assumes "SchedUnready p s = Some s'"
  shows "schedulable (procs s p)"
    "procs s' = (procs s)(p := unready_proc (procs s p))"
    "sched_queue s' = (sched_queue s)
       (priority (procs s p) := remove1 p (sched_queue s (priority (procs s p))))"
    "sched_queue_bitmap s' =
       (if remove1 p (sched_queue s (priority (procs s p))) = []
        then sched_queue_bitmap s AND NOT (shl1 (priority (procs s p)))
        else sched_queue_bitmap s)"
    "current s' = current s" "idle_process s' = idle_process s"
    "bkl_locked s' = bkl_locked s" "bkl_owner s' = bkl_owner s"
    "bkl_blocked_list s' = bkl_blocked_list s" "blocked_list s' = blocked_list s"
    "sched.more s' = sched.more s"
  using assms
  by (auto simp: SchedUnready_def Let_def schedulable_def unready_proc_def split: if_splits)

lemma SchedUnready_defined: "schedulable (procs s p) \<Longrightarrow> \<exists>s'. SchedUnready p s = Some s'"
  by (simp add: SchedUnready_def schedulable_def Let_def)

lemma TaskWakeupFromISR_eq: "TaskWakeupFromISR r s = TaskWakeup r s"
  by (simp add: TaskWakeupFromISR_def TaskWakeup_def)

section \<open>Invariants\<close>

definition queued :: "'a sched_scheme \<Rightarrow> nat \<Rightarrow> bool" where
  "queued s p \<longleftrightarrow> p \<in> set (sched_queue s (priority (procs s p)))"

text \<open>Every run queue holds each of its tasks once, and only tasks of its priority.\<close>

definition runq_inv :: "'a sched_scheme \<Rightarrow> bool" where
  "runq_inv s \<longleftrightarrow> (\<forall>q. distinct (sched_queue s q))
     \<and> (\<forall>q. \<forall>p \<in> set (sched_queue s q). priority (procs s p) = q \<and> schedulable (procs s p))
     \<and> (\<forall>p. priority (procs s p) < 32 \<and> desired_priority (procs s p) < 32)
     \<and> \<not> schedulable (procs s (idle_process s))"

text \<open>The map has the bit of every run queue that holds a task.\<close>

definition bitmap_inv :: "'a sched_scheme \<Rightarrow> bool" where
  "bitmap_inv s \<longleftrightarrow> (\<forall>q < 32. bit (sched_queue_bitmap s) q \<longleftrightarrow> sched_queue s q \<noteq> [])"

text \<open>
  A task that waits for the BKL or for a condition variable is on one wait list only, once, has
  the state of its list, and is on no run queue.
\<close>

definition waits_inv :: "'a sched_scheme \<Rightarrow> bool" where
  "waits_inv s \<longleftrightarrow> distinct (bkl_blocked_list s) \<and> (\<forall>r. distinct (blocked_list s r))
     \<and> (\<forall>p \<in> set (bkl_blocked_list s). pstate (procs s p) = PROC_STATE_BKL_BLOCKED
          \<and> schedulable (procs s p) \<and> \<not> queued s p)
     \<and> (\<forall>r. \<forall>p \<in> set (blocked_list s r). pstate (procs s p) = PROC_STATE_RENDEZ_BLOCKED
          \<and> schedulable (procs s p) \<and> \<not> queued s p)
     \<and> (\<forall>r r'. r \<noteq> r' \<longrightarrow> set (blocked_list s r) \<inter> set (blocked_list s r') = {})"

text \<open>The running task is the first of its run queue, or it is the idle task.\<close>

definition current_inv :: "'a sched_scheme \<Rightarrow> bool" where
  "current_inv s \<longleftrightarrow> current s = idle_process s
     \<or> (\<exists>ps. sched_queue s (priority (procs s (current s))) = current s # ps)"

text \<open>
  A held BKL has an owner that can run; a free BKL has no task waiting for it.
\<close>

definition owner_inv :: "'a sched_scheme \<Rightarrow> bool" where
  "owner_inv s \<longleftrightarrow>
     (case bkl_owner s of
        Owner p \<Rightarrow> bkl_locked s \<and> (p = idle_process s \<or> queued s p)
      | Poison w \<Rightarrow> \<not> bkl_locked s \<and> bkl_blocked_list s = [])"

definition sched_inv :: "'a sched_scheme \<Rightarrow> bool" where
  "sched_inv s \<longleftrightarrow> runq_inv s \<and> waits_inv s \<and> current_inv s \<and> owner_inv s"

lemma sched_invI:
  "runq_inv s \<Longrightarrow> waits_inv s \<Longrightarrow> current_inv s \<Longrightarrow> owner_inv s \<Longrightarrow> sched_inv s"
  by (simp add: sched_inv_def)

lemma runq_queued_iff:
  "runq_inv s \<Longrightarrow> p \<in> set (sched_queue s q) \<longleftrightarrow> queued s p \<and> q = priority (procs s p)"
  by (auto simp: runq_inv_def queued_def)

lemma idle_not_queued: "runq_inv s \<Longrightarrow> \<not> queued s (idle_process s)"
  by (auto simp: runq_inv_def queued_def)

section \<open>The choice of the next task\<close>

lemma find_top_None: "find_top w n = None \<longleftrightarrow> (\<forall>k < n. \<not> bit w k)"
  by (induction n) (auto simp: and_shl1_eq_0_iff less_Suc_eq)

lemma find_top_Some:
  "find_top w n = Some q \<longleftrightarrow> q < n \<and> bit w q \<and> (\<forall>k. q < k \<longrightarrow> k < n \<longrightarrow> \<not> bit w k)"
proof (induction n)
  case 0
  then show ?case by simp
next
  case (Suc n)
  then show ?case
    by (cases "bit w n") (auto simp: and_shl1_eq_0_iff less_Suc_eq dest: leD)
qed

lemma sched_pick_queued:
  assumes "runq_inv s" "sched_pick s \<noteq> idle_process s"
  shows "\<exists>ps. sched_queue s (priority (procs s (sched_pick s))) = sched_pick s # ps"
proof -
  from assms(2) obtain q where q: "firstof (sched_queue s q) None = Some (sched_pick s)"
    by (auto simp: sched_pick_def Let_def split: option.splits if_splits)
  then obtain ps where ps: "sched_queue s q = sched_pick s # ps"
    by (cases "sched_queue s q") auto
  then have "priority (procs s (sched_pick s)) = q"
    using assms(1) by (auto simp: runq_inv_def)
  with ps show ?thesis by auto
qed

lemma sched_pick_top:
  assumes "bitmap_inv s"
  shows "(\<forall>q < 32. sched_queue s q = []) \<Longrightarrow> sched_pick s = idle_process s"
    and "q < 32 \<Longrightarrow> sched_queue s q = p # ps \<Longrightarrow>
      (\<forall>k < 32. q < k \<longrightarrow> sched_queue s k = []) \<Longrightarrow> sched_pick s = p"
proof -
  assume "\<forall>q < 32. sched_queue s q = []"
  with assms have "sched_queue_bitmap s = 0" by (simp add: bitmap_inv_def word32_eq_0_iff)
  then show "sched_pick s = idle_process s" by (simp add: sched_pick_def)
next
  assume q: "q < 32" "sched_queue s q = p # ps" "\<forall>k < 32. q < k \<longrightarrow> sched_queue s k = []"
  with assms have "find_top (sched_queue_bitmap s) 32 = Some q"
    by (simp add: find_top_Some bitmap_inv_def)
  moreover have "sched_queue_bitmap s \<noteq> 0"
    using q assms by (auto simp: bitmap_inv_def word32_eq_0_iff)
  ultimately show "sched_pick s = p"
    using q by (simp add: sched_pick_def)
qed

section \<open>Accounting\<close>

text \<open>The calls in which a task of the niceness scheduler moves to a lower run queue.\<close>

definition demotes :: "'a sched_scheme \<Rightarrow> bool" where
  "demotes s \<longleftrightarrow> sched_policy (procs s (current s)) = SCHED_OTHER
     \<and> quanta_used (procs s (current s)) + 1 = SCHED_QUANTA_JIFFIES
     \<and> priority (procs s (current s)) > 1"

text \<open>The running task is first of its queue, or has just left the run queues.\<close>

definition acct_ok :: "'a sched_scheme \<Rightarrow> bool" where
  "acct_ok s \<longleftrightarrow> current_inv s \<or> quanta_used (procs s (current s)) = 0"

lemma acct_ok_head:
  assumes "runq_inv s" "acct_ok s" "sched_policy (procs s (current s)) = SCHED_OTHER"
    "quanta_used (procs s (current s)) + 1 = SCHED_QUANTA_JIFFIES"
  shows "\<exists>ps. sched_queue s (priority (procs s (current s))) = current s # ps"
  using assms by (auto simp: acct_ok_def current_inv_def SCHED_QUANTA_JIFFIES_def runq_inv_def
      schedulable_def)

lemma account_stay:
  assumes "runq_inv s" "acct_ok s" "\<not> demotes s"
  shows "\<exists>s' n xs. resched_account s = Some s'
    \<and> procs s' = (procs s)(current s := (procs s (current s))\<lparr>quanta_used := n\<rparr>)
    \<and> sched_queue s' = (sched_queue s)(priority (procs s (current s)) := xs)
    \<and> set xs = set (sched_queue s (priority (procs s (current s)))) \<and> distinct xs
    \<and> sched_queue_bitmap s' = sched_queue_bitmap s
    \<and> current s' = current s \<and> idle_process s' = idle_process s
    \<and> bkl_locked s' = bkl_locked s \<and> bkl_owner s' = bkl_owner s
    \<and> bkl_blocked_list s' = bkl_blocked_list s \<and> blocked_list s' = blocked_list s
    \<and> sched.more s' = sched.more s"
proof -
  let ?q = "priority (procs s (current s))"
  have d: "distinct (sched_queue s ?q)" using assms(1) by (simp add: runq_inv_def)
  consider "sched_policy (procs s (current s)) = SCHED_RR"
    | "sched_policy (procs s (current s)) = SCHED_OTHER"
      "quanta_used (procs s (current s)) + 1 = SCHED_QUANTA_JIFFIES" "\<not> ?q > 1"
    | "sched_policy (procs s (current s)) \<noteq> SCHED_RR"
      "sched_policy (procs s (current s)) \<noteq> SCHED_OTHER
        \<or> quanta_used (procs s (current s)) + 1 \<noteq> SCHED_QUANTA_JIFFIES"
    using assms(3) unfolding demotes_def by blast
  then show ?thesis
  proof cases
    case 1
    then show ?thesis
      using d by (cases "sched_queue s ?q = []") (auto simp: resched_account_def Let_def fun_upd_idem)
  next
    case 2
    with acct_ok_head [OF assms(1,2)] obtain ps where "sched_queue s ?q = current s # ps" by auto
    with 2 d show ?thesis
      by (intro exI [of _ "the (resched_account s)"] exI [of _ 0] exI [of _ "ps @ [current s]"])
        (auto simp: resched_account_def Let_def)
  next
    case 3
    then show ?thesis
      using d by (intro exI [of _ "the (resched_account s)"]
          exI [of _ "quanta_used (procs s (current s)) + 1"] exI [of _ "sched_queue s ?q"])
        (auto simp: resched_account_def Let_def)
  qed
qed

lemma account_demote:
  assumes "runq_inv s" "acct_ok s" "demotes s"
  shows "\<exists>s' ps. resched_account s = Some s'
    \<and> sched_queue s (priority (procs s (current s))) = current s # ps
    \<and> procs s' = (procs s)(current s := (procs s (current s))
        \<lparr>quanta_used := 0, priority := priority (procs s (current s)) - 1\<rparr>)
    \<and> sched_queue s' = (sched_queue s)(priority (procs s (current s)) := ps,
        priority (procs s (current s)) - 1 :=
          sched_queue s (priority (procs s (current s)) - 1) @ [current s])
    \<and> sched_queue_bitmap s' = sched_queue_bitmap s
    \<and> current s' = current s \<and> idle_process s' = idle_process s
    \<and> bkl_locked s' = bkl_locked s \<and> bkl_owner s' = bkl_owner s
    \<and> bkl_blocked_list s' = bkl_blocked_list s \<and> blocked_list s' = blocked_list s
    \<and> sched.more s' = sched.more s"
proof -
  from acct_ok_head [OF assms(1,2)] assms(3) obtain ps
    where "sched_queue s (priority (procs s (current s))) = current s # ps"
    by (auto simp: demotes_def)
  with assms(3) show ?thesis
    by (intro exI [of _ "the (resched_account s)"] exI [of _ ps])
      (auto simp: resched_account_def demotes_def Let_def)
qed

text \<open>
  What the accounting keeps: which tasks are on the run queues, the states and policies of all
  tasks, and everything outside the run queues.
\<close>

lemma demote_inv:
  assumes "runq_inv s" and q: "priority (procs s (current s)) > 1"
    and s': "sched_queue s (priority (procs s (current s))) = current s # ps"
      "procs s' = (procs s)(current s := (procs s (current s))
          \<lparr>quanta_used := 0, priority := priority (procs s (current s)) - 1\<rparr>)"
      "sched_queue s' = (sched_queue s)(priority (procs s (current s)) := ps,
          priority (procs s (current s)) - 1 :=
            sched_queue s (priority (procs s (current s)) - 1) @ [current s])"
      "idle_process s' = idle_process s"
  shows "runq_inv s'" "queued s' p = queued s p"
proof -
  let ?q = "priority (procs s (current s))"
  have d: "distinct (current s # ps)"
    using assms(1) s'(1) by (metis runq_inv_def)
  have c: "current s \<in> set (sched_queue s k) \<longleftrightarrow> k = ?q" for k
    using assms(1) s'(1) by (auto simp: runq_inv_def)
  have mem: "x \<in> set (sched_queue s' k) \<longleftrightarrow>
      (if x = current s then k = ?q - 1 else x \<in> set (sched_queue s k))" for x k
    using d s'(1) c [of k] q by (auto simp: s'(3))
  have pr: "x \<noteq> current s \<Longrightarrow> procs s' x = procs s x"
    "priority (procs s' (current s)) = ?q - 1"
    "desired_priority (procs s' (current s)) = desired_priority (procs s (current s))"
    "schedulable (procs s' x) = schedulable (procs s x)" for x
    by (simp_all add: s'(2) schedulable_def)
  have b: "priority (procs s x) < 32" "desired_priority (procs s x) < 32" for x
    using assms(1) by (simp_all add: runq_inv_def)
  have m: "priority (procs s' x) = k \<and> schedulable (procs s x)"
    if "x \<in> set (sched_queue s' k)" for x k
  proof (cases "x = current s")
    case True
    then have "schedulable (procs s x)" using c [of ?q] assms(1) by (metis runq_inv_def)
    then show ?thesis using that True by (simp add: mem pr)
  next
    case False
    then have "x \<in> set (sched_queue s k)" using that by (simp add: mem)
    then show ?thesis using assms(1) pr(1) [OF False] by (metis runq_inv_def)
  qed
  have "distinct (sched_queue s' k)" for k
    using assms(1) d c [of "?q - 1"] q by (auto simp: s'(3) runq_inv_def)
  moreover have "priority (procs s' x) < 32 \<and> desired_priority (procs s' x) < 32" for x
    using b [of x] b [of "current s"] pr by (cases "x = current s") auto
  ultimately show "runq_inv s'"
    using assms(1) m unfolding runq_inv_def s'(4) pr(4) by blast
  show "queued s' p = queued s p" for p
    using c [of ?q] by (cases "p = current s") (simp_all add: queued_def mem pr)
qed

lemma account_inv:
  assumes "runq_inv s" "acct_ok s"
  shows "\<exists>s'. resched_account s = Some s' \<and> runq_inv s'
    \<and> (\<forall>p. queued s' p = queued s p \<and> pstate (procs s' p) = pstate (procs s p)
         \<and> sched_policy (procs s' p) = sched_policy (procs s p))
    \<and> current s' = current s \<and> idle_process s' = idle_process s
    \<and> bkl_locked s' = bkl_locked s \<and> bkl_owner s' = bkl_owner s
    \<and> bkl_blocked_list s' = bkl_blocked_list s \<and> blocked_list s' = blocked_list s
    \<and> sched.more s' = sched.more s
    \<and> (bitmap_inv s \<and> \<not> demotes s \<longrightarrow> bitmap_inv s')"
proof (cases "demotes s")
  case False
  from account_stay [OF assms False] obtain s' n xs where s':
    "resched_account s = Some s'"
    "procs s' = (procs s)(current s := (procs s (current s))\<lparr>quanta_used := n\<rparr>)"
    "sched_queue s' = (sched_queue s)(priority (procs s (current s)) := xs)"
    "set xs = set (sched_queue s (priority (procs s (current s))))" "distinct xs"
    "sched_queue_bitmap s' = sched_queue_bitmap s"
    "current s' = current s" "idle_process s' = idle_process s"
    "bkl_locked s' = bkl_locked s" "bkl_owner s' = bkl_owner s"
    "bkl_blocked_list s' = bkl_blocked_list s" "blocked_list s' = blocked_list s"
    "sched.more s' = sched.more s"
    by blast
  have "runq_inv s'"
    using assms(1) s' by (auto simp: runq_inv_def schedulable_def)
  moreover have "queued s' p = queued s p" for p
    using s' by (auto simp: queued_def)
  moreover have "bitmap_inv s \<Longrightarrow> bitmap_inv s'"
    using s' unfolding bitmap_inv_def by (auto simp flip: set_empty)
  ultimately show ?thesis using s' False by auto
next
  case True
  from account_demote [OF assms True] obtain s' ps where s':
    "resched_account s = Some s'"
    "sched_queue s (priority (procs s (current s))) = current s # ps"
    "procs s' = (procs s)(current s := (procs s (current s))
        \<lparr>quanta_used := 0, priority := priority (procs s (current s)) - 1\<rparr>)"
    "sched_queue s' = (sched_queue s)(priority (procs s (current s)) := ps,
        priority (procs s (current s)) - 1 :=
          sched_queue s (priority (procs s (current s)) - 1) @ [current s])"
    "current s' = current s" "idle_process s' = idle_process s"
    "bkl_locked s' = bkl_locked s" "bkl_owner s' = bkl_owner s"
    "bkl_blocked_list s' = bkl_blocked_list s" "blocked_list s' = blocked_list s"
    "sched.more s' = sched.more s"
    by blast
  have "priority (procs s (current s)) > 1" using True by (simp add: demotes_def)
  note this s'(2,3,4,6)
  from demote_inv [OF assms(1) this] show ?thesis using s' True by simp
qed

lemma Reschedule_inv:
  assumes "runq_inv s" "acct_ok s" "waits_inv s" "owner_inv s"
  shows "\<exists>s'. Reschedule s = Some s' \<and> sched_inv s'
    \<and> (\<forall>p. queued s' p = queued s p)
    \<and> idle_process s' = idle_process s
    \<and> bkl_locked s' = bkl_locked s \<and> bkl_owner s' = bkl_owner s
    \<and> bkl_blocked_list s' = bkl_blocked_list s \<and> blocked_list s' = blocked_list s
    \<and> sched.more s' = sched.more s
    \<and> (bitmap_inv s \<and> \<not> demotes s \<longrightarrow> bitmap_inv s')"
proof -
  from account_inv [OF assms(1,2)] obtain t where t:
    "resched_account s = Some t" "runq_inv t"
    "\<And>p. queued t p = queued s p" "\<And>p. pstate (procs t p) = pstate (procs s p)"
    "\<And>p. sched_policy (procs t p) = sched_policy (procs s p)"
    "idle_process t = idle_process s"
    "bkl_locked t = bkl_locked s" "bkl_owner t = bkl_owner s"
    "bkl_blocked_list t = bkl_blocked_list s" "blocked_list t = blocked_list s"
    "sched.more t = sched.more s" "bitmap_inv s \<and> \<not> demotes s \<longrightarrow> bitmap_inv t"
    by blast
  define n where "n = sched_pick t"
  define u where "u = (upd_proc n (\<lambda>p. p\<lparr>pstate := PROC_STATE_RUNNING\<rparr>) t)\<lparr>current := n\<rparr>"
  have eq: "Reschedule s = Some u"
    by (simp add: Reschedule_def t(1) u_def n_def Let_def)
  have u: "procs u = (procs t)(n := (procs t n)\<lparr>pstate := PROC_STATE_RUNNING\<rparr>)"
    "sched_queue u = sched_queue t" "sched_queue_bitmap u = sched_queue_bitmap t"
    "current u = n" "idle_process u = idle_process s" "bkl_locked u = bkl_locked s"
    "bkl_owner u = bkl_owner s" "bkl_blocked_list u = bkl_blocked_list s"
    "blocked_list u = blocked_list s" "sched.more u = sched.more s"
    by (simp_all add: u_def t)
  have n: "n = idle_process s \<or> (\<exists>ps. sched_queue t (priority (procs t n)) = n # ps)"
    using sched_pick_queued [OF t(2)] t(6) unfolding n_def by auto
  have qu: "queued u p = queued s p" for p
    using t(3) [of p] by (auto simp: queued_def u)
  have "queued t n \<or> n = idle_process t"
    using n t(6) by (auto simp: queued_def)
  then have nw: "n \<notin> set (bkl_blocked_list s)" "n \<notin> set (blocked_list s r)" for r
    using assms(3) idle_not_queued [OF t(2)] t(2,3,5,6) 
    by (auto simp: waits_inv_def runq_inv_def schedulable_def)
  have "runq_inv u" using t(2) u t(6) by (auto simp: runq_inv_def schedulable_def)
  moreover have "waits_inv u"
    using assms(3) nw t(4,5) qu u by (auto simp: waits_inv_def schedulable_def)
  moreover have "current_inv u" using n u by (auto simp: current_inv_def)
  moreover have "owner_inv u" using assms(4) u qu by (auto simp: owner_inv_def split: owner.splits)
  moreover have "bitmap_inv t \<Longrightarrow> bitmap_inv u" by (simp add: bitmap_inv_def u)
  ultimately show ?thesis using eq u qu t(12) by (auto simp: sched_inv_def)
qed

lemma SchedReady_inv:
  assumes "runq_inv s" "\<not> queued s p" "SchedReady p s = Some s'"
  shows "runq_inv s'" "queued s' x \<longleftrightarrow> queued s x \<or> x = p"
    "current_inv s \<Longrightarrow> current_inv s'" "bitmap_inv s \<Longrightarrow> bitmap_inv s'"
proof -
  note sel = SchedReady_sel [OF assms(3)]
  let ?q = "priority (procs s p)"
  have pq: "p \<notin> set (sched_queue s k)" for k
    using assms(1,2) by (simp add: runq_queued_iff)
  have pr: "priority (procs s' x) = priority (procs s x)"
    "desired_priority (procs s' x) = desired_priority (procs s x)"
    "schedulable (procs s' x) = schedulable (procs s x)" for x
    by (simp_all add: sel(2) schedulable_def)
  have mem: "set (sched_queue s' k) = (if k = ?q then insert p (set (sched_queue s k))
      else set (sched_queue s k))" for k
    by (simp add: sel(3))
  have "distinct (sched_queue s' k)" for k
    using assms(1) pq by (simp add: sel(3) runq_inv_def)
  then show "runq_inv s'"
    using assms(1) sel(1) unfolding runq_inv_def pr sel(6) mem by simp
  show "queued s' x \<longleftrightarrow> queued s x \<or> x = p"
    unfolding queued_def pr mem by auto
  show "current_inv s \<Longrightarrow> current_inv s'"
    unfolding current_inv_def pr sel(5,6) by (auto simp: sel(3))
  have "?q < 32" using assms(1) by (simp add: runq_inv_def)
  then show "bitmap_inv s \<Longrightarrow> bitmap_inv s'"
    unfolding bitmap_inv_def sel(3,4) by (simp add: bit_set1_iff)
qed

lemma SchedUnready_inv:
  assumes "runq_inv s" "queued s p" "SchedUnready p s = Some s'"
  shows "runq_inv s'" "queued s' x \<longleftrightarrow> queued s x \<and> x \<noteq> p" "bitmap_inv s \<Longrightarrow> bitmap_inv s'"
proof -
  note sel = SchedUnready_sel [OF assms(3)]
  let ?q = "priority (procs s p)"
  have pq: "p \<in> set (sched_queue s k) \<longleftrightarrow> k = ?q" for k
    using assms(1,2) by (simp add: runq_queued_iff)
  have d: "distinct (sched_queue s k)" for k
    using assms(1) by (simp add: runq_inv_def)
  have mem: "set (sched_queue s' k) = set (sched_queue s k) - {p}" for k
    using pq [of k] d [of k] by (auto simp: sel(3))
  have pr: "x \<noteq> p \<Longrightarrow> procs s' x = procs s x" for x
    by (simp add: sel(2))
  have p: "priority (procs s' p) < 32" "desired_priority (procs s' p) < 32"
    using assms(1) by (simp_all add: sel(2) runq_inv_def unready_proc_def)
  have idle: "idle_process s \<noteq> p"
    using assms(1) sel(1) by (auto simp: runq_inv_def)
  have "distinct (sched_queue s' k)" for k
    using d by (simp add: sel(3) distinct_remove1)
  moreover have "priority (procs s' x) < 32 \<and> desired_priority (procs s' x) < 32" for x
    using assms(1) p pr [of x] by (cases "x = p") (auto simp: runq_inv_def)
  ultimately show "runq_inv s'"
    using assms(1) idle unfolding runq_inv_def mem sel(6) by (simp add: pr) blast
  show "queued s' x \<longleftrightarrow> queued s x \<and> x \<noteq> p"
    unfolding queued_def mem by (cases "x = p") (simp_all add: pr)
  show "bitmap_inv s \<Longrightarrow> bitmap_inv s'"
    using pq [of ?q] unfolding bitmap_inv_def sel(3,4) by (auto simp: bit_clear1_iff)
qed

text \<open>
  Leaving the processor: the running task, on no wait list yet, is recorded on one, leaves its run
  queue, and another task is chosen.  \<open>s\<close> is the state in which the task is already on the list.
\<close>

lemma leave_inv:
  assumes inv: "runq_inv s" "queued s (current s)"
    and w: "\<And>t. SchedUnready (current s) s = Some t \<Longrightarrow> waits_inv t \<and> owner_inv t"
  shows "\<exists>s'. SchedUnready (current s) s \<bind> Reschedule = Some s' \<and> sched_inv s'
    \<and> (\<forall>p. queued s' p \<longleftrightarrow> queued s p \<and> p \<noteq> current s)
    \<and> idle_process s' = idle_process s
    \<and> bkl_locked s' = bkl_locked s \<and> bkl_owner s' = bkl_owner s
    \<and> bkl_blocked_list s' = bkl_blocked_list s \<and> blocked_list s' = blocked_list s
    \<and> sched.more s' = sched.more s \<and> (bitmap_inv s \<longrightarrow> bitmap_inv s')"
proof -
  from inv have "schedulable (procs s (current s))"
    by (auto simp: queued_def runq_inv_def)
  then obtain t where t: "SchedUnready (current s) s = Some t"
    using SchedUnready_defined by blast
  note ti = SchedUnready_inv [OF inv t] and sel = SchedUnready_sel [OF t]
  have q0: "quanta_used (procs t (current t)) = 0" by (simp add: sel)
  then have "acct_ok t" "\<not> demotes t"
    by (simp_all add: acct_ok_def demotes_def SCHED_QUANTA_JIFFIES_def)
  from Reschedule_inv [OF ti(1) this(1)] w [OF t] this(2) t ti sel show ?thesis
    by auto
qed

lemma KernelLock_inv:
  assumes "sched_inv s" "bkl_owner s \<noteq> Owner (current s)"
    "bkl_locked s \<longrightarrow> current s \<noteq> idle_process s"
  shows "\<exists>s'. KernelLock s = Some s' \<and> sched_inv s' \<and> (bitmap_inv s \<longrightarrow> bitmap_inv s')
    \<and> bkl_locked s' \<and> bkl_owner s' = (if bkl_locked s then bkl_owner s else Owner (current s))
    \<and> bkl_blocked_list s' =
        (if bkl_locked s then bkl_blocked_list s @ [current s] else bkl_blocked_list s)
    \<and> blocked_list s' = blocked_list s \<and> idle_process s' = idle_process s"
proof (cases "bkl_locked s")
  case False
  let ?s = "s\<lparr>bkl_locked := True, bkl_owner := Owner (current s)\<rparr>"
  have "queued s (current s) \<or> current s = idle_process s"
    using assms(1) by (auto simp: sched_inv_def current_inv_def queued_def)
  then have "sched_inv ?s" "bitmap_inv s \<Longrightarrow> bitmap_inv ?s"
    using assms(1)
    by (auto simp: sched_inv_def runq_inv_def waits_inv_def current_inv_def owner_inv_def
        queued_def bitmap_inv_def)
  then show ?thesis using False by (simp add: KernelLock_def)
next
  case True
  let ?s = "upd_proc (current s) (\<lambda>p. p\<lparr>pstate := PROC_STATE_BKL_BLOCKED\<rparr>)
              (s\<lparr>bkl_blocked_list := bkl_blocked_list s @ [current s]\<rparr>)"
  have c: "queued s (current s)"
    using assms True by (auto simp: sched_inv_def current_inv_def queued_def)
  have r: "runq_inv ?s" "queued ?s p = queued s p" for p
    using assms(1) by (auto simp: sched_inv_def runq_inv_def queued_def schedulable_def)
  have "waits_inv t \<and> owner_inv t" if t: "SchedUnready (current ?s) ?s = Some t" for t
  proof -
    note sel = SchedUnready_sel [OF t]
      and inv = SchedUnready_inv [OF r(1) _ t]
    have q: "queued t x \<longleftrightarrow> queued s x \<and> x \<noteq> current s" for x
      using inv(2) r(2) c by simp
    have "waits_inv t"
      using assms(1) c sel(1) q
      by (auto simp: sched_inv_def waits_inv_def sel(2-) schedulable_def)
    moreover have "owner_inv t"
      using assms(1,2) True q by (auto simp: sched_inv_def owner_inv_def sel(2-) split: owner.splits)
    ultimately show ?thesis ..
  qed
  from leave_inv [OF r(1) _ this] r(2) c True show ?thesis
    by (auto simp: KernelLock_def bitmap_inv_def Let_def)
qed

lemma queued_schedulable: "sched_inv s \<Longrightarrow> queued s p \<Longrightarrow> schedulable (procs s p)"
  by (simp add: sched_inv_def runq_inv_def queued_def)

lemma current_queued:
  "sched_inv s \<Longrightarrow> current s \<noteq> idle_process s \<Longrightarrow> queued s (current s)"
  by (auto simp: sched_inv_def current_inv_def queued_def)

lemma queued_not_waiting:
  "sched_inv s \<Longrightarrow> queued s p \<Longrightarrow> p \<notin> set (bkl_blocked_list s) \<and> p \<notin> set (blocked_list s r)"
  by (auto simp: sched_inv_def waits_inv_def)

lemma bkl_frame [simp]:
  "queued (s\<lparr>bkl_locked := b\<rparr>) = queued s" "queued (s\<lparr>bkl_owner := w\<rparr>) = queued s"
  "runq_inv (s\<lparr>bkl_locked := b\<rparr>) = runq_inv s" "runq_inv (s\<lparr>bkl_owner := w\<rparr>) = runq_inv s"
  "waits_inv (s\<lparr>bkl_locked := b\<rparr>) = waits_inv s" "waits_inv (s\<lparr>bkl_owner := w\<rparr>) = waits_inv s"
  "current_inv (s\<lparr>bkl_locked := b\<rparr>) = current_inv s"
  "current_inv (s\<lparr>bkl_owner := w\<rparr>) = current_inv s"
  "bitmap_inv (s\<lparr>bkl_locked := b\<rparr>) = bitmap_inv s" "bitmap_inv (s\<lparr>bkl_owner := w\<rparr>) = bitmap_inv s"
  by (simp_all add: fun_eq_iff queued_def runq_inv_def waits_inv_def current_inv_def bitmap_inv_def)

text \<open>The BKL passes to the first task that waits for it, which joins its run queue.\<close>

lemma pass_inv:
  assumes inv: "sched_inv s" and bl: "bkl_blocked_list s = p # ps"
    and s0: "s0 = upd_proc p (\<lambda>p. p\<lparr>pstate := PROC_STATE_READY\<rparr>)
      (s\<lparr>bkl_locked := True, bkl_owner := Owner p, bkl_blocked_list := ps\<rparr>)"
  shows "\<exists>s'. SchedReady p s0 = Some s' \<and> sched_inv s' \<and> (bitmap_inv s \<longrightarrow> bitmap_inv s')
    \<and> (\<forall>x. queued s' x \<longleftrightarrow> queued s x \<or> x = p)
    \<and> current s' = current s \<and> idle_process s' = idle_process s \<and> bkl_locked s'
    \<and> bkl_owner s' = Owner p \<and> bkl_blocked_list s' = ps \<and> blocked_list s' = blocked_list s
    \<and> sched.more s' = sched.more s"
proof -
  have p: "schedulable (procs s p)" "\<not> queued s p"
    "p \<notin> set ps" "\<And>r. p \<notin> set (blocked_list s r)"
    using inv bl by (auto simp: sched_inv_def waits_inv_def)
  have r0: "runq_inv s0" "\<And>x. queued s0 x = queued s x" "schedulable (procs s0 p)"
    "current_inv s0" "bitmap_inv s0 = bitmap_inv s"
    using inv p(1) by (auto simp: s0 sched_inv_def runq_inv_def queued_def schedulable_def
        current_inv_def bitmap_inv_def)
  from SchedReady_defined [OF r0(3)] obtain s' where s': "SchedReady p s0 = Some s'" by blast
  note i = SchedReady_inv [OF r0(1) _ s'] and sel = SchedReady_sel [OF s']
  have q: "queued s' x \<longleftrightarrow> queued s x \<or> x = p" for x
    using i(2) r0(2) p(2) by simp
  have "waits_inv s'"
    using inv bl p(3,4) unfolding sched_inv_def waits_inv_def q sel(2-) s0
    by (auto simp: schedulable_def)
  moreover have "owner_inv s'" by (simp add: owner_inv_def sel(2-) s0 q)
  ultimately show ?thesis
    using s' i(1,3,4) r0(2,4,5) p(2) q sel(5-) by (simp add: sched_inv_def s0)
qed

lemma KernelUnlock_inv:
  assumes "sched_inv s" "bkl_owner s = Owner (current s)"
  shows "\<exists>s'. KernelUnlock s = Some s' \<and> sched_inv s'
    \<and> (bitmap_inv s \<and> \<not> demotes s \<longrightarrow> bitmap_inv s')
    \<and> bkl_locked s' = (bkl_blocked_list s \<noteq> [])
    \<and> bkl_owner s' = (case bkl_blocked_list s of [] \<Rightarrow> Poison 0xcafef00d | p # ps \<Rightarrow> Owner p)
    \<and> bkl_blocked_list s' = tl (bkl_blocked_list s)
    \<and> blocked_list s' = blocked_list s \<and> idle_process s' = idle_process s
    \<and> sched.more s' = sched.more s"
proof -
  have l: "bkl_locked s" using assms by (simp add: sched_inv_def owner_inv_def)
  show ?thesis
  proof (cases "bkl_blocked_list s")
    case Nil
    then show ?thesis using assms(1) l
      by (simp add: KernelUnlock_def sched_inv_def owner_inv_def)
  next
    case (Cons p ps)
    from pass_inv [OF assms(1) Cons refl] obtain t where t:
      "SchedReady p (upd_proc p (\<lambda>p. p\<lparr>pstate := PROC_STATE_READY\<rparr>)
        (s\<lparr>bkl_locked := True, bkl_owner := Owner p, bkl_blocked_list := ps\<rparr>)) = Some t"
      "sched_inv t" "bitmap_inv s \<longrightarrow> bitmap_inv t" "current t = current s"
      "idle_process t = idle_process s" "bkl_locked t" "bkl_owner t = Owner p"
      "bkl_blocked_list t = ps" "blocked_list t = blocked_list s" "sched.more t = sched.more s"
      by blast
    have "current s \<noteq> p"
      using assms l Cons idle_not_queued [of s]
      by (auto simp: sched_inv_def owner_inv_def waits_inv_def runq_inv_def)
    with SchedReady_sel(2) [OF t(1)] have "procs t (current s) = procs s (current s)" by simp
    then have d: "demotes t = demotes s" by (simp add: demotes_def t(4))
    from t(2) have "runq_inv t" "acct_ok t" "waits_inv t" "owner_inv t"
      by (simp_all add: sched_inv_def acct_ok_def)
    from Reschedule_inv [OF this] t d show ?thesis
      by (auto simp: KernelUnlock_def Cons l)
  qed
qed

lemma bkl_pass_inv:
  assumes "sched_inv s" "bkl_owner s = Owner (current s)" "current s \<noteq> idle_process s"
  shows "\<exists>s'. bkl_pass w s = Some s' \<and> sched_inv s' \<and> (bitmap_inv s \<longrightarrow> bitmap_inv s')
    \<and> queued s' (current s) \<and> bkl_owner s' \<noteq> Owner (current s)
    \<and> current s' = current s \<and> idle_process s' = idle_process s
    \<and> bkl_locked s' = (bkl_blocked_list s \<noteq> [])
    \<and> bkl_owner s' = (case bkl_blocked_list s of [] \<Rightarrow> Poison w | p # ps \<Rightarrow> Owner p)
    \<and> bkl_blocked_list s' = tl (bkl_blocked_list s)
    \<and> blocked_list s' = blocked_list s \<and> sched.more s' = sched.more s"
proof -
  have l: "bkl_locked s" using assms by (simp add: sched_inv_def owner_inv_def)
  have c: "queued s (current s)" using assms(1,3) by (rule current_queued)
  show ?thesis
  proof (cases "bkl_blocked_list s")
    case Nil
    then show ?thesis using assms(1) c
      by (simp add: bkl_pass_def sched_inv_def owner_inv_def)
  next
    case (Cons p ps)
    let ?t = "upd_proc p (\<lambda>p. p\<lparr>pstate := PROC_STATE_READY\<rparr>) (s\<lparr>bkl_blocked_list := ps\<rparr>)"
    have "?t\<lparr>bkl_owner := Owner p\<rparr> = upd_proc p (\<lambda>p. p\<lparr>pstate := PROC_STATE_READY\<rparr>)
        (s\<lparr>bkl_locked := True, bkl_owner := Owner p, bkl_blocked_list := ps\<rparr>)"
      using l by (cases s) (simp add: upd_proc_def)
    moreover have "p \<noteq> current s" using queued_not_waiting [OF assms(1) c] Cons by auto
    ultimately show ?thesis
      using pass_inv [OF assms(1) Cons refl] Cons c by (auto simp: bkl_pass_def Let_def)
  qed
qed

text \<open>The running task, which does not own the BKL, goes to sleep or ends.\<close>

lemma block_inv:
  assumes inv: "sched_inv s" "queued s (current s)" "bkl_owner s \<noteq> Owner (current s)"
    and s0: "s0 = upd_proc (current s) (\<lambda>p. p\<lparr>pstate := st\<rparr>) (s\<lparr>blocked_list := bl\<rparr>)"
    and bl: "st = PROC_STATE_RENDEZ_BLOCKED
        \<and> bl = (blocked_list s)(r := blocked_list s r @ [current s])
      \<or> st = PROC_STATE_ZOMBIE \<and> bl = blocked_list s"
  shows "\<exists>s'. SchedUnready (current s) s0 \<bind> Reschedule = Some s' \<and> sched_inv s'
    \<and> (bitmap_inv s \<longrightarrow> bitmap_inv s') \<and> idle_process s' = idle_process s
    \<and> bkl_locked s' = bkl_locked s \<and> bkl_owner s' = bkl_owner s
    \<and> bkl_blocked_list s' = bkl_blocked_list s \<and> blocked_list s' = bl
    \<and> sched.more s' = sched.more s"
proof -
  have c: "current s0 = current s" by (simp add: s0)
  have nw: "current s \<notin> set (bkl_blocked_list s)" "current s \<notin> set (blocked_list s k)" for k
    using queued_not_waiting [OF inv(1,2)] by auto
  have r0: "runq_inv s0" "queued s0 p = queued s p" "bitmap_inv s0 = bitmap_inv s" for p
    using inv(1) by (auto simp: s0 sched_inv_def runq_inv_def queued_def schedulable_def bitmap_inv_def)
  have "waits_inv t \<and> owner_inv t" if t: "SchedUnready (current s0) s0 = Some t" for t
  proof -
    note sel = SchedUnready_sel [OF t]
    have q: "queued t x \<longleftrightarrow> queued s x \<and> x \<noteq> current s" for x
      using SchedUnready_inv(2) [OF r0(1) _ t] r0(2) inv(2) c by simp
    have w: "waits_inv s" using inv(1) by (simp add: sched_inv_def)
    have "waits_inv t"
      using bl
    proof
      assume "st = PROC_STATE_RENDEZ_BLOCKED
        \<and> bl = (blocked_list s)(r := blocked_list s r @ [current s])"
      then show ?thesis using w nw sel(1) q unfolding waits_inv_def sel(2-) s0
        by (auto simp: schedulable_def)
    next
      assume "st = PROC_STATE_ZOMBIE \<and> bl = blocked_list s"
      then show ?thesis using w nw q unfolding waits_inv_def sel(2-) s0
        by (auto simp: schedulable_def)
    qed
    moreover have "owner_inv t"
      using inv(1,3) q by (auto simp: sched_inv_def owner_inv_def sel(2-) s0 split: owner.splits)
    ultimately show ?thesis ..
  qed
  from leave_inv [OF r0(1) _ this] r0(2) inv(2) c obtain s' where
    "SchedUnready (current s) s0 \<bind> Reschedule = Some s'" "sched_inv s'"
    "idle_process s' = idle_process s0" "bkl_locked s' = bkl_locked s0"
    "bkl_owner s' = bkl_owner s0" "bkl_blocked_list s' = bkl_blocked_list s0"
    "blocked_list s' = blocked_list s0" "sched.more s' = sched.more s0"
    "bitmap_inv s0 \<longrightarrow> bitmap_inv s'"
    by metis
  then show ?thesis using r0(3) by (simp add: s0)
qed

lemma TaskSleep_inv:
  assumes "sched_inv s" "bkl_owner s = Owner (current s)" "current s \<noteq> idle_process s"
  shows "\<exists>s'. TaskSleep r s = Some s' \<and> sched_inv s' \<and> (bitmap_inv s \<longrightarrow> bitmap_inv s')
    \<and> idle_process s' = idle_process s
    \<and> bkl_locked s' = (bkl_blocked_list s \<noteq> [])
    \<and> bkl_owner s' = (case bkl_blocked_list s of [] \<Rightarrow> Poison 0xdeadbeef | p # ps \<Rightarrow> Owner p)
    \<and> bkl_blocked_list s' = tl (bkl_blocked_list s)
    \<and> blocked_list s' = (blocked_list s)(r := blocked_list s r @ [current s])
    \<and> sched.more s' = sched.more s"
proof -
  from bkl_pass_inv [OF assms, of "0xdeadbeef"] obtain t where t:
    "bkl_pass 0xdeadbeef s = Some t" "sched_inv t" "bitmap_inv s \<longrightarrow> bitmap_inv t"
    "queued t (current t)" "bkl_owner t \<noteq> Owner (current t)" "current t = current s"
    "idle_process t = idle_process s" "bkl_locked t = (bkl_blocked_list s \<noteq> [])"
    "bkl_owner t = (case bkl_blocked_list s of [] \<Rightarrow> Poison 0xdeadbeef | p # ps \<Rightarrow> Owner p)"
    "bkl_blocked_list t = tl (bkl_blocked_list s)" "blocked_list t = blocked_list s"
    "sched.more t = sched.more s"
    by metis
  from block_inv [OF t(2,4,5) refl disjI1, of PROC_STATE_RENDEZ_BLOCKED _ r] t show ?thesis
    by (auto simp: TaskSleep_def Let_def)
qed

lemma exit_switch_inv:
  assumes "sched_inv s" "bkl_owner s = Owner (current s)" "current s \<noteq> idle_process s"
  shows "\<exists>s'. exit_switch s = Some s' \<and> sched_inv s' \<and> (bitmap_inv s \<longrightarrow> bitmap_inv s')
    \<and> idle_process s' = idle_process s \<and> bkl_blocked_list s' = tl (bkl_blocked_list s)
    \<and> bkl_owner s' = (case bkl_blocked_list s of [] \<Rightarrow> Poison 0 | p # ps \<Rightarrow> Owner p)
    \<and> blocked_list s' = blocked_list s"
proof -
  from bkl_pass_inv [OF assms, of 0] obtain t where t:
    "bkl_pass 0 s = Some t" "sched_inv t" "bitmap_inv s \<longrightarrow> bitmap_inv t"
    "queued t (current t)" "bkl_owner t \<noteq> Owner (current t)" "current t = current s"
    "idle_process t = idle_process s"
    "bkl_blocked_list t = tl (bkl_blocked_list s)" "blocked_list t = blocked_list s"
    "bkl_owner t = (case bkl_blocked_list s of [] \<Rightarrow> Poison 0 | p # ps \<Rightarrow> Owner p)"
    by metis
  have e: "t\<lparr>blocked_list := blocked_list t\<rparr> = t" by (cases t) simp
  from block_inv [OF t(2,4,5) refl disjI2, of PROC_STATE_ZOMBIE "blocked_list t"] t
  show ?thesis unfolding e
    by (auto simp: exit_switch_def Let_def)
qed

lemma TaskWakeup_sel:
  "sched_queue (TaskWakeup r s) = sched_queue s"
  "sched_queue_bitmap (TaskWakeup r s) = sched_queue_bitmap s"
  "current (TaskWakeup r s) = current s" "idle_process (TaskWakeup r s) = idle_process s"
  "bkl_locked (TaskWakeup r s) = bkl_locked s" "bkl_owner (TaskWakeup r s) = bkl_owner s"
  "bkl_blocked_list (TaskWakeup r s) = bkl_blocked_list s @ take 1 (blocked_list s r)"
  "blocked_list (TaskWakeup r s) = (blocked_list s)(r := tl (blocked_list s r))"
  "sched.more (TaskWakeup r s) = sched.more s"
  by (auto simp: TaskWakeup_def fun_upd_idem split: list.splits)

text \<open>Moving a task from any place of a wait list to the end of the BKL's list.\<close>

definition wake_entry :: "rendez \<Rightarrow> nat \<Rightarrow> 'a sched_scheme \<Rightarrow> 'a sched_scheme" where
  "wake_entry r p s = upd_proc p (\<lambda>p. p\<lparr>pstate := PROC_STATE_BKL_BLOCKED\<rparr>)
     (s\<lparr>blocked_list := (blocked_list s)(r := remove1 p (blocked_list s r)),
        bkl_blocked_list := bkl_blocked_list s @ [p]\<rparr>)"

lemma wake_entry_inv:
  assumes inv: "sched_inv s" "bkl_locked s" and p: "p \<in> set (blocked_list s r)"
  shows "sched_inv (wake_entry r p s)"
proof -
  have pr: "priority (procs (wake_entry r p s) x) = priority (procs s x)"
    "desired_priority (procs (wake_entry r p s) x) = desired_priority (procs s x)"
    "schedulable (procs (wake_entry r p s) x) = schedulable (procs s x)"
    "pstate (procs (wake_entry r p s) x) =
       (if x = p then PROC_STATE_BKL_BLOCKED else pstate (procs s x))"
    for x by (simp_all add: wake_entry_def schedulable_def)
  have fr: "sched_queue (wake_entry r p s) = sched_queue s"
    "current (wake_entry r p s) = current s" "idle_process (wake_entry r p s) = idle_process s"
    "bkl_locked (wake_entry r p s) = bkl_locked s" "bkl_owner (wake_entry r p s) = bkl_owner s"
    "bkl_blocked_list (wake_entry r p s) = bkl_blocked_list s @ [p]"
    "blocked_list (wake_entry r p s) = (blocked_list s)(r := remove1 p (blocked_list s r))"
    by (simp_all add: wake_entry_def)
  have q: "queued (wake_entry r p s) x = queued s x" for x by (simp add: queued_def pr fr)
  have w: "waits_inv s" using inv(1) by (simp add: sched_inv_def)
  have p': "p \<notin> set (bkl_blocked_list s)" "schedulable (procs s p)" "\<not> queued s p"
    using w p unfolding waits_inv_def by (metis proc_state.distinct)+
  have d: "distinct (blocked_list s k)" "k \<noteq> r \<Longrightarrow> p \<notin> set (blocked_list s k)" for k
    using w p unfolding waits_inv_def by (metis disjoint_iff)+
  have dj: "x \<in> set (blocked_list s k) \<Longrightarrow> k \<noteq> k' \<Longrightarrow> x \<notin> set (blocked_list s k')" for x k k'
    using w unfolding waits_inv_def by (metis disjoint_iff)
  have "waits_inv (wake_entry r p s)"
    using w p' d dj unfolding waits_inv_def pr q fr
    by (auto simp: set_remove1_eq split: if_splits)
  moreover have "runq_inv (wake_entry r p s)" "current_inv (wake_entry r p s)"
    using inv(1) by (simp_all add: sched_inv_def runq_inv_def current_inv_def pr fr)
  moreover have "owner_inv (wake_entry r p s)"
    using inv by (simp add: sched_inv_def owner_inv_def q fr split: owner.splits)
  ultimately show ?thesis by (simp add: sched_inv_def)
qed

lemma TaskWakeup_entry:
  "TaskWakeup r s = (case blocked_list s r of [] \<Rightarrow> s | p # ps \<Rightarrow> wake_entry r p s)"
  by (simp add: TaskWakeup_def wake_entry_def split: list.splits)

lemma TaskWakeup_inv:
  assumes "sched_inv s" "bkl_locked s"
  shows "sched_inv (TaskWakeup r s)" "bitmap_inv (TaskWakeup r s) = bitmap_inv s"
proof -
  show "sched_inv (TaskWakeup r s)"
    using assms wake_entry_inv [OF assms] by (simp add: TaskWakeup_entry split: list.splits)
  show "bitmap_inv (TaskWakeup r s) = bitmap_inv s" by (simp add: bitmap_inv_def TaskWakeup_sel)
qed

lemma TaskWakeupAll_inv:
  assumes "sched_inv s" "bkl_locked s"
  shows "sched_inv (TaskWakeupAll r s) \<and> bitmap_inv (TaskWakeupAll r s) = bitmap_inv s
    \<and> bkl_blocked_list (TaskWakeupAll r s) = bkl_blocked_list s @ blocked_list s r
    \<and> blocked_list (TaskWakeupAll r s) = (blocked_list s)(r := [])
    \<and> current (TaskWakeupAll r s) = current s \<and> idle_process (TaskWakeupAll r s) = idle_process s
    \<and> bkl_owner (TaskWakeupAll r s) = bkl_owner s \<and> bkl_locked (TaskWakeupAll r s)
    \<and> sched.more (TaskWakeupAll r s) = sched.more s"
  using assms
proof (induction r s rule: TaskWakeupAll.induct)
  case (1 r s)
  let ?t = "TaskWakeup r s"
  note t = TaskWakeup_inv [OF 1(2,3), of r] TaskWakeup_sel [of r s]
  show ?case
  proof (cases "blocked_list ?t r = []")
    case True
    then have "blocked_list s r = take 1 (blocked_list s r)"
      by (cases "blocked_list s r") (simp_all add: t)
    then show ?thesis using True t 1(3) by (simp add: TaskWakeupAll.simps [of r s] Let_def)
  next
    case False
    then have "take 1 (blocked_list s r) @ tl (blocked_list s r) = blocked_list s r"
      by (cases "blocked_list s r") simp_all
    then show ?thesis
      using False 1(1) [OF refl False] t 1(3)
      by (simp add: TaskWakeupAll.simps [of r s] Let_def fun_eq_iff)
  qed
qed

lemma fork_start_inv:
  assumes inv: "sched_inv s" "current s \<noteq> idle_process s"
    and p: "\<not> queued s p" "p \<noteq> idle_process s" "p \<notin> set (bkl_blocked_list s)"
      "\<And>r. p \<notin> set (blocked_list s r)"
  shows "\<exists>s'. fork_start p s = Some s' \<and> sched_inv s' \<and> (bitmap_inv s \<longrightarrow> bitmap_inv s')
    \<and> queued s' p \<and> current s' = current s \<and> idle_process s' = idle_process s
    \<and> bkl_locked s' = bkl_locked s \<and> bkl_owner s' = bkl_owner s
    \<and> bkl_blocked_list s' = bkl_blocked_list s \<and> blocked_list s' = blocked_list s
    \<and> sched.more s' = sched.more s"
proof -
  define s0 where "s0 = upd_proc p (\<lambda>p. p\<lparr>pstate := PROC_STATE_READY\<rparr>)
    (upd_proc p (\<lambda>_. child_process (procs s (current s))) s)"
  have c: "queued s (current s)" using inv by (rule current_queued)
  have pc: "p \<noteq> current s" using c p(1) by auto
  have nq: "p \<notin> set (sched_queue s k)" for k
    using inv(1) p(1) by (simp add: sched_inv_def runq_queued_iff)
  have sc: "schedulable (procs s (current s))" "priority (procs s (current s)) < 32"
    "desired_priority (procs s (current s)) < 32"
    using inv(1) queued_schedulable [OF inv(1) c] by (simp_all add: sched_inv_def runq_inv_def)
  have r0: "runq_inv s0" "\<not> queued s0 p" "schedulable (procs s0 p)" "current_inv s0"
    "bitmap_inv s0 = bitmap_inv s" "\<And>x. x \<noteq> p \<Longrightarrow> queued s0 x = queued s x"
    using inv(1) sc nq p(2) pc
    by (auto simp: s0_def child_process_def schedulable_def runq_inv_def queued_def sched_inv_def
        current_inv_def bitmap_inv_def)
  from SchedReady_defined [OF r0(3)] obtain s' where s': "SchedReady p s0 = Some s'" by blast
  note i = SchedReady_inv [OF r0(1,2) s'] and sel = SchedReady_sel [OF s']
  have q: "queued s' x \<longleftrightarrow> queued s x \<or> x = p" for x
    using i(2) r0(2,6) p(1) by (cases "x = p") simp_all
  have "waits_inv s'"
    using inv(1) p(3,4) unfolding sched_inv_def waits_inv_def q sel(2-) s0_def
    by (auto simp: schedulable_def)
  moreover have "owner_inv s'"
    using inv(1) q by (auto simp: sched_inv_def owner_inv_def sel(2-) s0_def split: owner.splits)
  ultimately show ?thesis
    using s' i(1,3,4) r0(4,5) q sel(5-) by (simp add: sched_inv_def s0_def fork_start_def)
qed

lemma change_params_inv:
  assumes inv: "sched_inv s" "current s \<noteq> idle_process s"
    and pol: "pol \<in> {SCHED_RR, SCHED_FIFO, SCHED_OTHER}" "q < 32"
    and t: "SchedUnready (current s) s = Some t"
    and u: "u = upd_proc (current s)
      (\<lambda>p. p\<lparr>sched_policy := pol, desired_priority := q, priority := q\<rparr>) t"
  shows "\<exists>s'. SchedReady (current s) u \<bind> Reschedule = Some s' \<and> sched_inv s'
    \<and> (bitmap_inv s \<longrightarrow> bitmap_inv s') \<and> idle_process s' = idle_process s
    \<and> bkl_locked s' = bkl_locked s \<and> bkl_owner s' = bkl_owner s
    \<and> bkl_blocked_list s' = bkl_blocked_list s \<and> blocked_list s' = blocked_list s
    \<and> sched.more s' = sched.more s"
proof -
  let ?c = "current s"
  have c: "queued s ?c" using inv by (rule current_queued)
  have ri: "runq_inv s" using inv(1) by (simp add: sched_inv_def)
  note ti = SchedUnready_inv [OF ri c t] and ts = SchedUnready_sel [OF t]
  have nq: "?c \<notin> set (sched_queue t k)" for k
    using ti(1,2) by (simp add: runq_queued_iff)
  have pr: "x \<noteq> ?c \<Longrightarrow> procs u x = procs t x" "schedulable (procs u ?c)"
    "priority (procs u ?c) = q" "desired_priority (procs u ?c) = q" for x
    using pol by (simp_all add: u schedulable_def)
  have b: "priority (procs u x) < 32 \<and> desired_priority (procs u x) < 32" for x
    using ti(1) pr(1) [of x] pr(3,4) pol(2) by (cases "x = ?c") (simp_all add: runq_inv_def)
  have sq: "sched_queue u = sched_queue t" "idle_process u = idle_process t" by (simp_all add: u)
  have r0: "\<not> queued u ?c" "bitmap_inv u = bitmap_inv t" "\<And>x. x \<noteq> ?c \<Longrightarrow> queued u x = queued t x"
    using nq by (simp_all add: u queued_def bitmap_inv_def)
  have "x \<noteq> ?c" if "x \<in> set (sched_queue t k)" for x k using nq that by metis
  then have ru: "runq_inv u"
    using ti(1) b pr(1) inv(2) ts(6) unfolding runq_inv_def sq by metis
  from SchedReady_defined [OF pr(2)] obtain v where v: "SchedReady ?c u = Some v" by blast
  note i = SchedReady_inv [OF ru r0(1) v] and sel = SchedReady_sel [OF v]
  have q: "queued v x \<longleftrightarrow> queued s x" for x
    using i(2) r0(1,3) ti(2) c by (cases "x = ?c") simp_all
  have "waits_inv v"
    using inv(1) queued_not_waiting [OF inv(1) c] unfolding sched_inv_def waits_inv_def q sel(2-) u
    by (auto simp: schedulable_def ts(2-))
  moreover have "owner_inv v"
    using inv(1) q by (auto simp: sched_inv_def owner_inv_def sel(2-) u ts(2-) split: owner.splits)
  moreover have "quanta_used (procs v (current v)) = 0" by (simp add: sel(2-) u ts)
  then have "acct_ok v" "\<not> demotes v"
    by (simp_all add: acct_ok_def demotes_def SCHED_QUANTA_JIFFIES_def)
  ultimately show ?thesis
    using Reschedule_inv [OF i(1)] v i(4) r0(2) ti(3) sel(6-) ts(6-) by (auto simp: u)
qed

text \<open>Either the parameters are refused, or they take effect and another task may be chosen.\<close>

definition params_error :: "policy \<Rightarrow> int \<Rightarrow> process \<Rightarrow> errno option" where
  "params_error pol prio c =
     (if pol \<in> {SCHED_RR, SCHED_FIFO} \<and> (pflags c AND PROCF_ALLOW_IO) = 0 then Some EPERM
      else if pol \<in> {SCHED_RR, SCHED_FIFO} \<and> 16 \<le> prio \<and> prio \<le> 31
        \<or> pol = SCHED_OTHER \<and> 0 \<le> prio \<and> prio \<le> 15 then None
      else Some EINVAL)"

lemma sys_setschedparams_inv:
  assumes inv: "sched_inv s" "current s \<noteq> idle_process s"
  shows "\<exists>r s'. sys_setschedparams pol prio s = Some (r, s') \<and> sched_inv s'
    \<and> (bitmap_inv s \<longrightarrow> bitmap_inv s')
    \<and> (case params_error pol prio (procs s (current s)) of
         Some e \<Rightarrow> r = Inl e \<and> s' = s | None \<Rightarrow> r = Inr ())
    \<and> idle_process s' = idle_process s
    \<and> bkl_locked s' = bkl_locked s \<and> bkl_owner s' = bkl_owner s
    \<and> bkl_blocked_list s' = bkl_blocked_list s \<and> blocked_list s' = blocked_list s
    \<and> sched.more s' = sched.more s"
proof (cases "params_error pol prio (procs s (current s))")
  case (Some e)
  then have "sys_setschedparams pol prio s = Some (Inl e, s)"
    by (auto simp: sys_setschedparams_def params_error_def Let_def split: if_splits)
  then show ?thesis using Some inv by simp
next
  case None
  then have pol: "pol \<in> {SCHED_RR, SCHED_FIFO, SCHED_OTHER}" "nat prio < 32"
    by (auto simp: params_error_def split: if_splits)
  have "schedulable (procs s (current s))"
    using queued_schedulable current_queued inv by metis
  from SchedUnready_defined [OF this] obtain t where t: "SchedUnready (current s) s = Some t"
    by blast
  from change_params_inv [OF inv pol t refl] obtain s' where
    s': "SchedReady (current s) (upd_proc (current s) (\<lambda>p. p\<lparr>sched_policy := pol,
        desired_priority := nat prio, priority := nat prio\<rparr>) t) \<bind> Reschedule = Some s'"
      "sched_inv s'" "bitmap_inv s \<longrightarrow> bitmap_inv s'" "idle_process s' = idle_process s"
      "bkl_locked s' = bkl_locked s" "bkl_owner s' = bkl_owner s"
      "bkl_blocked_list s' = bkl_blocked_list s" "blocked_list s' = blocked_list s"
      "sched.more s' = sched.more s"
    by blast
  have "sys_setschedparams pol prio s = (SchedReady (current s) (upd_proc (current s)
      (\<lambda>p. p\<lparr>sched_policy := pol, desired_priority := nat prio, priority := nat prio\<rparr>) t)
      \<bind> Reschedule) \<bind> (\<lambda>s. Some (Inr (), s))"
    using None t
    by (auto simp: sys_setschedparams_def params_error_def Let_def split: if_splits)
  then show ?thesis using None s' by auto
qed

text \<open>The zeroed memory in which the kernel starts.\<close>

definition zeroed :: "'a sched_scheme \<Rightarrow> bool" where
  "zeroed s \<longleftrightarrow> sched_queue_bitmap s = 0 \<and> (\<forall>q. sched_queue s q = [])
     \<and> (\<forall>r. blocked_list s r = []) \<and> (\<forall>p. pstate (procs s p) = PROC_STATE_UNALLOC
          \<and> priority (procs s p) = 0 \<and> desired_priority (procs s p) = 0)"

section \<open>Steps\<close>

text \<open>
  The steps of the kernel that touch the scheduler.  A system call or an interrupt enters with
  \<open>KernelLock\<close> (the interrupt handler only when the lock is free, which is the one case in which
  the idle task locks) and leaves with \<open>KernelUnlock\<close>; sleeping, forking, exiting and changing
  parameters happen in between, by the owner of the lock.  Wakeups happen with the lock held, also
  from an interrupt that finds it held by another task.  The timer interrupt charges the running
  task at any time.
\<close>

inductive sched_step :: "'a sched_scheme \<Rightarrow> 'a sched_scheme \<Rightarrow> bool" where
  lock: "\<lbrakk>bkl_owner s \<noteq> Owner (current s); bkl_locked s \<longrightarrow> current s \<noteq> idle_process s;
     KernelLock s = Some s'\<rbrakk> \<Longrightarrow> sched_step s s'"
| unlock: "\<lbrakk>bkl_owner s = Owner (current s); KernelUnlock s = Some s'\<rbrakk> \<Longrightarrow> sched_step s s'"
| sleep: "\<lbrakk>bkl_owner s = Owner (current s); current s \<noteq> idle_process s;
     TaskSleep r s = Some s'\<rbrakk> \<Longrightarrow> sched_step s s'"
| wakeup: "bkl_locked s \<Longrightarrow> sched_step s (TaskWakeup r s)"
| wakeup_isr: "bkl_locked s \<Longrightarrow> sched_step s (TaskWakeupFromISR r s)"
| wakeup_all: "bkl_locked s \<Longrightarrow> sched_step s (TaskWakeupAll r s)"
| fork: "\<lbrakk>bkl_owner s = Owner (current s); current s \<noteq> idle_process s; \<not> queued s p;
     p \<noteq> idle_process s; p \<notin> set (bkl_blocked_list s); \<forall>r. p \<notin> set (blocked_list s r);
     fork_start p s = Some s'\<rbrakk> \<Longrightarrow> sched_step s s'"
| exit: "\<lbrakk>bkl_owner s = Owner (current s); current s \<noteq> idle_process s;
     exit_switch s = Some s'\<rbrakk> \<Longrightarrow> sched_step s s'"
| tick: "sched_step s (quanta_tick s)"
| setparams: "\<lbrakk>bkl_owner s = Owner (current s); current s \<noteq> idle_process s;
     sys_setschedparams pol prio s = Some (r, s')\<rbrakk> \<Longrightarrow> sched_step s s'"

inductive sched_reachable :: "'a sched_scheme \<Rightarrow> bool" where
  boot: "zeroed s \<Longrightarrow> init_processes s = Some s' \<Longrightarrow> sched_reachable s'"
| step: "sched_reachable s \<Longrightarrow> sched_step s s' \<Longrightarrow> sched_reachable s'"

lemma quanta_tick_inv:
  "sched_inv (quanta_tick s) = sched_inv s" "bitmap_inv (quanta_tick s) = bitmap_inv s"
proof -
  have pr: "priority (procs (quanta_tick s) p) = priority (procs s p)"
    "desired_priority (procs (quanta_tick s) p) = desired_priority (procs s p)"
    "pstate (procs (quanta_tick s) p) = pstate (procs s p)"
    "schedulable (procs (quanta_tick s) p) = schedulable (procs s p)" for p
    by (simp_all add: quanta_tick_def schedulable_def)
  have fr: "sched_queue (quanta_tick s) = sched_queue s" "current (quanta_tick s) = current s"
    "idle_process (quanta_tick s) = idle_process s" "bkl_locked (quanta_tick s) = bkl_locked s"
    "bkl_owner (quanta_tick s) = bkl_owner s" "blocked_list (quanta_tick s) = blocked_list s"
    "bkl_blocked_list (quanta_tick s) = bkl_blocked_list s"
    "sched_queue_bitmap (quanta_tick s) = sched_queue_bitmap s"
    by (simp_all add: quanta_tick_def)
  have q: "queued (quanta_tick s) = queued s" by (simp add: queued_def fun_eq_iff pr fr)
  show "sched_inv (quanta_tick s) = sched_inv s" "bitmap_inv (quanta_tick s) = bitmap_inv s"
    unfolding sched_inv_def runq_inv_def waits_inv_def current_inv_def owner_inv_def bitmap_inv_def
      pr fr q by (rule refl)+
qed

lemma sched_step_inv:
  assumes "sched_step s s'" "sched_inv s"
  shows "sched_inv s' \<and> idle_process s' = idle_process s
    \<and> (bitmap_inv s \<and> \<not> demotes s \<longrightarrow> bitmap_inv s')"
  using assms
proof (cases rule: sched_step.cases)
  case lock
  then show ?thesis using KernelLock_inv [OF assms(2)] by auto
next
  case unlock
  then show ?thesis using KernelUnlock_inv [OF assms(2)] by auto
next
  case (sleep r)
  then show ?thesis using TaskSleep_inv [OF assms(2), of r] by auto
next
  case (wakeup r)
  then show ?thesis using TaskWakeup_inv [OF assms(2), of r] by (simp add: TaskWakeup_sel)
next
  case (wakeup_isr r)
  then show ?thesis
    using TaskWakeup_inv [OF assms(2), of r] by (simp add: TaskWakeup_sel TaskWakeupFromISR_eq)
next
  case (wakeup_all r)
  then show ?thesis using TaskWakeupAll_inv [OF assms(2), of r] by simp
next
  case (fork p)
  then show ?thesis using fork_start_inv [OF assms(2), of p] by auto
next
  case exit
  then show ?thesis using exit_switch_inv [OF assms(2)] by auto
next
  case tick
  then show ?thesis using assms(2) quanta_tick_inv [of s] by (simp add: quanta_tick_def)
next
  case (setparams pol prio r)
  then show ?thesis using sys_setschedparams_inv [OF assms(2), of pol prio] by auto
qed

section \<open>No task is lost\<close>

text \<open>A task whose state says that it waits is on a list from which it can be woken.\<close>

definition found_inv :: "'a sched_scheme \<Rightarrow> bool" where
  "found_inv s \<longleftrightarrow>
     (\<forall>p. pstate (procs s p) = PROC_STATE_RENDEZ_BLOCKED \<longrightarrow> (\<exists>r. p \<in> set (blocked_list s r)))
     \<and> (\<forall>p. pstate (procs s p) = PROC_STATE_BKL_BLOCKED \<longrightarrow> p \<in> set (bkl_blocked_list s))"

lemma found_cong:
  assumes "\<And>p. pstate (procs s' p) = pstate (procs s p)" "blocked_list s' = blocked_list s"
    "bkl_blocked_list s' = bkl_blocked_list s"
  shows "found_inv s' = found_inv s"
  unfolding found_inv_def assms by (rule refl)

lemma SchedReady_found: "SchedReady p s = Some s' \<Longrightarrow> found_inv s' = found_inv s"
  by (rule found_cong) (simp_all add: SchedReady_sel)

lemma SchedUnready_found: "SchedUnready p s = Some s' \<Longrightarrow> found_inv s' = found_inv s"
  by (rule found_cong) (simp_all add: SchedUnready_sel)

lemma resched_account_found:
  assumes "resched_account s = Some s'"
  shows "found_inv s' = found_inv s"
  by (rule found_cong)
    (use assms in \<open>auto simp: resched_account_def Let_def split: if_splits list.splits\<close>)

lemma Reschedule_found:
  assumes "Reschedule s = Some s'" "found_inv s"
  shows "found_inv s'"
proof -
  from assms(1) obtain t where t: "resched_account s = Some t"
    "s' = (upd_proc (sched_pick t) (\<lambda>p. p\<lparr>pstate := PROC_STATE_RUNNING\<rparr>) t)\<lparr>current := sched_pick t\<rparr>"
    by (auto simp: Reschedule_def Let_def split: Option.bind_splits)
  have "found_inv t" using resched_account_found [OF t(1)] assms(2) by simp
  then show ?thesis by (simp add: t(2) found_inv_def)
qed

lemmas found_simps = SchedReady_found SchedUnready_found Reschedule_found

lemma KernelLock_found:
  assumes "KernelLock s = Some s'" "found_inv s"
  shows "found_inv s'"
proof (cases "bkl_locked s")
  case False
  then show ?thesis using assms by (auto simp: KernelLock_def found_inv_def Let_def)
next
  case True
  let ?t = "upd_proc (current s) (\<lambda>p. p\<lparr>pstate := PROC_STATE_BKL_BLOCKED\<rparr>)
              (s\<lparr>bkl_blocked_list := bkl_blocked_list s @ [current s]\<rparr>)"
  have "found_inv ?t" using assms(2) by (simp add: found_inv_def)
  then show ?thesis using assms(1) True
    by (auto simp: KernelLock_def Let_def found_simps split: Option.bind_splits)
qed

lemma pass_found:
  assumes "found_inv s" "bkl_blocked_list s = p # ps"
    "pstate (procs t p) = PROC_STATE_READY" "\<And>x. x \<noteq> p \<Longrightarrow> pstate (procs t x) = pstate (procs s x)"
    "blocked_list t = blocked_list s" "bkl_blocked_list t = ps"
  shows "found_inv t"
proof -
  have "pstate (procs t x) = PROC_STATE_RENDEZ_BLOCKED \<Longrightarrow> \<exists>r. x \<in> set (blocked_list t r)" for x
    using assms by (cases "x = p") (auto simp: found_inv_def)
  moreover have "pstate (procs t x) = PROC_STATE_BKL_BLOCKED \<Longrightarrow> x \<in> set (bkl_blocked_list t)" for x
    using assms by (cases "x = p") (auto simp: found_inv_def)
  ultimately show ?thesis by (simp add: found_inv_def)
qed

lemma KernelUnlock_found:
  assumes "KernelUnlock s = Some s'" "found_inv s"
  shows "found_inv s'"
proof (cases "bkl_blocked_list s")
  case Nil
  then show ?thesis using assms by (auto simp: KernelUnlock_def found_inv_def split: if_splits)
next
  case (Cons p ps)
  let ?t = "upd_proc p (\<lambda>p. p\<lparr>pstate := PROC_STATE_READY\<rparr>)
        (s\<lparr>bkl_locked := True, bkl_owner := Owner p, bkl_blocked_list := ps\<rparr>)"
  have "found_inv ?t" by (rule pass_found [OF assms(2) Cons]) simp_all
  then show ?thesis using assms(1) Cons
    by (auto simp: KernelUnlock_def found_simps split: Option.bind_splits if_splits)
qed

lemma bkl_pass_found:
  assumes "bkl_pass w s = Some s'" "found_inv s"
  shows "found_inv s'"
proof (cases "bkl_blocked_list s")
  case Nil
  then show ?thesis using assms by (auto simp: bkl_pass_def found_inv_def)
next
  case (Cons p ps)
  let ?t = "(upd_proc p (\<lambda>p. p\<lparr>pstate := PROC_STATE_READY\<rparr>) (s\<lparr>bkl_blocked_list := ps\<rparr>))
        \<lparr>bkl_owner := Owner p\<rparr>"
  have "found_inv ?t" by (rule pass_found [OF assms(2) Cons]) simp_all
  then show ?thesis using assms(1) Cons by (simp add: bkl_pass_def Let_def found_simps)
qed

lemma found_block:
  assumes "found_inv s" "p \<in> set (bl r)" "\<And>k x. x \<in> set (blocked_list s k) \<Longrightarrow> x \<in> set (bl k)"
  shows "found_inv (upd_proc p (\<lambda>p. p\<lparr>pstate := PROC_STATE_RENDEZ_BLOCKED\<rparr>) (s\<lparr>blocked_list := bl\<rparr>))"
  using assms unfolding found_inv_def by (auto, blast+)

lemma TaskSleep_found:
  assumes "TaskSleep r s = Some s'" "found_inv s"
  shows "found_inv s'"
proof -
  let ?b = "\<lambda>t. upd_proc (current s) (\<lambda>p. p\<lparr>pstate := PROC_STATE_RENDEZ_BLOCKED\<rparr>)
      (t\<lparr>blocked_list := (blocked_list t)(r := blocked_list t r @ [current s])\<rparr>)"
  from assms(1) obtain t u where t: "bkl_pass 0xdeadbeef s = Some t"
    "SchedUnready (current s) (?b t) = Some u" "Reschedule u = Some s'"
    by (auto simp: TaskSleep_def Let_def split: Option.bind_splits)
  have "found_inv t" using t(1) assms(2) by (rule bkl_pass_found)
  then have "found_inv (?b t)" by (rule found_block [where r = r]) auto
  then show ?thesis using t(2,3) by (simp add: found_simps)
qed

lemma exit_switch_found:
  assumes "exit_switch s = Some s'" "found_inv s"
  shows "found_inv s'"
proof -
  let ?z = "\<lambda>t. upd_proc (current s) (\<lambda>p. p\<lparr>pstate := PROC_STATE_ZOMBIE\<rparr>) t"
  from assms(1) obtain t u where t: "bkl_pass 0 s = Some t"
    "SchedUnready (current s) (?z t) = Some u" "Reschedule u = Some s'"
    by (auto simp: exit_switch_def Let_def split: Option.bind_splits)
  have "found_inv t" using t(1) assms(2) by (rule bkl_pass_found)
  then have "found_inv (?z t)" by (simp add: found_inv_def)
  then show ?thesis using t(2,3) by (simp add: found_simps)
qed

lemma wake_entry_found:
  assumes "found_inv s"
  shows "found_inv (wake_entry r p s)"
  using assms unfolding found_inv_def wake_entry_def
  by (auto simp: in_set_remove1 split: if_splits)

lemma TaskWakeup_found: "found_inv s \<Longrightarrow> found_inv (TaskWakeup r s)"
  by (simp add: TaskWakeup_entry wake_entry_found split: list.splits)

lemma TaskWakeupAll_found:
  "sched_inv s \<Longrightarrow> bkl_locked s \<Longrightarrow> found_inv s \<Longrightarrow> found_inv (TaskWakeupAll r s)"
proof (induction r s rule: TaskWakeupAll.induct)
  case (1 r s)
  have "sched_inv (TaskWakeup r s)" "found_inv (TaskWakeup r s)" "bkl_locked (TaskWakeup r s)"
    using 1(2-) by (simp_all add: TaskWakeup_inv TaskWakeup_found TaskWakeup_sel)
  then show ?case using 1(1) [OF refl] by (simp add: TaskWakeupAll.simps [of r s] Let_def)
qed

lemma fork_start_found: "fork_start p s = Some s' \<Longrightarrow> found_inv s \<Longrightarrow> found_inv s'"
  by (auto simp: fork_start_def Let_def SchedReady_found) (simp add: found_inv_def)

lemma sys_setschedparams_found:
  assumes "sys_setschedparams pol prio s = Some (r, s')" "found_inv s"
  shows "found_inv s'"
proof -
  have u: "found_inv (upd_proc c (\<lambda>p. p\<lparr>sched_policy := pol', desired_priority := k, priority := k\<rparr>) t)
      = found_inv t" for c k pol' and t :: "'a sched_scheme"
    by (rule found_cong) simp_all
  show ?thesis using assms
    by (auto simp: sys_setschedparams_def Let_def found_simps u split: if_splits Option.bind_splits)
qed

lemma sched_step_found:
  assumes "sched_step s s'" "sched_inv s" "found_inv s"
  shows "found_inv s'"
  using assms(1)
proof (cases rule: sched_step.cases)
  case tick
  have "found_inv (quanta_tick s) = found_inv s"
    by (rule found_cong) (simp_all add: quanta_tick_def)
  then show ?thesis using tick assms(3) by simp
qed (use assms(2,3) in \<open>auto simp: KernelLock_found KernelUnlock_found TaskSleep_found
    exit_switch_found TaskWakeup_found TaskWakeupFromISR_eq TaskWakeupAll_found fork_start_found
    intro: sys_setschedparams_found\<close>)

lemma InitRendez_sel [simp]:
  "procs (InitRendez r s) = procs s" "sched_queue (InitRendez r s) = sched_queue s"
  "sched_queue_bitmap (InitRendez r s) = sched_queue_bitmap s"
  "current (InitRendez r s) = current s" "idle_process (InitRendez r s) = idle_process s"
  "bkl_locked (InitRendez r s) = bkl_locked s" "bkl_owner (InitRendez r s) = bkl_owner s"
  "bkl_blocked_list (InitRendez r s) = bkl_blocked_list s"
  "blocked_list (InitRendez r s) = (blocked_list s)(r := [])"
  by (simp_all add: InitRendez_def)

lemma init_processes_inv:
  assumes "zeroed s"
  shows "\<exists>s'. init_processes s = Some s' \<and> sched_inv s' \<and> bitmap_inv s' \<and> idle_process s' = 2
    \<and> current s' = 0 \<and> sched_queue s' 16 = [0] \<and> sched_queue s' 31 = [1]
    \<and> bkl_owner s' = Poison 0 \<and> \<not> bkl_locked s' \<and> bkl_blocked_list s' = []
    \<and> (\<forall>r. blocked_list s' r = []) \<and> \<not> demotes s' \<and> found_inv s'"
proof -
  have b: "bit (sched_queue_bitmap s) k = False" "sched_queue s k = []" "blocked_list s r = []"
    "priority (procs s p) = 0" "desired_priority (procs s p) = 0"
    "pstate (procs s p) = PROC_STATE_UNALLOC" for k r p
    using assms by (simp_all add: zeroed_def)
  show ?thesis
    by (auto simp: init_processes_def create_process_def SchedReady_def Let_def sched_inv_def
        runq_inv_def waits_inv_def current_inv_def owner_inv_def queued_def bitmap_inv_def
        schedulable_def b bit_shl1_iff bit_or_iff demotes_def found_inv_def)
qed

lemma reachable_sched_inv: "sched_reachable s \<Longrightarrow> sched_inv s"
  and reachable_found_inv: "sched_reachable s \<Longrightarrow> found_inv s"
proof (induction rule: sched_reachable.induct)
  case (boot s s')
  {
    case 1
    then show ?case using init_processes_inv boot by fastforce
  next
    case 2
    then show ?case using init_processes_inv boot by fastforce
  }
next
  case (step s s')
  {
    case 1
    then show ?case using sched_step_inv step by blast
  next
    case 2
    then show ?case using sched_step_found step by blast
  }
qed

lemma sched_step_bkl:
  assumes "sched_step s s'" "sched_inv s"
  shows "(\<exists>ws. bkl_blocked_list s' = bkl_blocked_list s @ ws)
    \<or> bkl_owner s = Owner (current s) \<and> bkl_blocked_list s' = tl (bkl_blocked_list s)
      \<and> (bkl_blocked_list s \<noteq> [] \<longrightarrow> bkl_owner s' = Owner (hd (bkl_blocked_list s)))"
  using assms
proof (cases rule: sched_step.cases)
  case lock
  then show ?thesis using KernelLock_inv [OF assms(2)] by auto
next
  case unlock
  then show ?thesis using KernelUnlock_inv [OF assms(2)] by (auto split: list.splits)
next
  case (sleep r)
  then show ?thesis using TaskSleep_inv [OF assms(2), of r] by (auto split: list.splits)
next
  case (wakeup r)
  then show ?thesis by (simp add: TaskWakeup_sel)
next
  case (wakeup_isr r)
  then show ?thesis by (simp add: TaskWakeup_sel TaskWakeupFromISR_eq)
next
  case (wakeup_all r)
  then show ?thesis using TaskWakeupAll_inv [OF assms(2), of r] by simp
next
  case (fork p)
  then show ?thesis using fork_start_inv [OF assms(2), of p] by auto
next
  case exit
  then show ?thesis using exit_switch_inv [OF assms(2)] by (auto split: list.splits)
next
  case tick
  then show ?thesis by (simp add: quanta_tick_def)
next
  case (setparams pol prio r)
  then show ?thesis using sys_setschedparams_inv [OF assms(2), of pol prio] by auto
qed

lemma idle_stuck:
  assumes "sched_step\<^sup>*\<^sup>* s t" "sched_inv s" "current s = idle_process s" "bkl_owner s = Owner p"
    "p \<noteq> idle_process s"
  shows "sched_inv t \<and> current t = idle_process t \<and> bkl_owner t = Owner p \<and> p \<noteq> idle_process t"
  using assms(1)
proof (induction rule: rtranclp_induct)
  case base
  then show ?case using assms by simp
next
  case (step t u)
  then have i: "sched_inv t" and "owner_inv t" "bkl_owner t = Owner p"
    by (simp_all add: sched_inv_def)
  then have l: "bkl_locked t" by (simp add: owner_inv_def)
  from step(2) show ?case
    by (cases rule: sched_step.cases)
      (use step(3) l TaskWakeup_inv [OF i l] TaskWakeupAll_inv [OF i l] quanta_tick_inv [of t] in
        \<open>simp_all add: TaskWakeup_sel TaskWakeupFromISR_eq quanta_tick_def\<close>)
qed

lemma Reschedule_demote_idle:
  assumes "runq_inv s" "acct_ok s" "demotes s"
    and "sched_queue s (priority (procs s (current s))) = [current s]"
    and "bit (sched_queue_bitmap s) (priority (procs s (current s)))"
    and "\<forall>k < 32. priority (procs s (current s)) < k \<longrightarrow> \<not> bit (sched_queue_bitmap s) k"
  shows "\<exists>s'. Reschedule s = Some s' \<and> current s' = idle_process s"
proof -
  let ?q = "priority (procs s (current s))"
  have q: "?q < 32" using assms(1) by (simp add: runq_inv_def)
  have f: "find_top (sched_queue_bitmap s) 32 = Some ?q"
    using assms(5,6) q by (simp add: find_top_Some)
  have nz: "sched_queue_bitmap s \<noteq> 0" using assms(5) by auto
  show ?thesis
    using assms(3,4) f nz
    by (auto simp: Reschedule_def resched_account_def sched_pick_def demotes_def Let_def)
qed

section \<open>Properties\<close>

text \<open>The state before boot, for the witnesses below.\<close>

definition zero_sched :: sched where
  "zero_sched =
     \<lparr>procs = (\<lambda>_. \<lparr>pstate = PROC_STATE_UNALLOC, sched_policy = SCHED_OTHER, quanta_used = 0,
        priority = 0, desired_priority = 0, pflags = 0\<rparr>),
      sched_queue = (\<lambda>_. []), sched_queue_bitmap = 0, current = 0, idle_process = 0,
      reschedule_request = False, bkl_locked = False, bkl_owner = Poison 0,
      bkl_blocked_list = [], blocked_list = (\<lambda>_. [])\<rparr>"

lemma zero_sched_boots: "\<exists>s. init_processes zero_sched = Some s \<and> sched_reachable s \<and> bitmap_inv s
    \<and> current s = 0 \<and> sched_queue s 16 = [0] \<and> sched_queue s 31 = [1] \<and> idle_process s = 2
    \<and> bkl_owner s = Poison 0 \<and> \<not> bkl_locked s \<and> bkl_blocked_list s = []
    \<and> blocked_list s r = [] \<and> \<not> demotes s"
proof -
  have z: "zeroed zero_sched" by (simp add: zeroed_def zero_sched_def)
  from init_processes_inv [OF z] show ?thesis using sched_reachable.boot [OF z] by auto
qed





text \<open>C7: The BKL is handed over in the order in which it was asked for.  In one step of the
  kernel a task that waits for it keeps its place in the queue or moves up by one, and the task at
  the front leaves the queue only by becoming the owner.  A held lock never becomes free while a
  task waits for it.\<close>

theorem bkl_fifo:
  assumes "sched_reachable s" "sched_step s s'" "bkl_blocked_list s = us @ p # vs"
  shows "bkl_locked s' \<and>
    ((\<exists>ws. bkl_blocked_list s' = us @ p # vs @ ws)
      \<or> us \<noteq> [] \<and> bkl_blocked_list s' = tl us @ p # vs \<and> bkl_owner s' = Owner (hd us)
      \<or> us = [] \<and> bkl_blocked_list s' = vs \<and> bkl_owner s' = Owner p \<and> queued s' p)"
proof -
  have i: "sched_inv s" "sched_inv s'"
    using assms(1,2) sched_step_inv reachable_sched_inv by blast+
  have l: "bkl_locked s'" if "bkl_owner s' = Owner x \<or> bkl_blocked_list s' \<noteq> []" for x
    using i(2) that by (auto simp: sched_inv_def owner_inv_def split: owner.splits)
  from sched_step_bkl [OF assms(2) i(1)] show ?thesis
  proof
    assume "\<exists>ws. bkl_blocked_list s' = bkl_blocked_list s @ ws"
    then show ?thesis using l assms(3) by auto
  next
    assume a: "bkl_owner s = Owner (current s) \<and> bkl_blocked_list s' = tl (bkl_blocked_list s)
      \<and> (bkl_blocked_list s \<noteq> [] \<longrightarrow> bkl_owner s' = Owner (hd (bkl_blocked_list s)))"
    have "schedulable (procs s p)" "\<not> schedulable (procs s (idle_process s))"
      using i(1) assms(3) by (simp_all add: sched_inv_def waits_inv_def runq_inv_def)
    then have "p \<noteq> idle_process s'" using sched_step_inv [OF assms(2) i(1)] by auto
    then have "bkl_owner s' = Owner p \<Longrightarrow> queued s' p"
      using i(2) by (simp add: sched_inv_def owner_inv_def)
    then show ?thesis using a l assms(3) by (cases us) auto
  qed
qed

text \<open>The first task locks, sleeps, and is woken by the next task that locks.\<close>

lemma waiting_reachable:
  "\<exists>s :: sched. sched_reachable s \<and> bkl_blocked_list s = [0] \<and> bkl_locked s"
proof -
  let ?r = "Rz_proc 0"
  from zero_sched_boots [of ?r] obtain s :: sched where s: "sched_reachable s" "current s = 0"
    "idle_process s = 2" "bkl_owner s = Poison 0" "\<not> bkl_locked s" "bkl_blocked_list s = []"
    "blocked_list s ?r = []" by blast
  define s1 where "s1 = s\<lparr>bkl_locked := True, bkl_owner := Owner 0\<rparr>"
  have "sched_step s s1"
    by (rule sched_step.lock) (use s in \<open>simp_all add: s1_def KernelLock_def\<close>)
  with s(1) have r1: "sched_reachable s1" by (rule sched_reachable.step)
  from TaskSleep_inv [OF reachable_sched_inv [OF r1], of ?r] s obtain s2 where
    s2: "TaskSleep ?r s1 = Some s2" "\<not> bkl_locked s2" "bkl_owner s2 = Poison 0xdeadbeef"
      "bkl_blocked_list s2 = []" "blocked_list s2 ?r = [0]"
    by (auto simp: s1_def)
  have "sched_step s1 s2"
    by (rule sched_step.sleep [OF _ _ s2(1)]) (use s in \<open>simp_all add: s1_def\<close>)
  with r1 have r2: "sched_reachable s2" by (rule sched_reachable.step)
  define s3 where "s3 = s2\<lparr>bkl_locked := True, bkl_owner := Owner (current s2)\<rparr>"
  have "sched_step s2 s3"
    by (rule sched_step.lock) (use s2 in \<open>simp_all add: s3_def KernelLock_def\<close>)
  with r2 have r3: "sched_reachable s3" by (rule sched_reachable.step)
  have "sched_reachable (TaskWakeup ?r s3)"
    by (rule sched_reachable.step [OF r3 sched_step.wakeup]) (simp add: s3_def)
  then show ?thesis
    using s2 by (intro exI [of _ "TaskWakeup ?r s3"]) (simp add: TaskWakeup_sel s3_def)
qed

theorem bkl_fifo_witness:
  "\<exists>s s' :: sched. bkl_blocked_list s = [0] \<and> sched_step s s' \<and> bkl_locked s'"
proof -
  from waiting_reachable obtain s :: sched
    where s: "sched_reachable s" "bkl_blocked_list s = [] @ 0 # []" "bkl_locked s" by auto
  have st: "sched_step s (TaskWakeup Rz_timer s)" using s(3) by (rule sched_step.wakeup)
  from bkl_fifo [OF s(1) st s(2)] st s(2) show ?thesis by auto
qed

text \<open>C8: A demotion can stop the machine.  \<open>Reschedule\<close> moves a task of the niceness scheduler
  that has used up its quanta to the next lower run queue without updating the bitmap.  If the
  task was alone on the highest run queue in use and a task of lower priority waits for the BKL,
  then \<open>KernelUnlock\<close> gives the BKL to the waiting task and runs the idle task, with two tasks
  ready; and whatever the interrupts do, the idle task runs for ever, since the owner of the BKL
  never does.\<close>

theorem demotion_stalls:
  assumes "sched_inv s" "bitmap_inv s" "bkl_owner s = Owner (current s)" "demotes s"
    and "bkl_blocked_list s = p # ps"
    and "priority (procs s p) < priority (procs s (current s))"
    and "sched_queue s (priority (procs s (current s))) = [current s]"
    and "\<forall>k < 32. priority (procs s (current s)) < k \<longrightarrow> sched_queue s k = []"
  shows "\<exists>s'. KernelUnlock s = Some s' \<and> bkl_owner s' = Owner p \<and> queued s' p
    \<and> (\<forall>t. sched_step\<^sup>*\<^sup>* s' t \<longrightarrow> current t = idle_process t \<and> bkl_owner t = Owner p
         \<and> p \<noteq> idle_process t)"
proof -
  let ?q = "priority (procs s (current s))"
  from pass_inv [OF assms(1,5) refl] obtain t where t:
    "SchedReady p (upd_proc p (\<lambda>p. p\<lparr>pstate := PROC_STATE_READY\<rparr>)
      (s\<lparr>bkl_locked := True, bkl_owner := Owner p, bkl_blocked_list := ps\<rparr>)) = Some t"
    "sched_inv t" "current t = current s" "idle_process t = idle_process s" by blast
  note sel = SchedReady_sel [OF t(1)]
  have pc: "p \<noteq> current s" "\<not> p = idle_process s"
    using assms(1,5,6) by (auto simp: sched_inv_def waits_inv_def runq_inv_def)
  have "?q < 32" "priority (procs s p) < 32" using assms(1) by (simp_all add: sched_inv_def runq_inv_def)
  moreover from this have "bit (sched_queue_bitmap t) k \<longleftrightarrow>
      bit (sched_queue_bitmap s) k \<or> k = priority (procs s p)" if "k < 32" for k
    using that by (auto simp: sel(4) bit_set1_iff)
  ultimately have "\<exists>s'. Reschedule t = Some s' \<and> current s' = idle_process t"
    using t(2) assms(2,4,6-8) pc(1) sel(2,3)
    by (intro Reschedule_demote_idle)
      (auto simp: sched_inv_def acct_ok_def demotes_def bitmap_inv_def t(3))
  moreover have "KernelUnlock s = Reschedule t"
    using assms(1,3,5) t(1) by (simp add: KernelUnlock_def sched_inv_def owner_inv_def)
  ultimately obtain s' where s': "KernelUnlock s = Some s'" "current s' = idle_process s"
    using t(4) by auto
  with KernelUnlock_inv [OF assms(1,3)] assms(5) have i: "sched_inv s'" "bkl_owner s' = Owner p"
    "idle_process s' = idle_process s" by auto
  then have "queued s' p" using pc(2) by (simp add: sched_inv_def owner_inv_def)
  then show ?thesis using s' i pc(2) idle_stuck [OF _ i(1) _ i(2)] by auto
qed

text \<open>Task 0 has used up its quanta at priority 5, alone; task 1, of priority 3, waits for the BKL.\<close>

definition stalling :: sched where
  "stalling = zero_sched
     \<lparr>procs := (procs zero_sched)(
        0 := \<lparr>pstate = PROC_STATE_RUNNING, sched_policy = SCHED_OTHER, quanta_used = 4,
              priority = 5, desired_priority = 5, pflags = 0\<rparr>,
        1 := \<lparr>pstate = PROC_STATE_BKL_BLOCKED, sched_policy = SCHED_OTHER, quanta_used = 0,
              priority = 3, desired_priority = 3, pflags = 0\<rparr>,
        2 := \<lparr>pstate = PROC_STATE_READY, sched_policy = SCHED_IDLE, quanta_used = 0,
              priority = 0, desired_priority = 0, pflags = 0\<rparr>),
      sched_queue := (\<lambda>q. if q = 5 then [0] else []), sched_queue_bitmap := shl1 5,
      idle_process := 2, bkl_locked := True, bkl_owner := Owner 0, bkl_blocked_list := [1]\<rparr>"

theorem demotion_stalls_witness:
  "\<exists>s'. KernelUnlock stalling = Some s' \<and> bkl_owner s' = Owner 1 \<and> queued s' 1
     \<and> current s' = idle_process s'"
proof -
  have "sched_inv stalling" "bitmap_inv stalling" "demotes stalling"
    by (auto simp: stalling_def zero_sched_def sched_inv_def runq_inv_def waits_inv_def current_inv_def
        owner_inv_def queued_def schedulable_def bitmap_inv_def demotes_def SCHED_QUANTA_JIFFIES_def
        bit_shl1_iff)
  from demotion_stalls [OF this(1,2) _ this(3), of 1 "[]"] show ?thesis
    by (auto simp: stalling_def zero_sched_def)
qed

end
