(* ===== verification/Timers.thy ===== *)
theory Timers
  imports Scheduler
begin

text \<open>
  The timers of \<^verbatim>\<open>kernel/proc/timer.c\<close> and the timed sleep of \<^verbatim>\<open>kernel/proc/sched.c\<close>: a hashed timing
  wheel with one bucket per jiffy of a second.  The record \<open>timers\<close> extends the scheduler's state by
  the wheel, the timers of the processes and the two clocks.  The clocks are integers: the code's
  32-bit \<open>hardclock_time\<close> is assumed not to overflow, which takes 248 days at 100 jiffies a second;
  an expiration time is a 64-bit \<open>long long\<close> and cannot overflow.

  A function that waits is two definitions: the part up to the call of \<open>TaskSleep\<close>, and the part
  that runs when the task is woken.
\<close>

section \<open>Timers and clocks\<close>

definition JIFFIES_PER_SECOND :: int where
  "JIFFIES_PER_SECOND = 100"

definition NANOSECONDS_PER_JIFFY :: int where
  "NANOSECONDS_PER_JIFFY = 10000000"

datatype timer_id = Sleep_timer nat | Timeout_timer nat

datatype callback = SleepCallback_fn | TaskTimedSleepCallback_fn

record timer =
  armed :: bool
  expiration_time :: int
  targ :: "rendez option"
  callback :: "callback option"
  tprocess :: "nat option"

record timers = sched +
  timer_tab :: "timer_id \<Rightarrow> timer"
  timing_wheel :: "nat \<Rightarrow> timer_id list"
  hardclock_time :: int
  softclock_time :: int

type_synonym timespec = "int \<times> int"

text \<open>
  Division and remainder of C round towards zero, so that a negative time has no bucket.
\<close>

definition cdiv :: "int \<Rightarrow> int \<Rightarrow> int" where
  "cdiv a b = (if a < 0 then - ((- a) div b) else a div b)"

definition crem :: "int \<Rightarrow> int \<Rightarrow> int" where
  "crem a b = (if a < 0 then - ((- a) mod b) else a mod b)"

definition wheel_index :: "int \<Rightarrow> nat option" where
  "wheel_index e = (let i = crem e JIFFIES_PER_SECOND in if i < 0 then None else Some (nat i))"

definition upd_timer ::
  "timer_id \<Rightarrow> (timer \<Rightarrow> timer) \<Rightarrow> 'a timers_scheme \<Rightarrow> 'a timers_scheme" where
  "upd_timer t f s = s\<lparr>timer_tab := (timer_tab s)(t := f (timer_tab s t))\<rparr>"

definition wheel_add :: "timer_id \<Rightarrow> 'a timers_scheme \<Rightarrow> 'a timers_scheme option" where
  "wheel_add t s = do {
     i \<leftarrow> wheel_index (expiration_time (timer_tab s t));
     Some (s\<lparr>timing_wheel := (timing_wheel s)(i := timing_wheel s i @ [t])\<rparr>)
   }"

definition wheel_rem :: "timer_id \<Rightarrow> 'a timers_scheme \<Rightarrow> 'a timers_scheme option" where
  "wheel_rem t s = do {
     i \<leftarrow> wheel_index (expiration_time (timer_tab s t));
     Some (s\<lparr>timing_wheel := (timing_wheel s)(i := remove1 t (timing_wheel s i))\<rparr>)
   }"

section \<open>Reading the clock\<close>

text \<open>The second component is the sub-second part, in the unit the code writes.\<close>

definition sys_gettimeofday :: "'a timers_scheme \<Rightarrow> int \<times> int" where
  "sys_gettimeofday s =
     (cdiv (hardclock_time s) JIFFIES_PER_SECOND, crem (hardclock_time s) JIFFIES_PER_SECOND)"

datatype clock_id = CLOCK_REALTIME | CLOCK_MONOTONIC | CLOCK_MONOTONIC_RAW | CLOCK_OTHER int

text \<open>
  The raw clock of \<open>arch_clock_gettime\<close> is a 64-bit microsecond counter read from a device, whose
  value is the parameter \<open>raw\<close>; \<open>copyout\<close> tells whether the user's buffer can be written.
\<close>

definition arch_clock_gettime :: "64 word \<Rightarrow> clock_id \<Rightarrow> timespec result" where
  "arch_clock_gettime raw c =
     (if c = CLOCK_MONOTONIC_RAW
      then Inr (uint (raw div 1000000), uint ((raw * 1000) mod 1000000000))
      else Inl EINVAL)"

definition sys_clock_gettime ::
  "64 word \<Rightarrow> bool \<Rightarrow> clock_id \<Rightarrow> 'a timers_scheme \<Rightarrow> timespec result" where
  "sys_clock_gettime raw copyout c s =
     (let now = (cdiv (hardclock_time s) JIFFIES_PER_SECOND,
                 crem (hardclock_time s) JIFFIES_PER_SECOND * NANOSECONDS_PER_JIFFY);
          r = (case c of
                 CLOCK_REALTIME \<Rightarrow> Inr now
               | CLOCK_MONOTONIC \<Rightarrow> Inr now
               | CLOCK_MONOTONIC_RAW \<Rightarrow> arch_clock_gettime raw CLOCK_MONOTONIC_RAW
               | CLOCK_OTHER n \<Rightarrow> Inl EINVAL)
      in (case r of Inl e \<Rightarrow> Inl e | Inr ts \<Rightarrow> if copyout then Inr ts else Inl EFAULT))"

definition sys_settimeofday :: "'a timers_scheme \<Rightarrow> unit result" where
  "sys_settimeofday s = Inr ()"

definition sys_clock_settime :: "'a timers_scheme \<Rightarrow> unit result" where
  "sys_clock_settime s = Inl ENOSYS"

definition sys_alarm :: "int \<Rightarrow> 'a timers_scheme \<Rightarrow> unit result" where
  "sys_alarm seconds s = Inl ENOSYS"

definition get_hardclock :: "'a timers_scheme \<Rightarrow> int" where
  "get_hardclock s = hardclock_time s"

section \<open>Sleeping\<close>

definition SleepCallback :: "timer_id \<Rightarrow> 'a timers_scheme \<Rightarrow> 'a timers_scheme option" where
  "SleepCallback t s =
     (case tprocess (timer_tab s t) of
        None \<Rightarrow> None
      | Some p \<Rightarrow> Some (TaskWakeup (Rz_proc p) s))"

definition arm_sleep :: "int \<Rightarrow> 'a timers_scheme \<Rightarrow> 'a timers_scheme option" where
  "arm_sleep e s =
     (let c = current s;
          s = upd_timer (Sleep_timer c) (\<lambda>t. t\<lparr>tprocess := Some c, armed := True,
                callback := Some SleepCallback_fn, expiration_time := e\<rparr>) s
      in wheel_add (Sleep_timer c) s)"

text \<open>The loop \<open>while (timer->armed) TaskSleep(...)\<close>, run again each time the task is woken.\<close>

definition sleep_wait :: "'a timers_scheme \<Rightarrow> (unit result sys \<times> 'a timers_scheme) option" where
  "sleep_wait s =
     (let c = current s
      in if armed (timer_tab s (Sleep_timer c))
         then do { s \<leftarrow> TaskSleep (Rz_proc c) s; Some (Blocked, s) }
         else Some (Done (Inr ()), s))"

definition sys_sleep :: "int \<Rightarrow> 'a timers_scheme \<Rightarrow> (unit result sys \<times> 'a timers_scheme) option" where
  "sys_sleep seconds s = do {
     s \<leftarrow> arm_sleep (hardclock_time s + seconds * JIFFIES_PER_SECOND) s;
     sleep_wait s
   }"

text \<open>
  \<open>req\<close> is what \<open>CopyIn\<close> reads.  The spin loop of a delay below one jiffy ends with 0 and changes
  no state.
\<close>

definition sys_nanosleep ::
  "timespec option \<Rightarrow> 'a timers_scheme \<Rightarrow> (unit result sys \<times> 'a timers_scheme) option" where
  "sys_nanosleep req s =
     (case req of
        None \<Rightarrow> Some (Done (Inl EFAULT), s)
      | Some (sec, nsec) \<Rightarrow>
          (if sec = 0 \<and> nsec < 10000000 then Some (Done (Inr ()), s)
           else do {
             s \<leftarrow> arm_sleep (hardclock_time s + sec * JIFFIES_PER_SECOND
                              + cdiv nsec NANOSECONDS_PER_JIFFY) s;
             sleep_wait s
           }))"

definition SetTimeout ::
  "int \<Rightarrow> callback option \<Rightarrow> rendez option \<Rightarrow> 'a timers_scheme \<Rightarrow> (int \<times> 'a timers_scheme) option" where
  "SetTimeout milliseconds cb arg s = do {
     let c = current s;
     let t = Timeout_timer c;
     let was = timer_tab s t;
     s \<leftarrow> (if armed was then do {
              s \<leftarrow> wheel_rem t s;
              Some (upd_timer t (\<lambda>t. t\<lparr>armed := False\<rparr>) s)
            } else Some s);
     let remaining = (if armed was
                      then hardclock_time s - cdiv (expiration_time was) JIFFIES_PER_SECOND else 0);
     s \<leftarrow> (if milliseconds > 0
           then wheel_add t (upd_timer t (\<lambda>t. t\<lparr>expiration_time := hardclock_time s
                  + cdiv milliseconds (cdiv 1000 JIFFIES_PER_SECOND) + 1,
                  tprocess := Some c, callback := cb, targ := arg, armed := True\<rparr>) s)
           else Some s);
     Some (remaining, s)
   }"

section \<open>Sleeping on a condition variable with a timeout\<close>

definition TaskTimedSleep ::
  "rendez \<Rightarrow> timespec \<Rightarrow> 'a timers_scheme \<Rightarrow> 'a timers_scheme option" where
  "TaskTimedSleep r ts s = do {
     let c = current s;
     s \<leftarrow> bkl_pass 0xdeadbeef s;
     let s = upd_timer (Sleep_timer c) (\<lambda>t. t\<lparr>tprocess := Some c, targ := Some r, armed := True,
               callback := Some TaskTimedSleepCallback_fn,
               expiration_time := hardclock_time s + (fst ts * JIFFIES_PER_SECOND
                 + cdiv (snd ts) NANOSECONDS_PER_JIFFY)\<rparr>) s;
     s \<leftarrow> wheel_add (Sleep_timer c) s;
     let s = s\<lparr>blocked_list := (blocked_list s)(r := blocked_list s r @ [c])\<rparr>;
     let s = upd_proc c (\<lambda>p. p\<lparr>pstate := PROC_STATE_RENDEZ_BLOCKED\<rparr>) s;
     s \<leftarrow> SchedUnready c s;
     Reschedule s
   }"

text \<open>What the task does when it runs again.\<close>

definition TaskTimedSleep_resume :: "'a timers_scheme \<Rightarrow> (unit result \<times> 'a timers_scheme) option" where
  "TaskTimedSleep_resume s =
     (let t = Sleep_timer (current s)
      in if armed (timer_tab s t) then do {
           s \<leftarrow> wheel_rem t s;
           Some (Inr (), upd_timer t (\<lambda>t. t\<lparr>armed := False, tprocess := None, callback := None\<rparr>) s)
         }
         else Some (Inl ETIMEDOUT, s))"

definition TaskTimedSleepCallback :: "timer_id \<Rightarrow> 'a timers_scheme \<Rightarrow> 'a timers_scheme option" where
  "TaskTimedSleepCallback t s =
     (case tprocess (timer_tab s t) of
        Some p \<Rightarrow>
          (if pstate (procs s p) = PROC_STATE_RENDEZ_BLOCKED then
             (case targ (timer_tab s t) of
                None \<Rightarrow> None
              | Some r \<Rightarrow>
                  (let s = s\<lparr>blocked_list := (blocked_list s)(r := remove1 p (blocked_list s r))\<rparr>;
                       s = s\<lparr>bkl_blocked_list := bkl_blocked_list s @ [p]\<rparr>
                   in Some (upd_proc p (\<lambda>p. p\<lparr>pstate := PROC_STATE_BKL_BLOCKED\<rparr>) s)))
           else Some s)
      | None \<Rightarrow> Some s)"

section \<open>The timer interrupt and the timer task\<close>

definition TimerTopHalf :: "'a timers_scheme \<Rightarrow> 'a timers_scheme" where
  "TimerTopHalf s =
     (let s = quanta_tick s;
          s = s\<lparr>hardclock_time := hardclock_time s + 1\<rparr>
      in TaskWakeupFromISR Rz_timer s)"

definition run_callback :: "timer_id \<Rightarrow> 'a timers_scheme \<Rightarrow> 'a timers_scheme option" where
  "run_callback t s =
     (case callback (timer_tab s t) of
        None \<Rightarrow> Some s
      | Some SleepCallback_fn \<Rightarrow> SleepCallback t s
      | Some TaskTimedSleepCallback_fn \<Rightarrow> TaskTimedSleepCallback t s)"

text \<open>
  One timer of a bucket, and the loop over the bucket.  The loop reads the next timer before it
  runs the callback, and no callback changes the wheel, so it visits the timers that are in the
  bucket when it starts.
\<close>

definition expire_one :: "timer_id \<Rightarrow> 'a timers_scheme \<Rightarrow> 'a timers_scheme option" where
  "expire_one t s =
     (if expiration_time (timer_tab s t) \<le> softclock_time s then do {
        i \<leftarrow> wheel_index (softclock_time s);
        let s = s\<lparr>timing_wheel := (timing_wheel s)(i := remove1 t (timing_wheel s i))\<rparr>;
        let s = upd_timer t (\<lambda>t. t\<lparr>armed := False\<rparr>) s;
        run_callback t s
      } else Some s)"

fun expire_timers :: "timer_id list \<Rightarrow> 'a timers_scheme \<Rightarrow> 'a timers_scheme option" where
  "expire_timers [] s = Some s"
| "expire_timers (t # ts) s = expire_one t s \<bind> expire_timers ts"

definition softclock_step :: "'a timers_scheme \<Rightarrow> 'a timers_scheme option" where
  "softclock_step s = do {
     i \<leftarrow> wheel_index (softclock_time s);
     s \<leftarrow> expire_timers (timing_wheel s i) s;
     Some (s\<lparr>softclock_time := softclock_time s + 1\<rparr>)
   }"

text \<open>The loop of the timer task between two sleeps, with \<open>n\<close> a bound of its iterations.\<close>

fun TimerBottomHalf :: "nat \<Rightarrow> 'a timers_scheme \<Rightarrow> 'a timers_scheme option" where
  "TimerBottomHalf 0 s = (if softclock_time s < hardclock_time s then None else Some s)"
| "TimerBottomHalf (Suc n) s =
     (if softclock_time s < hardclock_time s
      then softclock_step s \<bind> TimerBottomHalf n else Some s)"

section \<open>Frames\<close>

lemma timers_more:
  fixes s s' :: "'a timers_scheme"
  assumes "sched.more s' = sched.more s"
  shows "timer_tab s' = timer_tab s" "timing_wheel s' = timing_wheel s"
    "hardclock_time s' = hardclock_time s" "softclock_time s' = softclock_time s"
  using assms by (cases s, cases s', simp)+

lemma upd_timer_sel [simp]:
  "timer_tab (upd_timer t f s) = (timer_tab s)(t := f (timer_tab s t))"
  "timing_wheel (upd_timer t f s) = timing_wheel s"
  "hardclock_time (upd_timer t f s) = hardclock_time s"
  "softclock_time (upd_timer t f s) = softclock_time s"
  "sched.truncate (upd_timer t f s) = sched.truncate s"
  "current (upd_timer t f s) = current s" "procs (upd_timer t f s) = procs s"
  "blocked_list (upd_timer t f s) = blocked_list s"
  "bkl_blocked_list (upd_timer t f s) = bkl_blocked_list s"
  "bkl_locked (upd_timer t f s) = bkl_locked s" "bkl_owner (upd_timer t f s) = bkl_owner s"
  "idle_process (upd_timer t f s) = idle_process s"
  by (simp_all add: upd_timer_def sched.truncate_def)

text \<open>The scheduler's invariant reads the scheduler's fields only.\<close>

lemma sched_inv_cong:
  assumes "sched.truncate s = sched.truncate s'"
  shows "sched_inv s = sched_inv s'"
proof -
  have eq: "procs s = procs s'" "sched_queue s = sched_queue s'" "current s = current s'"
    "idle_process s = idle_process s'" "bkl_locked s = bkl_locked s'" "bkl_owner s = bkl_owner s'"
    "bkl_blocked_list s = bkl_blocked_list s'" "blocked_list s = blocked_list s'"
    using assms by (simp_all add: sched.truncate_def)
  have q: "queued s = queued s'" by (simp add: queued_def fun_eq_iff eq)
  show ?thesis
    unfolding sched_inv_def runq_inv_def waits_inv_def current_inv_def owner_inv_def eq q
    by (rule refl)
qed

lemma wheel_index_nonneg: "0 \<le> e \<Longrightarrow> wheel_index e = Some (nat (e mod 100))"
  by (simp add: wheel_index_def crem_def JIFFIES_PER_SECOND_def Let_def)

section \<open>The invariant of the wheel\<close>

text \<open>
  A timer is in the bucket of its expiration time, once, exactly when it is armed, and no armed
  timer is overdue.  The soft clock runs behind the hard clock.
\<close>

definition wheel_inv :: "'a timers_scheme \<Rightarrow> bool" where
  "wheel_inv s \<longleftrightarrow> 0 \<le> softclock_time s \<and> softclock_time s \<le> hardclock_time s
     \<and> (\<forall>i. distinct (timing_wheel s i))
     \<and> (\<forall>i t. t \<in> set (timing_wheel s i) \<longleftrightarrow>
          armed (timer_tab s t) \<and> i = nat (expiration_time (timer_tab s t) mod 100))
     \<and> (\<forall>t. armed (timer_tab s t) \<longrightarrow> softclock_time s \<le> expiration_time (timer_tab s t))"

lemma wheel_inv_more:
  assumes "sched.more s' = sched.more s"
  shows "wheel_inv s' = wheel_inv s"
  unfolding wheel_inv_def timers_more [OF assms] by (rule refl)

lemma wheel_inv_tick: "wheel_inv s \<Longrightarrow> wheel_inv (s\<lparr>hardclock_time := hardclock_time s + 1\<rparr>)"
  by (simp add: wheel_inv_def)

lemma wheel_add_inv:
  assumes "wheel_inv s" "\<not> armed (timer_tab s t)" "hardclock_time s \<le> e"
    and s0: "s0 = upd_timer t f s" "armed (f (timer_tab s t))" "expiration_time (f (timer_tab s t)) = e"
  shows "\<exists>s'. wheel_add t s0 = Some s' \<and> wheel_inv s' \<and> timer_tab s' = timer_tab s0
    \<and> hardclock_time s' = hardclock_time s \<and> softclock_time s' = softclock_time s
    \<and> sched.truncate s' = sched.truncate s"
proof -
  let ?i = "nat (e mod 100)"
  define s' where "s' = s0\<lparr>timing_wheel := (timing_wheel s)(?i := timing_wheel s ?i @ [t])\<rparr>"
  have e: "0 \<le> e" "softclock_time s \<le> e" using assms by (simp_all add: wheel_inv_def)
  have "wheel_add t s0 = Some s'"
    by (simp add: wheel_add_def s0 s'_def wheel_index_nonneg e)
  moreover have "wheel_inv s'"
    using assms(1,2) e unfolding wheel_inv_def s'_def s0(1) by (auto simp: s0)
  moreover have "sched.truncate s' = sched.truncate s0" by (simp add: s'_def sched.truncate_def)
  ultimately show ?thesis by (simp add: s'_def s0(1))
qed

lemma wheel_rem_inv:
  assumes "wheel_inv s" "armed (timer_tab s t)" "\<not> armed (f (timer_tab s t))"
  shows "\<exists>s'. wheel_rem t s = Some s' \<and> wheel_inv (upd_timer t f s')
    \<and> timer_tab s' = timer_tab s
    \<and> hardclock_time s' = hardclock_time s \<and> softclock_time s' = softclock_time s
    \<and> sched.truncate s' = sched.truncate s"
proof -
  let ?i = "nat (expiration_time (timer_tab s t) mod 100)"
  define s' where "s' = s\<lparr>timing_wheel := (timing_wheel s)(?i := remove1 t (timing_wheel s ?i))\<rparr>"
  have "0 \<le> expiration_time (timer_tab s t)" using assms(1,2) by (force simp: wheel_inv_def)
  then have "wheel_rem t s = Some s'"
    by (simp add: wheel_rem_def s'_def wheel_index_nonneg)
  moreover have "wheel_inv (upd_timer t f s')"
    using assms unfolding wheel_inv_def s'_def by auto
  ultimately show ?thesis by (simp add: s'_def sched.truncate_def)
qed

section \<open>Callbacks\<close>

primrec timer_owner :: "timer_id \<Rightarrow> nat" where
  "timer_owner (Sleep_timer p) = p"
| "timer_owner (Timeout_timer p) = p"

text \<open>
  An armed timer names its task, and a timed sleep that still waits is on the list of its
  condition variable.
\<close>

definition callback_ok :: "'a timers_scheme \<Rightarrow> timer_id \<Rightarrow> bool" where
  "callback_ok s t \<longleftrightarrow> tprocess (timer_tab s t) = Some (timer_owner t)
     \<and> (callback (timer_tab s t) = Some TaskTimedSleepCallback_fn \<longrightarrow>
          (\<exists>r. targ (timer_tab s t) = Some r
             \<and> (pstate (procs s (timer_owner t)) = PROC_STATE_RENDEZ_BLOCKED \<longrightarrow>
                  timer_owner t \<in> set (blocked_list s r))))"

definition timers_inv :: "'a timers_scheme \<Rightarrow> bool" where
  "timers_inv s \<longleftrightarrow> sched_inv s \<and> found_inv s \<and> wheel_inv s \<and> (\<forall>t. armed (timer_tab s t) \<longrightarrow> callback_ok s t)"

text \<open>A callback touches the scheduler's fields only, and leaves the other callbacks in order.\<close>

lemma TaskWakeup_callback_ok:
  assumes "sched_inv s" "callback_ok s u"
  shows "callback_ok (TaskWakeup r s) u"
  using assms timers_more [OF TaskWakeup_sel(9) [of r s]]
  unfolding callback_ok_def
  by (auto simp: TaskWakeup_entry wake_entry_def sched_inv_def waits_inv_def split: list.splits)

lemma SleepCallback_ok:
  assumes "sched_inv s" "bkl_locked s" "callback_ok s t"
  shows "\<exists>s'. SleepCallback t s = Some s' \<and> sched_inv s' \<and> bkl_locked s' \<and> (found_inv s \<longrightarrow> found_inv s')
    \<and> sched.more s' = sched.more s \<and> (\<forall>u. callback_ok s u \<longrightarrow> callback_ok s' u)"
  using assms TaskWakeup_inv(1) [OF assms(1,2)] TaskWakeup_callback_ok [OF assms(1)]
  by (simp add: SleepCallback_def callback_ok_def TaskWakeup_sel TaskWakeup_found)

lemma TaskTimedSleepCallback_ok:
  assumes "sched_inv s" "bkl_locked s" "callback_ok s t"
    "callback (timer_tab s t) = Some TaskTimedSleepCallback_fn"
  shows "\<exists>s'. TaskTimedSleepCallback t s = Some s' \<and> sched_inv s' \<and> bkl_locked s'
    \<and> (found_inv s \<longrightarrow> found_inv s')
    \<and> sched.more s' = sched.more s \<and> (\<forall>u. callback_ok s u \<longrightarrow> callback_ok s' u)"
proof -
  let ?p = "timer_owner t"
  obtain r where r: "targ (timer_tab s t) = Some r"
    "pstate (procs s ?p) = PROC_STATE_RENDEZ_BLOCKED \<longrightarrow> ?p \<in> set (blocked_list s r)"
    using assms(3,4) by (auto simp: callback_ok_def)
  have e: "TaskTimedSleepCallback t s =
      Some (if pstate (procs s ?p) = PROC_STATE_RENDEZ_BLOCKED then wake_entry r ?p s else s)"
    using assms(3) r by (simp add: TaskTimedSleepCallback_def callback_ok_def wake_entry_def)
  have m: "sched.more (wake_entry r ?p s) = sched.more s" by (simp add: wake_entry_def)
  have "callback_ok (wake_entry r ?p s) u" if "callback_ok s u" for u
    using that timers_more [OF m] unfolding callback_ok_def by (auto simp: wake_entry_def)
  then show ?thesis
    using assms(1,2) r(2) wake_entry_inv [OF assms(1,2)] m e wake_entry_found [of s r ?p]
    by (auto simp: wake_entry_def)
qed

lemma run_callback_ok:
  assumes "sched_inv s" "bkl_locked s" "callback_ok s t"
  shows "\<exists>s'. run_callback t s = Some s' \<and> sched_inv s' \<and> bkl_locked s' \<and> (found_inv s \<longrightarrow> found_inv s')
    \<and> sched.more s' = sched.more s \<and> (\<forall>u. callback_ok s u \<longrightarrow> callback_ok s' u)"
proof (cases "callback (timer_tab s t)")
  case None
  then show ?thesis using assms by (simp add: run_callback_def)
next
  case (Some c)
  then show ?thesis
    using SleepCallback_ok [OF assms] TaskTimedSleepCallback_ok [OF assms]
    by (cases c) (simp_all add: run_callback_def)
qed

section \<open>Expiry\<close>

text \<open>What is left of the wheel and the timers when \<open>t\<close> has expired.\<close>

definition disarm :: "timer_id \<Rightarrow> 'a timers_scheme \<Rightarrow> 'a timers_scheme" where
  "disarm t s =
     (let i = nat (softclock_time s mod 100)
      in upd_timer t (\<lambda>t. t\<lparr>armed := False\<rparr>)
           (s\<lparr>timing_wheel := (timing_wheel s)(i := remove1 t (timing_wheel s i))\<rparr>))"

lemma expire_one_ok:
  assumes "timers_inv s" "bkl_locked s" "armed (timer_tab s t)"
    and b: "nat (expiration_time (timer_tab s t) mod 100) = nat (softclock_time s mod 100)"
  shows "\<exists>s'. expire_one t s = Some s' \<and> timers_inv s' \<and> bkl_locked s'
    \<and> softclock_time s' = softclock_time s \<and> hardclock_time s' = hardclock_time s
    \<and> timer_tab s' = (if expiration_time (timer_tab s t) = softclock_time s
        then (timer_tab s)(t := (timer_tab s t)\<lparr>armed := False\<rparr>) else timer_tab s)"
proof (cases "expiration_time (timer_tab s t) \<le> softclock_time s")
  case False
  then show ?thesis using assms by (simp add: expire_one_def)
next
  case True
  note inv = assms(1) [unfolded timers_inv_def]
  have e: "expiration_time (timer_tab s t) = softclock_time s"
    using inv assms(3) True by (force simp: wheel_inv_def)
  have w: "wheel_inv (disarm t s)"
    using inv assms(3) e unfolding wheel_inv_def disarm_def Let_def by auto
  have tr: "sched.truncate (disarm t s) = sched.truncate s"
    by (simp add: disarm_def Let_def sched.truncate_def upd_timer_def)
  have found: "found_inv (disarm t s)"
    using inv by (simp add: found_inv_def disarm_def Let_def)
  have "sched_inv (disarm t s)" using inv sched_inv_cong [OF tr] by simp
  moreover have cb: "callback_ok (disarm t s) u = callback_ok s u" for u
    by (simp add: callback_ok_def disarm_def Let_def)
  ultimately obtain s' where s': "run_callback t (disarm t s) = Some s'" "sched_inv s'"
    "bkl_locked s'" "sched.more s' = sched.more (disarm t s)" "\<forall>u. callback_ok s u \<longrightarrow> callback_ok s' u"
    "found_inv s'"
    using run_callback_ok [of "disarm t s" t] inv assms(2,3) found
    by (auto simp: disarm_def Let_def)
  note m = timers_more [OF s'(4)]
  have "expire_one t s = Some s'"
    using s'(1) True inv
    by (simp add: expire_one_def disarm_def Let_def wheel_inv_def wheel_index_nonneg)
  moreover have "armed (timer_tab s' u) \<Longrightarrow> callback_ok s' u" for u
    using s'(5) inv unfolding m by (auto simp: disarm_def Let_def split: if_splits)
  ultimately show ?thesis
    using s' w wheel_inv_more [OF s'(4)] m e by (simp add: timers_inv_def disarm_def Let_def)
qed

lemma expire_timers_ok:
  assumes "timers_inv s" "bkl_locked s" "distinct ts"
    and "\<forall>t \<in> set ts. armed (timer_tab s t)
      \<and> nat (expiration_time (timer_tab s t) mod 100) = nat (softclock_time s mod 100)"
  shows "\<exists>s'. expire_timers ts s = Some s' \<and> timers_inv s' \<and> bkl_locked s'
    \<and> softclock_time s' = softclock_time s \<and> hardclock_time s' = hardclock_time s
    \<and> timer_tab s' = (\<lambda>t. if t \<in> set ts \<and> expiration_time (timer_tab s t) = softclock_time s
        then (timer_tab s t)\<lparr>armed := False\<rparr> else timer_tab s t)"
  using assms
proof (induction ts arbitrary: s)
  case Nil
  then show ?case by simp
next
  case (Cons t ts)
  from expire_one_ok [OF Cons(2,3), of t] Cons(5) obtain u where u: "expire_one t s = Some u"
    "timers_inv u" "bkl_locked u" "softclock_time u = softclock_time s"
    "hardclock_time u = hardclock_time s"
    "timer_tab u = (if expiration_time (timer_tab s t) = softclock_time s
        then (timer_tab s)(t := (timer_tab s t)\<lparr>armed := False\<rparr>) else timer_tab s)"
    by auto
  have "x \<in> set ts \<Longrightarrow> timer_tab u x = timer_tab s x" for x
    using Cons(4) u(6) by auto
  then have "\<forall>x \<in> set ts. armed (timer_tab u x)
      \<and> nat (expiration_time (timer_tab u x) mod 100) = nat (softclock_time u mod 100)"
    using Cons(5) u(4) by simp
  from Cons.IH [OF u(2,3) _ this] Cons(4) obtain s' where s': "expire_timers ts u = Some s'"
    "timers_inv s'" "bkl_locked s'" "softclock_time s' = softclock_time u"
    "hardclock_time s' = hardclock_time u"
    "timer_tab s' = (\<lambda>t. if t \<in> set ts \<and> expiration_time (timer_tab u t) = softclock_time u
        then (timer_tab u t)\<lparr>armed := False\<rparr> else timer_tab u t)"
    by auto
  have "timer_tab s' = (\<lambda>x. if x \<in> set (t # ts) \<and> expiration_time (timer_tab s x) = softclock_time s
        then (timer_tab s x)\<lparr>armed := False\<rparr> else timer_tab s x)"
    using Cons(4) by (auto simp: fun_eq_iff s'(6) u(4,6))
  then show ?case using u s' by simp
qed

text \<open>One iteration of the timer task expires exactly the timers that are due.\<close>

lemma softclock_step_ok:
  assumes "timers_inv s" "bkl_locked s" "softclock_time s < hardclock_time s"
  shows "\<exists>s'. softclock_step s = Some s' \<and> timers_inv s' \<and> bkl_locked s'
    \<and> softclock_time s' = softclock_time s + 1 \<and> hardclock_time s' = hardclock_time s
    \<and> timer_tab s' = (\<lambda>t. if armed (timer_tab s t) \<and> expiration_time (timer_tab s t) = softclock_time s
        then (timer_tab s t)\<lparr>armed := False\<rparr> else timer_tab s t)"
proof -
  let ?i = "nat (softclock_time s mod 100)"
  let ?ts = "timing_wheel s ?i"
  have w: "wheel_inv s" using assms(1) by (simp add: timers_inv_def)
  then have ts: "distinct ?ts" "t \<in> set ?ts \<longleftrightarrow> armed (timer_tab s t)
      \<and> ?i = nat (expiration_time (timer_tab s t) mod 100)" for t
    by (simp_all add: wheel_inv_def)
  then obtain u where u: "expire_timers ?ts s = Some u" "timers_inv u" "bkl_locked u"
    "softclock_time u = softclock_time s" "hardclock_time u = hardclock_time s"
    "timer_tab u = (\<lambda>t. if t \<in> set ?ts \<and> expiration_time (timer_tab s t) = softclock_time s
        then (timer_tab s t)\<lparr>armed := False\<rparr> else timer_tab s t)"
    using expire_timers_ok [OF assms(1,2), of ?ts] by auto
  have tab: "timer_tab u = (\<lambda>t. if armed (timer_tab s t) \<and> expiration_time (timer_tab s t)
      = softclock_time s then (timer_tab s t)\<lparr>armed := False\<rparr> else timer_tab s t)"
    unfolding u(6) ts(2) by (auto simp: fun_eq_iff)
  let ?v = "u\<lparr>softclock_time := softclock_time u + 1\<rparr>"
  have "armed (timer_tab u t) \<Longrightarrow> softclock_time u + 1 \<le> expiration_time (timer_tab u t)" for t
    using w unfolding tab u(4) wheel_inv_def by (force split: if_splits)
  then have "wheel_inv ?v"
    using u(2,4,5) assms(3) unfolding timers_inv_def wheel_inv_def by auto
  moreover have "sched_inv ?v = sched_inv u"
    by (rule sched_inv_cong) (simp add: sched.truncate_def)
  moreover have "found_inv ?v = found_inv u" by (rule found_cong) simp_all
  moreover have "callback_ok ?v t = callback_ok u t" for t by (simp add: callback_ok_def)
  ultimately have "timers_inv ?v" using u(2) by (simp add: timers_inv_def)
  moreover have "softclock_step s = Some ?v"
    using u(1) w by (simp add: softclock_step_def wheel_index_nonneg wheel_inv_def)
  ultimately show ?thesis using u(3-5) tab by simp
qed

text \<open>The loop of the timer task ends, and has then caught up with the hard clock.\<close>

lemma TimerBottomHalf_ok:
  assumes "timers_inv s" "bkl_locked s" "nat (hardclock_time s - softclock_time s) \<le> n"
  shows "\<exists>s'. TimerBottomHalf n s = Some s' \<and> timers_inv s' \<and> bkl_locked s'
    \<and> softclock_time s' = hardclock_time s \<and> hardclock_time s' = hardclock_time s
    \<and> timer_tab s' = (\<lambda>t. if armed (timer_tab s t) \<and> expiration_time (timer_tab s t) < hardclock_time s
        then (timer_tab s t)\<lparr>armed := False\<rparr> else timer_tab s t)"
  using assms
proof (induction n arbitrary: s)
  case 0
  then have "softclock_time s = hardclock_time s"
    and "armed (timer_tab s t) \<Longrightarrow> hardclock_time s \<le> expiration_time (timer_tab s t)" for t
    by (auto simp: timers_inv_def wheel_inv_def)
  then show ?case using 0 by (force simp: fun_eq_iff)
next
  case (Suc n)
  show ?case
  proof (cases "softclock_time s < hardclock_time s")
    case False
    then have "softclock_time s = hardclock_time s"
      and "armed (timer_tab s t) \<Longrightarrow> hardclock_time s \<le> expiration_time (timer_tab s t)" for t
      using Suc(2) by (auto simp: timers_inv_def wheel_inv_def)
    then show ?thesis using Suc(2,3) by (force simp: fun_eq_iff)
  next
    case True
    from softclock_step_ok [OF Suc(2,3) True] obtain u where u: "softclock_step s = Some u"
      "timers_inv u" "bkl_locked u" "softclock_time u = softclock_time s + 1"
      "hardclock_time u = hardclock_time s"
      "timer_tab u = (\<lambda>t. if armed (timer_tab s t) \<and> expiration_time (timer_tab s t) = softclock_time s
        then (timer_tab s t)\<lparr>armed := False\<rparr> else timer_tab s t)" by blast
    have "nat (hardclock_time u - softclock_time u) \<le> n" using u(4,5) Suc(4) by linarith
    from Suc.IH [OF u(2,3) this] u(5) obtain s' where s': "TimerBottomHalf n u = Some s'"
      "timers_inv s'" "bkl_locked s'" "softclock_time s' = hardclock_time s"
      "hardclock_time s' = hardclock_time s"
      "timer_tab s' = (\<lambda>t. if armed (timer_tab u t) \<and> expiration_time (timer_tab u t) < hardclock_time u
        then (timer_tab u t)\<lparr>armed := False\<rparr> else timer_tab u t)" by auto
    have "timer_tab s' = (\<lambda>t. if armed (timer_tab s t) \<and> expiration_time (timer_tab s t) < hardclock_time s
        then (timer_tab s t)\<lparr>armed := False\<rparr> else timer_tab s t)"
      using True by (auto simp: fun_eq_iff s'(6) u(5,6))
    then show ?thesis using True u(1) s' by simp
  qed
qed

section \<open>Steps\<close>

text \<open>
  Arming the sleep timer of the running task, as \<open>sys_sleep\<close>, \<open>sys_nanosleep\<close> and \<open>TaskTimedSleep\<close>
  do, and then sleeping.  A timed sleep arms the timer after it has passed on the BKL, which is the
  same.
\<close>

definition arm_timed :: "rendez \<Rightarrow> int \<Rightarrow> 'a timers_scheme \<Rightarrow> 'a timers_scheme option" where
  "arm_timed r e s =
     wheel_add (Sleep_timer (current s)) (upd_timer (Sleep_timer (current s))
       (\<lambda>t. t\<lparr>tprocess := Some (current s), targ := Some r, armed := True,
          callback := Some TaskTimedSleepCallback_fn, expiration_time := e\<rparr>) s)"

lemma bkl_pass_timers:
  fixes s :: "'a timers_scheme"
  shows "bkl_pass w (s\<lparr>timer_tab := a, timing_wheel := b\<rparr>)
    = map_option (\<lambda>s. s\<lparr>timer_tab := a, timing_wheel := b\<rparr>) (bkl_pass w s)"
  by (simp add: bkl_pass_def SchedReady_def upd_proc_def set_queue_def Let_def split: list.splits)

lemma bkl_pass_more: "bkl_pass w s = Some t \<Longrightarrow> sched.more t = sched.more s \<and> current t = current s"
  by (auto simp: bkl_pass_def Let_def SchedReady_sel split: list.splits)

lemma TaskTimedSleep_eq:
  fixes s :: "'a timers_scheme"
  assumes "arm_timed r (hardclock_time s + (sec * JIFFIES_PER_SECOND
      + cdiv nsec NANOSECONDS_PER_JIFFY)) s = Some s1"
  shows "TaskTimedSleep r (sec, nsec) s = TaskSleep r s1"
proof -
  let ?e = "hardclock_time s + (sec * JIFFIES_PER_SECOND + cdiv nsec NANOSECONDS_PER_JIFFY)"
  let ?t = "Sleep_timer (current s)"
  let ?f = "\<lambda>x. x\<lparr>tprocess := Some (current s), targ := Some r, armed := True,
          callback := Some TaskTimedSleepCallback_fn, expiration_time := ?e\<rparr>"
  obtain i where i: "wheel_index ?e = Some i"
    using assms by (auto simp: arm_timed_def wheel_add_def split: Option.bind_splits)
  define a b where "a = (timer_tab s)(?t := ?f (timer_tab s ?t))"
    and "b = (timing_wheel s)(i := timing_wheel s i @ [?t])"
  have s1: "s1 = s\<lparr>timer_tab := a, timing_wheel := b\<rparr>"
    using assms i by (simp add: arm_timed_def wheel_add_def upd_timer_def a_def b_def)
  show ?thesis
  proof (cases "bkl_pass 0xdeadbeef s")
    case None
    then show ?thesis by (simp add: TaskTimedSleep_def TaskSleep_def s1 bkl_pass_timers)
  next
    case (Some t)
    note m = bkl_pass_more [OF Some]
    have "wheel_add ?t (upd_timer ?t ?f t) = Some (t\<lparr>timer_tab := a, timing_wheel := b\<rparr>)"
      using i timers_more [of t s] m
      by (simp add: wheel_add_def upd_timer_def a_def b_def)
    then show ?thesis
      using m Some timers_more [of t s]
      by (simp add: TaskTimedSleep_def TaskSleep_def s1 bkl_pass_timers Let_def)
  qed
qed

text \<open>The task that holds the BKL has left its last timed sleep.\<close>

definition no_timed :: "'a timers_scheme \<Rightarrow> bool" where
  "no_timed s \<longleftrightarrow> (bkl_owner s = Owner (current s) \<longrightarrow>
     (\<forall>t. timer_owner t = current s \<and> armed (timer_tab s t) \<longrightarrow>
        callback (timer_tab s t) \<noteq> Some TaskTimedSleepCallback_fn))"

lemma sched_step_blocked:
  assumes "sched_step s s'" "sched_inv s" "p \<in> set (blocked_list s' r)"
  shows "p \<in> set (blocked_list s r) \<or> p = current s \<and> bkl_owner s = Owner (current s)"
  using assms(1)
proof (cases rule: sched_step.cases)
  case lock
  then show ?thesis using KernelLock_inv [OF assms(2)] assms(3) by auto
next
  case unlock
  then show ?thesis using KernelUnlock_inv [OF assms(2)] assms(3) by auto
next
  case (sleep k)
  then show ?thesis
    using TaskSleep_inv [OF assms(2), of k] assms(3) by (auto split: if_splits)
next
  case (wakeup k)
  then show ?thesis using assms(3) by (auto simp: TaskWakeup_sel split: if_splits dest: in_set_tlD)
next
  case (wakeup_isr k)
  then show ?thesis
    using assms(3)
    by (auto simp: TaskWakeup_sel TaskWakeupFromISR_eq split: if_splits dest: in_set_tlD)
next
  case (wakeup_all k)
  then show ?thesis
    using TaskWakeupAll_inv [OF assms(2), of k] assms(3) by (auto split: if_splits)
next
  case (fork q)
  then show ?thesis using fork_start_inv [OF assms(2), of q] assms(3) by auto
next
  case exit
  then show ?thesis using exit_switch_inv [OF assms(2)] assms(3) by auto
next
  case tick
  then show ?thesis using assms(3) by (simp add: quanta_tick_def)
next
  case (setparams pol prio x)
  then show ?thesis using sys_setschedparams_inv [OF assms(2), of pol prio] assms(3) by auto
qed

lemma sched_step_callback:
  assumes "sched_step s s'" "sched.more s' = sched.more s" "sched_inv s" "found_inv s"
    "callback_ok s t"
    "\<not> (bkl_owner s = Owner (current s) \<and> timer_owner t = current s
        \<and> callback (timer_tab s t) = Some TaskTimedSleepCallback_fn)"
  shows "callback_ok s' t"
proof -
  let ?p = "timer_owner t"
  have f: "found_inv s'" using assms(1,3,4) sched_step_found by blast
  have "?p \<in> set (blocked_list s' r)"
    if r: "callback (timer_tab s t) = Some TaskTimedSleepCallback_fn"
      "targ (timer_tab s t) = Some r" "pstate (procs s' ?p) = PROC_STATE_RENDEZ_BLOCKED" for r
  proof -
    obtain k where k: "?p \<in> set (blocked_list s' k)" using f r(3) by (auto simp: found_inv_def)
    then have b: "?p \<in> set (blocked_list s k)"
      using sched_step_blocked [OF assms(1,3) k] assms(6) r(1) by auto
    then have "pstate (procs s ?p) = PROC_STATE_RENDEZ_BLOCKED"
      using assms(3) by (simp add: sched_inv_def waits_inv_def)
    then have "?p \<in> set (blocked_list s r)" using assms(5) r(1,2) by (auto simp: callback_ok_def)
    then have "k = r" using b assms(3) unfolding sched_inv_def waits_inv_def by (metis disjoint_iff)
    then show ?thesis using k by simp
  qed
  then show ?thesis using assms(5) unfolding callback_ok_def timers_more [OF assms(2)] by auto
qed

lemma sched_step_timers:
  assumes "sched_step s s'" "sched.more s' = sched.more s" "sched_inv s" "found_inv s" "wheel_inv s"
    "\<And>t. armed (timer_tab s t) \<Longrightarrow> callback_ok s' t"
  shows "timers_inv s'"
  using assms sched_step_inv [OF assms(1,3)] sched_step_found [OF assms(1,3,4)]
    wheel_inv_more [OF assms(2)] timers_more [OF assms(2)]
  by (simp add: timers_inv_def)

text \<open>Arming the sleep timer of the running task.\<close>

lemma arm_inv:
  assumes inv: "timers_inv s" and c: "current s \<noteq> idle_process s"
    and t: "\<not> armed (timer_tab s (Sleep_timer (current s)))" "hardclock_time s \<le> e"
    and f: "armed (f (timer_tab s (Sleep_timer (current s))))"
      "expiration_time (f (timer_tab s (Sleep_timer (current s)))) = e"
      "tprocess (f (timer_tab s (Sleep_timer (current s)))) = Some (current s)"
      "callback (f (timer_tab s (Sleep_timer (current s)))) = Some SleepCallback_fn
        \<or> targ (f (timer_tab s (Sleep_timer (current s)))) = Some r"
  shows "\<exists>s1. wheel_add (Sleep_timer (current s)) (upd_timer (Sleep_timer (current s)) f s) = Some s1
    \<and> timers_inv s1 \<and> sched.truncate s1 = sched.truncate s
    \<and> hardclock_time s1 = hardclock_time s \<and> softclock_time s1 = softclock_time s
    \<and> timer_tab s1 = (timer_tab s)(Sleep_timer (current s) := f (timer_tab s (Sleep_timer (current s))))"
proof -
  let ?t = "Sleep_timer (current s)"
  note i = inv [unfolded timers_inv_def]
  from wheel_add_inv [of s ?t e "upd_timer ?t f s" f] i t f(1,2) obtain s1 where s1: "wheel_add ?t (upd_timer ?t f s) = Some s1"
    "wheel_inv s1" "timer_tab s1 = timer_tab (upd_timer ?t f s)" "hardclock_time s1 = hardclock_time s"
    "softclock_time s1 = softclock_time s" "sched.truncate s1 = sched.truncate s" by blast
  have tr: "procs s1 = procs s" "blocked_list s1 = blocked_list s"
    "bkl_blocked_list s1 = bkl_blocked_list s" using s1(6) by (simp_all add: sched.truncate_def)
  have "queued s (current s)" using i c current_queued by blast
  then have "pstate (procs s (current s)) \<noteq> PROC_STATE_RENDEZ_BLOCKED"
    using i unfolding found_inv_def sched_inv_def waits_inv_def by blast
  then have "armed (timer_tab s1 x) \<Longrightarrow> callback_ok s1 x" for x
    using i f by (cases "x = ?t") (auto simp: callback_ok_def s1(3) tr)
  moreover have "found_inv s1" using i by (simp add: found_inv_def tr)
  ultimately have "timers_inv s1"
    using s1(2) i sched_inv_cong [OF s1(6)] by (simp add: timers_inv_def)
  then show ?thesis using s1 by auto
qed

text \<open>
  \<open>sys_sleep\<close> blocks the caller with its timer armed for the given time; so does \<open>sys_nanosleep\<close> for
  a delay of a jiffy or more.
\<close>

lemma arm_sleep_blocks:
  assumes inv: "timers_inv s" "no_timed s" "bkl_owner s = Owner (current s)"
    and c: "current s \<noteq> idle_process s"
    and t: "\<not> armed (timer_tab s (Sleep_timer (current s)))" "hardclock_time s \<le> e"
  shows "\<exists>s'. (arm_sleep e s \<bind> sleep_wait) = Some (Blocked, s') \<and> timers_inv s'
    \<and> hardclock_time s' = hardclock_time s \<and> softclock_time s' = softclock_time s
    \<and> armed (timer_tab s' (Sleep_timer (current s)))
    \<and> expiration_time (timer_tab s' (Sleep_timer (current s))) = e
    \<and> callback (timer_tab s' (Sleep_timer (current s))) = Some SleepCallback_fn
    \<and> current s \<in> set (blocked_list s' (Rz_proc (current s)))
    \<and> (\<forall>u. u \<noteq> Sleep_timer (current s) \<longrightarrow> timer_tab s' u = timer_tab s u)"
proof -
  let ?t = "Sleep_timer (current s)"
  let ?f = "\<lambda>t. t\<lparr>tprocess := Some (current s), armed := True,
                callback := Some SleepCallback_fn, expiration_time := e\<rparr>"
  from arm_inv [OF inv(1) c t, of ?f] obtain s1 where s1: "arm_sleep e s = Some s1" "timers_inv s1"
    "sched.truncate s1 = sched.truncate s" "hardclock_time s1 = hardclock_time s"
    "softclock_time s1 = softclock_time s" "timer_tab s1 = (timer_tab s)(?t := ?f (timer_tab s ?t))"
    by (auto simp: arm_sleep_def Let_def)
  have tr: "current s1 = current s" "bkl_owner s1 = Owner (current s1)"
    "current s1 \<noteq> idle_process s1"
    using s1(3) inv(3) c by (simp_all add: sched.truncate_def)
  note i = s1(2) [unfolded timers_inv_def]
  from TaskSleep_inv [OF _ tr(2,3), of "Rz_proc (current s)"] i obtain s' where
    s': "TaskSleep (Rz_proc (current s)) s1 = Some s'" "sched.more s' = sched.more s1"
      "blocked_list s' = (blocked_list s1)(Rz_proc (current s) :=
         blocked_list s1 (Rz_proc (current s)) @ [current s1])" by blast
  note m = timers_more [OF s'(2)]
  have st: "sched_step s1 s'" using tr(2,3) s'(1) by (rule sched_step.sleep)
  have "callback_ok s' x" if "armed (timer_tab s1 x)" for x
    using sched_step_callback [OF st s'(2)] that i inv(2,3) s1(6) tr
    by (auto simp: no_timed_def split: if_splits)
  with sched_step_timers [OF st s'(2)] i have "timers_inv s'" by blast
  then show ?thesis using s1 s' tr m by (simp add: sleep_wait_def)
qed

lemma TaskTimedSleep_inv:
  assumes inv: "timers_inv s" "no_timed s" "bkl_owner s = Owner (current s)"
    and c: "current s \<noteq> idle_process s"
    and t: "\<not> armed (timer_tab s (Sleep_timer (current s)))" "0 \<le> sec" "0 \<le> nsec"
  shows "\<exists>s'. TaskTimedSleep r (sec, nsec) s = Some s' \<and> timers_inv s'
    \<and> hardclock_time s' = hardclock_time s \<and> softclock_time s' = softclock_time s
    \<and> (\<forall>u. u \<noteq> Sleep_timer (current s) \<longrightarrow> timer_tab s' u = timer_tab s u)"
proof -
  let ?t = "Sleep_timer (current s)"
  let ?e = "hardclock_time s + (sec * JIFFIES_PER_SECOND + cdiv nsec NANOSECONDS_PER_JIFFY)"
  let ?f = "\<lambda>t. t\<lparr>tprocess := Some (current s), targ := Some r, armed := True,
          callback := Some TaskTimedSleepCallback_fn, expiration_time := ?e\<rparr>"
  have "hardclock_time s \<le> ?e"
    using t(2,3) by (simp add: cdiv_def JIFFIES_PER_SECOND_def NANOSECONDS_PER_JIFFY_def)
  from arm_inv [OF inv(1) c t(1) this, of ?f r] obtain s1 where s1: "arm_timed r ?e s = Some s1"
    "timers_inv s1" "sched.truncate s1 = sched.truncate s" "hardclock_time s1 = hardclock_time s"
    "softclock_time s1 = softclock_time s" "timer_tab s1 = (timer_tab s)(?t := ?f (timer_tab s ?t))"
    by (auto simp: arm_timed_def)
  have tr: "current s1 = current s" "bkl_owner s1 = Owner (current s1)"
    "current s1 \<noteq> idle_process s1"
    using s1(3) inv(3) c by (simp_all add: sched.truncate_def)
  note i = s1(2) [unfolded timers_inv_def]
  from TaskSleep_inv [OF _ tr(2,3), of r] i obtain s' where
    s': "TaskSleep r s1 = Some s'" "sched.more s' = sched.more s1"
      "blocked_list s' = (blocked_list s1)(r := blocked_list s1 r @ [current s1])" by blast
  note m = timers_more [OF s'(2)]
  have st: "sched_step s1 s'" using tr(2,3) s'(1) by (rule sched_step.sleep)
  have "callback_ok s' x" if "armed (timer_tab s1 x)" for x
  proof (cases "x = ?t")
    case True
    then show ?thesis using s1(6) s'(3) m tr by (simp add: callback_ok_def)
  next
    case False
    then show ?thesis using sched_step_callback [OF st s'(2)] that i inv(2,3) s1(6) tr
      by (auto simp: no_timed_def)
  qed
  with sched_step_timers [OF st s'(2)] i have "timers_inv s'" by blast
  then show ?thesis using s1 s' m TaskTimedSleep_eq [OF s1(1)] by auto
qed

inductive timer_step :: "'a timers_scheme \<Rightarrow> 'a timers_scheme \<Rightarrow> bool" where
  tick: "bkl_locked s \<Longrightarrow> timer_step s (TimerTopHalf s)"
| soft: "\<lbrakk>bkl_locked s; softclock_time s < hardclock_time s; softclock_step s = Some s'\<rbrakk>
    \<Longrightarrow> timer_step s s'"
| sched: "\<lbrakk>no_timed s; sched_step s s'; sched.more s' = sched.more s\<rbrakk> \<Longrightarrow> timer_step s s'"
| sleep: "\<lbrakk>no_timed s; bkl_owner s = Owner (current s); current s \<noteq> idle_process s;
     \<not> armed (timer_tab s (Sleep_timer (current s))); 0 \<le> n;
     sys_sleep n s = Some (Blocked, s')\<rbrakk> \<Longrightarrow> timer_step s s'"
| nanosleep: "\<lbrakk>no_timed s; bkl_owner s = Owner (current s); current s \<noteq> idle_process s;
     \<not> armed (timer_tab s (Sleep_timer (current s))); 0 \<le> sec; 0 \<le> nsec;
     sys_nanosleep (Some (sec, nsec)) s = Some (Blocked, s')\<rbrakk> \<Longrightarrow> timer_step s s'"
| timed: "\<lbrakk>no_timed s; bkl_owner s = Owner (current s); current s \<noteq> idle_process s;
     \<not> armed (timer_tab s (Sleep_timer (current s))); 0 \<le> sec; 0 \<le> nsec;
     TaskTimedSleep r (sec, nsec) s = Some s'\<rbrakk> \<Longrightarrow> timer_step s s'"
| resume: "\<lbrakk>armed (timer_tab s (Sleep_timer (current s))) \<longrightarrow>
       callback (timer_tab s (Sleep_timer (current s))) = Some TaskTimedSleepCallback_fn;
     TaskTimedSleep_resume s = Some (x, s')\<rbrakk> \<Longrightarrow> timer_step s s'"

lemma resume_inv:
  assumes "timers_inv s" "armed (timer_tab s (Sleep_timer (current s)))"
  shows "\<exists>s'. TaskTimedSleep_resume s = Some (Inr (), s') \<and> timers_inv s'
    \<and> hardclock_time s' = hardclock_time s \<and> softclock_time s' = softclock_time s
    \<and> \<not> armed (timer_tab s' (Sleep_timer (current s)))
    \<and> (\<forall>u. u \<noteq> Sleep_timer (current s) \<longrightarrow> timer_tab s' u = timer_tab s u)"
proof -
  let ?t = "Sleep_timer (current s)"
  let ?f = "\<lambda>t. t\<lparr>armed := False, tprocess := None, callback := None\<rparr>"
  note i = assms(1) [unfolded timers_inv_def]
  from wheel_rem_inv [of s ?t ?f] i assms(2) obtain s1 where s1: "wheel_rem ?t s = Some s1"
    "wheel_inv (upd_timer ?t ?f s1)" "timer_tab s1 = timer_tab s" "hardclock_time s1 = hardclock_time s"
    "softclock_time s1 = softclock_time s" "sched.truncate s1 = sched.truncate s" by auto
  have tr: "procs s1 = procs s" "blocked_list s1 = blocked_list s"
    "bkl_blocked_list s1 = bkl_blocked_list s" using s1(6) by (simp_all add: sched.truncate_def)
  have "sched_inv (upd_timer ?t ?f s1) = sched_inv s" by (rule sched_inv_cong) (simp add: s1(6))
  moreover have "found_inv (upd_timer ?t ?f s1) = found_inv s" by (rule found_cong) (simp_all add: tr)
  moreover have "armed (timer_tab (upd_timer ?t ?f s1) x) \<Longrightarrow> callback_ok (upd_timer ?t ?f s1) x" for x
    using i by (cases "x = ?t") (auto simp: callback_ok_def s1(3) tr)
  ultimately have "timers_inv (upd_timer ?t ?f s1)" using i s1(2) by (simp add: timers_inv_def)
  then show ?thesis using assms(2) s1 by (simp add: TaskTimedSleep_resume_def Let_def)
qed

lemma TimerTopHalf_inv:
  assumes "timers_inv s" "bkl_locked s"
  shows "timers_inv (TimerTopHalf s)" "timer_tab (TimerTopHalf s) = timer_tab s"
    "hardclock_time (TimerTopHalf s) = hardclock_time s + 1"
    "softclock_time (TimerTopHalf s) = softclock_time s"
proof -
  let ?u = "(quanta_tick s)\<lparr>hardclock_time := hardclock_time s + 1\<rparr>"
  note i = assms(1) [unfolded timers_inv_def]
  have qm: "sched.more (quanta_tick s) = sched.more s" by (simp add: quanta_tick_def)
  note m = timers_more [OF qm]
  have e: "TimerTopHalf s = TaskWakeup Rz_timer ?u"
    by (simp add: TimerTopHalf_def Let_def TaskWakeupFromISR_eq m)
  have "sched_inv ?u = sched_inv (quanta_tick s)"
    by (rule sched_inv_cong) (simp add: sched.truncate_def)
  then have s: "sched_inv ?u" "bkl_locked ?u"
    using i quanta_tick_inv(1) [of s] assms(2) by (simp_all add: quanta_tick_def)
  have f: "found_inv ?u = found_inv s" by (rule found_cong) (simp_all add: quanta_tick_def)
  have w: "wheel_inv ?u" using i m by (simp add: wheel_inv_def)
  have q: "pstate (procs (quanta_tick s) p) = pstate (procs s p)"
    "blocked_list (quanta_tick s) = blocked_list s" for p by (simp_all add: quanta_tick_def)
  have "callback_ok ?u x" if "armed (timer_tab s x)" for x
    using i that by (simp add: callback_ok_def m q)
  then have cb: "callback_ok (TaskWakeup Rz_timer ?u) x" if "armed (timer_tab s x)" for x
    using TaskWakeup_callback_ok [OF s(1)] that by blast
  note k = timers_more [OF TaskWakeup_sel(9) [of Rz_timer ?u]]
  show t: "timer_tab (TimerTopHalf s) = timer_tab s"
    "hardclock_time (TimerTopHalf s) = hardclock_time s + 1"
    "softclock_time (TimerTopHalf s) = softclock_time s" unfolding e k by (simp_all add: m)
  show "timers_inv (TimerTopHalf s)"
    using TaskWakeup_inv(1) [OF s] TaskWakeup_found [of ?u Rz_timer] f i w cb
      wheel_inv_more [OF TaskWakeup_sel(9) [of Rz_timer ?u]] t
    by (simp add: timers_inv_def e)
qed

text \<open>
  Every step keeps the invariant, and a timer armed by \<open>sys_sleep\<close> or \<open>sys_nanosleep\<close> stays armed
  until the soft clock has passed its expiration time.
\<close>

definition pending :: "timer_id \<Rightarrow> int \<Rightarrow> 'a timers_scheme \<Rightarrow> bool" where
  "pending t e s \<longleftrightarrow> softclock_time s > e
     \<or> armed (timer_tab s t) \<and> expiration_time (timer_tab s t) = e
       \<and> callback (timer_tab s t) = Some SleepCallback_fn"

lemma pending_other:
  assumes "\<forall>u. u \<noteq> c \<longrightarrow> timer_tab s' u = timer_tab s u" "softclock_time s' = softclock_time s"
    "\<not> (armed (timer_tab s c) \<and> callback (timer_tab s c) = Some SleepCallback_fn)" "pending t e s"
  shows "pending t e s'"
  using assms by (cases "t = c") (auto simp: pending_def)

lemma timer_step_inv:
  assumes "timer_step s s'" "timers_inv s"
  shows "timers_inv s' \<and> softclock_time s \<le> softclock_time s'
    \<and> (\<forall>p e. pending (Sleep_timer p) e s \<longrightarrow> pending (Sleep_timer p) e s')"
  using assms(1)
proof (cases rule: timer_step.cases)
  case tick
  then show ?thesis using TimerTopHalf_inv [OF assms(2)] by (simp add: pending_def)
next
  case soft
  from softclock_step_ok [OF assms(2) soft(1,2)] soft(3) show ?thesis by (auto simp: pending_def)
next
  case sched
  note m = timers_more [OF sched(3)]
  have "callback_ok s' x" if "armed (timer_tab s x)" for x
    using sched_step_callback [OF sched(2,3)] that assms(2) sched(1)
    by (auto simp: no_timed_def timers_inv_def)
  then show ?thesis using sched_step_timers [OF sched(2,3)] assms(2) m
    by (auto simp: timers_inv_def pending_def)
next
  case (sleep n)
  from arm_sleep_blocks [OF assms(2) sleep(1-4), of "hardclock_time s + n * JIFFIES_PER_SECOND"] sleep(5,6)
  have u: "timers_inv s'" "softclock_time s' = softclock_time s"
    "\<forall>u. u \<noteq> Sleep_timer (current s) \<longrightarrow> timer_tab s' u = timer_tab s u"
    by (auto simp: sys_sleep_def JIFFIES_PER_SECOND_def)
  then show ?thesis using sleep(4) pending_other [OF u(3,2)] by auto
next
  case (nanosleep sec nsec)
  then have "\<not> (sec = 0 \<and> nsec < 10000000)" by (auto simp: sys_nanosleep_def)
  with arm_sleep_blocks [OF assms(2) nanosleep(1-4), of "hardclock_time s + sec * JIFFIES_PER_SECOND
      + cdiv nsec NANOSECONDS_PER_JIFFY"] nanosleep(5-7)
  have u: "timers_inv s'" "softclock_time s' = softclock_time s"
    "\<forall>u. u \<noteq> Sleep_timer (current s) \<longrightarrow> timer_tab s' u = timer_tab s u"
    by (auto simp: sys_nanosleep_def cdiv_def JIFFIES_PER_SECOND_def NANOSECONDS_PER_JIFFY_def)
  then show ?thesis using nanosleep(4) pending_other [OF u(3,2)] by auto
next
  case (timed sec nsec r)
  from TaskTimedSleep_inv [OF assms(2) timed(1-6), of r] timed(7)
  have u: "timers_inv s'" "softclock_time s' = softclock_time s"
    "\<forall>u. u \<noteq> Sleep_timer (current s) \<longrightarrow> timer_tab s' u = timer_tab s u" by auto
  then show ?thesis using timed(4) pending_other [OF u(3,2)] by auto
next
  case (resume x)
  show ?thesis
  proof (cases "armed (timer_tab s (Sleep_timer (current s)))")
    case True
    then have c: "callback (timer_tab s (Sleep_timer (current s))) = Some TaskTimedSleepCallback_fn"
      using resume(1) by simp
    from resume_inv [OF assms(2) True] resume(2) have u: "timers_inv s'"
      "softclock_time s' = softclock_time s"
      "\<forall>u. u \<noteq> Sleep_timer (current s) \<longrightarrow> timer_tab s' u = timer_tab s u" by auto
    then show ?thesis using c pending_other [OF u(3,2)] by auto
  next
    case False
    then show ?thesis using resume(2) assms(2) by (simp add: TaskTimedSleep_resume_def Let_def)
  qed
qed

lemma timer_steps_inv:
  assumes "timer_step\<^sup>*\<^sup>* s s'" "timers_inv s"
  shows "timers_inv s' \<and> (\<forall>p e. pending (Sleep_timer p) e s \<longrightarrow> pending (Sleep_timer p) e s')"
  using assms by (induction rule: rtranclp_induct) (auto dest: timer_step_inv)

section \<open>Sleepers are woken\<close>

text \<open>A task that sleeps on its own condition variable, or has been woken from it.\<close>

definition sleeper :: "nat \<Rightarrow> 'a sched_scheme \<Rightarrow> bool" where
  "sleeper p s \<longleftrightarrow> blocked_list s (Rz_proc p) = [p] \<or> p \<in> set (bkl_blocked_list s)"

lemma wake_entry_sleeper:
  "set (bkl_blocked_list s) \<subseteq> set (bkl_blocked_list (wake_entry r q s))"
  "sleeper p s \<Longrightarrow> sleeper p (wake_entry r q s)"
  by (auto simp: wake_entry_def sleeper_def split: if_splits)

lemma TaskWakeup_sleeper:
  "set (bkl_blocked_list s) \<subseteq> set (bkl_blocked_list (TaskWakeup r s))"
  "sleeper p s \<Longrightarrow> sleeper p (TaskWakeup r s)"
  "sleeper p s \<Longrightarrow> p \<in> set (bkl_blocked_list (TaskWakeup (Rz_proc p) s))"
  by (auto simp: TaskWakeup_sel sleeper_def split: if_splits)

lemma run_callback_sleeper:
  assumes "run_callback t s = Some s'" "callback_ok s t"
  shows "set (bkl_blocked_list s) \<subseteq> set (bkl_blocked_list s')" "sleeper p s \<Longrightarrow> sleeper p s'"
    "t = Sleep_timer p \<Longrightarrow> callback (timer_tab s t) = Some SleepCallback_fn \<Longrightarrow> sleeper p s \<Longrightarrow>
      p \<in> set (bkl_blocked_list s')"
proof -
  have "s' = s \<or> (\<exists>r. s' = TaskWakeup r s) \<or> (\<exists>r q. s' = wake_entry r q s)"
    using assms
    by (auto simp: run_callback_def SleepCallback_def TaskTimedSleepCallback_def wake_entry_def Let_def
        split: option.splits callback.splits if_splits)
  then show "set (bkl_blocked_list s) \<subseteq> set (bkl_blocked_list s')" "sleeper p s \<Longrightarrow> sleeper p s'"
    using TaskWakeup_sleeper(1,2) wake_entry_sleeper by fast+
  assume "t = Sleep_timer p" "callback (timer_tab s t) = Some SleepCallback_fn" "sleeper p s"
  then show "p \<in> set (bkl_blocked_list s')"
    using assms TaskWakeup_sleeper(3) by (auto simp: run_callback_def SleepCallback_def callback_ok_def)
qed

lemma expire_one_sleeper:
  assumes "timers_inv s" "armed (timer_tab s t)" "expire_one t s = Some s'"
  shows "set (bkl_blocked_list s) \<subseteq> set (bkl_blocked_list s')" "sleeper p s \<Longrightarrow> sleeper p s'"
    "\<lbrakk>t = Sleep_timer p; callback (timer_tab s t) = Some SleepCallback_fn; sleeper p s;
      expiration_time (timer_tab s t) = softclock_time s\<rbrakk> \<Longrightarrow> p \<in> set (bkl_blocked_list s')"
proof -
  let ?d = "disarm t s"
  have i: "wheel_inv s" "callback_ok s t" using assms(1,2) by (simp_all add: timers_inv_def)
  have d: "callback_ok ?d t" "bkl_blocked_list ?d = bkl_blocked_list s"
    "blocked_list ?d = blocked_list s" "callback (timer_tab ?d t) = callback (timer_tab s t)"
    using i(2) by (simp_all add: disarm_def Let_def callback_ok_def)
  have "s' = s \<and> softclock_time s < expiration_time (timer_tab s t) \<or> run_callback t ?d = Some s'"
    using assms(3) i(1)
    by (auto simp: expire_one_def disarm_def wheel_inv_def wheel_index_nonneg Let_def split: if_splits)
  then show "set (bkl_blocked_list s) \<subseteq> set (bkl_blocked_list s')" "sleeper p s \<Longrightarrow> sleeper p s'"
    "\<lbrakk>t = Sleep_timer p; callback (timer_tab s t) = Some SleepCallback_fn; sleeper p s;
      expiration_time (timer_tab s t) = softclock_time s\<rbrakk> \<Longrightarrow> p \<in> set (bkl_blocked_list s')"
    using run_callback_sleeper [OF _ d(1), of s'] d(2-) by (auto simp: sleeper_def)
qed

lemma expire_timers_sleeper:
  assumes "timers_inv s" "bkl_locked s" "distinct ts"
    and "\<forall>t \<in> set ts. armed (timer_tab s t)
      \<and> nat (expiration_time (timer_tab s t) mod 100) = nat (softclock_time s mod 100)"
    and "expire_timers ts s = Some s'" "sleeper p s"
  shows "set (bkl_blocked_list s) \<subseteq> set (bkl_blocked_list s') \<and> sleeper p s'
    \<and> (Sleep_timer p \<in> set ts \<and> callback (timer_tab s (Sleep_timer p)) = Some SleepCallback_fn
        \<and> expiration_time (timer_tab s (Sleep_timer p)) = softclock_time s
        \<longrightarrow> p \<in> set (bkl_blocked_list s'))"
  using assms
proof (induction ts arbitrary: s)
  case Nil
  then show ?case by simp
next
  case (Cons t ts)
  from expire_one_ok [OF Cons(2,3), of t] Cons(5) obtain u where u: "expire_one t s = Some u"
    "timers_inv u" "bkl_locked u" "softclock_time u = softclock_time s"
    "timer_tab u = (if expiration_time (timer_tab s t) = softclock_time s
        then (timer_tab s)(t := (timer_tab s t)\<lparr>armed := False\<rparr>) else timer_tab s)"
    by auto
  have at: "armed (timer_tab s t)" using Cons(5) by simp
  note one = expire_one_sleeper [OF Cons(2) at u(1)]
  have tab: "x \<in> set ts \<Longrightarrow> timer_tab u x = timer_tab s x" for x
    using Cons(4) u(5) by auto
  then have "\<forall>x \<in> set ts. armed (timer_tab u x)
      \<and> nat (expiration_time (timer_tab u x) mod 100) = nat (softclock_time u mod 100)"
    using Cons(5) u(4) by simp
  from Cons.IH [OF u(2,3) _ this] Cons(4,6) u(1) one(2) [OF Cons(7)]
  have ih: "set (bkl_blocked_list u) \<subseteq> set (bkl_blocked_list s')" "sleeper p s'"
    "Sleep_timer p \<in> set ts \<and> callback (timer_tab u (Sleep_timer p)) = Some SleepCallback_fn
        \<and> expiration_time (timer_tab u (Sleep_timer p)) = softclock_time u
        \<longrightarrow> p \<in> set (bkl_blocked_list s')" by simp_all
  then show ?case using one(1,3) Cons(7) tab [of "Sleep_timer p"] u(4) by auto
qed

lemma softclock_step_sleeper:
  assumes "timers_inv s" "bkl_locked s" "softclock_step s = Some s'" "sleeper p s"
  shows "set (bkl_blocked_list s) \<subseteq> set (bkl_blocked_list s') \<and> sleeper p s'
    \<and> (armed (timer_tab s (Sleep_timer p))
        \<and> callback (timer_tab s (Sleep_timer p)) = Some SleepCallback_fn
        \<and> expiration_time (timer_tab s (Sleep_timer p)) = softclock_time s
        \<longrightarrow> p \<in> set (bkl_blocked_list s'))"
proof -
  let ?ts = "timing_wheel s (nat (softclock_time s mod 100))"
  have w: "wheel_inv s" using assms(1) by (simp add: timers_inv_def)
  from assms(3) w obtain u where u: "expire_timers ?ts s = Some u"
    "s' = u\<lparr>softclock_time := softclock_time u + 1\<rparr>"
    by (auto simp: softclock_step_def wheel_inv_def wheel_index_nonneg split: Option.bind_splits)
  have "distinct ?ts" "\<forall>t \<in> set ?ts. armed (timer_tab s t)
      \<and> nat (expiration_time (timer_tab s t) mod 100) = nat (softclock_time s mod 100)"
    using w by (simp_all add: wheel_inv_def)
  from expire_timers_sleeper [OF assms(1,2) this u(1) assms(4)] w show ?thesis
    unfolding u(2) sleeper_def by (auto simp: wheel_inv_def)
qed

lemma TimerBottomHalf_sleeper:
  assumes "timers_inv s" "bkl_locked s" "TimerBottomHalf n s = Some s'" "sleeper p s"
  shows "set (bkl_blocked_list s) \<subseteq> set (bkl_blocked_list s')
    \<and> (armed (timer_tab s (Sleep_timer p))
        \<and> callback (timer_tab s (Sleep_timer p)) = Some SleepCallback_fn
        \<and> expiration_time (timer_tab s (Sleep_timer p)) < hardclock_time s
        \<longrightarrow> p \<in> set (bkl_blocked_list s'))"
  using assms
proof (induction n arbitrary: s)
  case 0
  then show ?case by (force simp: timers_inv_def wheel_inv_def split: if_splits)
next
  case (Suc n)
  show ?case
  proof (cases "softclock_time s < hardclock_time s")
    case False
    then show ?thesis using Suc.prems by (force simp: timers_inv_def wheel_inv_def)
  next
    case True
    from softclock_step_ok [OF Suc(2,3) True] obtain u where u: "softclock_step s = Some u"
      "timers_inv u" "bkl_locked u" "hardclock_time u = hardclock_time s"
      "timer_tab u = (\<lambda>t. if armed (timer_tab s t) \<and> expiration_time (timer_tab s t) = softclock_time s
        then (timer_tab s t)\<lparr>armed := False\<rparr> else timer_tab s t)" by blast
    note one = softclock_step_sleeper [OF Suc(2,3) u(1) Suc(5)]
    have "TimerBottomHalf n u = Some s'" using Suc(4) True u(1) by simp
    from Suc.IH [OF u(2,3) this] one u(4,5) show ?thesis by (auto split: if_splits)
  qed
qed

section \<open>Properties\<close>

text \<open>
  Boot: the wheel is empty and both clocks are 0; a new process has no timer armed, its memory
  being zero.
\<close>

definition init_timers :: "'a timers_scheme \<Rightarrow> 'a timers_scheme option" where
  "init_timers s = do {
     s \<leftarrow> init_processes s;
     Some (s\<lparr>timing_wheel := (\<lambda>_. []), softclock_time := 0, hardclock_time := 0\<rparr>)
   }"

inductive timers_reachable :: "'a timers_scheme \<Rightarrow> bool" where
  boot: "\<lbrakk>zeroed s; \<forall>t. \<not> armed (timer_tab s t); init_timers s = Some s'\<rbrakk> \<Longrightarrow> timers_reachable s'"
| step: "timers_reachable s \<Longrightarrow> timer_step s s' \<Longrightarrow> timers_reachable s'"

lemma SchedReady_more: "SchedReady p s = Some s' \<Longrightarrow> sched.more s' = sched.more s"
  by (rule SchedReady_sel)

lemma init_processes_more: "init_processes s = Some s' \<Longrightarrow> sched.more s' = sched.more s"
  by (auto simp: init_processes_def create_process_def Let_def InitRendez_def dest!: SchedReady_more
      split: Option.bind_splits)

lemma init_timers_inv:
  assumes "zeroed s" "\<forall>t. \<not> armed (timer_tab s t)" "init_timers s = Some s'"
  shows "timers_inv s'"
proof -
  from assms(3) obtain u where u: "init_processes s = Some u"
    "s' = u\<lparr>timing_wheel := (\<lambda>_. []), softclock_time := 0, hardclock_time := 0\<rparr>"
    by (auto simp: init_timers_def split: Option.bind_splits)
  have "sched_inv u" "found_inv u" using init_processes_inv [OF assms(1)] u(1) by auto
  moreover have "timer_tab u = timer_tab s" using timers_more [OF init_processes_more [OF u(1)]] by simp
  moreover have "sched_inv s' = sched_inv u"
    by (rule sched_inv_cong) (simp add: u(2) sched.truncate_def)
  moreover have "found_inv s' = found_inv u" by (rule found_cong) (simp_all add: u(2))
  ultimately show ?thesis using assms(2) by (simp add: timers_inv_def wheel_inv_def u(2))
qed

lemma timers_reachable_inv: "timers_reachable s \<Longrightarrow> timers_inv s"
  by (induction rule: timers_reachable.induct) (auto dest: init_timers_inv timer_step_inv)

text \<open>The timers before boot, for the witnesses below.\<close>

definition zero_timers :: timers where
  "zero_timers = sched.extend zero_sched
     (timers.fields (\<lambda>_. \<lparr>armed = False, expiration_time = 0, targ = None, callback = None,
        tprocess = None\<rparr>) (\<lambda>_. []) 0 0)"

lemma zero_timers_boot:
  "\<exists>s. init_timers zero_timers = Some s \<and> timers_reachable s \<and> hardclock_time s = 0
     \<and> current s = 0 \<and> idle_process s = 2 \<and> \<not> bkl_locked s \<and> bkl_owner s = Poison 0
     \<and> (\<forall>t. \<not> armed (timer_tab s t))"
proof -
  have z: "zeroed zero_timers" "\<forall>t. \<not> armed (timer_tab zero_timers t)"
    by (simp_all add: zeroed_def zero_timers_def zero_sched_def sched.defs timers.defs)
  from init_processes_inv [OF z(1)] obtain u where u: "init_processes zero_timers = Some u"
    "idle_process u = 2" "current u = 0" "bkl_owner u = Poison 0" "\<not> bkl_locked u" by blast
  have t: "init_timers zero_timers =
      Some (u\<lparr>timing_wheel := (\<lambda>_. []), softclock_time := 0, hardclock_time := 0\<rparr>)"
    by (simp add: init_timers_def u)
  then show ?thesis
    using timers_reachable.boot [OF z t] u z(2) timers_more(1) [OF init_processes_more [OF u(1)]] by simp
qed

lemma owned_timers:
  "\<exists>s :: timers. timers_reachable s \<and> no_timed s \<and> bkl_owner s = Owner (current s) \<and> bkl_locked s
     \<and> current s = 0 \<and> idle_process s = 2 \<and> hardclock_time s = 0 \<and> (\<forall>t. \<not> armed (timer_tab s t))"
proof -
  from zero_timers_boot obtain s :: timers where s: "timers_reachable s" "hardclock_time s = 0"
    "current s = 0" "idle_process s = 2" "\<not> bkl_locked s" "bkl_owner s = Poison 0"
    "\<forall>t. \<not> armed (timer_tab s t)" by blast
  let ?s = "s\<lparr>bkl_locked := True, bkl_owner := Owner 0\<rparr>"
  have "sched_step s ?s" by (rule sched_step.lock) (use s in \<open>simp_all add: KernelLock_def\<close>)
  then have "timer_step s ?s" by (rule timer_step.sched [rotated]) (use s in \<open>simp_all add: no_timed_def\<close>)
  then have "timers_reachable ?s" by (rule timers_reachable.step [OF s(1)])
  then show ?thesis using s by (intro exI [of _ ?s]) (simp add: no_timed_def)
qed



text \<open>C10: \<open>sys_sleep\<close> does not return early.  It blocks the caller, and in every state that follows
  by any interleaving of interrupts, timer task and other tasks, the caller's wait loop returns,
  with 0, only when the hard clock has passed the time of the call plus the given seconds.\<close>

theorem sys_sleep_not_early:
  assumes "timers_reachable s" "no_timed s" "bkl_owner s = Owner (current s)"
    "current s \<noteq> idle_process s" "\<not> armed (timer_tab s (Sleep_timer (current s)))" "0 \<le> n"
  shows "\<exists>s1. sys_sleep n s = Some (Blocked, s1)
    \<and> current s \<in> set (blocked_list s1 (Rz_proc (current s)))
    \<and> (\<forall>t r t'. timer_step\<^sup>*\<^sup>* s1 t \<and> current t = current s \<and> sleep_wait t = Some (Done r, t') \<longrightarrow>
         r = Inr () \<and> hardclock_time s + n * 100 < hardclock_time t)"
proof -
  let ?e = "hardclock_time s + n * JIFFIES_PER_SECOND"
  have i: "timers_inv s" using assms(1) by (rule timers_reachable_inv)
  have "hardclock_time s \<le> ?e" using assms(6) by (simp add: JIFFIES_PER_SECOND_def)
  from arm_sleep_blocks [OF i assms(2-5) this] obtain s1 where s1: "sys_sleep n s = Some (Blocked, s1)"
    "timers_inv s1" "armed (timer_tab s1 (Sleep_timer (current s)))"
    "expiration_time (timer_tab s1 (Sleep_timer (current s))) = ?e"
    "callback (timer_tab s1 (Sleep_timer (current s))) = Some SleepCallback_fn"
    "current s \<in> set (blocked_list s1 (Rz_proc (current s)))"
    by (auto simp: sys_sleep_def)
  have "r = Inr () \<and> ?e < hardclock_time t"
    if t: "timer_step\<^sup>*\<^sup>* s1 t" "current t = current s" "sleep_wait t = Some (Done r, t')" for t r t'
  proof -
    have "pending (Sleep_timer (current s)) ?e s1" using s1(3-5) by (simp add: pending_def)
    then have "timers_inv t" "pending (Sleep_timer (current s)) ?e t"
      using timer_steps_inv [OF t(1) s1(2)] by blast+
    moreover have "\<not> armed (timer_tab t (Sleep_timer (current s)))" "r = Inr ()"
      using t(2,3) by (auto simp: sleep_wait_def Let_def split: if_splits Option.bind_splits)
    ultimately show ?thesis by (auto simp: pending_def timers_inv_def wheel_inv_def)
  qed
  then show ?thesis using s1(1,6) by (auto simp: JIFFIES_PER_SECOND_def)
qed

theorem sys_sleep_not_early_witness:
  "\<exists>s s1 :: timers. hardclock_time s = 0 \<and> sys_sleep 2 s = Some (Blocked, s1)
     \<and> (\<forall>t r t'. timer_step\<^sup>*\<^sup>* s1 t \<and> current t = 0 \<and> sleep_wait t = Some (Done r, t') \<longrightarrow>
          200 < hardclock_time t)"
proof -
  from owned_timers obtain s :: timers where s: "timers_reachable s" "no_timed s"
    "bkl_owner s = Owner (current s)" "current s = 0" "idle_process s = 2" "hardclock_time s = 0"
    "\<not> armed (timer_tab s (Sleep_timer (current s)))" by blast
  from sys_sleep_not_early [OF s(1-3) _ s(7), of 2] s(4-6) show ?thesis by fastforce
qed

text \<open>A negative duration leaves the wheel.  \<open>sys_sleep\<close> does not check its argument: if the
  expiration time becomes negative and is not a whole second, the remainder that selects the bucket
  is negative, and the timer is linked into memory before the array.\<close>

theorem sys_sleep_negative:
  assumes "hardclock_time s + n * 100 < 0" "hardclock_time s mod 100 \<noteq> 0"
  shows "sys_sleep n s = None"
proof -
  let ?e = "hardclock_time s + n * 100"
  have "\<not> 100 dvd ?e" using assms(2) by (simp add: dvd_eq_mod_eq_0)
  then have "\<not> 100 dvd - ?e" by (simp only: dvd_minus_iff not_False_eq_True)
  then have "(- ?e) mod 100 \<noteq> 0" by (simp only: mod_eq_0_iff_dvd not_False_eq_True)
  moreover have "0 \<le> (- ?e) mod 100" by (rule pos_mod_sign) simp
  ultimately have "0 < (- ?e) mod 100" by linarith
  then have "crem ?e 100 < 0" using assms(1) unfolding crem_def by simp
  then show ?thesis
    by (simp add: sys_sleep_def arm_sleep_def wheel_add_def wheel_index_def JIFFIES_PER_SECOND_def Let_def)
qed

theorem sys_sleep_negative_witness:
  "\<exists>s :: timers. hardclock_time s = 150 \<and> sys_sleep (-2) s = None"
proof -
  let ?s = "zero_timers\<lparr>hardclock_time := 150\<rparr>"
  have "hardclock_time ?s + (-2) * 100 < 0" "hardclock_time ?s mod 100 \<noteq> 0" by simp_all
  from sys_sleep_negative [OF this] show ?thesis by (intro exI [of _ ?s]) simp
qed

end
