(* ===== verification/File_Descriptors.thy ===== *)
theory File_Descriptors
  imports Timers
begin

unbundle bit_operations_syntax

text \<open>
  File descriptors and file pointers (\<open>filp\<close>), \<^verbatim>\<open>kernel/fs/filedesc.c\<close> and \<^verbatim>\<open>kernel/fs/filp.c\<close>.  A process
  has a table of \<open>OPEN_MAX\<close> pointers to filps and two bit sets; filps are shared between
  descriptors and processes and carry a reference count.  Filps and processes are named by their
  index.  The result \<open>None\<close> is a kernel panic or an access outside a table.

  \<open>do_close\<close> calls the close function of the object behind the filp; what these functions do to the
  objects belongs to other components, what they do to the descriptor is \<open>free_fd_filp\<close>.
\<close>

section \<open>State\<close>

definition OPEN_MAX :: nat where
  "OPEN_MAX = 64"

datatype filp_type =
  FILP_TYPE_UNDEF | FILP_TYPE_VNODE | FILP_TYPE_SUPERBLOCK | FILP_TYPE_KQUEUE | FILP_TYPE_ISRHANDLER
| FILP_TYPE_PIPE | FILP_TYPE_SOCKET | FILP_TYPE_SOCKETPAIR

record filp =
  ftype :: filp_type
  fitem :: "nat option"
  foffset :: int
  fflags :: u32
  reference_cnt :: int

text \<open>The types whose filps point to an object of the kernel.\<close>

definition object_types :: "filp_type list" where
  "object_types =
     [FILP_TYPE_VNODE, FILP_TYPE_SUPERBLOCK, FILP_TYPE_KQUEUE, FILP_TYPE_ISRHANDLER]"

record fproc =
  fd_table :: "nat \<Rightarrow> nat option"
  fd_close_on_exec_set :: "nat \<Rightarrow> bool"
  fd_in_use_set :: "nat \<Rightarrow> bool"
  current_dir :: "nat option"
  root_dir :: "nat option"

record files = timers +
  fprocs :: "nat \<Rightarrow> fproc option"
  filps :: "nat \<Rightarrow> filp"
  filp_free_list :: "nat list"

definition upd_filp :: "nat \<Rightarrow> (filp \<Rightarrow> filp) \<Rightarrow> 'a files_scheme \<Rightarrow> 'a files_scheme" where
  "upd_filp f g s = s\<lparr>filps := (filps s)(f := g (filps s f))\<rparr>"

definition set_fproc :: "nat \<Rightarrow> fproc \<Rightarrow> 'a files_scheme \<Rightarrow> 'a files_scheme" where
  "set_fproc p fp s = s\<lparr>fprocs := (fprocs s)(p := Some fp)\<rparr>"

section \<open>File pointers\<close>

text \<open>The outer option is the dereference of \<open>proc->fproc\<close>, the inner one the pointer returned.\<close>

definition get_filp :: "nat \<Rightarrow> int \<Rightarrow> 'a files_scheme \<Rightarrow> nat option option" where
  "get_filp p fd s =
     (if fd < 0 \<or> fd \<ge> int OPEN_MAX then Some None
      else do { fp \<leftarrow> fprocs s p; Some (fd_table fp (nat fd)) })"

definition alloc_filp :: "'a files_scheme \<Rightarrow> nat option \<times> 'a files_scheme" where
  "alloc_filp s =
     (case filp_free_list s of
        [] \<Rightarrow> (None, s)
      | f # fs \<Rightarrow>
          (Some f, upd_filp f (\<lambda>x. x\<lparr>reference_cnt := 1, ftype := FILP_TYPE_UNDEF, fitem := None\<rparr>)
             (s\<lparr>filp_free_list := fs\<rparr>)))"

definition free_filp :: "nat option \<Rightarrow> 'a files_scheme \<Rightarrow> 'a files_scheme" where
  "free_filp fo s =
     (case fo of
        None \<Rightarrow> s
      | Some f \<Rightarrow>
          (let s = upd_filp f (\<lambda>x. x\<lparr>reference_cnt := reference_cnt x - 1\<rparr>) s
           in if reference_cnt (filps s f) = 0
              then (upd_filp f (\<lambda>x. x\<lparr>ftype := FILP_TYPE_UNDEF, fitem := None\<rparr>) s)
                     \<lparr>filp_free_list := f # filp_free_list s\<rparr>
              else s))"

section \<open>File descriptors\<close>

text \<open>
  The loop of \<open>alloc_fd\<close> over \<open>n\<close> descriptors from \<open>fd\<close>.  Descriptor \<open>OPEN_MAX\<close> is outside the table
  and the bit sets.
\<close>

fun alloc_fd_loop ::
  "nat \<Rightarrow> nat \<Rightarrow> nat \<Rightarrow> 'a files_scheme \<Rightarrow> (nat result \<times> 'a files_scheme) option" where
  "alloc_fd_loop p fd 0 s = Some (Inl EMFILE, s)"
| "alloc_fd_loop p fd (Suc n) s = do {
     fp \<leftarrow> fprocs s p;
     if fd \<ge> OPEN_MAX then None
     else if \<not> fd_in_use_set fp fd then
       Some (Inr fd, set_fproc p (fp\<lparr>fd_table := (fd_table fp)(fd := None),
         fd_in_use_set := (fd_in_use_set fp)(fd := True),
         fd_close_on_exec_set := (fd_close_on_exec_set fp)(fd := False)\<rparr>) s)
     else alloc_fd_loop p (Suc fd) n s
   }"

definition alloc_fd ::
  "nat \<Rightarrow> nat \<Rightarrow> nat \<Rightarrow> 'a files_scheme \<Rightarrow> (nat result \<times> 'a files_scheme) option" where
  "alloc_fd p min_fd max_fd s = alloc_fd_loop p min_fd (Suc max_fd - min_fd) s"

definition free_fd :: "nat \<Rightarrow> int \<Rightarrow> 'a files_scheme \<Rightarrow> (unit result \<times> 'a files_scheme) option" where
  "free_fd p fd s =
     (if fd < 0 \<or> fd \<ge> int OPEN_MAX then Some (Inl EINVAL, s)
      else do {
        fp \<leftarrow> fprocs s p;
        if fd_table fp (nat fd) = None then Some (Inl EINVAL, s)
        else Some (Inr (), set_fproc p (fp\<lparr>fd_table := (fd_table fp)(nat fd := None),
               fd_in_use_set := (fd_in_use_set fp)(nat fd := False),
               fd_close_on_exec_set := (fd_close_on_exec_set fp)(nat fd := False)\<rparr>) s)
      })"

definition alloc_fd_filp :: "nat \<Rightarrow> 'a files_scheme \<Rightarrow> (nat result \<times> 'a files_scheme) option" where
  "alloc_fd_filp p s = do {
     (r, s) \<leftarrow> alloc_fd p 0 OPEN_MAX s;
     case r of
       Inl e \<Rightarrow> Some (Inl EMFILE, s)
     | Inr fd \<Rightarrow>
         (case alloc_filp s of
            (None, s) \<Rightarrow> do { (_, s) \<leftarrow> free_fd p (int fd) s; Some (Inl EMFILE, s) }
          | (Some f, s) \<Rightarrow> do {
              let s = upd_filp f (\<lambda>x. x\<lparr>reference_cnt := 1\<rparr>) s;
              fp \<leftarrow> fprocs s p;
              let s = set_fproc p (fp\<lparr>fd_table := (fd_table fp)(fd := Some f)\<rparr>) s;
              let s = upd_filp f (\<lambda>x. x\<lparr>ftype := FILP_TYPE_UNDEF\<rparr>) s;
              Some (Inr fd, s)
            })
   }"

definition free_fd_filp :: "nat \<Rightarrow> int \<Rightarrow> 'a files_scheme \<Rightarrow> (unit result \<times> 'a files_scheme) option" where
  "free_fd_filp p fd s = do {
     fo \<leftarrow> get_filp p fd s;
     if fo = None then Some (Inl EINVAL, s)
     else do {
       let s = free_filp fo s;
       (_, s) \<leftarrow> free_fd p fd s;
       Some (Inr (), s)
     }
   }"

text \<open>\<open>cloexec\<close> is the bit \<open>FD_FLAG_CLOEXEC\<close> of the flags.\<close>

definition set_fd ::
  "nat \<Rightarrow> int \<Rightarrow> filp_type \<Rightarrow> bool \<Rightarrow> nat option \<Rightarrow> 'a files_scheme \<Rightarrow> (unit result \<times> 'a files_scheme) option" where
  "set_fd p fd ty cloexec item s = do {
     fo \<leftarrow> get_filp p fd s;
     case fo of
       None \<Rightarrow> Some (Inl EINVAL, s)
     | Some f \<Rightarrow> do {
         let s = upd_filp f (\<lambda>x. x\<lparr>ftype := ty\<rparr>) s;
         let s = (if ty \<in> set object_types then upd_filp f (\<lambda>x. x\<lparr>fitem := item\<rparr>) s else s);
         fp \<leftarrow> fprocs s p;
         let fp = fp\<lparr>fd_in_use_set := (fd_in_use_set fp)(nat fd := True)\<rparr>;
         let fp = (if cloexec
                   then fp\<lparr>fd_close_on_exec_set := (fd_close_on_exec_set fp)(nat fd := True)\<rparr> else fp);
         Some (Inr (), set_fproc p fp s)
       }
   }"

definition dup_fd ::
  "nat \<Rightarrow> int \<Rightarrow> nat \<Rightarrow> nat \<Rightarrow> 'a files_scheme \<Rightarrow> (nat result \<times> 'a files_scheme) option" where
  "dup_fd p fd min_fd max_fd s = do {
     fo \<leftarrow> get_filp p fd s;
     case fo of
       None \<Rightarrow> Some (Inl EINVAL, s)
     | Some f \<Rightarrow> do {
         (r, s) \<leftarrow> alloc_fd p min_fd max_fd s;
         case r of
           Inl e \<Rightarrow> Some (Inl EMFILE, s)
         | Inr new_fd \<Rightarrow> do {
             fp \<leftarrow> fprocs s p;
             let s = set_fproc p (fp\<lparr>fd_table := (fd_table fp)(new_fd := Some f)\<rparr>) s;
             Some (Inr new_fd, upd_filp f (\<lambda>x. x\<lparr>reference_cnt := reference_cnt x + 1\<rparr>) s)
           }
       }
   }"

text \<open>
  What \<open>close_vnode\<close>, \<open>close_mount\<close>, \<open>close_kqueue\<close> and \<open>close_isrhandler\<close> do to the descriptor: nothing
  if the filp has no object, \<open>free_fd_filp\<close> otherwise.
\<close>

definition close_item :: "nat \<Rightarrow> int \<Rightarrow> nat \<Rightarrow> 'a files_scheme \<Rightarrow> 'a files_scheme option" where
  "close_item p fd f s =
     (if fitem (filps s f) = None then Some s
      else do { (_, s) \<leftarrow> free_fd_filp p fd s; Some s })"

definition do_close :: "nat \<Rightarrow> int \<Rightarrow> 'a files_scheme \<Rightarrow> (unit result \<times> 'a files_scheme) option" where
  "do_close p fd s = do {
     fo \<leftarrow> get_filp p fd s;
     case fo of
       None \<Rightarrow> Some (Inl EINVAL, s)
     | Some f \<Rightarrow> do {
         let s = upd_filp f (\<lambda>x. x\<lparr>reference_cnt := reference_cnt x - 1\<rparr>) s;
         if reference_cnt (filps s f) = 0 then
           (if ftype (filps s f) = FILP_TYPE_VNODE \<and> fitem (filps s f) = None then Some (Inl EINVAL, s)
            else if ftype (filps s f) \<notin> set object_types then None
            else do { s \<leftarrow> close_item p fd f s; Some (Inr (), s) })
         else do { (_, s) \<leftarrow> free_fd p fd s; Some (Inr (), s) }
       }
   }"

section \<open>System calls\<close>

definition sys_dup :: "int \<Rightarrow> 'a files_scheme \<Rightarrow> (nat result \<times> 'a files_scheme) option" where
  "sys_dup fd s = dup_fd (current s) fd 0 OPEN_MAX s"

definition sys_dup2 :: "int \<Rightarrow> int \<Rightarrow> 'a files_scheme \<Rightarrow> (nat result \<times> 'a files_scheme) option" where
  "sys_dup2 fd new_fd s =
     (if fd < 0 \<or> fd \<ge> int OPEN_MAX \<or> new_fd < 0 \<or> new_fd \<ge> int OPEN_MAX then Some (Inl EINVAL, s)
      else do {
        fp \<leftarrow> fprocs s (current s);
        s \<leftarrow> (if fd_table fp (nat new_fd) \<noteq> None
              then do { (_, s) \<leftarrow> do_close (current s) new_fd s; Some s } else Some s);
        dup_fd (current s) fd (nat new_fd) (nat new_fd) s
      })"

definition sys_close :: "int \<Rightarrow> 'a files_scheme \<Rightarrow> (unit result \<times> 'a files_scheme) option" where
  "sys_close fd s = do_close (current s) fd s"

datatype fcntl_cmd = F_DUPFD | F_GETFD | F_SETFD | F_GETFL | F_SETFL | F_OTHER int

definition sys_fcntl ::
  "int \<Rightarrow> fcntl_cmd \<Rightarrow> int \<Rightarrow> 'a files_scheme \<Rightarrow> (int result \<times> 'a files_scheme) option" where
  "sys_fcntl fd cmd arg s = do {
     let c = current s;
     fo \<leftarrow> get_filp c fd s;
     if fo = None then Some (Inl EINVAL, s)
     else do {
       fp \<leftarrow> fprocs s c;
       if \<not> fd_in_use_set fp (nat fd) then Some (Inl EBADF, s)
       else (case cmd of
           F_DUPFD \<Rightarrow>
             (if arg < 0 \<or> arg \<ge> int OPEN_MAX then Some (Inl EBADF, s)
              else do {
                (r, s) \<leftarrow> dup_fd c fd (nat arg) OPEN_MAX s;
                Some (map_sum id int r, s)
              })
         | F_GETFD \<Rightarrow> Some (Inr (if fd_close_on_exec_set fp (nat fd) then 1 else 0), s)
         | F_SETFD \<Rightarrow>
             Some (Inr arg, set_fproc c (fp\<lparr>fd_close_on_exec_set :=
                (fd_close_on_exec_set fp)(nat fd := (arg \<noteq> 0))\<rparr>) s)
         | F_GETFL \<Rightarrow> Some (Inl EINVAL, s)
         | F_SETFL \<Rightarrow> Some (Inl EINVAL, s)
         | F_OTHER n \<Rightarrow> Some (Inl ENOSYS, s))
     }
   }"

section \<open>Tables of processes\<close>

definition empty_fproc :: "fproc \<Rightarrow> fproc" where
  "empty_fproc fp = fp\<lparr>fd_table := (\<lambda>_. None), fd_in_use_set := (\<lambda>_. False),
     fd_close_on_exec_set := (\<lambda>_. False)\<rparr>"

text \<open>\<open>page\<close> is the page that \<open>kmalloc_page\<close> returns, with what is left in it.\<close>

definition init_fproc :: "nat \<Rightarrow> fproc option \<Rightarrow> 'a files_scheme \<Rightarrow> unit result \<times> 'a files_scheme" where
  "init_fproc p page s =
     (case page of
        None \<Rightarrow> (Inl ENOMEM, s)
      | Some fp \<Rightarrow> (Inr (), set_fproc p (empty_fproc fp) s))"

fun close_loop :: "nat \<Rightarrow> nat \<Rightarrow> nat \<Rightarrow> 'a files_scheme \<Rightarrow> 'a files_scheme option" where
  "close_loop p fd 0 s = Some s"
| "close_loop p fd (Suc n) s = do {
     (_, s) \<leftarrow> do_close p (int fd) s;
     close_loop p (Suc fd) n s
   }"

definition fini_fproc :: "nat \<Rightarrow> 'a files_scheme \<Rightarrow> 'a files_scheme option" where
  "fini_fproc p s = do {
     s \<leftarrow> close_loop p 0 OPEN_MAX s;
     Some (s\<lparr>fprocs := (fprocs s)(p := None)\<rparr>)
   }"

text \<open>One descriptor of the loop of \<open>fork_process_fds\<close>, with \<open>new\<close> the table of the child so far.\<close>

definition fork_fd :: "nat \<Rightarrow> nat \<Rightarrow> nat \<Rightarrow> 'a files_scheme \<Rightarrow> 'a files_scheme option" where
  "fork_fd newp oldp fd s = do {
     old \<leftarrow> fprocs s oldp;
     new \<leftarrow> fprocs s newp;
     case fd_table old fd of
       Some f \<Rightarrow> do {
         let new = new\<lparr>fd_table := (fd_table new)(fd := Some f),
           fd_in_use_set := (fd_in_use_set new)(fd := True),
           fd_close_on_exec_set := (fd_close_on_exec_set new)(fd := fd_close_on_exec_set old fd)\<rparr>;
         Some (upd_filp f (\<lambda>x. x\<lparr>reference_cnt := reference_cnt x + 1\<rparr>) (set_fproc newp new s))
       }
     | None \<Rightarrow>
         Some (set_fproc newp (new\<lparr>fd_table := (fd_table new)(fd := None),
           fd_in_use_set := (fd_in_use_set new)(fd := False),
           fd_close_on_exec_set := (fd_close_on_exec_set new)(fd := False)\<rparr>) s)
   }"

fun fork_loop :: "nat \<Rightarrow> nat \<Rightarrow> nat \<Rightarrow> nat \<Rightarrow> 'a files_scheme \<Rightarrow> 'a files_scheme option" where
  "fork_loop newp oldp fd 0 s = Some s"
| "fork_loop newp oldp fd (Suc n) s = fork_fd newp oldp fd s \<bind> fork_loop newp oldp (Suc fd) n"

text \<open>
  The references to the current and the root directory are counted by \<open>vnode_inc_ref\<close>, which
  belongs to the vnodes.
\<close>

definition fork_process_fds ::
  "nat \<Rightarrow> nat \<Rightarrow> fproc option \<Rightarrow> 'a files_scheme \<Rightarrow> (unit result \<times> 'a files_scheme) option" where
  "fork_process_fds newp oldp page s =
     (case page of
        None \<Rightarrow> Some (Inl ENOMEM, s)
      | Some fp \<Rightarrow> do {
          s \<leftarrow> fork_loop newp oldp 0 OPEN_MAX (set_fproc newp fp s);
          old \<leftarrow> fprocs s oldp;
          new \<leftarrow> fprocs s newp;
          Some (Inr (), set_fproc newp (new\<lparr>current_dir := current_dir old, root_dir := root_dir old\<rparr>) s)
        })"

fun exec_close_loop :: "nat \<Rightarrow> nat \<Rightarrow> nat \<Rightarrow> 'a files_scheme \<Rightarrow> 'a files_scheme option" where
  "exec_close_loop p fd 0 s = Some s"
| "exec_close_loop p fd (Suc n) s = do {
     fp \<leftarrow> fprocs s p;
     s \<leftarrow> (if fd_close_on_exec_set fp fd
           then do { (_, s) \<leftarrow> do_close p (int fd) s; Some s } else Some s);
     exec_close_loop p (Suc fd) n s
   }"

definition close_on_exec_process_fds :: "'a files_scheme \<Rightarrow> 'a files_scheme option" where
  "close_on_exec_process_fds s = exec_close_loop (current s) 0 OPEN_MAX s"

section \<open>Looking up the object of a descriptor\<close>

definition get_fd_item :: "filp_type \<Rightarrow> nat \<Rightarrow> int \<Rightarrow> 'a files_scheme \<Rightarrow> nat option option" where
  "get_fd_item ty p fd s = do {
     fo \<leftarrow> get_filp p fd s;
     Some (case fo of
             None \<Rightarrow> None
           | Some f \<Rightarrow> if ftype (filps s f) \<noteq> ty then None else fitem (filps s f))
   }"

definition get_fd_vnode :: "nat \<Rightarrow> int \<Rightarrow> 'a files_scheme \<Rightarrow> nat option option" where
  "get_fd_vnode p fd s = get_fd_item FILP_TYPE_VNODE p fd s"

definition get_superblock :: "nat \<Rightarrow> int \<Rightarrow> 'a files_scheme \<Rightarrow> nat option option" where
  "get_superblock p fd s = get_fd_item FILP_TYPE_SUPERBLOCK p fd s"

definition get_kqueue :: "nat \<Rightarrow> int \<Rightarrow> 'a files_scheme \<Rightarrow> nat option option" where
  "get_kqueue p fd s = get_fd_item FILP_TYPE_KQUEUE p fd s"

section \<open>The reference counts\<close>

definition fd_filp :: "'a files_scheme \<Rightarrow> nat \<Rightarrow> nat \<Rightarrow> nat option" where
  "fd_filp s p fd = (case fprocs s p of None \<Rightarrow> None | Some fp \<Rightarrow> fd_table fp fd)"

definition refs :: "(nat \<Rightarrow> nat \<Rightarrow> nat option) \<Rightarrow> nat \<Rightarrow> (nat \<times> nat) set" where
  "refs T f = {(p, fd). T p fd = Some f}"

definition relink :: "nat \<Rightarrow> nat \<Rightarrow> nat option \<Rightarrow> (nat \<Rightarrow> nat \<Rightarrow> nat option) \<Rightarrow> nat \<Rightarrow> nat \<Rightarrow> nat option" where
  "relink p fd v T = T(p := (T p)(fd := v))"

definition item_ok :: "filp \<Rightarrow> bool" where
  "item_ok x \<longleftrightarrow> (ftype x \<in> set object_types \<longrightarrow> fitem x \<noteq> None)"

text \<open>
  Every filp that a descriptor refers to counts its descriptors and has its object; a filp on the
  free list has no descriptor and is there once.
\<close>

definition refs_ok :: "(nat \<Rightarrow> nat \<Rightarrow> nat option) \<Rightarrow> (nat \<Rightarrow> filp) \<Rightarrow> nat list \<Rightarrow> bool" where
  "refs_ok T R L \<longleftrightarrow> (\<forall>f. finite (refs T f)) \<and>
     (\<forall>f. refs T f \<noteq> {} \<longrightarrow> reference_cnt (R f) = int (card (refs T f)) \<and> item_ok (R f)) \<and>
     (\<forall>f\<in>set L. refs T f = {}) \<and> distinct L"

definition fds_ok :: "(nat \<Rightarrow> fproc option) \<Rightarrow> bool" where
  "fds_ok F \<longleftrightarrow> (\<forall>p fp fd. F p = Some fp \<and> fd_table fp fd \<noteq> None \<longrightarrow> fd < OPEN_MAX \<and> fd_in_use_set fp fd)"

definition files_inv :: "'a files_scheme \<Rightarrow> bool" where
  "files_inv s \<longleftrightarrow> refs_ok (fd_filp s) (filps s) (filp_free_list s) \<and> fds_ok (fprocs s)"

lemma refs_relink:
  "refs (relink p fd v T) f = (if v = Some f then insert (p, fd) (refs T f) else refs T f - {(p, fd)})"
  by (auto simp: refs_def relink_def split: if_splits)

lemma refs_mem [simp]: "(p, fd) \<in> refs T f \<longleftrightarrow> T p fd = Some f"
  by (simp add: refs_def)

lemma refs_okD:
  assumes "refs_ok T R L" and "T p fd = Some f"
  shows "reference_cnt (R f) = int (card (refs T f))" and "item_ok (R f)" and "0 < card (refs T f)"
    and "f \<notin> set L"
proof -
  have ne: "refs T f \<noteq> {}" using assms(2) by (auto simp: refs_def)
  then show "reference_cnt (R f) = int (card (refs T f))" "item_ok (R f)" "f \<notin> set L"
    using assms(1) by (auto simp: refs_ok_def)
  show "0 < card (refs T f)" using ne assms(1) by (simp add: refs_ok_def card_gt_0_iff)
qed

lemma refs_none: "T p fd = None \<Longrightarrow> refs T f - {(p, fd)} = refs T f"
  by (auto simp: refs_def)

lemma fresh_ok:
  assumes "refs_ok T R (f # L)" and "T p fd = None" and "reference_cnt x = 1" and "item_ok x"
  shows "refs_ok (relink p fd (Some f) T) (R(f := x)) L"
proof -
  have "refs T f = {}" using assms(1) by (simp add: refs_ok_def)
  then show ?thesis using assms by (auto simp: refs_ok_def refs_relink refs_none)
qed

lemma link_ok:
  assumes "refs_ok T R L" and "T p fd = None" and "T p' fd' = Some f"
  shows "refs_ok (relink p fd (Some f) T) (R(f := R f\<lparr>reference_cnt := reference_cnt (R f) + 1\<rparr>)) L"
proof -
  have "(p, fd) \<notin> refs T f" using assms(2) by simp
  moreover note refs_okD [OF assms(1, 3)]
  ultimately show ?thesis
    using assms(1, 2) by (auto simp: refs_ok_def refs_relink refs_none item_ok_def)
qed

lemma refs_single: "T p fd = Some f \<Longrightarrow> card (refs T f) = 1 \<Longrightarrow> refs T f = {(p, fd)}"
  by (metis card_1_singletonE refs_mem singletonD)

lemma refs_okI:
  assumes "\<And>f. finite (refs T f)" and "\<And>f. refs T f \<noteq> {} \<Longrightarrow> reference_cnt (R f) = int (card (refs T f))"
    and "\<And>f. refs T f \<noteq> {} \<Longrightarrow> item_ok (R f)" and "\<And>f. f \<in> set L \<Longrightarrow> refs T f = {}" and "distinct L"
  shows "refs_ok T R L"
  unfolding refs_ok_def using assms by blast

lemma unlink_ok:
  assumes ok: "refs_ok T R L" and fd: "T p fd = Some f"
    and x: "card (refs T f) = 1 \<or> reference_cnt x = reference_cnt (R f) - 1 \<and> item_ok x"
  shows "refs_ok (relink p fd None T) (R(f := x)) L"
proof -
  let ?T = "relink p fd None T"
  have mem: "(p, fd) \<in> refs T f" using fd by simp
  have g: "refs ?T g = refs T g" if "g \<noteq> f" for g
    unfolding refs_relink using fd that by auto
  have f: "refs ?T f = refs T f - {(p, fd)}" by (simp add: refs_relink)
  have card: "card (refs ?T f) = card (refs T f) - 1" using mem f by (simp add: card_Diff_singleton)
  note D = refs_okD [OF ok fd]
  have cnt: "reference_cnt x = int (card (refs ?T f)) \<and> item_ok x" if "refs ?T f \<noteq> {}"
    using x that refs_single [of T p fd f] fd D(1, 3) card f by (auto simp: of_nat_diff)
  show ?thesis
  proof (rule refs_okI)
    show "finite (refs ?T h)" for h using ok g f by (cases "h = f") (auto simp: refs_ok_def)
    show "reference_cnt ((R(f := x)) h) = int (card (refs ?T h))" if "refs ?T h \<noteq> {}" for h
      using ok g cnt that by (cases "h = f") (auto simp: refs_ok_def)
    show "item_ok ((R(f := x)) h)" if "refs ?T h \<noteq> {}" for h
      using ok g cnt that by (cases "h = f") (auto simp: refs_ok_def)
    show "refs ?T h = {}" if "h \<in> set L" for h
      using ok g D(4) that by (cases "h = f") (auto simp: refs_ok_def)
    show "distinct L" using ok by (simp add: refs_ok_def)
  qed
qed

lemma push_ok:
  assumes "refs_ok T R L" and "T p fd = Some f" and "card (refs T f) = 1"
  shows "refs_ok (relink p fd None T) (R(f := x)) (f # L)"
proof -
  have "refs (relink p fd None T) f = {}"
    using refs_single [of T p fd f] assms(2, 3) by (simp add: refs_relink)
  moreover have "refs_ok (relink p fd None T) (R(f := x)) L" using unlink_ok [OF assms(1, 2)] assms(3) by simp
  moreover have "f \<notin> set L" by (rule refs_okD(4) [OF assms(1, 2)])
  ultimately show ?thesis by (simp add: refs_ok_def)
qed

subsection \<open>Reading the tables after an update\<close>

lemma upd_filp_sel [simp]:
  "fprocs (upd_filp f g s) = fprocs s" "filp_free_list (upd_filp f g s) = filp_free_list s"
  "filps (upd_filp f g s) = (filps s)(f := g (filps s f))" "fd_filp (upd_filp f g s) = fd_filp s"
  "current (upd_filp f g s) = current s"
  by (simp_all add: upd_filp_def fd_filp_def fun_eq_iff)

lemma set_fproc_sel [simp]:
  "fprocs (set_fproc p fp s) = (fprocs s)(p := Some fp)" "filps (set_fproc p fp s) = filps s"
  "filp_free_list (set_fproc p fp s) = filp_free_list s" "current (set_fproc p fp s) = current s"
  by (simp_all add: set_fproc_def)

lemma fd_filp_set_fproc: "fd_filp (set_fproc p fp s) = (fd_filp s)(p := fd_table fp)"
  by (auto simp: fd_filp_def fun_eq_iff)

lemma fd_filp_free_list [simp]: "fd_filp (s\<lparr>filp_free_list := L\<rparr>) = fd_filp s"
  by (simp add: fd_filp_def fun_eq_iff)

lemma fd_filp_entry:
  "fprocs s p = Some fp \<Longrightarrow> fd_table fp' = (fd_table fp)(fd := v) \<Longrightarrow>
   fd_filp (set_fproc p fp' s) = relink p fd v (fd_filp s)"
  by (auto simp: fd_filp_def relink_def fun_eq_iff)

lemma fds_ok_entry:
  "fds_ok F \<Longrightarrow> F p = Some fp \<Longrightarrow> fd_table fp' = (fd_table fp)(fd := v) \<Longrightarrow> fd < OPEN_MAX \<Longrightarrow>
   fd_in_use_set fp' fd = (v \<noteq> None \<or> b) \<Longrightarrow>
   (\<And>i. i \<noteq> fd \<Longrightarrow> fd_in_use_set fp' i = fd_in_use_set fp i) \<Longrightarrow> fds_ok (F(p := Some fp'))"
  by (auto simp: fds_ok_def split: if_splits)

lemma get_filp_Some: "get_filp p fd s = Some (Some f) \<Longrightarrow>
    \<exists>fp. fprocs s p = Some fp \<and> fd_table fp (nat fd) = Some f \<and> 0 \<le> fd \<and> nat fd < OPEN_MAX \<and>
      fd_filp s p (nat fd) = Some f"
  by (auto simp: get_filp_def fd_filp_def split: if_splits bind_splits)

subsection \<open>The operations keep the invariant\<close>

text \<open>What a successful \<open>alloc_fd\<close> does: the lowest free descriptor of the range, marked as in use.\<close>

definition mark_fd :: "nat \<Rightarrow> fproc \<Rightarrow> fproc" where
  "mark_fd fd fp = fp\<lparr>fd_table := (fd_table fp)(fd := None), fd_in_use_set := (fd_in_use_set fp)(fd := True),
     fd_close_on_exec_set := (fd_close_on_exec_set fp)(fd := False)\<rparr>"

lemma alloc_fd_loop_found:
  "alloc_fd_loop p fd n s = Some (Inr k, s') \<Longrightarrow>
   \<exists>fp. fprocs s p = Some fp \<and> fd \<le> k \<and> k < fd + n \<and> k < OPEN_MAX \<and> \<not> fd_in_use_set fp k \<and>
     (\<forall>i. fd \<le> i \<and> i < k \<longrightarrow> fd_in_use_set fp i) \<and> s' = set_fproc p (mark_fd k fp) s"
proof (induction p fd n s rule: alloc_fd_loop.induct)
  case (2 p fd n s)
  then obtain fp where fp: "fprocs s p = Some fp" and max: "fd < OPEN_MAX"
    by (auto split: bind_splits if_splits)
  show ?case
  proof (cases "fd_in_use_set fp fd")
    case True
    then show ?thesis using 2 fp max by (auto simp: le_Suc_eq less_Suc_eq_le Suc_le_eq dest: le_neq_implies_less)
  next
    case False
    then show ?thesis using 2(2) fp max by (auto simp: mark_fd_def)
  qed
qed simp

lemma alloc_fd_loop_full:
  "alloc_fd_loop p fd n s = Some (Inl e, s') \<Longrightarrow> e = EMFILE \<and> s' = s"
  by (induction p fd n s rule: alloc_fd_loop.induct) (auto split: bind_splits if_splits)

lemma alloc_fd_full: "alloc_fd p lo hi s = Some (Inl e, s') \<Longrightarrow> e = EMFILE \<and> s' = s"
  unfolding alloc_fd_def by (rule alloc_fd_loop_full)

lemma alloc_fd_found:
  assumes "alloc_fd p lo hi s = Some (Inr k, s')"
  obtains fp where "fprocs s p = Some fp" and "lo \<le> k" and "k \<le> hi" and "k < OPEN_MAX"
    and "\<not> fd_in_use_set fp k" and "\<forall>i. lo \<le> i \<and> i < k \<longrightarrow> fd_in_use_set fp i"
    and "s' = set_fproc p (mark_fd k fp) s"
  using alloc_fd_loop_found [OF assms [unfolded alloc_fd_def]] that by auto

lemma mark_fd_sel [simp]:
  "fd_table (mark_fd k fp) = (fd_table fp)(k := None)" "fd_in_use_set (mark_fd k fp) = (fd_in_use_set fp)(k := True)"
  by (simp_all add: mark_fd_def)

text \<open>A free descriptor has no filp, so that marking it changes no entry of the tables.\<close>

lemma mark_fd_table:
  "files_inv s \<Longrightarrow> fprocs s p = Some fp \<Longrightarrow> \<not> fd_in_use_set fp k \<Longrightarrow>
   fd_table fp k = None \<and> fd_filp (set_fproc p (mark_fd k fp) s) = fd_filp s"
proof -
  assume "files_inv s" and fp: "fprocs s p = Some fp" and "\<not> fd_in_use_set fp k"
  then have "fd_table fp k = None" unfolding files_inv_def fds_ok_def by blast
  then show ?thesis using fp unfolding fd_filp_set_fproc by (auto simp: fd_filp_def fun_eq_iff)
qed

lemma alloc_fd_inv:
  assumes "files_inv s" and "alloc_fd p lo hi s = Some (r, s')"
  shows "files_inv s'"
proof (cases r)
  case (Inl e)
  then show ?thesis using alloc_fd_full assms by blast
next
  case (Inr k)
  with assms(2) obtain fp where fp: "fprocs s p = Some fp" "\<not> fd_in_use_set fp k" "k < OPEN_MAX"
    and s': "s' = set_fproc p (mark_fd k fp) s" by (auto elim: alloc_fd_found)
  have "fds_ok (fprocs s')" using assms(1) fp unfolding s' files_inv_def
    by (auto intro!: fds_ok_entry [where fd = k and v = None and b = True])
  then show ?thesis using assms(1) mark_fd_table [OF assms(1) fp(1, 2)] by (simp add: files_inv_def s')
qed

definition drop_fd :: "nat \<Rightarrow> fproc \<Rightarrow> fproc" where
  "drop_fd fd fp = fp\<lparr>fd_table := (fd_table fp)(fd := None), fd_in_use_set := (fd_in_use_set fp)(fd := False),
     fd_close_on_exec_set := (fd_close_on_exec_set fp)(fd := False)\<rparr>"

lemma drop_fd_sel [simp]:
  "fd_table (drop_fd k fp) = (fd_table fp)(k := None)" "fd_in_use_set (drop_fd k fp) = (fd_in_use_set fp)(k := False)"
  by (simp_all add: drop_fd_def)

lemma free_fd_entry:
  "fprocs s p = Some fp \<Longrightarrow> 0 \<le> fd \<Longrightarrow> nat fd < OPEN_MAX \<Longrightarrow>
   free_fd p fd s = Some (if fd_table fp (nat fd) = None then (Inl EINVAL, s)
     else (Inr (), set_fproc p (drop_fd (nat fd) fp) s))"
  by (auto simp: free_fd_def drop_fd_def)

lemma drop_fd_ok: "fds_ok F \<Longrightarrow> F p = Some fp \<Longrightarrow> fds_ok (F(p := Some (drop_fd k fp)))"
  by (auto simp: fds_ok_def split: if_splits)

text \<open>The step that every close ends with: an entry is dropped and its filp changed.\<close>

lemma drop_fd_inv:
  assumes "files_inv s" and "fprocs s p = Some fp" and "fd_table fp k = Some f"
    and "card (refs (fd_filp s) f) = 1 \<or>
      reference_cnt x = reference_cnt (filps s f) - 1 \<and> item_ok x"
  shows "files_inv (set_fproc p (drop_fd k fp) (upd_filp f (\<lambda>_. x) s))"
proof -
  have "refs_ok (relink p k None (fd_filp s)) ((filps s)(f := x)) (filp_free_list s)"
    using assms by (intro unlink_ok) (auto simp: files_inv_def fd_filp_def)
  moreover have "fd_filp (set_fproc p (drop_fd k fp) (upd_filp f (\<lambda>_. x) s)) = relink p k None (fd_filp s)"
    using fd_filp_entry [of "upd_filp f (\<lambda>_. x) s" p fp "drop_fd k fp" k None] assms(2) by simp
  ultimately show ?thesis using assms(1, 2) by (simp add: files_inv_def drop_fd_ok)
qed

lemma upd_filp_const: "upd_filp f g s = upd_filp f (\<lambda>_. g (filps s f)) s"
  by (simp add: upd_filp_def)

lemma upd_filp_twice: "upd_filp f g (upd_filp f h s) = upd_filp f (\<lambda>_. g (h (filps s f))) s"
  by (simp add: upd_filp_def)

lemma free_fd_filp_inv:
  assumes inv: "files_inv s" and step: "free_fd_filp p fd s = Some (r, s')"
  shows "files_inv s'"
proof (cases "get_filp p fd s = Some None")
  case True
  then show ?thesis using inv step by (simp add: free_fd_filp_def)
next
  case False
  with step obtain f where "get_filp p fd s = Some (Some f)" by (auto simp: free_fd_filp_def split: bind_splits)
  then obtain fp where fp: "fprocs s p = Some fp" "fd_table fp (nat fd) = Some f" "0 \<le> fd" "nat fd < OPEN_MAX"
    and tab: "fd_filp s p (nat fd) = Some f" and get: "get_filp p fd s = Some (Some f)"
    using get_filp_Some by blast
  let ?x = "filps s f\<lparr>reference_cnt := reference_cnt (filps s f) - 1\<rparr>"
  have ok: "refs_ok (fd_filp s) (filps s) (filp_free_list s)" using inv by (simp add: files_inv_def)
  note D = refs_okD [OF ok tab]
  show ?thesis
  proof (cases "reference_cnt (filps s f) = 1")
    case True
    let ?y = "?x\<lparr>ftype := FILP_TYPE_UNDEF, fitem := None\<rparr>"
    have s': "s' = set_fproc p (drop_fd (nat fd) fp) ((upd_filp f (\<lambda>_. ?y) s)\<lparr>filp_free_list := f # filp_free_list s\<rparr>)"
      using step True fp get by (simp add: free_fd_filp_def free_filp_def free_fd_entry Let_def upd_filp_twice)
    have "fd_filp s' = relink p (nat fd) None (fd_filp s)"
      unfolding s' using fp(1)
      by (subst fd_filp_entry [of _ _ fp _ "nat fd" None]) simp_all
    moreover have "refs_ok (relink p (nat fd) None (fd_filp s)) ((filps s)(f := ?y)) (f # filp_free_list s)"
      using push_ok [OF ok tab] D True by simp
    ultimately show ?thesis using inv fp unfolding files_inv_def s' by (simp add: drop_fd_ok)
  next
    case False
    have s': "s' = set_fproc p (drop_fd (nat fd) fp) (upd_filp f (\<lambda>_. ?x) s)"
      using step False fp get by (simp add: free_fd_filp_def free_filp_def free_fd_entry Let_def upd_filp_const [of f "\<lambda>x. x\<lparr>reference_cnt := _ x\<rparr>"])
    show ?thesis unfolding s' using inv fp D by (intro drop_fd_inv) (auto simp: item_ok_def)
  qed
qed

text \<open>
  What a close does to a descriptor in use: the entry is dropped, and the count of the filp goes
  down by one, or by two when this was its last descriptor.
\<close>

lemma do_close_entry:
  assumes inv: "files_inv s" and get: "get_filp p fd s = Some (Some f)" and step: "do_close p fd s = Some (r, s')"
  obtains fp where "fprocs s p = Some fp" and "fd_table fp (nat fd) = Some f" and "0 \<le> fd" and "nat fd < OPEN_MAX"
    and "r = Inr ()"
    and "s' = set_fproc p (drop_fd (nat fd) fp) (upd_filp f (\<lambda>_. (filps s f)\<lparr>reference_cnt :=
      (if reference_cnt (filps s f) = 1 then - 1 else reference_cnt (filps s f) - 1)\<rparr>) s)"
    and "reference_cnt (filps s f) = 1 \<longrightarrow> ftype (filps s f) \<in> set object_types"
proof -
  obtain fp where fp: "fprocs s p = Some fp" "fd_table fp (nat fd) = Some f" "0 \<le> fd" "nat fd < OPEN_MAX"
    and tab: "fd_filp s p (nat fd) = Some f" using get_filp_Some [OF get] by blast
  have "refs_ok (fd_filp s) (filps s) (filp_free_list s)" using inv by (simp add: files_inv_def)
  then have item: "item_ok (filps s f)" using tab by (rule refs_okD)
  show thesis
  proof (cases "reference_cnt (filps s f) = 1")
    case True
    have ty: "ftype (filps s f) \<in> set object_types"
      using step get True item by (auto simp: do_close_def Let_def item_ok_def object_types_def split: if_splits)
    then have "fitem (filps s f) \<noteq> None" using item by (simp add: item_ok_def)
    then have "r = Inr () \<and> s' = set_fproc p (drop_fd (nat fd) fp) (upd_filp f (\<lambda>_. (filps s f)\<lparr>reference_cnt := - 1\<rparr>) s)"
      using step get True ty fp
      by (auto simp: do_close_def close_item_def free_fd_filp_def free_filp_def free_fd_entry upd_filp_twice Let_def
          get_filp_def split: if_splits)
    then show thesis using that fp True ty by simp
  next
    case False
    then have "r = Inr () \<and> s' = set_fproc p (drop_fd (nat fd) fp) (upd_filp f (\<lambda>x. x\<lparr>reference_cnt := reference_cnt x - 1\<rparr>) s)"
      using step get fp by (auto simp: do_close_def free_fd_entry Let_def)
    then show thesis using that [of fp] fp False by (simp add: upd_filp_def)
  qed
qed

lemma do_close_unused: "get_filp p fd s = Some None \<Longrightarrow> do_close p fd s = Some (Inl EINVAL, s)"
  by (simp add: do_close_def)

lemma do_close_cases:
  assumes "do_close p fd s = Some (r, s')"
  obtains "get_filp p fd s = Some None" and "r = Inl EINVAL" and "s' = s"
  | f where "get_filp p fd s = Some (Some f)"
  using assms by (cases "get_filp p fd s"; cases "the (get_filp p fd s)") (auto simp: do_close_def)

lemma do_close_inv:
  assumes inv: "files_inv s" and step: "do_close p fd s = Some (r, s')"
  shows "files_inv s'"
  using step
proof (cases rule: do_close_cases)
  case (2 f)
  obtain fp where fp: "fprocs s p = Some fp" "fd_table fp (nat fd) = Some f"
    and s': "s' = set_fproc p (drop_fd (nat fd) fp) (upd_filp f (\<lambda>_. (filps s f)\<lparr>reference_cnt :=
      (if reference_cnt (filps s f) = 1 then - 1 else reference_cnt (filps s f) - 1)\<rparr>) s)"
    using do_close_entry [OF inv 2 step] by metis
  then have "fd_filp s p (nat fd) = Some f" by (simp add: fd_filp_def)
  then have "reference_cnt (filps s f) = int (card (refs (fd_filp s) f)) \<and> item_ok (filps s f)"
    using inv refs_okD(1, 2) by (auto simp: files_inv_def)
  then show ?thesis unfolding s' using inv fp by (intro drop_fd_inv) (auto simp: item_ok_def)
qed (use inv in simp)

lemma dup_fd_cases:
  assumes inv: "files_inv s" and step: "dup_fd p fd lo hi s = Some (r, s')"
  obtains e where "r = Inl e" and "s' = s" and "e = EINVAL \<longleftrightarrow> get_filp p fd s = Some None" and "e \<in> {EINVAL, EMFILE}"
  | f fp k where "r = Inr k" and "get_filp p fd s = Some (Some f)" and "alloc_fd p lo hi s = Some (Inr k, set_fproc p (mark_fd k fp) s)"
    and "fprocs s p = Some fp" and "\<not> fd_in_use_set fp k" and "lo \<le> k" and "k \<le> hi" and "k < OPEN_MAX"
    and "s' = set_fproc p ((mark_fd k fp)\<lparr>fd_table := (fd_table fp)(k := Some f)\<rparr>)
          (upd_filp f (\<lambda>x. x\<lparr>reference_cnt := reference_cnt x + 1\<rparr>) s)"
proof (cases "get_filp p fd s = Some None")
  case True
  then show thesis using step that(1) by (simp add: dup_fd_def)
next
  case False
  with step obtain f r1 s1 where get: "get_filp p fd s = Some (Some f)" and al: "alloc_fd p lo hi s = Some (r1, s1)"
    by (auto simp: dup_fd_def split: bind_splits option.splits)
  show thesis
  proof (cases r1)
    case (Inl e)
    then have "s1 = s" using alloc_fd_full al by blast
    then show thesis using that(1) step get al Inl by (auto simp: dup_fd_def)
  next
    case (Inr k)
    then obtain fp where fp: "fprocs s p = Some fp" "\<not> fd_in_use_set fp k" "lo \<le> k" "k \<le> hi" "k < OPEN_MAX"
      and s1: "s1 = set_fproc p (mark_fd k fp) s" using al by (auto elim: alloc_fd_found)
    show thesis using step get al Inr
      by (intro that(2) [of k f fp]) (auto simp: dup_fd_def fp s1 set_fproc_def upd_filp_def Let_def mark_fd_def)
  qed
qed

lemma dup_fd_inv:
  assumes inv: "files_inv s" and step: "dup_fd p fd lo hi s = Some (r, s')"
  shows "files_inv s'"
  using inv step
proof (cases rule: dup_fd_cases)
  case (2 f fp k)
  have ok: "refs_ok (fd_filp s) (filps s) (filp_free_list s)" using inv by (simp add: files_inv_def)
  have "fd_filp s p k = None" using mark_fd_table [OF inv 2(4, 5)] 2(4) by (simp add: fd_filp_def)
  moreover obtain i where "fd_filp s p i = Some f" using get_filp_Some [OF 2(2)] by blast
  ultimately have "refs_ok (relink p k (Some f) (fd_filp s))
      ((filps s)(f := filps s f\<lparr>reference_cnt := reference_cnt (filps s f) + 1\<rparr>)) (filp_free_list s)"
    using link_ok [OF ok] by blast
  moreover have "fd_filp s' = relink p k (Some f) (fd_filp s)"
    unfolding 2(9) using 2(4) by (subst fd_filp_entry [of _ _ fp _ k "Some f"]) simp_all
  moreover have "fds_ok (fprocs s')"
    unfolding 2(9) using inv 2(4, 5, 8) by (auto simp: files_inv_def intro!: fds_ok_entry [where fd = k and v = "Some f"])
  ultimately show ?thesis by (simp add: files_inv_def 2(9))
qed (use inv in simp)

lemma alloc_fd_filp_cases:
  assumes step: "alloc_fd_filp p s = Some (r, s')" and inv: "files_inv s"
  obtains s1 where "r = Inl EMFILE" and "alloc_fd p 0 OPEN_MAX s = Some (Inl EMFILE, s)" and "s' = s"
  | k fp where "r = Inl EMFILE" and "fprocs s p = Some fp" and "\<not> fd_in_use_set fp k" and "k < OPEN_MAX"
    and "filp_free_list s = []" and "alloc_fd p 0 OPEN_MAX s = Some (Inr k, s')" and "s' = set_fproc p (mark_fd k fp) s"
  | k fp f L where "r = Inr k" and "fprocs s p = Some fp" and "\<not> fd_in_use_set fp k" and "k < OPEN_MAX"
    and "alloc_fd p 0 OPEN_MAX s = Some (Inr k, set_fproc p (mark_fd k fp) s)"
    and "filp_free_list s = f # L" and "s' = set_fproc p ((mark_fd k fp)\<lparr>fd_table := (fd_table fp)(k := Some f)\<rparr>)
          (upd_filp f (\<lambda>x. x\<lparr>fitem := None, reference_cnt := 1, ftype := FILP_TYPE_UNDEF\<rparr>)
            (s\<lparr>filp_free_list := L\<rparr>))"
proof -
  from step obtain r1 s1 where al: "alloc_fd p 0 OPEN_MAX s = Some (r1, s1)"
    by (auto simp: alloc_fd_filp_def split: bind_splits)
  show thesis
  proof (cases r1)
    case (Inl e)
    then have "e = EMFILE \<and> s1 = s" using alloc_fd_full al by blast
    then show thesis using that(1) step al Inl by (auto simp: alloc_fd_filp_def)
  next
    case (Inr k)
    then obtain fp where fp: "fprocs s p = Some fp" "\<not> fd_in_use_set fp k" "k < OPEN_MAX"
      and s1: "s1 = set_fproc p (mark_fd k fp) s" using al by (auto elim: alloc_fd_found)
    show thesis
    proof (cases "filp_free_list s")
      case Nil
      have "free_fd p (int k) s1 = Some (Inl EINVAL, s1)"
        using free_fd_entry [of s1 p "mark_fd k fp" "int k"] fp(3) by (simp add: s1)
      then show thesis using that(2) [of fp k] step al Inr Nil fp
        by (auto simp: alloc_fd_filp_def alloc_filp_def s1)
    next
      case (Cons f L)
      show thesis using step al Inr Cons
        by (intro that(3) [of k fp f L]) (auto simp: alloc_fd_filp_def alloc_filp_def fp s1 set_fproc_def upd_filp_def
          Let_def mark_fd_def)
    qed
  qed
qed

lemma alloc_fd_filp_inv:
  assumes step: "alloc_fd_filp p s = Some (r, s')" and inv: "files_inv s"
  shows "files_inv s'"
  using step inv
proof (cases rule: alloc_fd_filp_cases)
  case (2 k fp)
  then show ?thesis using alloc_fd_inv [OF inv] by blast
next
  case (3 k fp f L)
  have ok: "refs_ok (fd_filp s) (filps s) (f # L)" using inv 3(6) by (simp add: files_inv_def)
  have "fd_filp s p k = None" using mark_fd_table [OF inv 3(2, 3)] 3(2) by (simp add: fd_filp_def)
  then have "refs_ok (relink p k (Some f) (fd_filp s))
      ((filps s)(f := filps s f\<lparr>fitem := None, reference_cnt := 1, ftype := FILP_TYPE_UNDEF\<rparr>)) L"
    using fresh_ok [OF ok] by (simp add: item_ok_def object_types_def)
  moreover have "fd_filp s' = relink p k (Some f) (fd_filp s)"
    unfolding 3(7) using 3(2) by (subst fd_filp_entry [of _ _ fp _ k "Some f"]) simp_all
  moreover have "fds_ok (fprocs s')"
    unfolding 3(7) using inv 3(2, 4) by (auto simp: files_inv_def intro!: fds_ok_entry [where fd = k and v = "Some f"])
  ultimately show ?thesis by (simp add: files_inv_def 3(7))
qed (use inv in simp)

lemma refs_ok_upd: "refs_ok T R L \<Longrightarrow> reference_cnt x = reference_cnt (R f) \<Longrightarrow> item_ok x \<Longrightarrow> refs_ok T (R(f := x)) L"
  by (auto simp: refs_ok_def)

lemma fd_filp_same: "fprocs s p = Some fp \<Longrightarrow> fd_table fp' = fd_table fp \<Longrightarrow> fd_filp (set_fproc p fp' s) = fd_filp s"
  by (auto simp: fd_filp_def fun_eq_iff)

lemma fds_ok_same:
  "fds_ok F \<Longrightarrow> F p = Some fp \<Longrightarrow> fd_table fp' = fd_table fp \<Longrightarrow> (\<And>i. fd_in_use_set fp i \<Longrightarrow> fd_in_use_set fp' i) \<Longrightarrow>
   fds_ok (F(p := Some fp'))"
  by (auto simp: fds_ok_def)

lemma set_fd_entry:
  assumes "get_filp p fd s = Some (Some f)" and "fprocs s p = Some fp"
  shows "set_fd p fd ty c item s = Some (Inr (),
    set_fproc p (fp\<lparr>fd_in_use_set := (fd_in_use_set fp)(nat fd := True),
        fd_close_on_exec_set := (if c then (fd_close_on_exec_set fp)(nat fd := True) else fd_close_on_exec_set fp)\<rparr>)
      (upd_filp f (\<lambda>_. if ty \<in> set object_types then (filps s f)\<lparr>ftype := ty, fitem := item\<rparr>
        else (filps s f)\<lparr>ftype := ty\<rparr>) s))"
  using assms by (cases c; cases "ty \<in> set object_types") (simp_all add: set_fd_def upd_filp_def set_fproc_def Let_def)

lemma set_fd_inv:
  assumes inv: "files_inv s" and step: "set_fd p fd ty c (Some i) s = Some (r, s')"
  shows "files_inv s'"
proof (cases "get_filp p fd s = Some None")
  case True
  then show ?thesis using inv step by (simp add: set_fd_def)
next
  case False
  with step obtain f where get: "get_filp p fd s = Some (Some f)" by (auto simp: set_fd_def split: bind_splits)
  obtain fp where fp: "fprocs s p = Some fp" using get_filp_Some [OF get] by blast
  obtain x fp' where s': "s' = set_fproc p fp' (upd_filp f (\<lambda>_. x) s)" and x: "reference_cnt x = reference_cnt (filps s f)"
      "item_ok x" and fp': "fd_table fp' = fd_table fp" "\<And>i. fd_in_use_set fp i \<Longrightarrow> fd_in_use_set fp' i"
    using step unfolding set_fd_entry [OF get fp] by (auto simp: item_ok_def)
  have "fd_filp s' = fd_filp s" unfolding s' using fp fp' by (subst fd_filp_same [of _ p fp]) simp_all
  moreover have "fds_ok (fprocs s')" unfolding s' using inv fp fp' by (auto simp: files_inv_def intro!: fds_ok_same)
  moreover have "refs_ok (fd_filp s) (filps s') (filp_free_list s')"
    unfolding s' using inv x by (simp add: files_inv_def refs_ok_upd)
  ultimately show ?thesis by (simp add: files_inv_def)
qed

lemma sys_dup2_inv:
  assumes inv: "files_inv s" and step: "sys_dup2 fd nfd s = Some (r, s')"
  shows "files_inv s'"
proof (cases "fd < 0 \<or> fd \<ge> int OPEN_MAX \<or> nfd < 0 \<or> nfd \<ge> int OPEN_MAX")
  case True
  then show ?thesis using inv step by (auto simp: sys_dup2_def)
next
  case False
  with step obtain s1 where "s1 = s \<or> (\<exists>r1. do_close (current s) nfd s = Some (r1, s1))"
    and dup: "dup_fd (current s1) fd (nat nfd) (nat nfd) s1 = Some (r, s')"
    by (auto simp: sys_dup2_def split: bind_splits if_splits)
  then have "files_inv s1" using inv do_close_inv by blast
  then show ?thesis using dup by (rule dup_fd_inv)
qed

lemma sys_fcntl_inv:
  assumes inv: "files_inv s" and step: "sys_fcntl fd cmd arg s = Some (r, s')"
  shows "files_inv s'"
proof -
  have "s' = s \<or> (\<exists>r1. dup_fd (current s) fd (nat arg) OPEN_MAX s = Some (r1, s')) \<or>
      (\<exists>fp S. fprocs s (current s) = Some fp \<and> s' = set_fproc (current s) (fp\<lparr>fd_close_on_exec_set := S\<rparr>) s)"
    using step by (cases cmd) (auto simp: sys_fcntl_def Let_def split: bind_splits if_splits)
  moreover have "files_inv (set_fproc p (fp\<lparr>fd_close_on_exec_set := S\<rparr>) s)" if "fprocs s p = Some fp" for p fp S
    using inv that fd_filp_same [of s p fp] by (auto simp: files_inv_def intro!: fds_ok_same)
  ultimately show ?thesis using inv dup_fd_inv by blast
qed

subsection \<open>Closing the descriptors of a process\<close>

text \<open>The parts of the state that closing descriptor \<open>k\<close> of \<open>p\<close> changes.\<close>

definition closed_fd :: "nat \<Rightarrow> nat \<Rightarrow> 'a files_scheme \<Rightarrow> 'a files_scheme \<Rightarrow> bool" where
  "closed_fd p k s s' \<longleftrightarrow> fd_filp s' = relink p k None (fd_filp s) \<and> filp_free_list s' = filp_free_list s \<and>
     current s' = current s \<and> (\<forall>q. q \<noteq> p \<longrightarrow> fprocs s' q = fprocs s q) \<and>
     (\<exists>fp. fprocs s p = Some fp \<and> fprocs s' p = Some (if fd_table fp k = None then fp else drop_fd k fp))"

lemma do_close_table:
  assumes inv: "files_inv s" and step: "do_close p (int k) s = Some (r, s')" and k: "k < OPEN_MAX"
  shows "closed_fd p k s s'"
  using step
proof (cases rule: do_close_cases)
  case 1
  then have "fprocs s p \<noteq> None \<and> fd_filp s p k = None"
    using k by (auto simp: get_filp_def fd_filp_def split: bind_splits)
  then show ?thesis using 1 by (auto simp: closed_fd_def relink_def fd_filp_def fun_eq_iff)
next
  case (2 f)
  obtain fp x where fp: "fprocs s p = Some fp" "fd_table fp k = Some f"
    and s': "s' = set_fproc p (drop_fd k fp) (upd_filp f (\<lambda>_. x) s)"
    using do_close_entry [OF inv 2 step] by (metis nat_int)
  have "fd_filp s' = relink p k None (fd_filp s)"
    unfolding s' using fp by (subst fd_filp_entry [of _ _ fp _ k None]) simp_all
  then show ?thesis using fp by (simp add: closed_fd_def s')
qed

lemma close_loop_inv:
  "files_inv s \<Longrightarrow> close_loop p fd n s = Some s' \<Longrightarrow> fd + n \<le> OPEN_MAX \<Longrightarrow>
   files_inv s' \<and> filp_free_list s' = filp_free_list s \<and> (\<forall>q. q \<noteq> p \<longrightarrow> fprocs s' q = fprocs s q) \<and>
   (\<forall>i. fd_filp s' p i = (if fd \<le> i \<and> i < fd + n then None else fd_filp s p i))"
proof (induction n arbitrary: fd s)
  case (Suc n)
  then obtain r s1 where cl: "do_close p (int fd) s = Some (r, s1)" and rest: "close_loop p (Suc fd) n s1 = Some s'"
    by (auto split: bind_splits)
  have "closed_fd p fd s s1" using Suc.prems do_close_table [OF _ cl] by simp
  moreover have "files_inv s1" using Suc.prems cl do_close_inv by blast
  ultimately show ?case using Suc.IH [OF _ rest] Suc.prems(3) by (auto simp: closed_fd_def relink_def)
qed auto

lemma fds_ok_new:
  "fds_ok F \<Longrightarrow> (\<And>i y. fd_table fp i = Some y \<Longrightarrow> i < OPEN_MAX \<and> fd_in_use_set fp i) \<Longrightarrow> fds_ok (F(p := Some fp))"
  unfolding fds_ok_def by (metis fun_upd_apply not_Some_eq option.inject)

lemma fds_ok_remove: "fds_ok F \<Longrightarrow> fds_ok (F(p := None))"
  unfolding fds_ok_def by (metis fun_upd_apply option.distinct(1))

lemma fini_fproc_inv:
  assumes inv: "files_inv s" and step: "fini_fproc p s = Some s'"
  shows "files_inv s' \<and> fd_filp s' = (fd_filp s)(p := (\<lambda>_. None)) \<and> filp_free_list s' = filp_free_list s"
proof -
  obtain s1 where cl: "close_loop p 0 OPEN_MAX s = Some s1" and s': "s' = s1\<lparr>fprocs := (fprocs s1)(p := None)\<rparr>"
    using step by (auto simp: fini_fproc_def split: bind_splits)
  have s1: "files_inv s1" "\<forall>q. q \<noteq> p \<longrightarrow> fprocs s1 q = fprocs s q" "filp_free_list s1 = filp_free_list s"
    and none: "\<And>i. i < OPEN_MAX \<Longrightarrow> fd_filp s1 p i = None"
    using close_loop_inv [OF inv cl] by auto
  have big: "fd_filp s1 p i = None" for i
    using none [of i] s1(1) by (fastforce simp: files_inv_def fds_ok_def fd_filp_def split: option.splits)
  then have "fd_filp s' = fd_filp s1" by (auto simp: s' fd_filp_def fun_eq_iff)
  moreover have "fd_filp s1 = (fd_filp s)(p := (\<lambda>_. None))"
    using big s1(2) by (auto simp: fd_filp_def fun_eq_iff)
  ultimately show ?thesis using s1(1, 3) by (simp add: files_inv_def fds_ok_remove s')
qed

lemma exec_close_inv:
  "files_inv s \<Longrightarrow> exec_close_loop p fd n s = Some s' \<Longrightarrow> fd + n \<le> OPEN_MAX \<Longrightarrow> fprocs s p = Some fp \<Longrightarrow>
   files_inv s' \<and> filp_free_list s' = filp_free_list s \<and> (\<forall>q. q \<noteq> p \<longrightarrow> fprocs s' q = fprocs s q) \<and>
   (\<forall>i. fd_filp s' p i = (if fd \<le> i \<and> i < fd + n \<and> fd_close_on_exec_set fp i then None else fd_table fp i))"
proof (induction n arbitrary: fd s fp)
  case 0
  then show ?case by (auto simp: fd_filp_def)
next
  case (Suc n)
  show ?case
  proof (cases "fd_close_on_exec_set fp fd")
    case True
    with Suc.prems obtain r s1 where cl: "do_close p (int fd) s = Some (r, s1)"
      and rest: "exec_close_loop p (Suc fd) n s1 = Some s'"
      by (auto split: bind_splits)
    have c: "closed_fd p fd s s1" using Suc.prems do_close_table [OF _ cl] by simp
    have inv: "files_inv s1" using Suc.prems cl do_close_inv by blast
    let ?fp = "if fd_table fp fd = None then fp else drop_fd fd fp"
    have "fprocs s1 p = Some ?fp" using c Suc.prems by (auto simp: closed_fd_def)
    then show ?thesis using Suc.IH [OF inv rest _, of ?fp] Suc.prems c True
      by (auto simp: closed_fd_def drop_fd_def Suc_le_eq le_eq_less_or_eq split: if_splits)
  next
    case False
    then show ?thesis using Suc.IH [of s "Suc fd" fp] Suc.prems by (auto simp: Suc_le_eq le_eq_less_or_eq)
  qed
qed

subsection \<open>Forking\<close>

lemma fork_refs_ok:
  assumes ok: "refs_ok T R L" and new: "T newp = (\<lambda>_. None)"
    and R': "\<And>f. R' f = (R f)\<lparr>reference_cnt := reference_cnt (R f) + int (card {i. T oldp i = Some f})\<rparr>"
  shows "refs_ok (T(newp := T oldp)) R' L"
proof -
  let ?C = "\<lambda>f. Pair newp ` {i. T oldp i = Some f}"
  have refs: "refs (T(newp := T oldp)) f = refs T f \<union> ?C f" for f
    using new by (auto simp: refs_def split: if_splits)
  have fin: "finite (refs T f)" for f using ok by (simp add: refs_ok_def)
  have old: "refs (T(newp := T oldp)) f \<noteq> {} \<Longrightarrow> refs T f \<noteq> {}" for f unfolding refs by (auto simp: refs_def)
  have "finite (Pair oldp ` {i. T oldp i = Some f})" for f
    by (rule finite_subset [OF _ fin [of f]]) (auto simp: refs_def)
  then have finC: "finite {i. T oldp i = Some f}" for f
    using finite_imageD [of "Pair oldp" "{i. T oldp i = Some f}"] by (auto simp: inj_on_def)
  have "refs T f \<inter> ?C f = {}" for f using new by (auto simp: refs_def)
  then have card: "card (refs (T(newp := T oldp)) f) = card (refs T f) + card {i. T oldp i = Some f}" for f
    unfolding refs using fin finC by (subst card_Un_disjoint) (auto simp: card_image inj_on_def)
  show ?thesis
  proof (rule refs_okI)
    show "finite (refs (T(newp := T oldp)) f)" for f using fin finC refs by simp
    show "reference_cnt (R' f) = int (card (refs (T(newp := T oldp)) f))" if "refs (T(newp := T oldp)) f \<noteq> {}" for f
      using ok old [OF that] card [of f] by (simp add: refs_ok_def R')
    show "item_ok (R' f)" if "refs (T(newp := T oldp)) f \<noteq> {}" for f
      using ok old [OF that] by (simp add: refs_ok_def R' item_ok_def)
    show "refs (T(newp := T oldp)) f = {}" if "f \<in> set L" for f
      using ok old [of f] that by (auto simp: refs_ok_def)
    show "distinct L" using ok by (simp add: refs_ok_def)
  qed
qed

text \<open>The table of the child after the descriptors from \<open>fd\<close> to \<open>fd + n\<close>.\<close>

definition forked :: "nat \<Rightarrow> nat \<Rightarrow> fproc \<Rightarrow> fproc \<Rightarrow> fproc \<Rightarrow> bool" where
  "forked fd n old new new' \<longleftrightarrow> (\<forall>i. if fd \<le> i \<and> i < fd + n
     then fd_table new' i = fd_table old i \<and> fd_in_use_set new' i = (fd_table old i \<noteq> None) \<and>
       fd_close_on_exec_set new' i = (fd_table old i \<noteq> None \<and> fd_close_on_exec_set old i)
     else fd_table new' i = fd_table new i \<and> fd_in_use_set new' i = fd_in_use_set new i \<and>
       fd_close_on_exec_set new' i = fd_close_on_exec_set new i)"

lemma card_fds: "card {i. fd \<le> i \<and> i < fd + Suc n \<and> P i} =
    (if P fd then Suc (card {i. Suc fd \<le> i \<and> i < Suc fd + n \<and> P i}) else card {i. Suc fd \<le> i \<and> i < Suc fd + n \<and> P i})"
proof -
  have "{i. fd \<le> i \<and> i < fd + Suc n \<and> P i} =
      (if P fd then insert fd {i. Suc fd \<le> i \<and> i < Suc fd + n \<and> P i} else {i. Suc fd \<le> i \<and> i < Suc fd + n \<and> P i})"
    by (auto simp: Suc_le_eq le_eq_less_or_eq)
  then show ?thesis by simp
qed

lemma fork_loop_result:
  "fprocs s oldp = Some old \<Longrightarrow> fprocs s newp = Some new \<Longrightarrow> newp \<noteq> oldp \<Longrightarrow>
   \<exists>s' new'. fork_loop newp oldp fd n s = Some s' \<and> fprocs s' = (fprocs s)(newp := Some new') \<and>
     forked fd n old new new' \<and> filp_free_list s' = filp_free_list s \<and> current s' = current s \<and>
     (\<forall>f. filps s' f = (filps s f)\<lparr>reference_cnt := reference_cnt (filps s f) +
        int (card {i. fd \<le> i \<and> i < fd + n \<and> fd_table old i = Some f})\<rparr>)"
proof (induction n arbitrary: fd s new)
  case 0
  then show ?case by (auto simp: forked_def intro!: exI [of _ new])
next
  case (Suc n)
  let ?new = "case fd_table old fd of
      Some f \<Rightarrow> new\<lparr>fd_table := (fd_table new)(fd := Some f), fd_in_use_set := (fd_in_use_set new)(fd := True),
          fd_close_on_exec_set := (fd_close_on_exec_set new)(fd := fd_close_on_exec_set old fd)\<rparr>
    | None \<Rightarrow> new\<lparr>fd_table := (fd_table new)(fd := None), fd_in_use_set := (fd_in_use_set new)(fd := False),
          fd_close_on_exec_set := (fd_close_on_exec_set new)(fd := False)\<rparr>"
  obtain s1 where s1: "fork_fd newp oldp fd s = Some s1" "fprocs s1 = (fprocs s)(newp := Some ?new)"
      "filp_free_list s1 = filp_free_list s" "current s1 = current s"
    and filps: "\<And>f. filps s1 f = (filps s f)\<lparr>reference_cnt := reference_cnt (filps s f) +
        (if fd_table old fd = Some f then 1 else 0)\<rparr>"
    using Suc.prems by (cases "fd_table old fd") (auto simp: fork_fd_def)
  have "fprocs s1 oldp = Some old" "fprocs s1 newp = Some ?new" using Suc.prems s1(2) by simp_all
  from Suc.IH [OF this Suc.prems(3), of "Suc fd"] obtain s' new' where IH:
    "fork_loop newp oldp (Suc fd) n s1 = Some s'" "fprocs s' = (fprocs s1)(newp := Some new')"
    "forked (Suc fd) n old ?new new'" "filp_free_list s' = filp_free_list s1" "current s' = current s1"
    "\<And>f. filps s' f = (filps s1 f)\<lparr>reference_cnt := reference_cnt (filps s1 f) +
        int (card {i. Suc fd \<le> i \<and> i < Suc fd + n \<and> fd_table old i = Some f})\<rparr>"
    by blast
  have "forked fd (Suc n) old new new'" unfolding forked_def
  proof
    fix i
    have "i < fd \<or> i = fd \<or> Suc fd \<le> i" by arith
    then show "if fd \<le> i \<and> i < fd + Suc n
       then fd_table new' i = fd_table old i \<and> fd_in_use_set new' i = (fd_table old i \<noteq> None) \<and>
         fd_close_on_exec_set new' i = (fd_table old i \<noteq> None \<and> fd_close_on_exec_set old i)
       else fd_table new' i = fd_table new i \<and> fd_in_use_set new' i = fd_in_use_set new i \<and>
         fd_close_on_exec_set new' i = fd_close_on_exec_set new i"
      using IH(3) [unfolded forked_def, rule_format, of i] by (auto split: option.splits if_splits)
  qed
  moreover have "filps s' f = (filps s f)\<lparr>reference_cnt := reference_cnt (filps s f) +
        int (card {i. fd \<le> i \<and> i < fd + Suc n \<and> fd_table old i = Some f})\<rparr>" for f
    unfolding card_fds IH(6) filps by simp
  ultimately show ?case using IH(1, 2, 4, 5) s1 by (auto intro!: exI [of _ new'])
qed

text \<open>A page for the tables of a process: it has \<open>OPEN_MAX\<close> entries, with whatever is left in them.\<close>

definition fproc_page :: "fproc \<Rightarrow> bool" where
  "fproc_page fp \<longleftrightarrow> (\<forall>i. OPEN_MAX \<le> i \<longrightarrow> fd_table fp i = None)"

lemma fork_process_fds_result:
  assumes inv: "files_inv s" and old: "fprocs s oldp = Some old" and ne: "newp \<noteq> oldp"
    and new: "fd_filp s newp = (\<lambda>_. None)" and page: "fproc_page page"
  shows "\<exists>s' new'. fork_process_fds newp oldp (Some page) s = Some (Inr (), s') \<and> files_inv s' \<and>
     fprocs s' = (fprocs s)(newp := Some new') \<and> fd_table new' = fd_table old \<and>
     (\<forall>i<OPEN_MAX. fd_in_use_set new' i = (fd_table old i \<noteq> None) \<and>
       fd_close_on_exec_set new' i = (fd_table old i \<noteq> None \<and> fd_close_on_exec_set old i)) \<and>
     current_dir new' = current_dir old \<and> root_dir new' = root_dir old \<and>
     filp_free_list s' = filp_free_list s \<and> current s' = current s"
proof -
  have "fprocs (set_fproc newp page s) oldp = Some old" "fprocs (set_fproc newp page s) newp = Some page"
    using old ne by simp_all
  from fork_loop_result [OF this ne, of 0 OPEN_MAX] obtain s1 n1 where s1:
    "fork_loop newp oldp 0 OPEN_MAX (set_fproc newp page s) = Some s1"
    "fprocs s1 = (fprocs s)(newp := Some n1)" "forked 0 OPEN_MAX old page n1"
    "filp_free_list s1 = filp_free_list s" "current s1 = current s"
    "\<And>f. filps s1 f = (filps s f)\<lparr>reference_cnt := reference_cnt (filps s f) +
        int (card {i. i < OPEN_MAX \<and> fd_table old i = Some f})\<rparr>"
    by auto
  let ?n = "n1\<lparr>current_dir := current_dir old, root_dir := root_dir old\<rparr>"
  let ?s = "set_fproc newp ?n s1"
  have fds: "\<forall>i. fd_table old i \<noteq> None \<longrightarrow> i < OPEN_MAX" using inv old by (auto simp: files_inv_def fds_ok_def)
  have tab: "fd_table n1 i = fd_table old i" for i
  proof (cases "i < OPEN_MAX")
    case False
    then have "fd_table old i = None" using fds by blast
    then show ?thesis using s1(3) page False by (simp add: forked_def fproc_page_def)
  qed (use s1(3) in \<open>auto simp: forked_def\<close>)
  have T: "fd_filp ?s = (fd_filp s)(newp := fd_filp s oldp)"
    using old tab s1(2) unfolding fd_filp_set_fproc by (auto simp: fd_filp_def fun_eq_iff)
  have cnt: "{i. i < OPEN_MAX \<and> fd_table old i = Some f} = {i. fd_filp s oldp i = Some f}" for f
    using fds old by (auto simp: fd_filp_def)
  have "refs_ok (fd_filp ?s) (filps ?s) (filp_free_list ?s)"
    unfolding T set_fproc_sel s1(4) by (rule fork_refs_ok) (use inv new cnt s1(6) in \<open>simp_all add: files_inv_def\<close>)
  moreover have "fds_ok (fprocs ?s)"
    using inv s1(2, 3) tab fds by (auto simp: files_inv_def forked_def intro!: fds_ok_new)
  moreover have "fork_process_fds newp oldp (Some page) s = Some (Inr (), ?s)"
    using s1(1, 2) old ne by (simp add: fork_process_fds_def)
  ultimately show ?thesis using s1(2-5) tab
    by (intro exI [of _ ?s] exI [of _ ?n]) (auto simp: files_inv_def forked_def)
qed

lemma init_fproc_inv:
  assumes inv: "files_inv s" and "fd_filp s p = (\<lambda>_. None)" and "init_fproc p page s = (r, s')"
  shows "files_inv s'"
proof (cases page)
  case (Some fp)
  have "fd_filp s' = fd_filp s"
    using assms(2, 3) Some fd_filp_set_fproc [of p "empty_fproc fp" s] by (auto simp: init_fproc_def empty_fproc_def)
  then show ?thesis using inv assms(3) Some
    by (auto simp: files_inv_def init_fproc_def empty_fproc_def intro!: fds_ok_new)
qed (use assms in \<open>auto simp: init_fproc_def\<close>)

section \<open>The states that the kernel reaches\<close>

text \<open>
  Every operation on descriptors, by any process.  \<open>set_fd\<close> and \<open>free_fd_filp\<close> are called for a new
  descriptor by the operations that open an object.
\<close>

inductive files_step :: "'a files_scheme \<Rightarrow> 'a files_scheme \<Rightarrow> bool" where
  switch: "files_step s (s\<lparr>current := p\<rparr>)"
| init: "fd_filp s p = (\<lambda>_. None) \<Longrightarrow> init_fproc p page s = (r, s') \<Longrightarrow> files_step s s'"
| alloc: "alloc_fd_filp p s = Some (ri, s') \<Longrightarrow> files_step s s'"
| set: "set_fd p fd ty c (Some i) s = Some (r, s') \<Longrightarrow> files_step s s'"
| release: "free_fd_filp p fd s = Some (r, s') \<Longrightarrow> files_step s s'"
| dup: "sys_dup fd s = Some (ri, s') \<Longrightarrow> files_step s s'"
| dup2: "sys_dup2 fd nfd s = Some (ri, s') \<Longrightarrow> files_step s s'"
| close: "sys_close fd s = Some (r, s') \<Longrightarrow> files_step s s'"
| fcntl: "sys_fcntl fd cmd arg s = Some (rc, s') \<Longrightarrow> files_step s s'"
| fork: "newp \<noteq> oldp \<Longrightarrow> fd_filp s newp = (\<lambda>_. None) \<Longrightarrow> (\<forall>fp. page = Some fp \<longrightarrow> fproc_page fp) \<Longrightarrow>
    fork_process_fds newp oldp page s = Some (r, s') \<Longrightarrow> files_step s s'"
| exec: "close_on_exec_process_fds s = Some s' \<Longrightarrow> files_step s s'"
| exit: "fini_fproc p s = Some s' \<Longrightarrow> files_step s s'"

text \<open>\<open>init_vfs\<close> puts every filp of the table on the free list.\<close>

definition init_filps :: "nat \<Rightarrow> 'a files_scheme \<Rightarrow> 'a files_scheme" where
  "init_filps max_filp s = s\<lparr>filp_free_list := [0..<max_filp]\<rparr>"

inductive files_reachable :: "nat \<Rightarrow> 'a files_scheme \<Rightarrow> bool" where
  boot: "fprocs s = (\<lambda>_. None) \<Longrightarrow> files_reachable n (init_filps n s)"
| step: "files_reachable n s \<Longrightarrow> files_step s s' \<Longrightarrow> files_reachable n s'"

lemma fork_process_fds_old: "fork_process_fds newp oldp (Some page) s = Some (r, s') \<Longrightarrow> newp \<noteq> oldp \<Longrightarrow>
    \<exists>old. fprocs s oldp = Some old"
  by (cases "fprocs s oldp") (auto simp: fork_process_fds_def OPEN_MAX_def numeral_eq_Suc fork_fd_def)

lemma fd_filp_current [simp]: "fd_filp (s\<lparr>current := p\<rparr>) = fd_filp s"
  by (simp add: fd_filp_def fun_eq_iff)

lemma files_inv_current [simp]: "files_inv (s\<lparr>current := p\<rparr>) = files_inv s"
  by (simp add: files_inv_def)

lemma exec_fproc: "close_on_exec_process_fds s = Some s' \<Longrightarrow> \<exists>fp. fprocs s (current s) = Some fp"
  by (auto simp: close_on_exec_process_fds_def OPEN_MAX_def numeral_eq_Suc split: bind_splits)

lemma files_step_inv: "files_step s s' \<Longrightarrow> files_inv s \<Longrightarrow> files_inv s'"
proof (induction rule: files_step.induct)
  case (fork newp oldp s page r s')
  show ?case
  proof (cases page)
    case (Some fp)
    with fork obtain old where "fprocs s oldp = Some old" using fork_process_fds_old by blast
    from fork_process_fds_result [OF fork(5) this fork(1, 2)] show ?thesis using fork Some by force
  qed (use fork in \<open>simp add: fork_process_fds_def\<close>)
next
  case (exec s s')
  then obtain fp where "fprocs s (current s) = Some fp" using exec_fproc by blast
  then show ?case using exec_close_inv [of s "current s" 0 OPEN_MAX s' fp] exec by (simp add: close_on_exec_process_fds_def)
qed (auto simp: sys_dup_def sys_close_def
    dest: init_fproc_inv alloc_fd_filp_inv set_fd_inv free_fd_filp_inv dup_fd_inv sys_dup2_inv do_close_inv sys_fcntl_inv
      fini_fproc_inv)

lemma files_reachable_inv: "files_reachable n s \<Longrightarrow> files_inv s"
proof (induction rule: files_reachable.induct)
  case (boot s n)
  then have "fd_filp (init_filps n s) = (\<lambda>_ _. None)" by (simp add: fd_filp_def init_filps_def fun_eq_iff)
  then show ?case using boot by (simp add: files_inv_def refs_ok_def refs_def fds_ok_def init_filps_def)
qed (rule files_step_inv)

subsection \<open>Filps that are lost\<close>

definition live :: "'a files_scheme \<Rightarrow> nat \<Rightarrow> bool" where
  "live s f \<longleftrightarrow> f \<in> set (filp_free_list s) \<or> (\<exists>p fd. fd_filp s p fd = Some f)"

lemma live_alt: "live s f \<longleftrightarrow> f \<in> set (filp_free_list s) \<or> (\<exists>p fp fd. fprocs s p = Some fp \<and> fd_table fp fd = Some f)"
proof -
  have "fd_filp s p fd = Some f \<longleftrightarrow> (\<exists>fp. fprocs s p = Some fp \<and> fd_table fp fd = Some f)" for p fd
    by (cases "fprocs s p") (simp_all add: fd_filp_def)
  then show ?thesis by (auto simp: live_def)
qed

lemma live_set_fproc:
  "live (set_fproc p fp s) h \<longleftrightarrow> h \<in> set (filp_free_list s) \<or> (\<exists>q fq fd. q \<noteq> p \<and> fprocs s q = Some fq \<and> fd_table fq fd = Some h)
     \<or> (\<exists>fd. fd_table fp fd = Some h)"
  unfolding live_alt by (auto split: if_splits)

lemma live_upd_filp [simp]: "live (upd_filp f g s) = live s"
  by (simp add: live_alt fun_eq_iff)

lemma live_current: "live (s\<lparr>current := p\<rparr>) = live s"
  by (simp add: live_alt fun_eq_iff)

lemma live_drop: "live (set_fproc p (drop_fd k fp) s) h \<Longrightarrow> fprocs s p = Some fp \<Longrightarrow> live s h"
  unfolding live_set_fproc live_alt by (auto split: if_splits)

lemma live_link: "live (set_fproc p fp' s) h \<Longrightarrow> fd_table fp' = (fd_table fp)(k := Some f) \<Longrightarrow>
    fprocs s p = Some fp \<Longrightarrow> live s f \<Longrightarrow> live s h"
  unfolding live_set_fproc by (auto simp: live_alt split: if_splits)

lemma live_same: "live (set_fproc p fp' s) h \<Longrightarrow> fd_table fp' = fd_table fp \<Longrightarrow> fprocs s p = Some fp \<Longrightarrow> live s h"
  unfolding live_set_fproc by (auto simp: live_alt)

lemma get_filp_live: "get_filp p fd s = Some (Some f) \<Longrightarrow> live s f"
  using get_filp_Some unfolding live_def by blast

lemma do_close_live:
  assumes "files_inv s" and "do_close p fd s = Some (r, s')" and "live s' h"
  shows "live s h"
  using assms(2)
proof (cases rule: do_close_cases)
  case (2 f)
  show ?thesis by (rule do_close_entry [OF assms(1) 2 assms(2)]) (use assms(3) in \<open>auto dest: live_drop\<close>)
qed (use assms in simp)

lemma dup_fd_live:
  assumes "files_inv s" and "dup_fd p fd lo hi s = Some (r, s')" and "live s' h"
  shows "live s h"
  using assms(1, 2)
proof (cases rule: dup_fd_cases)
  case (2 f fp k)
  then show ?thesis using assms(3) get_filp_live [OF 2(2)]
    live_link [of p "(mark_fd k fp)\<lparr>fd_table := (fd_table fp)(k := Some f)\<rparr>" "upd_filp f _ s" h fp k f] by simp
qed (use assms in simp)

lemma free_fd_live: "free_fd p fd s = Some (r, s') \<Longrightarrow> live s' h \<Longrightarrow> live s h"
  by (auto simp: free_fd_def live_set_fproc live_alt split: if_splits bind_splits)

lemma free_fd_filp_live: "free_fd_filp p fd s = Some (r, s') \<Longrightarrow> live s' h \<Longrightarrow> live s h"
proof (cases "get_filp p fd s")
  case (Some fo)
  assume a: "free_fd_filp p fd s = Some (r, s')" "live s' h"
  show ?thesis
  proof (cases fo)
    case (Some f)
    have "live (free_filp (Some f) s) h"
      using a Some \<open>get_filp p fd s = Some fo\<close> by (auto simp: free_fd_filp_def split: bind_splits dest: free_fd_live)
    then show ?thesis using get_filp_live [of p fd s f] Some \<open>get_filp p fd s = Some fo\<close>
      by (auto simp: free_filp_def Let_def live_alt split: if_splits)
  qed (use a \<open>get_filp p fd s = Some fo\<close> in \<open>simp add: free_fd_filp_def\<close>)
qed (simp add: free_fd_filp_def)

lemma alloc_fd_filp_live:
  assumes "alloc_fd_filp p s = Some (r, s')" and "files_inv s" and "live s' h"
  shows "live s h"
  using assms(1, 2)
proof (cases rule: alloc_fd_filp_cases)
  case (2 k fp)
  then show ?thesis using assms(3) by (auto simp: live_set_fproc live_alt split: if_splits)
next
  case (3 k fp f L)
  then show ?thesis using assms(3) by (auto simp: live_set_fproc live_alt split: if_splits)
qed (use assms in simp)

lemma set_fd_live:
  assumes "set_fd p fd ty c i s = Some (r, s')" and "live s' h"
  shows "live s h"
proof (cases "get_filp p fd s = Some None")
  case False
  with assms obtain f where get: "get_filp p fd s = Some (Some f)" by (auto simp: set_fd_def split: bind_splits)
  obtain fp where fp: "fprocs s p = Some fp" using get_filp_Some [OF get] by blast
  show ?thesis using assms unfolding set_fd_entry [OF get fp] by (auto dest!: live_same [of _ _ _ _ fp] simp: fp)
qed (use assms in \<open>simp add: set_fd_def\<close>)

lemma close_loop_live:
  "files_inv s \<Longrightarrow> close_loop p fd n s = Some s' \<Longrightarrow> live s' h \<Longrightarrow> live s h"
  by (induction n arbitrary: fd s) (auto split: bind_splits dest: do_close_live do_close_inv)

lemma exec_close_live:
  "files_inv s \<Longrightarrow> exec_close_loop p fd n s = Some s' \<Longrightarrow> live s' h \<Longrightarrow> live s h"
  by (induction n arbitrary: fd s) (auto split: bind_splits if_splits dest: do_close_live do_close_inv)

lemma sys_dup2_live:
  assumes "sys_dup2 fd nfd s = Some (r, s')" and "files_inv s" and "live s' h"
  shows "live s h"
proof (cases "fd < 0 \<or> fd \<ge> int OPEN_MAX \<or> nfd < 0 \<or> nfd \<ge> int OPEN_MAX")
  case False
  with assms obtain s1 where "s1 = s \<or> (\<exists>r1. do_close (current s) nfd s = Some (r1, s1))"
    and dup: "dup_fd (current s1) fd (nat nfd) (nat nfd) s1 = Some (r, s')"
    by (auto simp: sys_dup2_def split: bind_splits if_splits)
  then show ?thesis using assms(2, 3) do_close_inv do_close_live dup_fd_live by blast
qed (use assms in \<open>auto simp: sys_dup2_def\<close>)

lemma sys_fcntl_live:
  assumes "sys_fcntl fd cmd arg s = Some (r, s')" and "files_inv s" and "live s' h"
  shows "live s h"
proof -
  have "s' = s \<or> (\<exists>r1. dup_fd (current s) fd (nat arg) OPEN_MAX s = Some (r1, s')) \<or>
      (\<exists>fp S. fprocs s (current s) = Some fp \<and> s' = set_fproc (current s) (fp\<lparr>fd_close_on_exec_set := S\<rparr>) s)"
    using assms(1) by (cases cmd) (auto simp: sys_fcntl_def Let_def split: bind_splits if_splits)
  then show ?thesis using assms(2, 3) dup_fd_live by (auto dest: live_same)
qed

lemma files_step_live: "files_step s s' \<Longrightarrow> files_inv s \<Longrightarrow> live s' h \<Longrightarrow> live s h"
proof (induction rule: files_step.induct)
  case (init s p page r s')
  then show ?case by (cases page) (auto simp: init_fproc_def live_set_fproc live_alt empty_fproc_def split: if_splits)
next
  case (fork newp oldp s page r s')
  show ?case
  proof (cases page)
    case (Some fp)
    with fork obtain old where old: "fprocs s oldp = Some old" using fork_process_fds_old by blast
    from fork_process_fds_result [OF fork(5) this fork(1, 2)] obtain new' where
      "fprocs s' = (fprocs s)(newp := Some new')" "fd_table new' = fd_table old" "filp_free_list s' = filp_free_list s"
      using fork Some by force
    then show ?thesis using fork(6) old by (auto simp: live_alt split: if_splits)
  qed (use fork in \<open>simp add: fork_process_fds_def\<close>)
next
  case (exit p s s')
  then obtain s1 where "close_loop p 0 OPEN_MAX s = Some s1" "s' = s1\<lparr>fprocs := (fprocs s1)(p := None)\<rparr>"
    by (auto simp: fini_fproc_def split: bind_splits)
  moreover from this have "live s1 h" using exit by (auto simp: live_alt split: if_splits)
  ultimately show ?case using exit close_loop_live by blast
qed (auto simp: sys_dup_def sys_close_def close_on_exec_process_fds_def live_current
    dest: alloc_fd_filp_live set_fd_live free_fd_filp_live dup_fd_live sys_dup2_live do_close_live sys_fcntl_live
      exec_close_live)

inductive files_steps :: "'a files_scheme \<Rightarrow> 'a files_scheme \<Rightarrow> bool" where
  none: "files_steps s s"
| more: "files_steps s s' \<Longrightarrow> files_step s' s'' \<Longrightarrow> files_steps s s''"

lemma files_steps_live: "files_steps s s' \<Longrightarrow> files_inv s \<Longrightarrow> files_inv s' \<and> (live s' h \<longrightarrow> live s h)"
  by (induction rule: files_steps.induct) (auto dest: files_step_inv files_step_live)

subsection \<open>A process that executes a program after a fork\<close>

lemma do_close_total:
  assumes inv: "files_inv s" and k: "k < OPEN_MAX" and fp: "fprocs s p = Some fp"
    and cnt: "\<And>f. fd_table fp k = Some f \<Longrightarrow> reference_cnt (filps s f) = 1 \<Longrightarrow> ftype (filps s f) \<in> set object_types"
  shows "\<exists>r s'. do_close p (int k) s = Some (r, s')"
proof (cases "fd_table fp k")
  case (Some f)
  show ?thesis
  proof (cases "reference_cnt (filps s f) = 1")
    case True
    then show ?thesis using k fp Some cnt [OF Some True]
      by (auto simp: do_close_def get_filp_def Let_def close_item_def free_fd_filp_def free_filp_def free_fd_entry)
  next
    case False
    then show ?thesis using k fp Some by (auto simp: do_close_def get_filp_def Let_def free_fd_entry)
  qed
qed (use k fp in \<open>auto simp: do_close_def get_filp_def\<close>)

lemma exec_close_total:
  "files_inv s \<Longrightarrow> fd + n \<le> OPEN_MAX \<Longrightarrow> fprocs s p = Some fp \<Longrightarrow> q \<noteq> p \<Longrightarrow>
   (\<And>i f. fd_table fp i = Some f \<Longrightarrow> \<exists>j. fd_filp s q j = Some f) \<Longrightarrow> \<exists>s'. exec_close_loop p fd n s = Some s'"
proof (induction n arbitrary: fd s fp)
  case (Suc n)
  show ?case
  proof (cases "fd_close_on_exec_set fp fd")
    case True
    have ok: "refs_ok (fd_filp s) (filps s) (filp_free_list s)" using Suc.prems(1) by (simp add: files_inv_def)
    have "reference_cnt (filps s f) \<noteq> 1" if f: "fd_table fp fd = Some f" for f
    proof
      assume 1: "reference_cnt (filps s f) = 1"
      have p: "fd_filp s p fd = Some f" using f Suc.prems(3) by (simp add: fd_filp_def)
      obtain j where "fd_filp s q j = Some f" using Suc.prems(5) f by blast
      moreover have "refs (fd_filp s) f = {(p, fd)}"
        using refs_single [of "fd_filp s" p fd f] p refs_okD(1) [OF ok p] 1 by simp
      ultimately show False using Suc.prems(4) by (metis Pair_inject refs_mem singletonD)
    qed
    then obtain r s1 where cl: "do_close p (int fd) s = Some (r, s1)"
      using do_close_total [OF Suc.prems(1) _ Suc.prems(3), of fd] Suc.prems(2) by auto
    have c: "closed_fd p fd s s1" using Suc.prems do_close_table [OF _ cl] by simp
    let ?fp = "if fd_table fp fd = None then fp else drop_fd fd fp"
    have "\<exists>s'. exec_close_loop p (Suc fd) n s1 = Some s'"
    proof (rule Suc.IH)
      show "files_inv s1" using Suc.prems cl do_close_inv by blast
      show "fprocs s1 p = Some ?fp" using c Suc.prems by (auto simp: closed_fd_def)
      show "\<exists>j. fd_filp s1 q j = Some f" if "fd_table ?fp i = Some f" for i f
        using Suc.prems(4, 5) c that by (auto simp: closed_fd_def relink_def split: if_splits)
    qed (use Suc.prems in simp_all)
    then show ?thesis using True Suc.prems cl by simp
  next
    case False
    then show ?thesis using Suc.IH [of s "Suc fd" fp] Suc.prems by simp
  qed
qed simp

section \<open>Correctness\<close>

text \<open>A kernel with four filps and one process, for concrete runs.\<close>

definition no_filp :: filp where
  "no_filp = \<lparr>ftype = FILP_TYPE_UNDEF, fitem = None, foffset = 0, fflags = 0, reference_cnt = 0\<rparr>"

definition no_fproc :: fproc where
  "no_fproc = \<lparr>fd_table = (\<lambda>_. None), fd_close_on_exec_set = (\<lambda>_. False), fd_in_use_set = (\<lambda>_. False),
     current_dir = None, root_dir = None\<rparr>"

definition zero_files :: files where
  "zero_files = timers.extend zero_timers (files.fields (\<lambda>_. None) (\<lambda>_. no_filp) [])"

definition booted_files :: "nat \<Rightarrow> files" where
  "booted_files n = snd (init_fproc 0 (Some no_fproc) (init_filps n zero_files))"

text \<open>The same after one kqueue has been opened as descriptor 0.\<close>

definition opened_files :: "nat \<Rightarrow> files option" where
  "opened_files n = do {
     (_, s) \<leftarrow> alloc_fd_filp 0 (booted_files n);
     (_, s) \<leftarrow> set_fd 0 0 FILP_TYPE_KQUEUE False (Some 9) s;
     Some s
   }"

lemma zero_files_sel [simp]: "fprocs zero_files = (\<lambda>_. None)" "current zero_files = 0"
  by (simp_all add: zero_files_def zero_timers_def zero_sched_def sched.defs timers.defs files.defs)

lemma booted_files_sel [simp]:
  "fprocs (booted_files n) = (\<lambda>_. None)(0 := Some no_fproc)" "filp_free_list (booted_files n) = [0..<n]"
  "current (booted_files n) = 0"
  by (simp_all add: booted_files_def init_fproc_def init_filps_def no_fproc_def empty_fproc_def)

lemma booted_files_reachable: "files_reachable n (booted_files n)"
proof -
  have "files_reachable n (init_filps n zero_files)" by (rule files_reachable.boot) simp
  moreover have "files_step (init_filps n zero_files) (booted_files n)"
    by (rule files_step.init [where p = 0 and page = "Some no_fproc" and r = "Inr ()"])
      (simp_all add: booted_files_def init_fproc_def fd_filp_def fun_eq_iff init_filps_def)
  ultimately show ?thesis by (rule files_reachable.step)
qed

lemma alloc_fd_booted: "alloc_fd 0 0 OPEN_MAX (booted_files n) =
    Some (Inr 0, set_fproc 0 (mark_fd 0 no_fproc) (booted_files n))"
proof -
  have "0 < OPEN_MAX" by (simp add: OPEN_MAX_def)
  then show ?thesis by (simp add: alloc_fd_def mark_fd_def no_fproc_def)
qed

lemma opened_files_ok:
  assumes "0 < n"
  shows "\<exists>s. opened_files n = Some s \<and> files_reachable n s \<and> current s = 0 \<and>
    fprocs s = (\<lambda>_. None)(0 := Some (no_fproc\<lparr>fd_table := (\<lambda>_. None)(0 := Some 0), fd_in_use_set := (\<lambda>_. False)(0 := True)\<rparr>)) \<and>
    filp_free_list s = [1..<n] \<and> reference_cnt (filps s 0) = 1 \<and> ftype (filps s 0) = FILP_TYPE_KQUEUE \<and>
    fitem (filps s 0) = Some 9"
proof -
  have L: "[0..<n] = 0 # [1..<n]" using assms by (simp add: upt_rec)
  obtain s1 where al: "alloc_fd_filp 0 (booted_files n) = Some (Inr 0, s1)"
    and s1: "fprocs s1 = (\<lambda>_. None)(0 := Some (no_fproc\<lparr>fd_table := (\<lambda>_. None)(0 := Some 0), fd_in_use_set := (\<lambda>_. False)(0 := True)\<rparr>))"
      "filp_free_list s1 = [1..<n]" "reference_cnt (filps s1 0) = 1" "current s1 = 0"
    by (auto simp: alloc_fd_filp_def alloc_fd_booted alloc_filp_def L mark_fd_def no_fproc_def fun_eq_iff)
  have get: "get_filp 0 0 s1 = Some (Some 0)" by (simp add: get_filp_def s1 OPEN_MAX_def)
  obtain s where st: "set_fd 0 0 FILP_TYPE_KQUEUE False (Some 9) s1 = Some (Inr (), s)"
    and s: "fprocs s = fprocs s1" "filp_free_list s = [1..<n]" "reference_cnt (filps s 0) = 1" "current s = 0"
      "ftype (filps s 0) = FILP_TYPE_KQUEUE" "fitem (filps s 0) = Some 9"
    using set_fd_entry [OF get, of _ FILP_TYPE_KQUEUE False "Some 9"] s1 by (auto simp: object_types_def fun_eq_iff no_fproc_def)
  have "files_reachable n s"
    using files_reachable.step [OF files_reachable.step [OF booted_files_reachable files_step.alloc [OF al]] files_step.set [OF st]] .
  then show ?thesis using al st s s1 by (simp add: opened_files_def)
qed



text \<open>C15: \<open>alloc_fd\<close> below the size of the table returns the lowest descriptor of the range that is not
  in use and marks it, and fails with \<open>EMFILE\<close> and no change only if all are in use.\<close>

theorem alloc_fd_lowest:
  assumes "fprocs s p = Some fp" and "hi < OPEN_MAX"
  shows "alloc_fd p lo hi s =
    (case find (\<lambda>i. \<not> fd_in_use_set fp i) [lo..<Suc hi] of
       None \<Rightarrow> Some (Inl EMFILE, s)
     | Some k \<Rightarrow> Some (Inr k, set_fproc p (fp\<lparr>fd_table := (fd_table fp)(k := None),
         fd_in_use_set := (fd_in_use_set fp)(k := True),
         fd_close_on_exec_set := (fd_close_on_exec_set fp)(k := False)\<rparr>) s))"
proof -
  have "lo + n \<le> OPEN_MAX \<Longrightarrow> alloc_fd_loop p lo n s =
    (case find (\<lambda>i. \<not> fd_in_use_set fp i) [lo..<lo + n] of
       None \<Rightarrow> Some (Inl EMFILE, s)
     | Some k \<Rightarrow> Some (Inr k, set_fproc p (mark_fd k fp) s))" for n
    using assms(1) by (induction n arbitrary: lo) (auto simp: mark_fd_def upt_rec)
  then show ?thesis using assms(2) by (cases "lo \<le> hi") (auto simp: alloc_fd_def mark_fd_def split: option.split)
qed

theorem alloc_fd_lowest_witness:
  "alloc_fd 0 3 5 (booted_files 4) = Some (Inr 3, set_fproc 0 (mark_fd 3 no_fproc) (booted_files 4))"
  using alloc_fd_lowest [of "booted_files 4" 0 no_fproc 5 3]
  by (simp add: OPEN_MAX_def upt_rec mark_fd_def no_fproc_def)

text \<open>C16: After a fork the child has the descriptors of its parent, and when it then executes a
  program exactly those marked close-on-exec are closed.  Neither call fails, no table of another
  process changes, and the reference counts stay exact.\<close>

theorem fork_then_exec:
  assumes "files_reachable n s" and "fprocs s oldp = Some old" and "newp \<noteq> oldp" and "fd_filp s newp = (\<lambda>_. None)"
    and "fproc_page page"
  shows "\<exists>s1 s2. fork_process_fds newp oldp (Some page) s = Some (Inr (), s1) \<and>
    fd_filp s1 newp = fd_table old \<and> close_on_exec_process_fds (s1\<lparr>current := newp\<rparr>) = Some s2 \<and>
    (\<forall>i. fd_filp s2 newp i = (if fd_close_on_exec_set old i then None else fd_table old i)) \<and>
    (\<forall>q. q \<noteq> newp \<longrightarrow> fprocs s2 q = fprocs s q) \<and> files_inv s2"
proof -
  have inv: "files_inv s" using assms(1) by (rule files_reachable_inv)
  from fork_process_fds_result [OF inv assms(2-5)] obtain s1 new where f:
    "fork_process_fds newp oldp (Some page) s = Some (Inr (), s1)" "files_inv s1"
    "fprocs s1 = (fprocs s)(newp := Some new)" "fd_table new = fd_table old"
    "\<And>i. i < OPEN_MAX \<Longrightarrow> fd_close_on_exec_set new i = (fd_table old i \<noteq> None \<and> fd_close_on_exec_set old i)" by auto
  let ?s = "s1\<lparr>current := newp\<rparr>"
  have q: "fd_filp ?s oldp = fd_table old" using assms(2, 3) f(3) by (auto simp: fd_filp_def)
  obtain s2 where ex: "exec_close_loop newp 0 OPEN_MAX ?s = Some s2"
    using exec_close_total [of ?s 0 OPEN_MAX newp new oldp] f assms(3) q by auto
  have fds: "\<forall>i. fd_table old i \<noteq> None \<longrightarrow> i < OPEN_MAX" using inv assms(2) by (auto simp: files_inv_def fds_ok_def)
  have r: "files_inv s2" "\<forall>q. q \<noteq> newp \<longrightarrow> fprocs s2 q = fprocs s1 q"
    "\<forall>i. fd_filp s2 newp i = (if i < OPEN_MAX \<and> fd_close_on_exec_set new i then None else fd_table new i)"
    using exec_close_inv [OF _ ex, of new] f(2, 3) by auto
  have "fd_filp s2 newp i = (if fd_close_on_exec_set old i then None else fd_table old i)" for i
  proof (cases "i < OPEN_MAX")
    case True
    then show ?thesis using r(3) f(4) f(5) [OF True] by auto
  next
    case False
    then have "fd_table old i = None" using fds by blast
    then show ?thesis using r(3) f(4) False by simp
  qed
  moreover have "fd_filp s1 newp = fd_table old" using f(3, 4) by (auto simp: fd_filp_def)
  ultimately show ?thesis using f(1, 3) r(1, 2) ex
    by (intro exI [of _ s1] exI [of _ s2]) (simp add: close_on_exec_process_fds_def)
qed

theorem fork_then_exec_witness:
  "\<exists>s s1. opened_files 4 = Some s \<and> fork_process_fds 1 0 (Some no_fproc) s = Some (Inr (), s1)
     \<and> fd_filp s1 1 0 = Some 0"
proof -
  obtain s where s: "opened_files 4 = Some s" "files_reachable 4 s"
    "fprocs s = (\<lambda>_. None)(0 := Some (no_fproc\<lparr>fd_table := (\<lambda>_. None)(0 := Some 0), fd_in_use_set := (\<lambda>_. False)(0 := True)\<rparr>))"
    using opened_files_ok [of 4] by auto
  from fork_then_exec [OF s(2), of 0 _ 1 no_fproc] s(1, 3) show ?thesis
    by (fastforce simp: fd_filp_def fun_eq_iff fproc_page_def no_fproc_def)
qed

text \<open>C17: \<open>dup2\<close> onto another descriptor makes it refer to the open file of the first one, whatever it
  referred to before, and changes no other descriptor of any process.\<close>

theorem sys_dup2_aliases:
  assumes "files_reachable n s" and "fprocs s (current s) = Some fp" and "fd_table fp fd = Some f"
    and "nfd < OPEN_MAX" and "nfd \<noteq> fd" and "fd_in_use_set fp nfd \<longrightarrow> fd_table fp nfd \<noteq> None"
    and "sys_dup2 (int fd) (int nfd) s = Some (r, s')"
  shows "r = Inr nfd \<and> fd_filp s' = (fd_filp s)(current s := (fd_table fp)(nfd := Some f)) \<and> files_inv s'"
proof -
  let ?c = "current s"
  have inv: "files_inv s" using assms(1) by (rule files_reachable_inv)
  have fd: "fd < OPEN_MAX" using inv assms(2, 3) by (auto simp: files_inv_def fds_ok_def)
  have step: "(if fd_table fp nfd \<noteq> None then do { (_, s) \<leftarrow> do_close ?c (int nfd) s; Some s } else Some s)
      \<bind> (\<lambda>s. dup_fd (current s) (int fd) nfd nfd s) = Some (r, s')"
    using assms(2, 4, 7) fd by (simp add: sys_dup2_def)
  obtain s1 fp1 where dup: "dup_fd (current s1) (int fd) nfd nfd s1 = Some (r, s')"
    and s1: "files_inv s1" "current s1 = ?c" "fprocs s1 ?c = Some fp1" "fd_filp s1 = relink ?c nfd None (fd_filp s)"
      "\<not> fd_in_use_set fp1 nfd" "fd_table fp1 fd = Some f"
  proof (cases "fd_table fp nfd")
    case None
    have "relink ?c nfd None (fd_filp s) = fd_filp s" using None assms(2) by (auto simp: relink_def fd_filp_def fun_eq_iff)
    then show thesis using that [of s fp] step None assms(2, 3, 6) inv by simp
  next
    case (Some g)
    then obtain r1 u where cl: "do_close ?c (int nfd) s = Some (r1, u)" and d: "dup_fd (current u) (int fd) nfd nfd u = Some (r, s')"
      using step by (auto split: bind_splits)
    have "files_inv u" using inv cl by (rule do_close_inv)
    then show thesis using that [of u "drop_fd nfd fp"] d do_close_table [OF inv cl assms(4)] Some assms(2, 3, 5)
      by (auto simp: closed_fd_def)
  qed
  have "get_filp (current s1) (int fd) s1 = Some (Some f)" using s1(2, 3, 6) fd by (simp add: get_filp_def)
  moreover have "alloc_fd (current s1) nfd nfd s1 = Some (Inr nfd, set_fproc ?c (mark_fd nfd fp1) s1)"
    using s1(2, 3, 5) assms(4) by (simp add: alloc_fd_def mark_fd_def)
  ultimately have "r = Inr nfd \<and> fd_filp s' = relink ?c nfd (Some f) (fd_filp s1)"
    using dup s1(2, 3) by (auto simp: dup_fd_def relink_def fd_filp_set_fproc Let_def fun_eq_iff) (simp_all add: fd_filp_def)
  then show ?thesis using s1(4) dup_fd_inv [OF s1(1) dup] assms(2) by (auto simp: relink_def fun_eq_iff fd_filp_def)
qed

theorem sys_dup2_aliases_witness:
  "\<exists>s s'. opened_files 4 = Some s \<and> sys_dup2 0 5 s = Some (Inr 5, s') \<and> fd_filp s' 0 5 = Some 0"
proof -
  obtain s where s: "opened_files 4 = Some s" "files_reachable 4 s" "current s = 0"
    "fprocs s = (\<lambda>_. None)(0 := Some (no_fproc\<lparr>fd_table := (\<lambda>_. None)(0 := Some 0), fd_in_use_set := (\<lambda>_. False)(0 := True)\<rparr>))"
    using opened_files_ok [of 4] by auto
  obtain r s' where d: "sys_dup2 (int 0) (int 5) s = Some (r, s')"
    using s(3, 4) by (auto simp: sys_dup2_def dup_fd_def get_filp_def alloc_fd_def OPEN_MAX_def no_fproc_def)
  show ?thesis using sys_dup2_aliases [OF s(2) _ _ _ _ _ d, of _ 0] d s(1, 3, 4) by (auto simp: OPEN_MAX_def no_fproc_def)
qed

section \<open>Where the descriptors go wrong\<close>

text \<open>C18: Closing the last descriptor of an open file loses its filp.  \<open>do_close\<close> lowers the count to zero
  and the close function lowers it again in \<open>free_filp\<close>, which tests for zero: the filp does not go
  back to the free list, and no operation by any process ever makes it usable again.\<close>

theorem close_leaks_filp:
  assumes "files_reachable n s" and "fprocs s (current s) = Some fp" and "fd_table fp fd = Some f"
    and "\<forall>q k. fd_filp s q k = Some f \<longrightarrow> q = current s \<and> k = fd"
    and "sys_close (int fd) s = Some (r, s')" and "files_steps s' s''"
  shows "r = Inr () \<and> reference_cnt (filps s' f) = - 1 \<and> f \<notin> set (filp_free_list s'') \<and> (\<forall>q k. fd_filp s'' q k \<noteq> Some f)"
proof -
  have inv: "files_inv s" using assms(1) by (rule files_reachable_inv)
  have tab: "fd_filp s (current s) fd = Some f" using assms(2, 3) by (simp add: fd_filp_def)
  have fd: "fd < OPEN_MAX" using inv assms(2, 3) by (auto simp: files_inv_def fds_ok_def)
  have get: "get_filp (current s) (int fd) s = Some (Some f)" using assms(2, 3) fd by (simp add: get_filp_def)
  have cl: "do_close (current s) (int fd) s = Some (r, s')" using assms(5) by (simp add: sys_close_def)
  have ok: "refs_ok (fd_filp s) (filps s) (filp_free_list s)" using inv by (simp add: files_inv_def)
  have "refs (fd_filp s) f \<subseteq> {(current s, fd)}" using assms(4) unfolding refs_def by blast
  moreover have "(current s, fd) \<in> refs (fd_filp s) f" using tab by simp
  ultimately have "refs (fd_filp s) f = {(current s, fd)}" by blast
  then have cnt: "reference_cnt (filps s f) = 1" using refs_okD(1) [OF ok tab] by simp
  have "r = Inr () \<and> reference_cnt (filps s' f) = - 1" by (rule do_close_entry [OF inv get cl]) (simp add: cnt)
  moreover have c: "closed_fd (current s) fd s s'" by (rule do_close_table [OF inv cl fd])
  have "fd_filp s' q k \<noteq> Some f" for q k
    using c assms(4) [rule_format, of q k] by (auto simp: closed_fd_def relink_def split: if_splits)
  then have "\<not> live s' f" using c refs_okD(4) [OF ok tab] by (simp add: live_def closed_fd_def)
  then have "\<not> live s'' f" using files_steps_live [OF assms(6) do_close_inv [OF inv cl]] by blast
  ultimately show ?thesis by (simp add: live_def)
qed

theorem close_leaks_filp_witness:
  "\<exists>s s'. opened_files 1 = Some s \<and> sys_close 0 s = Some (Inr (), s') \<and> 0 \<notin> set (filp_free_list s')"
proof -
  obtain s where s: "opened_files 1 = Some s" "files_reachable 1 s" "current s = 0" "reference_cnt (filps s 0) = 1"
    "ftype (filps s 0) = FILP_TYPE_KQUEUE" "fitem (filps s 0) = Some 9"
    "fprocs s = (\<lambda>_. None)(0 := Some (no_fproc\<lparr>fd_table := (\<lambda>_. None)(0 := Some 0), fd_in_use_set := (\<lambda>_. False)(0 := True)\<rparr>))"
    using opened_files_ok [of 1] by auto
  obtain r s' where d: "sys_close (int 0) s = Some (r, s')"
    using do_close_total [OF files_reachable_inv [OF s(2)], of 0 0] s(3, 5, 7)
    by (auto simp: sys_close_def OPEN_MAX_def no_fproc_def object_types_def)
  have only: "\<forall>q k. fd_filp s q k = Some 0 \<longrightarrow> q = current s \<and> k = 0"
    using s(3, 7) by (auto simp: fd_filp_def no_fproc_def split: if_splits)
  from close_leaks_filp [OF s(2) _ _ only d files_steps.none] s(3, 7)
  have "r = Inr () \<and> 0 \<notin> set (filp_free_list s')" by (simp add: no_fproc_def)
  then show ?thesis using s(1) d by simp
qed

text \<open>When all descriptors of a process are in use, \<open>dup\<close>, which passes \<open>OPEN_MAX\<close> as the last
  descriptor to try, does not fail with \<open>EMFILE\<close>: the loop tests \<open>fd <= max_fd\<close> and goes on to
  an entry outside the table.\<close>

theorem sys_dup_overruns:
  assumes "fprocs s (current s) = Some fp" and "\<forall>i<OPEN_MAX. fd_in_use_set fp i" and "fd < OPEN_MAX"
    and "fd_table fp fd = Some f"
  shows "sys_dup (int fd) s = None"
proof -
  have "i + n = Suc OPEN_MAX \<Longrightarrow> alloc_fd_loop (current s) i n s = None" if "0 < n" for i n
    using that
  proof (induction n arbitrary: i)
    case (Suc n)
    then show ?case using assms(1, 2) by (cases "i < OPEN_MAX") auto
  qed simp
  from this [of "Suc OPEN_MAX" 0] have "alloc_fd (current s) 0 OPEN_MAX s = None" by (simp add: alloc_fd_def)
  then show ?thesis using assms(1, 3, 4) by (simp add: sys_dup_def dup_fd_def get_filp_def)
qed

theorem sys_dup_overruns_witness:
  "sys_dup 0 (set_fproc 0 (no_fproc\<lparr>fd_table := (\<lambda>_. Some 0), fd_in_use_set := (\<lambda>_. True)\<rparr>) (booted_files 4)) = None"
  using sys_dup_overruns [of "set_fproc 0 (no_fproc\<lparr>fd_table := (\<lambda>_. Some 0), fd_in_use_set := (\<lambda>_. True)\<rparr>) (booted_files 4)" _ 0 0]
  by (simp add: OPEN_MAX_def)

text \<open>
  An open that fails because no filp is left keeps its descriptor: \<open>free_fd\<close> refuses an entry without a
  filp, and so does a later \<open>close\<close>.
\<close>

lemma alloc_fd_filp_keeps_fd:
  assumes "files_inv s" and "alloc_fd_filp p s = Some (Inl e, s')" and "alloc_fd p 0 OPEN_MAX s = Some (Inr k, s1)"
  shows "\<exists>fp. fprocs s' p = Some fp \<and> fd_in_use_set fp k \<and> fd_table fp k = None \<and>
    do_close p (int k) s' = Some (Inl EINVAL, s')"
  using assms(2, 1)
proof (cases rule: alloc_fd_filp_cases)
  case (2 j fp)
  then have "j = k" "k < OPEN_MAX" using assms(3) by simp_all
  then show ?thesis using 2 by (auto simp: do_close_def get_filp_def)
qed (use assms(3) in auto)

text \<open>\<open>dup2\<close> of a descriptor onto itself closes it and fails.\<close>

lemma sys_dup2_self:
  assumes inv: "files_inv s" and fp: "fprocs s (current s) = Some fp" "fd_table fp fd = Some f"
    and step: "sys_dup2 (int fd) (int fd) s = Some (r, s')"
  shows "r = Inl EINVAL \<and> fd_filp s' (current s) fd = None"
proof -
  have fd: "fd < OPEN_MAX" using inv fp by (auto simp: files_inv_def fds_ok_def)
  obtain r1 u where cl: "do_close (current s) (int fd) s = Some (r1, u)"
    and d: "dup_fd (current u) (int fd) fd fd u = Some (r, s')"
    using step fp fd by (auto simp: sys_dup2_def split: bind_splits)
  have c: "closed_fd (current s) fd s u" by (rule do_close_table [OF inv cl fd])
  then obtain fp' where "fprocs u (current u) = Some fp'" "fd_table fp' fd = None"
    using fp by (auto simp: closed_fd_def)
  then have "dup_fd (current u) (int fd) fd fd u = Some (Inl EINVAL, u)" using fd by (simp add: dup_fd_def get_filp_def)
  then show ?thesis using d c by (simp add: closed_fd_def relink_def)
qed

end
