(* ===== verification/Kqueue.thy ===== *)
theory Kqueue
  imports File_Descriptors
begin

unbundle bit_operations_syntax

text \<open>
  Kernel event queues, \<^verbatim>\<open>kernel/fs/kqueue.c\<close>.  A kqueue has a list of notes, each of which watches an object
  (a vnode, an interrupt handler or the message port of a mount), and a list of the notes with a
  pending event.  Kqueues and notes are named by their index; the lists that link them are HOL
  lists.  The result \<open>None\<close> is a NULL dereference, an access outside a table, or the removal of an entry
  from a list that it is not on.
\<close>

section \<open>State\<close>

text \<open>The objects that a note can watch; each has a list of the notes attached to it.\<close>

datatype kobject = Obj_vnode nat | Obj_isrhandler nat | Obj_superblock nat

text \<open>Message ports: that of a mount, and the one a process receives its replies on.\<close>

datatype port = Mount_port nat | Reply_port nat

text \<open>Messages: the one on the stack of a process in \<open>ksendmsg\<close>, and the one embedded in a buffer.\<close>

datatype msg_id = Proc_msg nat | Buf_msg nat

record kqueue =
  busy :: bool
  kq_reference_cnt :: int
  knote_list :: "nat list"
  pending_list :: "nat list"

record knote =
  kq_of :: nat
  enabled :: bool
  is_pending :: bool
  on_pending_list :: bool
  hint :: u32
  ident :: u32
  filter_nr :: int
  note_flags :: "16 word"
  note_fflags :: u32
  udata :: u32
  object :: "kobject option"

record kevent =
  ev_ident :: u32
  ev_filter :: int
  ev_flags :: "16 word"
  ev_fflags :: u32
  ev_udata :: u32

record events = files +
  kqueues :: "nat \<Rightarrow> kqueue"
  kqueue_free_list :: "nat list"
  knotes :: "nat \<Rightarrow> knote"
  knote_free_list :: "nat list"
  knote_hash :: "nat \<Rightarrow> nat list"
  object_knotes :: "kobject \<Rightarrow> nat list"
  pending_msgs :: "port \<Rightarrow> msg_id list"

definition KNOTE_HASH_SZ :: int where
  "KNOTE_HASH_SZ = 64"

definition EVFILT_SYSCOUNT :: int where
  "EVFILT_SYSCOUNT = 11"

definition EV_ADD :: "16 word" where
  "EV_ADD = 1"

definition EV_DELETE :: "16 word" where
  "EV_DELETE = 2"

definition EV_ENABLE :: "16 word" where
  "EV_ENABLE = 4"

definition EV_DISABLE :: "16 word" where
  "EV_DISABLE = 8"

definition EV_ONESHOT :: "16 word" where
  "EV_ONESHOT = 0x10"

definition NOTE_MSG :: u32 where
  "NOTE_MSG = 0x10000000"

definition upd_kqueue :: "nat \<Rightarrow> (kqueue \<Rightarrow> kqueue) \<Rightarrow> 'a events_scheme \<Rightarrow> 'a events_scheme" where
  "upd_kqueue q f s = s\<lparr>kqueues := (kqueues s)(q := f (kqueues s q))\<rparr>"

definition upd_knote :: "nat \<Rightarrow> (knote \<Rightarrow> knote) \<Rightarrow> 'a events_scheme \<Rightarrow> 'a events_scheme" where
  "upd_knote n f s = s\<lparr>knotes := (knotes s)(n := f (knotes s n))\<rparr>"

text \<open>\<open>LIST_REM_ENTRY\<close> on the list of entries; it is undefined for an entry that is not on the list.\<close>

definition rem_entry :: "'b \<Rightarrow> 'b list \<Rightarrow> 'b list option" where
  "rem_entry x xs = (if x \<in> set xs then Some (remove1 x xs) else None)"

section \<open>Finding a note\<close>

text \<open>The index is negative, and outside the table, when bit 23 of the identifier is set.\<close>

definition knote_calc_hash :: "u32 \<Rightarrow> int \<Rightarrow> int" where
  "knote_calc_hash idn f = crem (sint (push_bit 8 idn OR (word_of_int f :: u32))) KNOTE_HASH_SZ"

definition hash_index :: "u32 \<Rightarrow> int \<Rightarrow> nat option" where
  "hash_index idn f = (let h = knote_calc_hash idn f in if h < 0 then None else Some (nat h))"

definition get_knote :: "nat \<Rightarrow> kevent \<Rightarrow> 'a events_scheme \<Rightarrow> nat option option" where
  "get_knote q ev s = do {
     h \<leftarrow> hash_index (ev_ident ev) (ev_filter ev);
     Some (find (\<lambda>n. kq_of (knotes s n) = q \<and> ident (knotes s n) = ev_ident ev \<and> filter_nr (knotes s n) = ev_filter ev)
       (knote_hash s h))
   }"

section \<open>The object of a note\<close>

definition get_isrhandler :: "nat \<Rightarrow> int \<Rightarrow> 'a files_scheme \<Rightarrow> nat option option" where
  "get_isrhandler p fd s = get_fd_item FILP_TYPE_ISRHANDLER p fd s"

text \<open>
  The object that the filter of a note selects behind its descriptor.  The filters 0, 1 and 3 are
  \<open>EVFILT_READ\<close>, \<open>EVFILT_WRITE\<close> and \<open>EVFILT_VNODE\<close>, 9 is \<open>EVFILT_IRQ\<close>, 10 is \<open>EVFILT_MSGPORT\<close>; the others have none.
\<close>

definition watched_object :: "int \<Rightarrow> u32 \<Rightarrow> 'a events_scheme \<Rightarrow> kobject option option" where
  "watched_object f idn s =
     (if f = 0 \<or> f = 1 \<or> f = 3 then do { v \<leftarrow> get_fd_vnode (current s) (sint idn) s; Some (map_option Obj_vnode v) }
      else if f = 9 then do { h \<leftarrow> get_isrhandler (current s) (sint idn) s; Some (map_option Obj_isrhandler h) }
      else if f = 10 then do { b \<leftarrow> get_superblock (current s) (sint idn) s; Some (map_option Obj_superblock b) }
      else Some None)"

definition free_knote :: "nat \<Rightarrow> nat \<Rightarrow> 'a events_scheme \<Rightarrow> 'a events_scheme option" where
  "free_knote q n s = do {
     let k = knotes s n;
     ob \<leftarrow> watched_object (filter_nr k) (ident k) s;
     s \<leftarrow> (case ob of
             None \<Rightarrow> Some s
           | Some ob \<Rightarrow> do {
               let s = upd_knote n (\<lambda>k. k\<lparr>object := None\<rparr>) s;
               xs \<leftarrow> rem_entry n (object_knotes s ob);
               Some (s\<lparr>object_knotes := (object_knotes s)(ob := xs)\<rparr>)
             });
     s \<leftarrow> (if on_pending_list k then do {
             xs \<leftarrow> rem_entry n (pending_list (kqueues s q));
             Some (upd_knote n (\<lambda>k. k\<lparr>on_pending_list := False\<rparr>) (upd_kqueue q (\<lambda>x. x\<lparr>pending_list := xs\<rparr>) s))
           } else Some s);
     let s = upd_knote n (\<lambda>k. k\<lparr>is_pending := False\<rparr>) s;
     xs \<leftarrow> rem_entry n (knote_list (kqueues s q));
     let s = upd_kqueue q (\<lambda>x. x\<lparr>knote_list := xs\<rparr>) s;
     h \<leftarrow> hash_index (ident k) (filter_nr k);
     xs \<leftarrow> rem_entry n (knote_hash s h);
     let s = s\<lparr>knote_hash := (knote_hash s)(h := xs)\<rparr>;
     Some (s\<lparr>knote_free_list := n # knote_free_list s\<rparr>)
   }"

definition alloc_knote :: "nat \<Rightarrow> kevent \<Rightarrow> 'a events_scheme \<Rightarrow> (nat option \<times> 'a events_scheme) option" where
  "alloc_knote q ev s =
     (case knote_free_list s of
        [] \<Rightarrow> Some (None, s)
      | n # ns \<Rightarrow> do {
          let s = s\<lparr>knote_free_list := ns\<rparr>;
          let s = upd_knote n (\<lambda>k. k\<lparr>kq_of := q, ident := ev_ident ev, filter_nr := ev_filter ev, note_flags := ev_flags ev,
              note_fflags := ev_fflags ev, udata := ev_udata ev, enabled := False, is_pending := False,
              on_pending_list := False, object := None\<rparr>) s;
          let s = upd_kqueue q (\<lambda>x. x\<lparr>knote_list := knote_list x @ [n]\<rparr>) s;
          h \<leftarrow> hash_index (ev_ident ev) (ev_filter ev);
          let s = s\<lparr>knote_hash := (knote_hash s)(h := knote_hash s h @ [n])\<rparr>;
          ob \<leftarrow> watched_object (ev_filter ev) (ev_ident ev) s;
          case ob of
            Some ob \<Rightarrow>
              Some (Some n, (upd_knote n (\<lambda>k. k\<lparr>object := Some ob\<rparr>) s)
                \<lparr>object_knotes := (object_knotes s)(ob := object_knotes s ob @ [n])\<rparr>)
          | None \<Rightarrow> do { s \<leftarrow> free_knote q n s; Some (None, s) }
        })"

section \<open>Enabling and disabling\<close>

definition kpeekmsg :: "port \<Rightarrow> 'a events_scheme \<Rightarrow> msg_id option" where
  "kpeekmsg p s = (case pending_msgs s p of [] \<Rightarrow> None | m # _ \<Rightarrow> Some m)"

definition put_pending :: "nat \<Rightarrow> nat \<Rightarrow> 'a events_scheme \<Rightarrow> 'a events_scheme" where
  "put_pending q n s = upd_knote n (\<lambda>k. k\<lparr>on_pending_list := True\<rparr>)
     (upd_kqueue q (\<lambda>x. x\<lparr>pending_list := pending_list x @ [n]\<rparr>) s)"

definition enable_knote :: "nat \<Rightarrow> nat \<Rightarrow> 'a events_scheme \<Rightarrow> 'a events_scheme option" where
  "enable_knote q n s =
     (let k = knotes s n
      in if enabled k then Some s
         else do {
           let s = upd_knote n (\<lambda>k. k\<lparr>enabled := True\<rparr>) s;
           if is_pending k then Some (put_pending q n s)
           else do {
             ob \<leftarrow> watched_object (filter_nr k) (ident k) s;
             case ob of
               Some (Obj_superblock b) \<Rightarrow>
                 (if kpeekmsg (Mount_port b) s \<noteq> None
                  then Some (put_pending q n (upd_knote n (\<lambda>k. k\<lparr>is_pending := True\<rparr>) s)) else Some s)
             | _ \<Rightarrow> Some s
           }
         })"

definition disable_knote :: "nat \<Rightarrow> nat \<Rightarrow> 'a events_scheme \<Rightarrow> 'a events_scheme option" where
  "disable_knote q n s =
     (let k = knotes s n
      in if \<not> enabled k then Some s
         else do {
           let s = upd_knote n (\<lambda>k. k\<lparr>enabled := False\<rparr>) s;
           if on_pending_list k then do {
             xs \<leftarrow> rem_entry n (pending_list (kqueues s q));
             Some (upd_knote n (\<lambda>k. k\<lparr>on_pending_list := False\<rparr>) (upd_kqueue q (\<lambda>x. x\<lparr>pending_list := xs\<rparr>) s))
           } else Some s
         })"

section \<open>Raising events\<close>

definition knote_one :: "nat \<Rightarrow> u32 \<Rightarrow> 'a events_scheme \<Rightarrow> 'a events_scheme" where
  "knote_one n h s =
     (let s = upd_knote n (\<lambda>k. k\<lparr>is_pending := True, hint := h\<rparr>) s; k = knotes s n
      in if enabled k \<and> \<not> on_pending_list k
         then TaskWakeup (Rz_kqueue_event (kq_of k)) (put_pending (kq_of k) n s) else s)"

fun knote_loop :: "nat list \<Rightarrow> u32 \<Rightarrow> 'a events_scheme \<Rightarrow> 'a events_scheme" where
  "knote_loop [] h s = s"
| "knote_loop (n # ns) h s = knote_loop ns h (knote_one n h s)"

definition knote_object :: "kobject \<Rightarrow> u32 \<Rightarrow> 'a events_scheme \<Rightarrow> 'a events_scheme" where
  "knote_object ob h s = knote_loop (object_knotes s ob) h s"

section \<open>Kqueues and their descriptors\<close>

definition alloc_kqueue :: "'a events_scheme \<Rightarrow> nat option \<times> 'a events_scheme" where
  "alloc_kqueue s =
     (case kqueue_free_list s of
        [] \<Rightarrow> (None, s)
      | q # qs \<Rightarrow>
          (let s = s\<lparr>kqueue_free_list := qs\<rparr>;
               s = upd_kqueue q (\<lambda>x. x\<lparr>busy := False, kq_reference_cnt := 0\<rparr>) s;
               s = InitRendez (Rz_kqueue_event q) (InitRendez (Rz_kqueue_busy q) s);
               s = upd_kqueue q (\<lambda>x. x\<lparr>knote_list := [], pending_list := []\<rparr>) s
           in (Some q, s)))"

definition free_kqueue :: "nat \<Rightarrow> 'a events_scheme \<Rightarrow> 'a events_scheme" where
  "free_kqueue q s =
     (let s = upd_kqueue q (\<lambda>x. x\<lparr>kq_reference_cnt := kq_reference_cnt x - 1\<rparr>) s
      in if kq_reference_cnt (kqueues s q) = 0 then s\<lparr>kqueue_free_list := q # kqueue_free_list s\<rparr> else s)"

definition alloc_fd_kqueue :: "nat \<Rightarrow> 'a events_scheme \<Rightarrow> (nat result \<times> 'a events_scheme) option" where
  "alloc_fd_kqueue p s = do {
     (r, s) \<leftarrow> alloc_fd_filp p s;
     case r of
       Inl e \<Rightarrow> Some (Inl EMFILE, s)
     | Inr fd \<Rightarrow>
         (case alloc_kqueue s of
            (None, s) \<Rightarrow> do { (_, s) \<leftarrow> free_fd_filp p (int fd) s; Some (Inl EMFILE, s) }
          | (Some q, s) \<Rightarrow> do {
              let s = upd_kqueue q (\<lambda>x. x\<lparr>kq_reference_cnt := 1\<rparr>) s;
              (_, s) \<leftarrow> set_fd p (int fd) FILP_TYPE_KQUEUE False (Some q) s;
              Some (Inr fd, s)
            })
   }"

definition free_fd_kqueue :: "nat \<Rightarrow> int \<Rightarrow> 'a events_scheme \<Rightarrow> (unit result \<times> 'a events_scheme) option" where
  "free_fd_kqueue p fd s = do {
     qo \<leftarrow> get_kqueue p fd s;
     case qo of
       None \<Rightarrow> Some (Inl EINVAL, s)
     | Some q \<Rightarrow> do {
         (_, s) \<leftarrow> free_fd_filp p fd s;
         Some (Inr (), free_kqueue q s)
       }
   }"

definition close_kqueue :: "nat \<Rightarrow> int \<Rightarrow> 'a events_scheme \<Rightarrow> (unit result \<times> 'a events_scheme) option" where
  "close_kqueue p fd s = do { (_, s) \<leftarrow> free_fd_kqueue p fd s; Some (Inr (), s) }"

definition sys_kqueue :: "'a events_scheme \<Rightarrow> (nat result \<times> 'a events_scheme) option" where
  "sys_kqueue s = alloc_fd_kqueue (current s) s"

section \<open>The kevent system call\<close>

text \<open>One entry of the change list: \<open>Inl e\<close> is the jump to the error exit.\<close>

definition kevent_change :: "nat \<Rightarrow> kevent \<Rightarrow> 'a events_scheme \<Rightarrow> (unit result \<times> 'a events_scheme) option" where
  "kevent_change q ev s =
     (if ev_filter ev < 0 \<or> ev_filter ev \<ge> EVFILT_SYSCOUNT
         \<or> (ev_flags ev AND (EV_ADD OR EV_DELETE)) = (EV_ADD OR EV_DELETE)
         \<or> (ev_flags ev AND (EV_ENABLE OR EV_DISABLE)) = (EV_ENABLE OR EV_DISABLE)
      then Some (Inl EINVAL, s)
      else do {
        no \<leftarrow> get_knote q ev s;
        (r, ev, s) \<leftarrow>
          (if (ev_flags ev AND EV_ADD) \<noteq> 0 then
             (if no = None then do {
                let ev = (if (ev_flags ev AND EV_DISABLE) = 0 then ev\<lparr>ev_flags := ev_flags ev OR EV_ENABLE\<rparr> else ev);
                (no, s) \<leftarrow> alloc_knote q ev s;
                Some (if no = None then Inl ENOMEM else Inr no, ev, s)
              }
              else Some (Inl EEXIST, ev, s))
           else Some (Inr no, ev, s));
        case r of
          Inl e \<Rightarrow> Some (Inl e, s)
        | Inr no \<Rightarrow>
            (if (ev_flags ev AND EV_DELETE) \<noteq> 0 then
               (case no of
                  None \<Rightarrow> Some (Inl ENOENT, s)
                | Some n \<Rightarrow> do {
                    s \<leftarrow> disable_knote q n s;
                    s \<leftarrow> free_knote q n s;
                    Some (Inr (), s)
                  })
             else
               (case no of
                  None \<Rightarrow> Some (Inr (), s)
                | Some n \<Rightarrow> do {
                    s \<leftarrow> (if (ev_flags ev AND EV_ENABLE) \<noteq> 0 then enable_knote q n s else Some s);
                    s \<leftarrow> (if (ev_flags ev AND EV_DISABLE) \<noteq> 0 then disable_knote q n s else Some s);
                    Some (Inr (), s)
                  }))
      })"

fun kevent_changes :: "nat \<Rightarrow> kevent list \<Rightarrow> 'a events_scheme \<Rightarrow> (unit result \<times> 'a events_scheme) option" where
  "kevent_changes q [] s = Some (Inr (), s)"
| "kevent_changes q (ev # evs) s = do {
     (r, s) \<leftarrow> kevent_change q ev s;
     case r of Inl e \<Rightarrow> Some (Inl e, s) | Inr _ \<Rightarrow> kevent_changes q evs s
   }"

definition event_of :: "knote \<Rightarrow> kevent" where
  "event_of k = \<lparr>ev_ident = ident k, ev_filter = filter_nr k, ev_flags = note_flags k, ev_fflags = note_fflags k,
     ev_udata = udata k\<rparr>"

text \<open>The loop that copies at most \<open>nevents\<close> pending events out.\<close>

fun kevent_collect :: "nat \<Rightarrow> nat \<Rightarrow> 'a events_scheme \<Rightarrow> (kevent list \<times> 'a events_scheme) option" where
  "kevent_collect q 0 s = Some ([], s)"
| "kevent_collect q (Suc nevents) s =
     (case pending_list (kqueues s q) of
        [] \<Rightarrow> Some ([], s)
      | n # ns \<Rightarrow> do {
          let ev = event_of (knotes s n);
          let s = upd_kqueue q (\<lambda>x. x\<lparr>pending_list := ns\<rparr>) s;
          let s = upd_knote n (\<lambda>k. k\<lparr>is_pending := False, on_pending_list := False\<rparr>) s;
          s \<leftarrow> (if (note_flags (knotes s n) AND EV_ONESHOT) \<noteq> 0 then free_knote q n s else Some s);
          (evs, s) \<leftarrow> kevent_collect q nevents s;
          Some (ev # evs, s)
        })"

text \<open>
  A call returns, sleeps until the kqueue is free (it then starts again), or sleeps until an event
  is pending (it then continues with \<open>kevent_resume\<close>).
\<close>

datatype 'b kevent_call = KDone 'b | KBusy | KWait

definition kevent_finish ::
  "nat \<Rightarrow> kevent list result \<Rightarrow> 'a events_scheme \<Rightarrow> (kevent list result kevent_call \<times> 'a events_scheme) option" where
  "kevent_finish q r s =
     Some (KDone r, TaskWakeup (Rz_kqueue_busy q) (upd_kqueue q (\<lambda>x. x\<lparr>busy := False\<rparr>) s))"

definition kevent_wait ::
  "nat \<Rightarrow> nat \<Rightarrow> timespec option \<Rightarrow> 'a events_scheme \<Rightarrow> (kevent list result kevent_call \<times> 'a events_scheme) option" where
  "kevent_wait q nevents timeout s =
     (if pending_list (kqueues s q) = [] then do {
        s \<leftarrow> (case timeout of Some ts \<Rightarrow> TaskTimedSleep (Rz_kqueue_event q) ts s | None \<Rightarrow> TaskSleep (Rz_kqueue_event q) s);
        Some (KWait, s)
      }
      else do {
        (evs, s) \<leftarrow> kevent_collect q nevents s;
        kevent_finish q (Inr evs) s
      })"

definition kevent_resume ::
  "nat \<Rightarrow> nat \<Rightarrow> timespec option \<Rightarrow> 'a events_scheme \<Rightarrow> (kevent list result kevent_call \<times> 'a events_scheme) option" where
  "kevent_resume q nevents timeout s =
     (case timeout of
        None \<Rightarrow> kevent_wait q nevents timeout s
      | Some ts \<Rightarrow> do {
          (r, s) \<leftarrow> TaskTimedSleep_resume s;
          case r of
            Inl _ \<Rightarrow> kevent_finish q (Inl ETIMEDOUT) s
          | Inr _ \<Rightarrow> kevent_wait q nevents timeout s
        })"

text \<open>
  The whole call.  An empty change list stands for \<open>nchanges <= 0\<close> or a NULL list, \<open>nevents = 0\<close> for a size
  that is not positive or a NULL list.
\<close>

definition sys_kevent ::
  "int \<Rightarrow> kevent list \<Rightarrow> nat \<Rightarrow> timespec option \<Rightarrow> 'a events_scheme \<Rightarrow> (kevent list result kevent_call \<times> 'a events_scheme) option" where
  "sys_kevent fd changelist nevents timeout s = do {
     qo \<leftarrow> get_kqueue (current s) fd s;
     q \<leftarrow> qo;
     if busy (kqueues s q) then do { s \<leftarrow> TaskSleep (Rz_kqueue_busy q) s; Some (KBusy, s) }
     else do {
       let s = upd_kqueue q (\<lambda>x. x\<lparr>busy := True\<rparr>) s;
       (r, s) \<leftarrow> kevent_changes q changelist s;
       case r of
         Inl e \<Rightarrow> Some (KDone (Inl e), s)
       | Inr _ \<Rightarrow>
           (if nevents > 0 then kevent_wait q nevents timeout s else kevent_finish q (Inr []) s)
     }
   }"

section \<open>Consistency of the notes\<close>

definition attached :: "(nat \<Rightarrow> kqueue) \<Rightarrow> (nat \<Rightarrow> knote) \<Rightarrow> nat \<Rightarrow> bool" where
  "attached K N n \<longleftrightarrow> n \<in> set (knote_list (K (kq_of (N n))))"

text \<open>
  A note is on the list of pending notes of its kqueue, once, exactly if it is enabled and has an
  event pending.
\<close>

definition pending_ok :: "(nat \<Rightarrow> kqueue) \<Rightarrow> (nat \<Rightarrow> knote) \<Rightarrow> bool" where
  "pending_ok K N \<longleftrightarrow> (\<forall>n. on_pending_list (N n) \<longleftrightarrow> enabled (N n) \<and> is_pending (N n)) \<and>
     (\<forall>q. distinct (pending_list (K q))) \<and>
     (\<forall>q n. n \<in> set (pending_list (K q)) \<longleftrightarrow> on_pending_list (N n) \<and> kq_of (N n) = q) \<and>
     (\<forall>n. is_pending (N n) \<longrightarrow> attached K N n)"

definition owned_ok :: "(nat \<Rightarrow> kqueue) \<Rightarrow> (nat \<Rightarrow> knote) \<Rightarrow> nat list \<Rightarrow> bool" where
  "owned_ok K N F \<longleftrightarrow> distinct F \<and>
     (\<forall>q. distinct (knote_list (K q)) \<and> (\<forall>n\<in>set (knote_list (K q)). kq_of (N n) = q \<and> n \<notin> set F))"

text \<open>An attached note is in its hash bucket, and the only one of its kqueue with its key.\<close>

definition hashed_ok :: "(nat \<Rightarrow> kqueue) \<Rightarrow> (nat \<Rightarrow> knote) \<Rightarrow> (nat \<Rightarrow> nat list) \<Rightarrow> bool" where
  "hashed_ok K N H \<longleftrightarrow> (\<forall>h. distinct (H h)) \<and>
     (\<forall>h n. n \<in> set (H h) \<longleftrightarrow> attached K N n \<and> hash_index (ident (N n)) (filter_nr (N n)) = Some h) \<and>
     (\<forall>n. attached K N n \<longrightarrow> hash_index (ident (N n)) (filter_nr (N n)) \<noteq> None) \<and>
     (\<forall>m n. attached K N m \<and> attached K N n \<and> kq_of (N m) = kq_of (N n) \<and> ident (N m) = ident (N n) \<and>
        filter_nr (N m) = filter_nr (N n) \<longrightarrow> m = n)"

definition objects_ok :: "(nat \<Rightarrow> kqueue) \<Rightarrow> (nat \<Rightarrow> knote) \<Rightarrow> (kobject \<Rightarrow> nat list) \<Rightarrow> bool" where
  "objects_ok K N B \<longleftrightarrow> (\<forall>ob. distinct (B ob)) \<and>
     (\<forall>ob n. n \<in> set (B ob) \<longleftrightarrow> attached K N n \<and> object (N n) = Some ob)"

definition kq_inv :: "'a events_scheme \<Rightarrow> bool" where
  "kq_inv s \<longleftrightarrow> pending_ok (kqueues s) (knotes s) \<and> owned_ok (kqueues s) (knotes s) (knote_free_list s) \<and>
     hashed_ok (kqueues s) (knotes s) (knote_hash s) \<and> objects_ok (kqueues s) (knotes s) (object_knotes s) \<and>
     (\<forall>q\<in>set (kqueue_free_list s). knote_list (kqueues s q) = [])"

text \<open>The descriptor of every note of kqueue \<open>q\<close> still refers to the object that the note watches.\<close>

definition watching :: "nat \<Rightarrow> 'a events_scheme \<Rightarrow> bool" where
  "watching q s \<longleftrightarrow> (\<forall>n\<in>set (knote_list (kqueues s q)).
     watched_object (filter_nr (knotes s n)) (ident (knotes s n)) s = Some (object (knotes s n)))"

subsection \<open>Reading the state after an update\<close>

lemma upd_kq_sel [simp]:
  "kqueues (upd_kqueue q f s) = (kqueues s)(q := f (kqueues s q))" "knotes (upd_kqueue q f s) = knotes s"
  "knote_free_list (upd_kqueue q f s) = knote_free_list s" "knote_hash (upd_kqueue q f s) = knote_hash s"
  "object_knotes (upd_kqueue q f s) = object_knotes s" "kqueue_free_list (upd_kqueue q f s) = kqueue_free_list s"
  "pending_msgs (upd_kqueue q f s) = pending_msgs s" "current (upd_kqueue q f s) = current s"
  "fprocs (upd_kqueue q f s) = fprocs s" "filps (upd_kqueue q f s) = filps s" "filp_free_list (upd_kqueue q f s) = filp_free_list s"
  by (simp_all add: upd_kqueue_def)

lemma upd_kn_sel [simp]:
  "kqueues (upd_knote n g s) = kqueues s" "knotes (upd_knote n g s) = (knotes s)(n := g (knotes s n))"
  "knote_free_list (upd_knote n g s) = knote_free_list s" "knote_hash (upd_knote n g s) = knote_hash s"
  "object_knotes (upd_knote n g s) = object_knotes s" "kqueue_free_list (upd_knote n g s) = kqueue_free_list s"
  "pending_msgs (upd_knote n g s) = pending_msgs s" "current (upd_knote n g s) = current s"
  "fprocs (upd_knote n g s) = fprocs s" "filps (upd_knote n g s) = filps s" "filp_free_list (upd_knote n g s) = filp_free_list s"
  by (simp_all add: upd_knote_def)

lemma TaskWakeup_kq [simp]:
  "kqueues (TaskWakeup r s) = kqueues s" "knotes (TaskWakeup r s) = knotes s"
  "knote_free_list (TaskWakeup r s) = knote_free_list s" "knote_hash (TaskWakeup r s) = knote_hash s"
  "object_knotes (TaskWakeup r s) = object_knotes s" "kqueue_free_list (TaskWakeup r s) = kqueue_free_list s"
  "pending_msgs (TaskWakeup r s) = pending_msgs s" "current (TaskWakeup r s) = current s"
  "fprocs (TaskWakeup r s) = fprocs s" "filps (TaskWakeup r s) = filps s" "filp_free_list (TaskWakeup r s) = filp_free_list s"
  by (simp_all add: TaskWakeup_def upd_proc_def Let_def split: list.split)

lemma get_fd_item_cong: "fprocs s = fprocs t \<Longrightarrow> filps s = filps t \<Longrightarrow> get_fd_item ty p fd s = get_fd_item ty p fd t"
  by (cases "fprocs t p") (simp_all add: get_fd_item_def get_filp_def split: option.split)

text \<open>The operations on notes do not change the descriptors.\<close>

definition same_fds :: "'a events_scheme \<Rightarrow> 'a events_scheme \<Rightarrow> bool" where
  "same_fds s t \<longleftrightarrow> current s = current t \<and> fprocs s = fprocs t \<and> filps s = filps t"

lemma watched_object_cong: "same_fds s t \<Longrightarrow> watched_object f i s = watched_object f i t"
proof -
  assume "same_fds s t"
  then have c: "current s = current t" "\<And>ty p fd. get_fd_item ty p fd s = get_fd_item ty p fd t"
    by (auto simp: same_fds_def intro: get_fd_item_cong)
  show ?thesis unfolding watched_object_def get_fd_vnode_def get_isrhandler_def get_superblock_def c by (rule refl)
qed

lemma get_filp_total: "fprocs s p \<noteq> None \<Longrightarrow> \<exists>fo. get_filp p fd s = Some fo"
  by (auto simp: get_filp_def)

lemma get_fd_item_total: "fprocs s p \<noteq> None \<Longrightarrow> \<exists>x. get_fd_item ty p fd s = Some x"
  using get_filp_total [of s p fd] by (auto simp: get_fd_item_def)

lemma watched_object_total: "fprocs s (current s) \<noteq> None \<Longrightarrow> \<exists>ob. watched_object f i s = Some ob"
proof -
  assume "fprocs s (current s) \<noteq> None"
  then obtain x where x: "\<And>ty. get_fd_item ty (current s) (sint i) s = Some (x ty)" using get_fd_item_total by metis
  show ?thesis unfolding watched_object_def get_fd_vnode_def get_isrhandler_def get_superblock_def x by simp
qed

subsection \<open>The operations keep the invariant\<close>

lemma rem_entry_Some: "x \<in> set xs \<Longrightarrow> rem_entry x xs = Some (remove1 x xs)"
  by (simp add: rem_entry_def)

text \<open>The tables after an attached note has been taken off all of its lists.\<close>

definition detach_kq :: "nat \<Rightarrow> kqueue \<Rightarrow> kqueue" where
  "detach_kq n x = x\<lparr>pending_list := remove1 n (pending_list x), knote_list := remove1 n (knote_list x)\<rparr>"

definition detach_note :: "knote \<Rightarrow> knote" where
  "detach_note k = k\<lparr>object := None, on_pending_list := False, is_pending := False\<rparr>"

lemma detach_sel [simp]:
  "knote_list (detach_kq n x) = remove1 n (knote_list x)" "pending_list (detach_kq n x) = remove1 n (pending_list x)"
  "kq_of (detach_note k) = kq_of k" "ident (detach_note k) = ident k" "filter_nr (detach_note k) = filter_nr k"
  "enabled (detach_note k) = enabled k" "\<not> is_pending (detach_note k)" "\<not> on_pending_list (detach_note k)"
  "object (detach_note k) = None"
  by (simp_all add: detach_kq_def detach_note_def)

lemma detach_attached:
  assumes "owned_ok K N F" and "kq_of (N n) = q"
  shows "attached (K(q := detach_kq n (K q))) (N(n := detach_note (N n))) m \<longleftrightarrow> attached K N m \<and> m \<noteq> n"
  using assms by (auto simp: attached_def owned_ok_def set_remove1_eq)

lemma detach_owned:
  "owned_ok K N F \<Longrightarrow> attached K N n \<Longrightarrow> kq_of (N n) = q \<Longrightarrow>
   owned_ok (K(q := detach_kq n (K q))) (N(n := detach_note (N n))) (n # F)"
proof -
  assume own: "owned_ok K N F" and "attached K N n" and q: "kq_of (N n) = q"
  then have n: "n \<in> set (knote_list (K q))" by (simp add: attached_def)
  then have "n \<notin> set F" using own by (simp add: owned_ok_def)
  moreover have "n \<notin> set (knote_list (K q'))" if "q' \<noteq> q" for q' using own q that by (auto simp: owned_ok_def)
  ultimately show ?thesis using own n by (auto simp: owned_ok_def set_remove1_eq)
qed

lemma detach_pending:
  assumes "pending_ok K N" and "owned_ok K N F" and "kq_of (N n) = q"
  shows "pending_ok (K(q := detach_kq n (K q))) (N(n := detach_note (N n)))"
  using assms(1, 3) detach_attached [OF assms(2, 3)] by (auto simp: pending_ok_def set_remove1_eq)

lemma detach_hashed:
  assumes hsh: "hashed_ok K N H" and own: "owned_ok K N F" and q: "kq_of (N n) = q"
    and h: "hash_index (ident (N n)) (filter_nr (N n)) = Some h"
  shows "hashed_ok (K(q := detach_kq n (K q))) (N(n := detach_note (N n))) (H(h := remove1 n (H h)))"
proof -
  note a = detach_attached [OF own q]
  have H: "\<And>g m. m \<in> set (H g) \<longleftrightarrow> attached K N m \<and> hash_index (ident (N m)) (filter_nr (N m)) = Some g"
    "\<And>g. distinct (H g)" "\<And>m. attached K N m \<Longrightarrow> hash_index (ident (N m)) (filter_nr (N m)) \<noteq> None"
    using hsh by (auto simp: hashed_ok_def)
  have U: "m = k" if "attached K N m" "attached K N k" "kq_of (N m) = kq_of (N k)" "ident (N m) = ident (N k)"
    "filter_nr (N m) = filter_nr (N k)" for m k using hsh that unfolding hashed_ok_def by blast
  have "m \<in> set ((H(h := remove1 n (H h))) g) \<longleftrightarrow> m \<noteq> n \<and> attached K N m \<and>
      hash_index (ident (N m)) (filter_nr (N m)) = Some g" for m g
    using H(1, 2) h by (auto simp: set_remove1_eq)
  then show ?thesis unfolding hashed_ok_def a using H(2, 3) U by (auto simp: h)
qed

lemma detach_objects:
  assumes "objects_ok K N B" and "owned_ok K N F" and "kq_of (N n) = q"
  shows "objects_ok (K(q := detach_kq n (K q))) (N(n := detach_note (N n)))
    (case object (N n) of None \<Rightarrow> B | Some ob \<Rightarrow> B(ob := remove1 n (B ob)))"
  using assms(1) detach_attached [OF assms(2, 3)] unfolding objects_ok_def
  by (auto simp: set_remove1_eq split: option.splits)

lemma knote_id: "object k = None \<Longrightarrow> k\<lparr>object := None\<rparr> = k" "\<not> on_pending_list k \<Longrightarrow> k\<lparr>on_pending_list := False\<rparr> = k"
  by (cases k; simp)+

lemma free_knote_steps:
  assumes n: "n \<in> set (knote_list (kqueues s q))"
    and w: "watched_object (filter_nr (knotes s n)) (ident (knotes s n)) s = Some (object (knotes s n))"
    and h: "hash_index (ident (knotes s n)) (filter_nr (knotes s n)) = Some h" and nh: "n \<in> set (knote_hash s h)"
    and np: "on_pending_list (knotes s n) \<longleftrightarrow> n \<in> set (pending_list (kqueues s q))"
    and nob: "\<And>ob. object (knotes s n) = Some ob \<Longrightarrow> n \<in> set (object_knotes s ob)"
  shows "\<exists>s'. free_knote q n s = Some s' \<and> kqueues s' = (kqueues s)(q := detach_kq n (kqueues s q)) \<and>
    knotes s' = (knotes s)(n := detach_note (knotes s n)) \<and> knote_free_list s' = n # knote_free_list s \<and>
    knote_hash s' = (knote_hash s)(h := remove1 n (knote_hash s h)) \<and>
    object_knotes s' = (case object (knotes s n) of None \<Rightarrow> object_knotes s
      | Some ob \<Rightarrow> (object_knotes s)(ob := remove1 n (object_knotes s ob))) \<and> same_fds s' s \<and>
    pending_msgs s' = pending_msgs s \<and> kqueue_free_list s' = kqueue_free_list s"
proof -
  let ?k = "knotes s n" and ?x = "kqueues s q"
  obtain s1 where s1: "(case object ?k of None \<Rightarrow> Some s | Some ob \<Rightarrow> do {
        let s = upd_knote n (\<lambda>k. k\<lparr>object := None\<rparr>) s; xs \<leftarrow> rem_entry n (object_knotes s ob);
        Some (s\<lparr>object_knotes := (object_knotes s)(ob := xs)\<rparr>) }) = Some s1"
    and f1: "kqueues s1 = kqueues s" "knotes s1 = (knotes s)(n := ?k\<lparr>object := None\<rparr>)" "knote_free_list s1 = knote_free_list s"
      "knote_hash s1 = knote_hash s" "object_knotes s1 = (case object ?k of None \<Rightarrow> object_knotes s
        | Some ob \<Rightarrow> (object_knotes s)(ob := remove1 n (object_knotes s ob)))" "same_fds s1 s"
      "pending_msgs s1 = pending_msgs s" "kqueue_free_list s1 = kqueue_free_list s"
    using nob by (cases "object ?k") (auto simp: rem_entry_Some same_fds_def knote_id Let_def)
  obtain s2 where s2: "(if on_pending_list ?k then do {
        xs \<leftarrow> rem_entry n (pending_list (kqueues s1 q));
        Some (upd_knote n (\<lambda>k. k\<lparr>on_pending_list := False\<rparr>) (upd_kqueue q (\<lambda>x. x\<lparr>pending_list := xs\<rparr>) s1))
      } else Some s1) = Some s2"
    and f2: "kqueues s2 = (kqueues s)(q := ?x\<lparr>pending_list := remove1 n (pending_list ?x)\<rparr>)"
      "knotes s2 = (knotes s)(n := ?k\<lparr>object := None, on_pending_list := False\<rparr>)" "knote_free_list s2 = knote_free_list s"
      "knote_hash s2 = knote_hash s" "object_knotes s2 = object_knotes s1" "same_fds s2 s"
      "pending_msgs s2 = pending_msgs s" "kqueue_free_list s2 = kqueue_free_list s"
    using np f1 by (cases "on_pending_list ?k") (auto simp: rem_entry_Some same_fds_def knote_id remove1_idem)
  show ?thesis unfolding free_knote_def Let_def w bind.bind_lunit s1 [unfolded Let_def] s2
    using n h nh f2 by (simp add: rem_entry_Some same_fds_def detach_kq_def detach_note_def f1(5))
qed

lemma free_knote_result:
  assumes inv: "kq_inv s" and n: "n \<in> set (knote_list (kqueues s q))"
    and w: "watched_object (filter_nr (knotes s n)) (ident (knotes s n)) s = Some (object (knotes s n))"
  shows "\<exists>s'. free_knote q n s = Some s' \<and> kq_inv s' \<and> same_fds s' s \<and>
    kqueues s' = (kqueues s)(q := detach_kq n (kqueues s q)) \<and> knotes s' = (knotes s)(n := detach_note (knotes s n)) \<and>
    knote_free_list s' = n # knote_free_list s \<and> pending_msgs s' = pending_msgs s \<and> kqueue_free_list s' = kqueue_free_list s"
proof -
  let ?N = "knotes s" and ?K = "kqueues s"
  have own: "owned_ok ?K ?N (knote_free_list s)" and pend: "pending_ok ?K ?N" and hsh: "hashed_ok ?K ?N (knote_hash s)"
    and obj: "objects_ok ?K ?N (object_knotes s)" using inv by (simp_all add: kq_inv_def)
  have q: "kq_of (?N n) = q" using own n by (simp add: owned_ok_def)
  then have att: "attached ?K ?N n" using n by (simp add: attached_def)
  obtain h where h: "hash_index (ident (?N n)) (filter_nr (?N n)) = Some h" and nh: "n \<in> set (knote_hash s h)"
    using hsh att by (fastforce simp: hashed_ok_def)
  have np: "on_pending_list (?N n) \<longleftrightarrow> n \<in> set (pending_list (?K q))" using pend q by (simp add: pending_ok_def)
  let ?B = "case object (?N n) of None \<Rightarrow> object_knotes s | Some ob \<Rightarrow> (object_knotes s)(ob := remove1 n (object_knotes s ob))"
  have nob: "n \<in> set (object_knotes s ob)" if "object (?N n) = Some ob" for ob
    using obj att that by (simp add: objects_ok_def)
  obtain s' where s': "free_knote q n s = Some s'" and eqs: "kqueues s' = ?K(q := detach_kq n (?K q))"
      "knotes s' = ?N(n := detach_note (?N n))" "knote_free_list s' = n # knote_free_list s"
      "knote_hash s' = (knote_hash s)(h := remove1 n (knote_hash s h))" "object_knotes s' = ?B" "same_fds s' s"
      "pending_msgs s' = pending_msgs s" "kqueue_free_list s' = kqueue_free_list s"
    using free_knote_steps [OF n w h nh np nob] by blast
  have "kq_inv s'" unfolding kq_inv_def eqs
    using detach_pending [OF pend own q] detach_owned [OF own att q] detach_hashed [OF hsh own q h]
      detach_objects [OF obj own q] inv by (simp add: kq_inv_def)
  then show ?thesis using s' eqs by blast
qed

text \<open>The tables after note \<open>n\<close>, taken from the free list, has been attached to \<open>q\<close> as \<open>k\<close>.\<close>

definition attach_kq :: "nat \<Rightarrow> kqueue \<Rightarrow> kqueue" where
  "attach_kq n x = x\<lparr>knote_list := knote_list x @ [n]\<rparr>"

lemma attach_kq_sel [simp]:
  "knote_list (attach_kq n x) = knote_list x @ [n]" "pending_list (attach_kq n x) = pending_list x"
  by (simp_all add: attach_kq_def)

definition fresh_note :: "nat \<Rightarrow> knote \<Rightarrow> bool" where
  "fresh_note q k \<longleftrightarrow> kq_of k = q \<and> \<not> enabled k \<and> \<not> is_pending k \<and> \<not> on_pending_list k"

lemma free_not_attached: "owned_ok K N (n # F) \<Longrightarrow> n \<notin> set (knote_list (K q))"
  by (auto simp: owned_ok_def)

lemma attach_attached:
  assumes "owned_ok K N (n # F)" and "fresh_note q k"
  shows "attached (K(q := attach_kq n (K q))) (N(n := k)) m \<longleftrightarrow> attached K N m \<or> m = n"
  using assms free_not_attached [OF assms(1)] by (auto simp: attached_def fresh_note_def)

lemma attach_owned:
  "owned_ok K N (n # F) \<Longrightarrow> fresh_note q k \<Longrightarrow> owned_ok (K(q := attach_kq n (K q))) (N(n := k)) F"
  using free_not_attached [of K N n F] by (auto simp: owned_ok_def fresh_note_def)

lemma attach_pending:
  assumes "pending_ok K N" and own: "owned_ok K N (n # F)" and "fresh_note q k"
  shows "pending_ok (K(q := attach_kq n (K q))) (N(n := k))"
proof -
  have "\<not> attached K N n" using free_not_attached [OF own] by (simp add: attached_def)
  then have "\<not> is_pending (N n)" "\<not> on_pending_list (N n)" using assms(1) by (auto simp: pending_ok_def)
  then show ?thesis using assms(1, 3) attach_attached [OF own assms(3)] by (auto simp: pending_ok_def fresh_note_def)
qed

lemma attach_hashed:
  assumes hsh: "hashed_ok K N H" and own: "owned_ok K N (n # F)" and k: "fresh_note q k"
    and h: "hash_index (ident k) (filter_nr k) = Some h"
    and new: "\<And>m. attached K N m \<Longrightarrow> kq_of (N m) = q \<Longrightarrow> ident (N m) = ident k \<Longrightarrow> filter_nr (N m) \<noteq> filter_nr k"
  shows "hashed_ok (K(q := attach_kq n (K q))) (N(n := k)) (H(h := H h @ [n]))"
proof -
  note a = attach_attached [OF own k]
  have n: "\<not> attached K N n" using free_not_attached [OF own] by (simp add: attached_def)
  have H: "\<And>g m. m \<in> set (H g) \<longleftrightarrow> attached K N m \<and> hash_index (ident (N m)) (filter_nr (N m)) = Some g"
    "\<And>g. distinct (H g)" "\<And>m. attached K N m \<Longrightarrow> hash_index (ident (N m)) (filter_nr (N m)) \<noteq> None"
    using hsh by (auto simp: hashed_ok_def)
  have U: "m = k" if "attached K N m" "attached K N k" "kq_of (N m) = kq_of (N k)" "ident (N m) = ident (N k)"
    "filter_nr (N m) = filter_nr (N k)" for m k using hsh that unfolding hashed_ok_def by blast
  have "m = m'" if "m = n \<or> attached K N m" "m' = n \<or> attached K N m'" "kq_of ((N(n := k)) m) = kq_of ((N(n := k)) m')"
    "ident ((N(n := k)) m) = ident ((N(n := k)) m')" "filter_nr ((N(n := k)) m) = filter_nr ((N(n := k)) m')" for m m'
    using that k new [of m] new [of m'] U [of m m'] by (auto simp: fresh_note_def split: if_splits)
  moreover have "m \<in> set ((H(h := H h @ [n])) g) \<longleftrightarrow> (attached K N m \<or> m = n) \<and>
      hash_index (ident ((N(n := k)) m)) (filter_nr ((N(n := k)) m)) = Some g" for m g
    using H(1) h n by (auto split: if_splits)
  moreover have "distinct ((H(h := H h @ [n])) g)" for g using H(1, 2) n by simp
  moreover have "hash_index (ident ((N(n := k)) m)) (filter_nr ((N(n := k)) m)) \<noteq> None" if "attached K N m \<or> m = n" for m
    using that H(3) [of m] h by (cases "m = n") auto
  ultimately show ?thesis unfolding hashed_ok_def a by blast
qed

lemma attach_objects:
  assumes obj: "objects_ok K N B" and own: "owned_ok K N (n # F)" and k: "fresh_note q k"
  shows "objects_ok (K(q := attach_kq n (K q))) (N(n := k))
    (case object k of None \<Rightarrow> B | Some ob \<Rightarrow> B(ob := B ob @ [n]))"
proof -
  have n: "\<not> attached K N n" using free_not_attached [OF own] by (simp add: attached_def)
  have B: "\<And>ob. distinct (B ob)" "\<And>ob m. m \<in> set (B ob) \<longleftrightarrow> attached K N m \<and> object (N m) = Some ob"
    using obj by (auto simp: objects_ok_def)
  show ?thesis unfolding objects_ok_def attach_attached [OF own k]
    using B n by (auto split: option.splits if_splits)
qed

lemma find_None_get:
  assumes "hashed_ok (kqueues s) (knotes s) (knote_hash s)" and "get_knote q ev s = Some None"
    and "attached (kqueues s) (knotes s) m" "kq_of (knotes s m) = q" "ident (knotes s m) = ev_ident ev"
  shows "filter_nr (knotes s m) \<noteq> ev_filter ev"
proof
  assume f: "filter_nr (knotes s m) = ev_filter ev"
  then obtain h where h: "hash_index (ev_ident ev) (ev_filter ev) = Some h" and "m \<in> set (knote_hash s h)"
    using assms(1, 3, 5) unfolding hashed_ok_def by (metis not_Some_eq)
  then show False using assms(2, 4, 5) f by (auto simp: get_knote_def find_None_iff)
qed

text \<open>What every step of a kevent call on \<open>q\<close> keeps.\<close>

definition kq_keeps :: "nat \<Rightarrow> 'a events_scheme \<Rightarrow> 'a events_scheme \<Rightarrow> bool" where
  "kq_keeps q s s' \<longleftrightarrow> kq_inv s' \<and> watching q s' \<and> same_fds s' s \<and> kqueue_free_list s' = kqueue_free_list s \<and>
     pending_msgs s' = pending_msgs s"

lemma kq_keeps_trans: "kq_keeps q s t \<Longrightarrow> kq_keeps q t u \<Longrightarrow> kq_keeps q s u"
  by (simp add: kq_keeps_def same_fds_def)

lemma watching_step:
  assumes "same_fds s' s" and "watching q s"
    and "\<And>n. n \<in> set (knote_list (kqueues s' q)) \<Longrightarrow> n \<in> set (knote_list (kqueues s q)) \<and>
      filter_nr (knotes s' n) = filter_nr (knotes s n) \<and> ident (knotes s' n) = ident (knotes s n) \<and>
      object (knotes s' n) = object (knotes s n)"
  shows "watching q s'"
  using assms(2, 3) watched_object_cong [OF assms(1)] unfolding watching_def by metis

lemma free_knote_keeps:
  assumes inv: "kq_inv s" and w: "watching q s" and n: "n \<in> set (knote_list (kqueues s q))"
  shows "\<exists>s'. free_knote q n s = Some s' \<and> kq_keeps q s s' \<and> knote_free_list s' = n # knote_free_list s \<and>
    kqueues s' = (kqueues s)(q := detach_kq n (kqueues s q)) \<and> knotes s' = (knotes s)(n := detach_note (knotes s n))"
proof -
  have wn: "watched_object (filter_nr (knotes s n)) (ident (knotes s n)) s = Some (object (knotes s n))"
    using w n by (simp add: watching_def)
  obtain s' where s': "free_knote q n s = Some s'" "kq_inv s'" "same_fds s' s" "knote_free_list s' = n # knote_free_list s"
    "kqueues s' = (kqueues s)(q := detach_kq n (kqueues s q))" "knotes s' = (knotes s)(n := detach_note (knotes s n))"
    "pending_msgs s' = pending_msgs s" "kqueue_free_list s' = kqueue_free_list s"
    using free_knote_result [OF inv n wn] by blast
  have "distinct (knote_list (kqueues s q))" using inv by (simp add: kq_inv_def owned_ok_def)
  then have "watching q s'" using s'(3, 5, 6) w by (intro watching_step [of s' s]) (auto simp: set_remove1_eq)
  then show ?thesis using s' by (auto simp: kq_keeps_def)
qed

lemma alloc_knote_keeps:
  assumes inv: "kq_inv s" and w: "watching q s" and fp: "fprocs s (current s) \<noteq> None"
    and get: "get_knote q ev s = Some None" and qf: "q \<notin> set (kqueue_free_list s)"
  shows "\<exists>r s'. alloc_knote q ev s = Some (r, s') \<and> kq_keeps q s s' \<and>
    (\<forall>n. r = Some n \<longrightarrow> n \<in> set (knote_list (kqueues s' q)))"
proof (cases "knote_free_list s")
  case Nil
  then show ?thesis using inv w by (simp add: alloc_knote_def kq_keeps_def same_fds_def)
next
  case (Cons n ns)
  obtain h where h: "hash_index (ev_ident ev) (ev_filter ev) = Some h" using get by (auto simp: get_knote_def split: bind_splits)
  let ?k = "(knotes s n)\<lparr>kq_of := q, ident := ev_ident ev, filter_nr := ev_filter ev, note_flags := ev_flags ev,
    note_fflags := ev_fflags ev, udata := ev_udata ev, enabled := False, is_pending := False,
    on_pending_list := False, object := None\<rparr>"
  let ?s = "(upd_kqueue q (attach_kq n) (upd_knote n (\<lambda>_. ?k) (s\<lparr>knote_free_list := ns\<rparr>)))
    \<lparr>knote_hash := (knote_hash s)(h := knote_hash s h @ [n])\<rparr>"
  have fds: "same_fds ?s s" by (simp add: same_fds_def)
  have fr: "fresh_note q (?k\<lparr>object := ob\<rparr>)" for ob by (simp add: fresh_note_def)
  have own: "owned_ok (kqueues s) (knotes s) (n # ns)" and pend: "pending_ok (kqueues s) (knotes s)"
    and hsh: "hashed_ok (kqueues s) (knotes s) (knote_hash s)" and obj: "objects_ok (kqueues s) (knotes s) (object_knotes s)"
    using inv Cons by (simp_all add: kq_inv_def)
  have new: "\<And>m ob. attached (kqueues s) (knotes s) m \<Longrightarrow> kq_of (knotes s m) = q \<Longrightarrow> ident (knotes s m) = ident (?k\<lparr>object := ob\<rparr>) \<Longrightarrow>
      filter_nr (knotes s m) \<noteq> filter_nr (?k\<lparr>object := ob\<rparr>)"
    using find_None_get [OF hsh get] by simp
  have hk: "hash_index (ident (?k\<lparr>object := ob\<rparr>)) (filter_nr (?k\<lparr>object := ob\<rparr>)) = Some h" for ob using h by simp
  obtain ob where ob: "watched_object (ev_filter ev) (ev_ident ev) ?s = Some ob"
    using watched_object_total [of ?s] fp by auto
  have inv': "kq_inv s'" if "kqueues s' = (kqueues s)(q := attach_kq n (kqueues s q))"
    "knotes s' = (knotes s)(n := ?k\<lparr>object := b\<rparr>)" "knote_free_list s' = ns" "kqueue_free_list s' = kqueue_free_list s"
    "knote_hash s' = (knote_hash s)(h := knote_hash s h @ [n])"
    "object_knotes s' = (case b of None \<Rightarrow> object_knotes s | Some ob \<Rightarrow> (object_knotes s)(ob := object_knotes s ob @ [n]))"
    for s' :: "'a events_scheme" and b
    using attach_pending [OF pend own fr [of b]] attach_owned [OF own fr [of b]] attach_hashed [OF hsh own fr [of b] hk new]
      attach_objects [OF obj own fr [of b]] inv qf unfolding kq_inv_def that by auto
  have w': "watching q s'" if "same_fds s' s" "kqueues s' = (kqueues s)(q := attach_kq n (kqueues s q))"
    "knotes s' = (knotes s)(n := ?k\<lparr>object := b\<rparr>)" "b = ob" for s' :: "'a events_scheme" and b
  proof -
    have c: "watched_object f i s' = watched_object f i s" for f i by (rule watched_object_cong [OF that(1)])
    have "watched_object (ev_filter ev) (ev_ident ev) s = Some ob" using ob watched_object_cong [OF fds] by simp
    then show ?thesis using w free_not_attached [OF own, of q] that unfolding watching_def c by auto
  qed
  show ?thesis
  proof (cases ob)
    case (Some b)
    let ?t = "(upd_knote n (\<lambda>k. k\<lparr>object := Some b\<rparr>) ?s)\<lparr>object_knotes := (object_knotes s)(b := object_knotes s b @ [n])\<rparr>"
    have "alloc_knote q ev s = Some (Some n, ?t)"
      using ob Some by (simp add: alloc_knote_def Cons h upd_kqueue_def upd_knote_def attach_kq_def Let_def)
    moreover have "kq_inv ?t" by (rule inv' [of _ "Some b"]) simp_all
    moreover have "watching q ?t" by (rule w' [of _ "Some b"]) (simp_all add: same_fds_def Some)
    ultimately show ?thesis by (auto simp: kq_keeps_def same_fds_def)
  next
    case None
    have i: "kq_inv ?s" by (rule inv' [of _ None]) simp_all
    have ws: "watching q ?s" by (rule w' [of _ None]) (simp_all add: same_fds_def None)
    obtain s' where "free_knote q n ?s = Some s'" "kq_keeps q ?s s'" using free_knote_keeps [OF i ws, of n] by auto
    moreover from this have "alloc_knote q ev s = Some (None, s')"
      using ob None by (simp add: alloc_knote_def Cons h upd_kqueue_def upd_knote_def attach_kq_def Let_def)
    ultimately show ?thesis by (auto simp: kq_keeps_def same_fds_def)
  qed
qed

text \<open>Changes that touch the flags of one note and the list of pending notes only.\<close>

definition same_key :: "knote \<Rightarrow> knote \<Rightarrow> bool" where
  "same_key k k' \<longleftrightarrow> kq_of k = kq_of k' \<and> ident k = ident k' \<and> filter_nr k = filter_nr k' \<and> object k = object k'"

lemma kq_inv_flags:
  assumes "kq_inv s" and "pending_ok (kqueues s') (knotes s')" and "\<And>q. knote_list (kqueues s' q) = knote_list (kqueues s q)"
    and "\<And>n. same_key (knotes s' n) (knotes s n)" and "knote_free_list s' = knote_free_list s" and "knote_hash s' = knote_hash s"
    and "object_knotes s' = object_knotes s" and "kqueue_free_list s' = kqueue_free_list s"
  shows "kq_inv s'"
proof -
  have k: "kq_of (knotes s' n) = kq_of (knotes s n)" "ident (knotes s' n) = ident (knotes s n)"
    "filter_nr (knotes s' n) = filter_nr (knotes s n)" "object (knotes s' n) = object (knotes s n)" for n
    using assms(4) [of n] by (simp_all add: same_key_def)
  have a: "attached (kqueues s') (knotes s') n = attached (kqueues s) (knotes s) n" for n
    unfolding attached_def k assms(3) by (rule refl)
  show ?thesis using assms(1, 2) unfolding kq_inv_def owned_ok_def hashed_ok_def objects_ok_def a k assms(3, 5-8)
    by (elim conjE) (intro conjI; assumption)
qed

lemma kq_keeps_flags:
  assumes "kq_inv s" and "watching q s" and "pending_ok (kqueues s') (knotes s')"
    and "\<And>q. knote_list (kqueues s' q) = knote_list (kqueues s q)" and "\<And>n. same_key (knotes s' n) (knotes s n)"
    and "knote_free_list s' = knote_free_list s" and "knote_hash s' = knote_hash s" and "object_knotes s' = object_knotes s"
    and "kqueue_free_list s' = kqueue_free_list s" and "same_fds s' s" and "pending_msgs s' = pending_msgs s"
  shows "kq_keeps q s s'"
  using kq_inv_flags [OF assms(1, 3-9)] watching_step [OF assms(10, 2)] assms(4, 5, 9-11)
  by (simp add: kq_keeps_def same_key_def)

lemma pending_put:
  assumes "pending_ok K N" and "attached K N n" and "kq_of (N n) = q" and "\<not> on_pending_list (N n)"
    and "kq_of k = q" and "enabled k" and "is_pending k" and "on_pending_list k"
    and "\<And>p. K' p = (if p = q then (K q)\<lparr>pending_list := pending_list (K q) @ [n]\<rparr> else K p)"
  shows "pending_ok K' (N(n := k))"
proof -
  have "attached K' (N(n := k)) m = attached K N m" for m using assms(3, 5, 9) by (simp add: attached_def)
  then show ?thesis using assms unfolding pending_ok_def by (auto split: if_splits)
qed

lemma pending_drop:
  assumes "pending_ok K N" and "kq_of (N n) = q" and "kq_of k = q" and "\<not> (enabled k \<and> is_pending k)"
    and "is_pending k \<longrightarrow> is_pending (N n)" and "\<not> on_pending_list k"
    and "\<And>p. K' p = (if p = q then (K q)\<lparr>pending_list := remove1 n (pending_list (K q))\<rparr> else K p)"
  shows "pending_ok K' (N(n := k))"
proof -
  have "attached K' (N(n := k)) m = attached K N m" for m using assms(2, 3, 7) by (simp add: attached_def)
  then show ?thesis using assms unfolding pending_ok_def by (auto simp: set_remove1_eq split: if_splits)
qed

lemma pending_flag:
  assumes "pending_ok K N" and "attached K N n" and "\<not> on_pending_list (N n)" and "kq_of k = kq_of (N n)"
    and "\<not> (enabled k \<and> is_pending k)" and "\<not> on_pending_list k"
  shows "pending_ok K (N(n := k))"
proof -
  have "attached K (N(n := k)) m = attached K N m" for m using assms(4) by (simp add: attached_def)
  then show ?thesis using assms unfolding pending_ok_def by (auto split: if_splits)
qed

lemma put_pending_sel [simp]:
  "kqueues (put_pending q n s) = (kqueues s)(q := (kqueues s q)\<lparr>pending_list := pending_list (kqueues s q) @ [n]\<rparr>)"
  "knotes (put_pending q n s) = (knotes s)(n := (knotes s n)\<lparr>on_pending_list := True\<rparr>)"
  "knote_free_list (put_pending q n s) = knote_free_list s" "knote_hash (put_pending q n s) = knote_hash s"
  "object_knotes (put_pending q n s) = object_knotes s" "kqueue_free_list (put_pending q n s) = kqueue_free_list s"
  "pending_msgs (put_pending q n s) = pending_msgs s" "same_fds (put_pending q n s) t = same_fds s t"
  by (simp_all add: put_pending_def same_fds_def)

lemma same_fds_upd [simp]:
  "same_fds (upd_knote n f s) t = same_fds s t" "same_fds (upd_kqueue q g s) t = same_fds s t" "same_fds s s"
  by (simp_all add: same_fds_def)

lemma note_of_kqueue: "kq_inv s \<Longrightarrow> n \<in> set (knote_list (kqueues s q)) \<Longrightarrow>
    kq_of (knotes s n) = q \<and> attached (kqueues s) (knotes s) n"
  by (simp add: kq_inv_def owned_ok_def attached_def)

lemma kq_inv_pending: "kq_inv s \<Longrightarrow> pending_ok (kqueues s) (knotes s)"
  by (simp add: kq_inv_def)

lemma enable_knote_keeps:
  assumes inv: "kq_inv s" and w: "watching q s" and n: "n \<in> set (knote_list (kqueues s q))"
  shows "\<exists>s'. enable_knote q n s = Some s' \<and> kq_keeps q s s' \<and> kqueues s' = (kqueues s)(q := kqueues s' q) \<and>
    knote_list (kqueues s' q) = knote_list (kqueues s q)"
proof (cases "enabled (knotes s n)")
  case True
  then show ?thesis using inv w by (simp add: enable_knote_def kq_keeps_def)
next
  case False
  note k = note_of_kqueue [OF inv n] and p = kq_inv_pending [OF inv]
  have np: "\<not> on_pending_list (knotes s n)" using p False by (simp add: pending_ok_def)
  let ?on = "put_pending q n (upd_knote n (\<lambda>k. k\<lparr>enabled := True, is_pending := True\<rparr>) s)"
  let ?off = "upd_knote n (\<lambda>k. k\<lparr>enabled := True\<rparr>) s"
  have on: "kq_keeps q s ?on"
    by (rule kq_keeps_flags [OF inv w]) (use p k np in \<open>auto simp: same_key_def intro!: pending_put [where q = q and N = "knotes s"]\<close>)
  have off: "kq_keeps q s ?off" if "\<not> is_pending (knotes s n)"
    by (rule kq_keeps_flags [OF inv w]) (use p k np that in \<open>auto simp: same_key_def intro!: pending_flag\<close>)
  have eq: "is_pending (knotes s n) \<Longrightarrow> put_pending q n ?off = ?on"
    by (cases "knotes s n") (simp add: put_pending_def upd_knote_def upd_kqueue_def)
  obtain ob where "watched_object (filter_nr (knotes s n)) (ident (knotes s n)) ?off = Some ob"
    using w n watched_object_cong [of ?off s] by (simp add: watching_def)
  then have "enable_knote q n s = Some ?on \<or> enable_knote q n s = Some ?off \<and> \<not> is_pending (knotes s n)"
    using False eq by (cases ob) (auto simp: enable_knote_def Let_def put_pending_def upd_knote_def split: kobject.split)
  then show ?thesis using on off by auto
qed

lemma disable_knote_keeps:
  assumes inv: "kq_inv s" and w: "watching q s" and n: "n \<in> set (knote_list (kqueues s q))"
  shows "\<exists>s'. disable_knote q n s = Some s' \<and> kq_keeps q s s' \<and> knote_list (kqueues s' q) = knote_list (kqueues s q)"
proof (cases "enabled (knotes s n)")
  case False
  then show ?thesis using inv w by (simp add: disable_knote_def kq_keeps_def)
next
  case True
  note k = note_of_kqueue [OF inv n] and p = kq_inv_pending [OF inv]
  have np: "on_pending_list (knotes s n) \<longleftrightarrow> n \<in> set (pending_list (kqueues s q))" using p k by (simp add: pending_ok_def)
  show ?thesis
  proof (cases "on_pending_list (knotes s n)")
    case on: True
    let ?s = "upd_knote n (\<lambda>k. k\<lparr>on_pending_list := False\<rparr>)
      (upd_kqueue q (\<lambda>x. x\<lparr>pending_list := remove1 n (pending_list (kqueues s q))\<rparr>) (upd_knote n (\<lambda>k. k\<lparr>enabled := False\<rparr>) s))"
    have "disable_knote q n s = Some ?s" using True on np by (simp add: disable_knote_def Let_def rem_entry_Some)
    moreover have "kq_keeps q s ?s"
      by (rule kq_keeps_flags [OF inv w])
        (use p k on in \<open>auto simp: same_key_def intro!: pending_drop [where q = q and N = "knotes s"]\<close>)
    ultimately show ?thesis by auto
  next
    case off: False
    let ?s = "upd_knote n (\<lambda>k. k\<lparr>enabled := False\<rparr>) s"
    have "kq_keeps q s ?s"
      by (rule kq_keeps_flags [OF inv w]) (use p k off in \<open>auto simp: same_key_def intro!: pending_flag\<close>)
    then show ?thesis using True off by (auto simp: disable_knote_def Let_def)
  qed
qed

subsection \<open>The kevent system call\<close>

lemma find_SomeD: "find P xs = Some x \<Longrightarrow> x \<in> set xs \<and> P x"
  by (induction xs) (auto split: if_splits)

lemma get_knote_found:
  assumes "kq_inv s" and "get_knote q ev s = Some (Some n)"
  shows "n \<in> set (knote_list (kqueues s q)) \<and> ident (knotes s n) = ev_ident ev \<and> filter_nr (knotes s n) = ev_filter ev"
proof -
  obtain h where "n \<in> set (knote_hash s h)" "kq_of (knotes s n) = q" "ident (knotes s n) = ev_ident ev"
      "filter_nr (knotes s n) = ev_filter ev"
    using assms(2) by (auto simp: get_knote_def split: bind_splits dest!: find_SomeD)
  moreover from this(1) assms(1) have "attached (kqueues s) (knotes s) n" by (simp add: kq_inv_def hashed_ok_def)
  ultimately show ?thesis by (simp add: attached_def)
qed

text \<open>An entry of the change list whose hash index is inside the table.\<close>

definition change_ok :: "kevent \<Rightarrow> bool" where
  "change_ok ev \<longleftrightarrow> hash_index (ev_ident ev) (ev_filter ev) \<noteq> None"

definition kq_ready :: "nat \<Rightarrow> 'a events_scheme \<Rightarrow> bool" where
  "kq_ready q s \<longleftrightarrow> kq_inv s \<and> watching q s \<and> fprocs s (current s) \<noteq> None \<and> q \<notin> set (kqueue_free_list s)"

lemma kq_ready_keeps: "kq_ready q s \<Longrightarrow> kq_keeps q s s' \<Longrightarrow> kq_ready q s'"
  by (simp add: kq_ready_def kq_keeps_def same_fds_def)

lemma kq_keeps_refl: "kq_ready q s \<Longrightarrow> kq_keeps q s s"
  by (simp add: kq_ready_def kq_keeps_def)

lemma kevent_delete_keeps:
  assumes "kq_ready q s" and "n \<in> set (knote_list (kqueues s q))"
  shows "\<exists>s'. do { s \<leftarrow> disable_knote q n s; s \<leftarrow> free_knote q n s; Some (Inr (), s) } = Some (Inr () :: unit result, s') \<and> kq_keeps q s s'"
proof -
  obtain s1 where s1: "disable_knote q n s = Some s1" "kq_keeps q s s1" "knote_list (kqueues s1 q) = knote_list (kqueues s q)"
    using disable_knote_keeps [of s q n] assms by (auto simp: kq_ready_def)
  obtain s2 where "free_knote q n s1 = Some s2" "kq_keeps q s1 s2"
    using free_knote_keeps [of s1 q n] s1 assms(2) by (auto simp: kq_keeps_def)
  then show ?thesis using s1 kq_keeps_trans by auto
qed

lemma kevent_toggle_keeps:
  assumes "kq_ready q s" and "n \<in> set (knote_list (kqueues s q))"
  shows "\<exists>s'. do { s \<leftarrow> (if a then enable_knote q n s else Some s); s \<leftarrow> (if b then disable_knote q n s else Some s);
      Some (Inr (), s) } = Some (Inr () :: unit result, s') \<and> kq_keeps q s s'"
proof -
  obtain s1 where s1: "(if a then enable_knote q n s else Some s) = Some s1" "kq_keeps q s s1"
      "knote_list (kqueues s1 q) = knote_list (kqueues s q)"
    using enable_knote_keeps [of s q n] assms kq_keeps_refl [OF assms(1)] by (cases a) (auto simp: kq_ready_def)
  have "kq_ready q s1" using assms(1) s1(2) by (rule kq_ready_keeps)
  then obtain s2 where "(if b then disable_knote q n s1 else Some s1) = Some s2" "kq_keeps q s1 s2"
    using disable_knote_keeps [of s1 q n] s1(3) assms(2) kq_keeps_refl [of q s1] by (cases b) (auto simp: kq_ready_def)
  then show ?thesis using s1 kq_keeps_trans by auto
qed

lemma kevent_change_keeps:
  assumes r: "kq_ready q s" and ok: "change_ok ev"
  shows "\<exists>r s'. kevent_change q ev s = Some (r, s') \<and> kq_keeps q s s'"
proof (cases "ev_filter ev < 0 \<or> ev_filter ev \<ge> EVFILT_SYSCOUNT
         \<or> (ev_flags ev AND (EV_ADD OR EV_DELETE)) = (EV_ADD OR EV_DELETE)
         \<or> (ev_flags ev AND (EV_ENABLE OR EV_DISABLE)) = (EV_ENABLE OR EV_DISABLE)")
  case True
  then show ?thesis using kq_keeps_refl [OF r] by (auto simp: kevent_change_def)
next
  case False
  obtain no where no: "get_knote q ev s = Some no" using ok by (auto simp: change_ok_def get_knote_def)
  let ?ev = "if (ev_flags ev AND EV_ADD) \<noteq> 0 \<and> (ev_flags ev AND EV_DISABLE) = 0
    then ev\<lparr>ev_flags := ev_flags ev OR EV_ENABLE\<rparr> else ev"
  obtain r1 ev1 s1 where s1: "(if (ev_flags ev AND EV_ADD) \<noteq> 0 then
             (if no = None then do {
                let ev = (if (ev_flags ev AND EV_DISABLE) = 0 then ev\<lparr>ev_flags := ev_flags ev OR EV_ENABLE\<rparr> else ev);
                (no, s) \<leftarrow> alloc_knote q ev s;
                Some (if no = None then Inl ENOMEM else Inr no, ev, s)
              }
              else Some (Inl EEXIST, ev, s))
           else Some (Inr no, ev, s)) = Some (r1, ev1, s1)" and k1: "kq_keeps q s s1"
    and n1: "\<And>n. r1 = Inr (Some n) \<Longrightarrow> n \<in> set (knote_list (kqueues s1 q))"
  proof (cases "(ev_flags ev AND EV_ADD) \<noteq> 0 \<and> no = None")
    case True
    have "get_knote q ?ev s = Some None" using no True by (simp add: get_knote_def)
    then obtain r2 s2 where "alloc_knote q ?ev s = Some (r2, s2)" "kq_keeps q s s2"
        "\<forall>n. r2 = Some n \<longrightarrow> n \<in> set (knote_list (kqueues s2 q))"
      using alloc_knote_keeps [of s q ?ev] r by (auto simp: kq_ready_def)
    then show thesis using that [of "if r2 = None then Inl ENOMEM else Inr r2" ?ev s2] True
      by (cases r2) (auto split: if_splits)
  next
    case False
    have found: "n \<in> set (knote_list (kqueues s q))" if "no = Some n" for n
      using get_knote_found [of s q ev n] no r that by (simp add: kq_ready_def)
    show thesis
    proof (cases "(ev_flags ev AND EV_ADD) = 0")
      case True
      then show thesis using that [of "Inr no" ev s] kq_keeps_refl [OF r] found by simp
    next
      case add: False
      then show thesis using that [of "Inl EEXIST" ev s] kq_keeps_refl [OF r] False by (cases no) simp_all
    qed
  qed
  have r1: "kq_ready q s1" using r k1 by (rule kq_ready_keeps)
  have eq: "kevent_change q ev s = (case r1 of Inl e \<Rightarrow> Some (Inl e, s1) | Inr no \<Rightarrow>
            (if (ev_flags ev1 AND EV_DELETE) \<noteq> 0 then
               (case no of None \<Rightarrow> Some (Inl ENOENT, s1)
                | Some n \<Rightarrow> do { s \<leftarrow> disable_knote q n s1; s \<leftarrow> free_knote q n s; Some (Inr (), s) })
             else
               (case no of None \<Rightarrow> Some (Inr (), s1)
                | Some n \<Rightarrow> do {
                    s \<leftarrow> (if (ev_flags ev1 AND EV_ENABLE) \<noteq> 0 then enable_knote q n s1 else Some s1);
                    s \<leftarrow> (if (ev_flags ev1 AND EV_DISABLE) \<noteq> 0 then disable_knote q n s else Some s);
                    Some (Inr (), s) })))"
    using False no unfolding kevent_change_def by (simp only: if_False bind.bind_lunit s1 prod.case)
  consider e where "r1 = Inl e" | "r1 = Inr None" | n where "r1 = Inr (Some n)" by (metis option.exhaust sum.exhaust)
  then show ?thesis
  proof cases
    case (3 n)
    then have n: "n \<in> set (knote_list (kqueues s1 q))" by (rule n1)
    show ?thesis
    proof (cases "(ev_flags ev1 AND EV_DELETE) \<noteq> 0")
      case True
      then show ?thesis using kevent_delete_keeps [OF r1 n] kq_keeps_trans [OF k1] unfolding eq 3 by auto
    next
      case False
      then show ?thesis
        using kevent_toggle_keeps [OF r1 n, of "(ev_flags ev1 AND EV_ENABLE) \<noteq> 0" "(ev_flags ev1 AND EV_DISABLE) \<noteq> 0"]
          kq_keeps_trans [OF k1] unfolding eq 3 by auto
    qed
  qed (use eq k1 in auto)
qed

lemma kevent_changes_keeps:
  "kq_ready q s \<Longrightarrow> \<forall>ev\<in>set evs. change_ok ev \<Longrightarrow> \<exists>r s'. kevent_changes q evs s = Some (r, s') \<and> kq_keeps q s s'"
proof (induction evs arbitrary: s)
  case Nil
  then show ?case using kq_keeps_refl by auto
next
  case (Cons ev evs)
  obtain r1 s1 where s1: "kevent_change q ev s = Some (r1, s1)" "kq_keeps q s s1"
    using kevent_change_keeps [of q s ev] Cons.prems by auto
  moreover have "kq_ready q s1" using Cons.prems(1) s1(2) by (rule kq_ready_keeps)
  then obtain r2 s2 where "kevent_changes q evs s1 = Some (r2, s2)" "kq_keeps q s1 s2"
    using Cons.IH [of s1] Cons.prems(2) by auto
  ultimately show ?case using kq_keeps_trans by (cases r1) auto
qed

text \<open>One round of the loop that reports events.\<close>

lemma collect_step:
  assumes r: "kq_ready q s" and pend: "pending_list (kqueues s q) = n # ns"
  defines "s1 \<equiv> upd_knote n (\<lambda>k. k\<lparr>is_pending := False, on_pending_list := False\<rparr>) (upd_kqueue q (\<lambda>x. x\<lparr>pending_list := ns\<rparr>) s)"
  shows "\<exists>s2. (if (note_flags (knotes s1 n) AND EV_ONESHOT) \<noteq> 0 then free_knote q n s1 else Some s1) = Some s2 \<and>
    kq_keeps q s s2 \<and> pending_list (kqueues s2 q) = ns \<and> n \<notin> set ns \<and> (\<forall>m. m \<noteq> n \<longrightarrow> knotes s2 m = knotes s m)"
proof -
  have inv: "kq_inv s" and w: "watching q s" using r by (simp_all add: kq_ready_def)
  have p: "pending_ok (kqueues s) (knotes s)" using inv by (rule kq_inv_pending)
  have mem: "n \<in> set (pending_list (kqueues s q))" by (simp add: pend)
  then have k: "kq_of (knotes s n) = q" "attached (kqueues s) (knotes s) n" using p unfolding pending_ok_def by blast+
  then have n: "n \<in> set (knote_list (kqueues s q))" by (simp add: attached_def)
  have d: "n \<notin> set ns" using p pend unfolding pending_ok_def by (metis distinct.simps(2))
  have k1: "kq_keeps q s s1" unfolding s1_def
    by (rule kq_keeps_flags [OF inv w])
      (use p k pend in \<open>auto simp: same_key_def intro!: pending_drop [where q = q and N = "knotes s"]\<close>)
  show ?thesis
  proof (cases "(note_flags (knotes s1 n) AND EV_ONESHOT) \<noteq> 0")
    case True
    have "kq_inv s1" "watching q s1" using k1 by (simp_all add: kq_keeps_def)
    moreover have "n \<in> set (knote_list (kqueues s1 q))" using n by (simp add: s1_def)
    ultimately obtain s2 where "free_knote q n s1 = Some s2" "kq_keeps q s1 s2" "kqueues s2 = (kqueues s1)(q := detach_kq n (kqueues s1 q))"
      "knotes s2 = (knotes s1)(n := detach_note (knotes s1 n))" using free_knote_keeps by blast
    then show ?thesis using True d kq_keeps_trans [OF k1] by (auto simp: s1_def remove1_idem)
  next
    case False
    then show ?thesis using k1 d by (auto simp: s1_def)
  qed
qed

lemma kevent_collect_events:
  "kq_ready q s \<Longrightarrow> \<exists>s'. kevent_collect q m s = Some (map (\<lambda>n. event_of (knotes s n)) (take m (pending_list (kqueues s q))), s') \<and>
     kq_keeps q s s' \<and> pending_list (kqueues s' q) = drop m (pending_list (kqueues s q))"
proof (induction m arbitrary: s)
  case 0
  then show ?case using kq_keeps_refl by auto
next
  case (Suc m)
  show ?case
  proof (cases "pending_list (kqueues s q)")
    case Nil
    then show ?thesis using kq_keeps_refl [OF Suc.prems] by simp
  next
    case (Cons n ns)
    let ?s1 = "upd_knote n (\<lambda>k. k\<lparr>is_pending := False, on_pending_list := False\<rparr>) (upd_kqueue q (\<lambda>x. x\<lparr>pending_list := ns\<rparr>) s)"
    obtain s2 where s2: "(if (note_flags (knotes ?s1 n) AND EV_ONESHOT) \<noteq> 0 then free_knote q n ?s1 else Some ?s1) = Some s2"
      "kq_keeps q s s2" "pending_list (kqueues s2 q) = ns" "n \<notin> set ns" "\<forall>m. m \<noteq> n \<longrightarrow> knotes s2 m = knotes s m"
      using collect_step [OF Suc.prems Cons] by blast
    have "kq_ready q s2" using Suc.prems s2(2) by (rule kq_ready_keeps)
    then obtain s' where s': "kevent_collect q m s2 = Some (map (\<lambda>n. event_of (knotes s2 n)) (take m ns), s')" "kq_keeps q s2 s'"
      "pending_list (kqueues s' q) = drop m ns" using Suc.IH s2(3) by metis
    have "map (\<lambda>n. event_of (knotes s2 n)) (take m ns) = map (\<lambda>n. event_of (knotes s n)) (take m ns)"
      using s2(4, 5) by (metis (no_types, lifting) in_set_takeD map_eq_conv)
    moreover have "kevent_collect q (Suc m) s = do { (evs, t) \<leftarrow> kevent_collect q m s2; Some (event_of (knotes s n) # evs, t) }"
      unfolding kevent_collect.simps Cons list.case Let_def s2(1) bind.bind_lunit by (rule refl)
    ultimately show ?thesis using s' kq_keeps_trans [OF s2(2)] Cons by auto
  qed
qed

subsection \<open>Raising an event\<close>

lemma pending_same:
  assumes "pending_ok K N" and "kq_of k = kq_of (N n)" and "enabled k = enabled (N n)" and "is_pending k = is_pending (N n)"
    and "on_pending_list k = on_pending_list (N n)"
  shows "pending_ok K (N(n := k))"
proof -
  have "attached K (N(n := k)) m = attached K N m" for m using assms(2) by (simp add: attached_def)
  then show ?thesis using assms unfolding pending_ok_def by (auto split: if_splits)
qed

text \<open>The notes that an event puts on the pending list of \<open>q\<close>.\<close>

definition raised :: "(nat \<Rightarrow> knote) \<Rightarrow> nat \<Rightarrow> nat \<Rightarrow> bool" where
  "raised N q n \<longleftrightarrow> kq_of (N n) = q \<and> enabled (N n) \<and> \<not> is_pending (N n)"

lemma knote_one_raises:
  assumes inv: "kq_inv s" and a: "attached (kqueues s) (knotes s) n"
  shows "kq_inv (knote_one n h s)"
    and "pending_list (kqueues (knote_one n h s) q) = pending_list (kqueues s q) @ (if raised (knotes s) q n then [n] else [])"
    and "knote_list (kqueues (knote_one n h s) q) = knote_list (kqueues s q)"
    and "is_pending (knotes (knote_one n h s) n)" and "same_key (knotes (knote_one n h s) m) (knotes s m)"
    and "enabled (knotes (knote_one n h s) m) = enabled (knotes s m)"
    and "m \<noteq> n \<Longrightarrow> knotes (knote_one n h s) m = knotes s m" and "object_knotes (knote_one n h s) = object_knotes s"
    and "pending_msgs (knote_one n h s) = pending_msgs s" and "fprocs (knote_one n h s) = fprocs s"
    and "filps (knote_one n h s) = filps s" and "current (knote_one n h s) = current s"
proof -
  let ?s = "upd_knote n (\<lambda>k. k\<lparr>is_pending := True, hint := h\<rparr>) s" and ?q = "kq_of (knotes s n)"
  have p: "pending_ok (kqueues s) (knotes s)" using inv by (rule kq_inv_pending)
  have on: "on_pending_list (knotes s n) \<longleftrightarrow> enabled (knotes s n) \<and> is_pending (knotes s n)" using p by (simp add: pending_ok_def)
  have eq: "knote_one n h s = (if enabled (knotes s n) \<and> \<not> on_pending_list (knotes s n)
      then TaskWakeup (Rz_kqueue_event ?q) (put_pending ?q n ?s) else ?s)"
    by (simp add: knote_one_def Let_def)
  have "pending_ok (kqueues (knote_one n h s)) (knotes (knote_one n h s))"
  proof (cases "enabled (knotes s n)"; cases "on_pending_list (knotes s n)")
    assume "enabled (knotes s n)" "\<not> on_pending_list (knotes s n)"
    then show ?thesis using p a unfolding eq by (auto intro!: pending_put [where q = ?q and N = "knotes s"])
  next
    assume "enabled (knotes s n)" "on_pending_list (knotes s n)"
    then show ?thesis using p on unfolding eq by (auto intro!: pending_same)
  next
    assume "\<not> enabled (knotes s n)" "\<not> on_pending_list (knotes s n)"
    then show ?thesis using p a unfolding eq by (auto intro!: pending_flag)
  qed (use on in blast)
  then show "kq_inv (knote_one n h s)"
    by (rule kq_inv_flags [OF inv]) (auto simp: eq same_key_def)
  show "pending_list (kqueues (knote_one n h s) q) = pending_list (kqueues s q) @ (if raised (knotes s) q n then [n] else [])"
    using on by (auto simp: eq raised_def)
qed (auto simp: knote_one_def Let_def same_key_def put_pending_def)

lemma knote_loop_raises:
  "kq_inv s \<Longrightarrow> distinct ns \<Longrightarrow> \<forall>n\<in>set ns. attached (kqueues s) (knotes s) n \<Longrightarrow>
   kq_inv (knote_loop ns h s) \<and> (\<forall>q. pending_list (kqueues (knote_loop ns h s) q) =
      pending_list (kqueues s q) @ filter (raised (knotes s) q) ns) \<and>
   (\<forall>n\<in>set ns. is_pending (knotes (knote_loop ns h s) n)) \<and> (\<forall>n. n \<notin> set ns \<longrightarrow> knotes (knote_loop ns h s) n = knotes s n) \<and>
   (\<forall>q. knote_list (kqueues (knote_loop ns h s) q) = knote_list (kqueues s q)) \<and>
   (\<forall>n. same_key (knotes (knote_loop ns h s) n) (knotes s n) \<and> enabled (knotes (knote_loop ns h s) n) = enabled (knotes s n)) \<and>
   object_knotes (knote_loop ns h s) = object_knotes s \<and> pending_msgs (knote_loop ns h s) = pending_msgs s \<and>
   fprocs (knote_loop ns h s) = fprocs s \<and> filps (knote_loop ns h s) = filps s \<and> current (knote_loop ns h s) = current s"
proof (induction ns arbitrary: s)
  case Nil
  then show ?case by (simp add: same_key_def)
next
  case (Cons n ns)
  have a: "attached (kqueues s) (knotes s) n" using Cons.prems by simp
  let ?s = "knote_one n h s"
  note one = knote_one_raises [OF Cons.prems(1) a, where h = h]
  have "\<forall>m\<in>set ns. attached (kqueues ?s) (knotes ?s) m"
    using Cons.prems(3) one(3, 5) by (simp add: attached_def same_key_def)
  then have IH: "kq_inv (knote_loop ns h ?s)"
    "\<forall>q. pending_list (kqueues (knote_loop ns h ?s) q) = pending_list (kqueues ?s q) @ filter (raised (knotes ?s) q) ns"
    "\<forall>m\<in>set ns. is_pending (knotes (knote_loop ns h ?s) m)" "\<forall>m. m \<notin> set ns \<longrightarrow> knotes (knote_loop ns h ?s) m = knotes ?s m"
    "\<forall>q. knote_list (kqueues (knote_loop ns h ?s) q) = knote_list (kqueues ?s q)"
    "\<forall>m. same_key (knotes (knote_loop ns h ?s) m) (knotes ?s m) \<and> enabled (knotes (knote_loop ns h ?s) m) = enabled (knotes ?s m)"
    "object_knotes (knote_loop ns h ?s) = object_knotes ?s" "pending_msgs (knote_loop ns h ?s) = pending_msgs ?s"
    "fprocs (knote_loop ns h ?s) = fprocs ?s" "filps (knote_loop ns h ?s) = filps ?s" "current (knote_loop ns h ?s) = current ?s"
    using Cons.IH [of ?s] one(1) Cons.prems(2) by auto
  have "knotes ?s m = knotes s m" if "m \<in> set ns" for m using one(7) Cons.prems(2) that by (cases "m = n") auto
  then have "filter (raised (knotes ?s) q) ns = filter (raised (knotes s) q) ns" for q
    by (intro filter_cong) (auto simp: raised_def)
  then show ?case using IH one Cons.prems(2) by (auto simp: same_key_def)
qed

lemma knote_object_free: "kqueue_free_list (knote_object ob h s) = kqueue_free_list s"
proof -
  have "kqueue_free_list (knote_loop ns h s) = kqueue_free_list s" for ns
    by (induction ns arbitrary: s) (simp_all add: knote_one_def Let_def put_pending_def)
  then show ?thesis by (simp add: knote_object_def)
qed

lemma knote_object_raises:
  assumes inv: "kq_inv s"
  shows "kq_inv (knote_object ob h s)" and "pending_list (kqueues (knote_object ob h s) q) =
      pending_list (kqueues s q) @ filter (raised (knotes s) q) (object_knotes s ob)"
    and "n \<in> set (object_knotes s ob) \<Longrightarrow> is_pending (knotes (knote_object ob h s) n)"
    and "knote_list (kqueues (knote_object ob h s) q) = knote_list (kqueues s q)"
    and "same_key (knotes (knote_object ob h s) n) (knotes s n)"
    and "pending_msgs (knote_object ob h s) = pending_msgs s" and "fprocs (knote_object ob h s) = fprocs s"
    and "filps (knote_object ob h s) = filps s" and "current (knote_object ob h s) = current s"
proof -
  have "distinct (object_knotes s ob)" "\<forall>n\<in>set (object_knotes s ob). attached (kqueues s) (knotes s) n"
    using inv by (simp_all add: kq_inv_def objects_ok_def)
  from knote_loop_raises [OF inv this, where h = h] show "kq_inv (knote_object ob h s)" "pending_list (kqueues (knote_object ob h s) q) =
      pending_list (kqueues s q) @ filter (raised (knotes s) q) (object_knotes s ob)"
    "n \<in> set (object_knotes s ob) \<Longrightarrow> is_pending (knotes (knote_object ob h s) n)"
    "knote_list (kqueues (knote_object ob h s) q) = knote_list (kqueues s q)"
    "same_key (knotes (knote_object ob h s) n) (knotes s n)" "pending_msgs (knote_object ob h s) = pending_msgs s"
    "fprocs (knote_object ob h s) = fprocs s" "filps (knote_object ob h s) = filps s" "current (knote_object ob h s) = current s"
    unfolding knote_object_def by blast+
qed

section \<open>The hash of a note\<close>

lemma hash_low_bits:
  assumes "0 \<le> f" and "f < 64"
  shows "take_bit 6 (push_bit 8 idn OR (word_of_int f :: u32)) = word_of_int f"
proof (rule bit_word_eqI)
  fix i
  have "take_bit 6 f = f" using assms by (simp add: take_bit_int_eq_self_iff)
  then have "bit f i \<Longrightarrow> i < 6" by (metis bit_take_bit_iff)
  then show "bit (take_bit 6 (push_bit 8 idn OR (word_of_int f :: u32))) i \<longleftrightarrow> bit (word_of_int f :: u32) i"
    by (auto simp: bit_simps)
qed

lemma hash_uint_mod:
  assumes "0 \<le> f" and "f < 64"
  shows "uint (push_bit 8 idn OR (word_of_int f :: u32)) mod 64 = f"
proof -
  let ?w = "push_bit 8 idn OR (word_of_int f :: u32)"
  have "uint ?w mod 64 = take_bit 6 (uint ?w)" by (simp add: take_bit_eq_mod)
  also have "\<dots> = uint (take_bit 6 ?w)" by (rule unsigned_take_bit_eq [symmetric])
  also have "\<dots> = f" unfolding hash_low_bits [OF assms] using assms
    by (simp add: unsigned_of_int take_bit_int_eq_self)
  finally show ?thesis .
qed

lemma sint_u32: "sint (w :: u32) = (if bit w 31 then uint w - 2 ^ 32 else uint w)"
proof -
  have "sint w = take_bit 32 (uint w) - 2 ^ 32 * of_bool (bit (uint w) 31)"
    unfolding sint_uint by (simp add: signed_take_bit_eq_take_bit_minus)
  moreover have "take_bit 32 (uint w) = uint w" 
    using uint_lt2p [of w] by (simp add: take_bit_int_eq_self)
  ultimately show ?thesis by (simp add: bit_uint_iff)
qed

lemma hash_range:
  assumes "0 \<le> f" and "f < EVFILT_SYSCOUNT"
  shows "hash_index idn f = (if bit idn 23 \<and> f \<noteq> 0 then None else Some (nat f))"
proof -
  let ?w = "push_bit 8 idn OR (word_of_int f :: u32)"
  have f: "f < 64" using assms by (simp add: EVFILT_SYSCOUNT_def)
  have m: "uint ?w mod 64 = f" by (rule hash_uint_mod [OF assms(1) f])
  have "take_bit 6 f = f" using assms(1) f by (simp add: take_bit_int_eq_self)
  then have "bit f 31 \<longleftrightarrow> bit (take_bit 6 f) 31" by simp
  then have "\<not> bit f 31" by (simp add: bit_take_bit_iff)
  then have b: "bit ?w 31 \<longleftrightarrow> bit idn 23" by (simp add: bit_simps)
  have u: "0 \<le> uint ?w" "uint ?w < 2 ^ 32" using uint_lt2p [of ?w] by simp_all
  have "knote_calc_hash idn f = (if bit idn 23 then - ((- f) mod 64) else f)"
  proof (cases "bit idn 23")
    case True
    have "(2 ^ 32 - uint ?w) mod 64 = (2 ^ 32 - uint ?w mod 64) mod 64" by (rule mod_diff_right_eq [symmetric])
    also have "\<dots> = (- f) mod 64" unfolding m using mod_add_eq [of "2 ^ 32" 64 "- f"] by simp
    finally show ?thesis using True b u by (simp add: knote_calc_hash_def crem_def KNOTE_HASH_SZ_def sint_u32)
  next
    case False
    then show ?thesis using b u m by (simp add: knote_calc_hash_def crem_def KNOTE_HASH_SZ_def sint_u32)
  qed
  moreover have "f \<noteq> 0 \<Longrightarrow> (- f) mod 64 = 64 - f" using assms(1) f by (simp add: zmod_zminus1_eq_if)
  ultimately show ?thesis using assms(1) f by (auto simp: hash_index_def Let_def)
qed

text \<open>The hash of a note is its filter alone, whatever descriptor it watches, so that all notes of a filter
  share one bucket.  An identifier with bit 23 set gives a negative index, outside the table, unless
  the filter is 0.\<close>

theorem knote_hash_range:
  assumes "0 \<le> f" and "f < EVFILT_SYSCOUNT"
  shows "hash_index idn f = (if bit idn 23 \<and> f \<noteq> 0 then None else Some (nat f))"
  using assms by (rule hash_range)

theorem knote_hash_range_witness: "hash_index (shl1 4) 9 = Some 9 \<and> hash_index (shl1 23) 9 = None"
  using knote_hash_range [of 9 "shl1 4"] knote_hash_range [of 9 "shl1 23"] by (simp add: EVFILT_SYSCOUNT_def bit_shl1_iff)

section \<open>Correctness\<close>

text \<open>
  A kernel for concrete runs: process 0 has kqueue 0 as descriptor 0 and the mount of superblock 5 as
  descriptor 1; no note is in use.
\<close>

definition zero_knote :: knote where
  "zero_knote = \<lparr>kq_of = 0, enabled = False, is_pending = False, on_pending_list = False, hint = 0, ident = 0, filter_nr = 0,
     note_flags = 0, note_fflags = 0, udata = 0, object = None\<rparr>"

definition demo_fproc :: fproc where
  "demo_fproc = no_fproc\<lparr>fd_table := [0 \<mapsto> 0, 1 \<mapsto> 1], fd_in_use_set := (\<lambda>fd. fd < 2)\<rparr>"

definition demo_filps :: "nat \<Rightarrow> filp" where
  "demo_filps f = no_filp\<lparr>ftype := (if f = 0 then FILP_TYPE_KQUEUE else FILP_TYPE_SUPERBLOCK),
     fitem := Some (if f = 0 then 0 else 5), reference_cnt := 1\<rparr>"

definition demo_events :: events where
  "demo_events = files.extend (zero_files\<lparr>fprocs := [0 \<mapsto> demo_fproc], filps := demo_filps\<rparr>)
     (events.fields (\<lambda>_. \<lparr>busy = False, kq_reference_cnt = 1, knote_list = [], pending_list = []\<rparr>) [1, 2]
       (\<lambda>_. zero_knote) [0, 1, 2] (\<lambda>_. []) (\<lambda>_. []) (\<lambda>_. []))"

lemma demo_events_sel [simp]:
  "current demo_events = 0" "fprocs demo_events = [0 \<mapsto> demo_fproc]" "filps demo_events = demo_filps"
  "kqueues demo_events = (\<lambda>_. \<lparr>busy = False, kq_reference_cnt = 1, knote_list = [], pending_list = []\<rparr>)"
  "knotes demo_events = (\<lambda>_. zero_knote)" "knote_free_list demo_events = [0, 1, 2]" "kqueue_free_list demo_events = [1, 2]"
  "knote_hash demo_events = (\<lambda>_. [])" "object_knotes demo_events = (\<lambda>_. [])" "pending_msgs demo_events = (\<lambda>_. [])"
  by (simp_all add: demo_events_def zero_files_def zero_timers_def zero_sched_def sched.defs timers.defs files.defs events.defs)

lemma demo_events_ready: "kq_ready 0 demo_events"
  by (simp add: kq_ready_def kq_inv_def pending_ok_def owned_ok_def hashed_ok_def objects_ok_def attached_def watching_def
      zero_knote_def)

text \<open>An entry that adds a note for messages on the mount of descriptor 1.\<close>

definition demo_change :: kevent where
  "demo_change = \<lparr>ev_ident = 1, ev_filter = 10, ev_flags = EV_ADD, ev_fflags = 0, ev_udata = 7\<rparr>"

lemma demo_change_ok: "change_ok demo_change"
  using hash_range [of 10 1] by (simp add: change_ok_def demo_change_def EVFILT_SYSCOUNT_def bit_1_iff)

text \<open>C19: Whatever list of changes a process submits, as long as the indices of the hash are in range and the
  descriptors of its notes still refer to the watched objects, \<open>kevent\<close> does not fail, and afterwards a
  note is on the list of pending notes of its kqueue, once, exactly if it is enabled and has an event
  pending.  Raising an event on any object keeps this true.\<close>

theorem kevent_exact:
  assumes "kq_ready q s" and "\<forall>ev\<in>set evs. change_ok ev"
  shows "\<exists>r s'. kevent_changes q evs s = Some (r, s') \<and> kq_ready q s' \<and>
    (\<forall>t\<in>{s', knote_object ob h s'}. \<forall>p n. distinct (pending_list (kqueues t p)) \<and>
      (n \<in> set (pending_list (kqueues t p)) \<longleftrightarrow>
         kq_of (knotes t n) = p \<and> enabled (knotes t n) \<and> is_pending (knotes t n)))"
proof -
  obtain r s' where s': "kevent_changes q evs s = Some (r, s')" "kq_keeps q s s'"
    using kevent_changes_keeps [OF assms] by blast
  have rdy: "kq_ready q s'" using assms(1) s'(2) by (rule kq_ready_keeps)
  then have "kq_inv s'" by (simp add: kq_ready_def)
  then have "pending_ok (kqueues s') (knotes s')" "pending_ok (kqueues (knote_object ob h s')) (knotes (knote_object ob h s'))"
    using kq_inv_pending knote_object_raises(1) by blast+
  then show ?thesis using s'(1) rdy by (auto simp: pending_ok_def)
qed

theorem kevent_exact_witness:
  "\<exists>r s'. kevent_changes 0 [demo_change] demo_events = Some (r, s') \<and> kq_ready 0 s' \<and> distinct (pending_list (kqueues s' 0))"
  using kevent_exact [OF demo_events_ready, of "[demo_change]"] demo_change_ok by fastforce

text \<open>C20: No event is lost and none is reported twice.  An event on an object adds its enabled notes that were
  not pending to the pending lists, in the order of the object's list; a waiting \<open>kevent\<close> then returns
  the events of the notes of its kqueue in the order in which they became pending, as many as fit, keeps
  the others pending and releases the kqueue.\<close>

theorem kevent_reports:
  assumes "kq_ready q s" and "m > 0" and "pending_list (kqueues s q) @ filter (raised (knotes s) q) (object_knotes s ob) = ns"
    and "ns \<noteq> []"
  shows "\<exists>s'. kevent_wait q m t (knote_object ob h s) =
      Some (KDone (Inr (map (\<lambda>n. event_of (knotes (knote_object ob h s) n)) (take m ns))), s') \<and>
    pending_list (kqueues s' q) = drop m ns \<and> \<not> busy (kqueues s' q) \<and> kq_inv s'"
proof -
  let ?s = "knote_object ob h s"
  have inv: "kq_inv s" using assms(1) by (simp add: kq_ready_def)
  note R = knote_object_raises [OF inv, where ob = ob and h = h]
  have fds: "same_fds ?s s" using R(7-9) by (simp add: same_fds_def)
  have "watching q ?s" using assms(1) R(4, 5) by (intro watching_step [OF fds]) (auto simp: kq_ready_def same_key_def)
  then have rdy: "kq_ready q ?s" using assms(1) R(1, 7, 9) by (simp add: kq_ready_def knote_object_free)
  have p: "pending_list (kqueues ?s q) = ns" using R(2) assms(3) by simp
  obtain s' where s': "kevent_collect q m ?s = Some (map (\<lambda>n. event_of (knotes ?s n)) (take m ns), s')" "kq_keeps q ?s s'"
    "pending_list (kqueues s' q) = drop m ns" using kevent_collect_events [OF rdy, of m] p by auto
  let ?t = "TaskWakeup (Rz_kqueue_busy q) (upd_kqueue q (\<lambda>x. x\<lparr>busy := False\<rparr>) s')"
  have inv': "kq_inv s'" using s'(2) by (simp add: kq_keeps_def)
  have "kq_inv ?t" by (rule kq_inv_flags [OF inv'])
    (use kq_inv_pending [OF inv'] in \<open>auto simp: same_key_def pending_ok_def attached_def\<close>)
  then show ?thesis using s' p assms(4) by (simp add: kevent_wait_def kevent_finish_def)
qed

text \<open>The note that \<open>demo_change\<close> adds, on a mount where no message waits.\<close>

definition noted_events :: "events option" where
  "noted_events = do { (_, s) \<leftarrow> kevent_changes 0 [demo_change] demo_events; Some s }"

lemma noted_events_run:
  "\<exists>s. noted_events = Some s \<and> kq_ready 0 s \<and> object_knotes s (Obj_superblock 5) = [0] \<and> pending_list (kqueues s 0) = [] \<and>
     raised (knotes s) 0 0"
proof -
  have h: "hash_index 1 10 = Some 10" using hash_range [of 10 1] by (simp add: EVFILT_SYSCOUNT_def bit_1_iff)
  have f: "(EV_ADD AND (EV_ADD OR EV_DELETE)) \<noteq> (EV_ADD OR EV_DELETE)" "(EV_ADD AND (EV_ENABLE OR EV_DISABLE)) \<noteq> (EV_ENABLE OR EV_DISABLE)"
    "(EV_ADD AND EV_ADD) \<noteq> 0" "(EV_ADD AND EV_DISABLE) = 0" "((EV_ADD OR EV_ENABLE) AND EV_DELETE) = 0"
    "((EV_ADD OR EV_ENABLE) AND EV_ENABLE) \<noteq> 0" "((EV_ADD OR EV_ENABLE) AND EV_DISABLE) = 0"
    by (code_simp+)
  have s: "sint (1 :: u32) = 1" by simp
  have "\<exists>s. kevent_changes 0 [demo_change] demo_events = Some (Inr (), s) \<and> object_knotes s (Obj_superblock 5) = [0] \<and>
     pending_list (kqueues s 0) = [] \<and> raised (knotes s) 0 0"
    using f by (simp add: kevent_change_def demo_change_def EVFILT_SYSCOUNT_def get_knote_def h alloc_knote_def Let_def
      watched_object_def get_superblock_def get_fd_item_def get_filp_def OPEN_MAX_def demo_fproc_def demo_filps_def
      enable_knote_def kpeekmsg_def raised_def s zero_knote_def)
  then obtain s where s: "kevent_changes 0 [demo_change] demo_events = Some (Inr (), s)" "object_knotes s (Obj_superblock 5) = [0]"
     "pending_list (kqueues s 0) = []" "raised (knotes s) 0 0" by blast
  moreover have "kq_ready 0 s" using kevent_changes_keeps [OF demo_events_ready, of "[demo_change]"] demo_change_ok s(1)
    kq_ready_keeps [OF demo_events_ready] by fastforce
  ultimately show ?thesis by (simp add: noted_events_def)
qed

theorem kevent_reports_witness:
  "\<exists>s ev s'. noted_events = Some s \<and>
     kevent_wait 0 4 None (knote_object (Obj_superblock 5) NOTE_MSG s) = Some (KDone (Inr [ev]), s') \<and> pending_list (kqueues s' 0) = []"
proof -
  obtain s where s: "noted_events = Some s" "kq_ready 0 s" "object_knotes s (Obj_superblock 5) = [0]" "pending_list (kqueues s 0) = []"
    "raised (knotes s) 0 0" using noted_events_run by blast
  from kevent_reports [OF s(2), of 4 "Obj_superblock 5" "[0]" None NOTE_MSG] s show ?thesis by auto
qed

text \<open>A \<open>kevent\<close> call that is rejected leaves its kqueue locked: the error exit does not clear the busy flag,
  and every later call on the kqueue only goes to sleep.\<close>

theorem kevent_error_locks:
  assumes "get_kqueue (current s) fd s = Some (Some q)" and "\<not> busy (kqueues s q)"
    and "ev_filter ev < 0 \<or> ev_filter ev \<ge> EVFILT_SYSCOUNT"
  shows "\<exists>s'. sys_kevent fd (ev # evs) m t s = Some (KDone (Inl EINVAL), s') \<and> busy (kqueues s' q) \<and>
    (\<forall>evs' m' t'. sys_kevent fd evs' m' t' s' = do { s \<leftarrow> TaskSleep (Rz_kqueue_busy q) s'; Some (KBusy, s) })"
proof -
  let ?s = "upd_kqueue q (\<lambda>x. x\<lparr>busy := True\<rparr>) s"
  have "get_kqueue (current ?s) fd ?s = Some (Some q)"
    using assms(1) get_fd_item_cong [of ?s s] by (simp add: get_kqueue_def)
  then show ?thesis using assms by (intro exI [of _ ?s]) (auto simp: sys_kevent_def kevent_change_def Let_def)
qed

theorem kevent_error_locks_witness:
  "\<exists>s'. sys_kevent 0 [demo_change\<lparr>ev_filter := 11\<rparr>] 1 None demo_events = Some (KDone (Inl EINVAL), s') \<and> busy (kqueues s' 0)"
  using kevent_error_locks [of demo_events 0 0 "demo_change\<lparr>ev_filter := 11\<rparr>" "[]" 1 None]
  by (auto simp: get_kqueue_def get_fd_item_def get_filp_def OPEN_MAX_def demo_fproc_def demo_filps_def EVFILT_SYSCOUNT_def)

text \<open>
  The notes of a closed kqueue are not freed.  A kqueue that is closed and opened again has an empty
  list of notes, but its hash lookup still finds the notes of the previous owner.
\<close>

lemma reused_kqueue_finds_notes:
  assumes "get_knote q ev s = Some (Some n)" and "kq_reference_cnt (kqueues s q) = 1"
  shows "\<exists>s'. alloc_kqueue (free_kqueue q s) = (Some q, s') \<and> knote_list (kqueues s' q) = [] \<and> get_knote q ev s' = Some (Some n)"
  using assms by (auto simp: alloc_kqueue_def free_kqueue_def Let_def get_knote_def InitRendez_def upd_kqueue_def)

end
