(* ===== verification/Messages.thy ===== *)
theory Messages
  imports Kqueue
begin

unbundle bit_operations_syntax

text \<open>
  Message passing between the kernel and the servers of mounted file systems, \<^verbatim>\<open>kernel/fs/msg.c\<close>.  The kernel
  puts a request on the message port of a mount; the server takes it with \<open>sys_getmsg\<close>, which gives it an
  identifier in the backlog of the mount, reads and writes its parts, and replies; the sender then
  continues with the reply.  A message is a list of parts to send and a list of parts to receive
  into, each a list of bytes.  The buffers of the server in user space are parameters: \<open>src off n\<close> is what
  \<open>CopyIn\<close> reads there, \<open>None\<close> when it faults.
\<close>

section \<open>State\<close>

record msg =
  msg_port :: "port option"
  reply_port :: "port option"
  reply_status :: int
  siov :: "u8 list list"
  riov :: "u8 list list"

record msg_backlog =
  backlog_sz :: int
  free_bitmap :: u32
  backlog_msg :: "nat \<Rightarrow> msg_id option"

record msgs = events +
  msg_tab :: "msg_id \<Rightarrow> msg"
  backlogs :: "nat \<Rightarrow> msg_backlog"

type_synonym user_buf = "nat \<Rightarrow> nat \<Rightarrow> u8 list option"

definition MAX_MSG_BACKLOG :: nat where
  "MAX_MSG_BACKLOG = 32"

definition upd_msg :: "msg_id \<Rightarrow> (msg \<Rightarrow> msg) \<Rightarrow> 'a msgs_scheme \<Rightarrow> 'a msgs_scheme" where
  "upd_msg m f s = s\<lparr>msg_tab := (msg_tab s)(m := f (msg_tab s m))\<rparr>"

definition set_backlog :: "nat \<Rightarrow> msg_backlog \<Rightarrow> 'a msgs_scheme \<Rightarrow> 'a msgs_scheme" where
  "set_backlog b x s = s\<lparr>backlogs := (backlogs s)(b := x)\<rparr>"

definition port_rendez :: "port \<Rightarrow> rendez" where
  "port_rendez p = (case p of Mount_port b \<Rightarrow> Rz_msgport b | Reply_port c \<Rightarrow> Rz_reply_port c)"

section \<open>Identifiers of messages\<close>

text \<open>The result \<open>None\<close> is a shift by 32 or more, or an access outside the table of 32 messages.\<close>

fun backlog_mask :: "nat \<Rightarrow> u32 option" where
  "backlog_mask 0 = Some 0"
| "backlog_mask (Suc t) = do { w \<leftarrow> backlog_mask t; if t < 32 then Some (w OR shl1 t) else None }"

definition init_msgbacklog :: "int \<Rightarrow> msg_backlog option" where
  "init_msgbacklog sz = do {
     w \<leftarrow> backlog_mask (nat sz);
     Some \<lparr>backlog_sz = sz, free_bitmap = w, backlog_msg = (\<lambda>_. None)\<rparr>
   }"

definition assign_msgid :: "nat \<Rightarrow> msg_id \<Rightarrow> msg_backlog \<Rightarrow> msg_backlog option" where
  "assign_msgid t m x =
     (if t < MAX_MSG_BACKLOG then Some (x\<lparr>backlog_msg := (backlog_msg x)(t := Some m)\<rparr>) else None)"

definition msgid_to_msg :: "int \<Rightarrow> msg_backlog \<Rightarrow> msg_id option option" where
  "msgid_to_msg t x =
     (if t < 0 \<or> t \<ge> backlog_sz x then Some None
      else if nat t \<ge> MAX_MSG_BACKLOG then None
      else if (free_bitmap x AND shl1 (nat t)) \<noteq> 0 then Some None
      else Some (backlog_msg x (nat t)))"

text \<open>The loop of \<open>alloc_msgid\<close> over \<open>n\<close> identifiers from \<open>t\<close>.\<close>

fun alloc_msgid_loop :: "nat \<Rightarrow> nat \<Rightarrow> u32 \<Rightarrow> nat option option" where
  "alloc_msgid_loop t 0 w = Some None"
| "alloc_msgid_loop t (Suc n) w =
     (if t \<ge> 32 then None else if (w AND shl1 t) \<noteq> 0 then Some (Some t) else alloc_msgid_loop (Suc t) n w)"

definition alloc_msgid :: "msg_backlog \<Rightarrow> (nat option \<times> msg_backlog) option" where
  "alloc_msgid x =
     (if free_bitmap x = 0 then Some (None, x)
      else do {
        to \<leftarrow> alloc_msgid_loop 0 (nat (backlog_sz x)) (free_bitmap x);
        case to of
          None \<Rightarrow> Some (None, x)
        | Some t \<Rightarrow> Some (Some t, x\<lparr>free_bitmap := free_bitmap x AND NOT (shl1 t)\<rparr>)
      })"

definition free_msgid :: "int \<Rightarrow> msg_backlog \<Rightarrow> msg_backlog option" where
  "free_msgid t x =
     (if t < 0 \<or> t \<ge> backlog_sz x then Some x
      else if nat t \<ge> MAX_MSG_BACKLOG then None
      else Some (x\<lparr>free_bitmap := free_bitmap x OR shl1 (nat t), backlog_msg := (backlog_msg x)(nat t := None)\<rparr>))"

section \<open>Message ports\<close>

definition init_msgport :: "port \<Rightarrow> 'a msgs_scheme \<Rightarrow> 'a msgs_scheme" where
  "init_msgport p s =
     (let s = s\<lparr>pending_msgs := (pending_msgs s)(p := [])\<rparr>;
          s = (case p of Mount_port b \<Rightarrow> s\<lparr>object_knotes := (object_knotes s)(Obj_superblock b := [])\<rparr> | Reply_port c \<Rightarrow> s)
      in InitRendez (port_rendez p) s)"

definition fini_msgport :: "port \<Rightarrow> 'a msgs_scheme \<Rightarrow> 'a msgs_scheme" where
  "fini_msgport p s = s"

definition kgetmsg :: "port \<Rightarrow> 'a msgs_scheme \<Rightarrow> msg_id option \<times> 'a msgs_scheme" where
  "kgetmsg p s =
     (case pending_msgs s p of
        [] \<Rightarrow> (None, s)
      | m # ms \<Rightarrow> (Some m, s\<lparr>pending_msgs := (pending_msgs s)(p := ms)\<rparr>))"

text \<open>No note is ever attached to the port a process receives its replies on.\<close>

definition kputmsg :: "port \<Rightarrow> msg_id \<Rightarrow> 'a msgs_scheme \<Rightarrow> 'a msgs_scheme" where
  "kputmsg p m s =
     (let s = upd_msg m (\<lambda>x. x\<lparr>msg_port := Some p\<rparr>) s;
          s = s\<lparr>pending_msgs := (pending_msgs s)(p := pending_msgs s p @ [m])\<rparr>
      in case p of Mount_port b \<Rightarrow> knote_object (Obj_superblock b) NOTE_MSG s | Reply_port c \<Rightarrow> s)"

definition kreplymsg :: "msg_id \<Rightarrow> 'a msgs_scheme \<Rightarrow> 'a msgs_scheme option" where
  "kreplymsg m s = do {
     rp \<leftarrow> reply_port (msg_tab s m);
     let s = upd_msg m (\<lambda>x. x\<lparr>msg_port := Some rp\<rparr>) s;
     let s = s\<lparr>pending_msgs := (pending_msgs s)(rp := pending_msgs s rp @ [m])\<rparr>;
     Some (TaskWakeup (port_rendez rp) s)
   }"

text \<open>A wait that has to sleep returns \<open>Blocked\<close>; a timed one continues with \<open>kwaitport_resume\<close>.\<close>

definition kwaitport ::
  "port \<Rightarrow> timespec option \<Rightarrow> 'a msgs_scheme \<Rightarrow> (unit result sys \<times> 'a msgs_scheme) option" where
  "kwaitport p timeout s =
     (if pending_msgs s p = [] then do {
        s \<leftarrow> (case timeout of None \<Rightarrow> TaskSleep (port_rendez p) s | Some ts \<Rightarrow> TaskTimedSleep (port_rendez p) ts s);
        Some (Blocked, s)
      }
      else Some (Done (Inr ()), s))"

definition kwaitport_resume ::
  "port \<Rightarrow> timespec option \<Rightarrow> 'a msgs_scheme \<Rightarrow> (unit result sys \<times> 'a msgs_scheme) option" where
  "kwaitport_resume p timeout s =
     (case timeout of
        None \<Rightarrow> kwaitport p timeout s
      | Some ts \<Rightarrow> do {
          (r, s) \<leftarrow> TaskTimedSleep_resume s;
          case r of Inl _ \<Rightarrow> Some (Done (Inl ETIMEDOUT), s) | Inr _ \<Rightarrow> kwaitport p timeout s
        })"

text \<open>Sending: the message is filled in and posted; the sender then waits on its reply port.\<close>

definition ksendmsg_post :: "nat \<Rightarrow> u8 list list \<Rightarrow> u8 list list \<Rightarrow> 'a msgs_scheme \<Rightarrow> 'a msgs_scheme" where
  "ksendmsg_post b si ri s =
     (let c = current s;
          s = upd_msg (Proc_msg c) (\<lambda>x. x\<lparr>reply_port := Some (Reply_port c), siov := si, riov := ri, reply_status := 0\<rparr>) s
      in kputmsg (Mount_port b) (Proc_msg c) s)"

definition ksendmsg_wait :: "'a msgs_scheme \<Rightarrow> (int sys \<times> 'a msgs_scheme) option" where
  "ksendmsg_wait s = do {
     let c = current s;
     (r, s) \<leftarrow> kwaitport (Reply_port c) None s;
     case r of
       Blocked \<Rightarrow> Some (Blocked, s)
     | Done _ \<Rightarrow>
         (let (_, s) = kgetmsg (Reply_port c) s
          in Some (Done (reply_status (msg_tab s (Proc_msg c))), s))
   }"

definition ksendmsg ::
  "nat \<Rightarrow> u8 list list \<Rightarrow> u8 list list \<Rightarrow> 'a msgs_scheme \<Rightarrow> (int sys \<times> 'a msgs_scheme) option" where
  "ksendmsg b si ri s = ksendmsg_wait (ksendmsg_post b si ri s)"

definition sys_sendrec :: "int \<Rightarrow> 'a msgs_scheme \<Rightarrow> unit result \<times> 'a msgs_scheme" where
  "sys_sendrec fd s = (Inl ENOSYS, s)"

section \<open>The parts of a message\<close>

text \<open>\<open>seekiov\<close> from part \<open>i\<close> at \<open>base\<close>: the part that holds the offset, and the bytes of it that remain.\<close>

fun seekiov_loop :: "u8 list list \<Rightarrow> int \<Rightarrow> int \<Rightarrow> nat \<Rightarrow> (nat \<times> nat) result" where
  "seekiov_loop [] offset base i = Inl EINVAL"
| "seekiov_loop (v # vs) offset base i =
     (if offset \<ge> base \<and> offset < base + int (length v) then Inr (i, nat (base + int (length v) - offset))
      else seekiov_loop vs offset (base + int (length v)) (Suc i))"

definition seekiov :: "u8 list list \<Rightarrow> int \<Rightarrow> (nat \<times> nat) result" where
  "seekiov iov offset = seekiov_loop iov offset 0 0"

fun getmsg_loop :: "u8 list list \<Rightarrow> nat \<Rightarrow> nat \<Rightarrow> u8 list" where
  "getmsg_loop [] buf_sz nread = []"
| "getmsg_loop (v # vs) buf_sz nread =
     (if nread < buf_sz then
        (let remaining = buf_sz - nread; n = (if length v < remaining then length v else remaining)
         in take n v @ getmsg_loop vs buf_sz (nread + n))
      else [])"

text \<open>
  The loop of \<open>sys_readmsg\<close> over the parts from the current one, of which \<open>r\<close> bytes remain.  After the last
  part the code reads the size of one more, which it does not use.
\<close>

definition next_size :: "u8 list list \<Rightarrow> nat" where
  "next_size vs = (case vs of [] \<Rightarrow> 0 | v # _ \<Rightarrow> length v)"

fun readmsg_loop :: "u8 list list \<Rightarrow> nat \<Rightarrow> nat \<Rightarrow> nat \<Rightarrow> u8 list" where
  "readmsg_loop [] r buf_sz nread = []"
| "readmsg_loop (v # vs) r buf_sz nread =
     (if nread < buf_sz then
        (let remaining = buf_sz - nread; n = (if remaining < r then remaining else r)
         in take n (drop (length v - r) v) @ readmsg_loop vs (next_size vs) buf_sz (nread + n))
      else [])"

text \<open>The loop of \<open>sys_writemsg\<close>: the parts after it, and the number of bytes written.\<close>

fun writemsg_loop :: "u8 list list \<Rightarrow> nat \<Rightarrow> user_buf \<Rightarrow> nat \<Rightarrow> nat \<Rightarrow> u8 list list \<times> nat" where
  "writemsg_loop [] r src buf_sz nwritten = ([], nwritten)"
| "writemsg_loop (v # vs) r src buf_sz nwritten =
     (if nwritten < buf_sz then
        (let remaining = buf_sz - nwritten; n = (if r < remaining then r else remaining)
         in case src nwritten n of
              None \<Rightarrow> (v # vs, nwritten)
            | Some bs \<Rightarrow>
                (let v' = take (length v - r) v @ bs @ drop (length v - r + n) v;
                     (vs', k) = writemsg_loop vs (next_size vs) src buf_sz (nwritten + n)
                 in (v' # vs', k)))
      else (v # vs, nwritten))"

text \<open>The loop of \<open>sys_replymsg\<close>.\<close>

fun replymsg_loop :: "u8 list list \<Rightarrow> nat \<Rightarrow> user_buf \<Rightarrow> nat \<Rightarrow> nat \<Rightarrow> u8 list list" where
  "replymsg_loop [] r src buf_sz nwritten = []"
| "replymsg_loop (v # vs) r src buf_sz nwritten =
     (if nwritten < buf_sz then
        (let remaining = buf_sz - nwritten; n = (if length v < remaining then length v else remaining)
         in case src nwritten n of
              None \<Rightarrow> v # vs
            | Some bs \<Rightarrow>
                (take (length v - r) v @ bs @ drop (length v - r + n) v)
                  # replymsg_loop vs (next_size vs) src buf_sz (nwritten + n))
      else v # vs)"

section \<open>System calls of a server\<close>

text \<open>
  The result of \<open>sys_getmsg\<close> is 0 when no message waits, modelled as \<open>Inr None\<close>, and otherwise the
  identifier and the bytes copied out.
\<close>

definition sys_getmsg ::
  "int \<Rightarrow> nat \<Rightarrow> 'a msgs_scheme \<Rightarrow> ((nat \<times> u8 list) option result \<times> 'a msgs_scheme) option" where
  "sys_getmsg fd buf_sz s = do {
     bo \<leftarrow> get_superblock (current s) fd s;
     case bo of
       None \<Rightarrow> Some (Inl EINVAL, s)
     | Some b \<Rightarrow> do {
         (t, x) \<leftarrow> alloc_msgid (backlogs s b);
         let s = set_backlog b x s;
         case t of
           None \<Rightarrow> Some (Inl EAGAIN, s)
         | Some t \<Rightarrow>
             (case kgetmsg (Mount_port b) s of
                (None, s) \<Rightarrow> do {
                  x \<leftarrow> free_msgid (int t) (backlogs s b);
                  Some (Inr None, set_backlog b x s)
                }
              | (Some m, s) \<Rightarrow> do {
                  x \<leftarrow> assign_msgid t m (backlogs s b);
                  let s = set_backlog b x s;
                  Some (Inr (Some (t, getmsg_loop (siov (msg_tab s m)) buf_sz 0)), s)
                })
       }
   }"

text \<open>\<open>brelse\<close> is \<open>bdflush_brelse\<close> of the file cache, for a message that nobody waits for.\<close>

definition sys_replymsg ::
  "(msg_id \<Rightarrow> 'a msgs_scheme \<Rightarrow> 'a msgs_scheme option) \<Rightarrow> int \<Rightarrow> int \<Rightarrow> int \<Rightarrow> user_buf \<Rightarrow> nat \<Rightarrow> 'a msgs_scheme \<Rightarrow>
   (unit result \<times> 'a msgs_scheme) option" where
  "sys_replymsg brelse fd msgid status src buf_sz s = do {
     bo \<leftarrow> get_superblock (current s) fd s;
     case bo of
       None \<Rightarrow> Some (Inl EINVAL, s)
     | Some b \<Rightarrow> do {
         mo \<leftarrow> msgid_to_msg msgid (backlogs s b);
         case mo of
           None \<Rightarrow> Some (Inl EINVAL, s)
         | Some m \<Rightarrow> do {
             let s = upd_msg m (\<lambda>x. x\<lparr>reply_status := status\<rparr>) s;
             let s = upd_msg m (\<lambda>x. x\<lparr>riov := replymsg_loop (riov x) (next_size (riov x)) src buf_sz 0\<rparr>) s;
             s \<leftarrow> (if reply_port (msg_tab s m) \<noteq> None then kreplymsg m s else brelse m s);
             x \<leftarrow> free_msgid msgid (backlogs s b);
             Some (Inr (), set_backlog b x s)
           }
       }
   }"

definition sys_readmsg ::
  "int \<Rightarrow> int \<Rightarrow> nat \<Rightarrow> int \<Rightarrow> 'a msgs_scheme \<Rightarrow> u8 list result option" where
  "sys_readmsg fd msgid buf_sz offset s = do {
     bo \<leftarrow> get_superblock (current s) fd s;
     case bo of
       None \<Rightarrow> Some (Inl EINVAL)
     | Some b \<Rightarrow> do {
         mo \<leftarrow> msgid_to_msg msgid (backlogs s b);
         case mo of
           None \<Rightarrow> Some (Inl EINVAL)
         | Some m \<Rightarrow>
             (let iov = siov (msg_tab s m)
              in if iov = [] then Some (Inr [])
                 else (case seekiov iov offset of
                         Inl e \<Rightarrow> Some (Inl EINVAL)
                       | Inr (i, r) \<Rightarrow> Some (Inr (readmsg_loop (drop i iov) r buf_sz 0))))
       }
   }"

definition sys_writemsg ::
  "int \<Rightarrow> int \<Rightarrow> user_buf \<Rightarrow> nat \<Rightarrow> int \<Rightarrow> 'a msgs_scheme \<Rightarrow> (nat result \<times> 'a msgs_scheme) option" where
  "sys_writemsg fd msgid src buf_sz offset s = do {
     bo \<leftarrow> get_superblock (current s) fd s;
     case bo of
       None \<Rightarrow> Some (Inl EINVAL, s)
     | Some b \<Rightarrow> do {
         mo \<leftarrow> msgid_to_msg msgid (backlogs s b);
         case mo of
           None \<Rightarrow> Some (Inl EINVAL, s)
         | Some m \<Rightarrow>
             (let iov = riov (msg_tab s m)
              in if iov = [] then Some (Inr 0, s)
                 else (case seekiov iov offset of
                         Inl e \<Rightarrow> Some (Inl EINVAL, s)
                       | Inr (i, r) \<Rightarrow>
                           (let (vs, n) = writemsg_loop (drop i iov) r src buf_sz 0
                            in Some (Inr n, upd_msg m (\<lambda>x. x\<lparr>riov := take i iov @ vs\<rparr>) s))))
       }
   }"

section \<open>The parts of a message as one sequence of bytes\<close>

lemma getmsg_loop_take: "getmsg_loop vs n k = take (n - k) (concat vs)"
  by (induction vs n k rule: getmsg_loop.induct) (auto simp: Let_def)

lemma readmsg_loop_take:
  "r \<le> length v \<Longrightarrow> readmsg_loop (v # vs) r n k = take (n - k) (drop (length v - r) v @ concat vs)"
proof (induction vs arbitrary: v r k)
  case Nil
  then show ?case by (auto simp: Let_def)
next
  case (Cons w vs)
  have "readmsg_loop (w # vs) (length w) n j = take (n - j) (concat (w # vs))" for j using Cons.IH [of "length w" w j] by simp
  then show ?case using Cons.prems by (auto simp: Let_def next_size_def simp del: readmsg_loop.simps(2) simp add: readmsg_loop.simps(2) [of v])
qed

text \<open>Where an offset lies in a list of parts.\<close>

lemma seekiov_loop_found:
  "seekiov_loop vs off base i = Inr (j, r) \<Longrightarrow>
   \<exists>us v ws. vs = us @ v # ws \<and> j = i + length us \<and> 0 < r \<and> r \<le> length v \<and>
     off = base + int (length (concat us)) + int (length v - r)"
proof (induction vs off base i rule: seekiov_loop.induct)
  case (2 v vs off base i)
  show ?case
  proof (cases "off \<ge> base \<and> off < base + int (length v)")
    case True
    then have "j = i" "r = nat (base + int (length v) - off)" using 2(2) by auto
    then show ?thesis using True by (intro exI [of _ "[]"] exI [of _ v] exI [of _ vs]) auto
  next
    case False
    then obtain us w ws where "vs = us @ w # ws" "j = Suc i + length us" "0 < r" "r \<le> length w"
      "off = base + int (length v) + int (length (concat us)) + int (length w - r)" using 2 by auto
    then show ?thesis by (intro exI [of _ "v # us"]) auto
  qed
qed simp

lemma seekiov_loop_error:
  "seekiov_loop vs off base i = Inl e \<longleftrightarrow> e = EINVAL \<and> \<not> (base \<le> off \<and> off < base + int (length (concat vs)))"
  by (induction vs off base i rule: seekiov_loop.induct) auto

lemma seekiov_split:
  assumes "seekiov vs off = Inr (i, r)"
  obtains v ws where "drop i vs = v # ws" and "0 < r" and "r \<le> length v"
    and "off = int (length (concat (take i vs)) + (length v - r))"
  using seekiov_loop_found [OF assms [unfolded seekiov_def]] that by auto

lemma readmsg_slice:
  assumes "seekiov vs off = Inr (i, r)"
  shows "readmsg_loop (drop i vs) r n 0 = take n (drop (nat off) (concat vs))"
proof -
  obtain v ws where d: "drop i vs = v # ws" and r: "0 < r" "r \<le> length v"
    and off: "off = int (length (concat (take i vs)) + (length v - r))" by (rule seekiov_split [OF assms])
  have "concat vs = concat (take i vs) @ v @ concat ws" by (metis append_take_drop_id concat.simps(2) concat_append d)
  moreover have "nat off = length (concat (take i vs)) + (length v - r)" unfolding off by (rule nat_int)
  ultimately have "drop (nat off) (concat vs) = drop (length v - r) v @ concat ws" using r by simp
  then show ?thesis unfolding d using r by (simp add: readmsg_loop_take del: readmsg_loop.simps)
qed

text \<open>A server buffer of \<open>n\<close> bytes that can be read.\<close>

definition reads :: "user_buf \<Rightarrow> u8 list \<Rightarrow> bool" where
  "reads src data \<longleftrightarrow> (\<forall>k n. k + n \<le> length data \<longrightarrow> src k n = Some (take n (drop k data)))"

text \<open>The bytes \<open>xs\<close> with \<open>ys\<close> written over them from position \<open>k\<close> on, as far as they fit.\<close>

definition overwrite :: "nat \<Rightarrow> u8 list \<Rightarrow> u8 list \<Rightarrow> u8 list" where
  "overwrite k ys xs = take k xs @ take (length xs - k) ys @ drop (k + length ys) xs"

lemma overwrite_append: "k = length us \<Longrightarrow> overwrite k ys (us @ xs) = us @ overwrite 0 ys xs"
  by (simp add: overwrite_def)

lemma overwrite_long: "length us \<le> length ys \<Longrightarrow> overwrite 0 ys (us @ xs) = take (length us) ys @ overwrite 0 (drop (length us) ys) xs"
  by (simp add: overwrite_def take_add)

lemma overwrite_short: "length ys \<le> length us \<Longrightarrow> overwrite 0 ys (us @ xs) = ys @ drop (length ys) us @ xs"
  by (simp add: overwrite_def)

lemma overwrite_Nil [simp]: "overwrite 0 [] xs = xs" "overwrite 0 ys [] = []"
  by (simp_all add: overwrite_def)

lemma length_overwrite [simp]: "k \<le> length xs \<Longrightarrow> length (overwrite k ys xs) = length xs"
  by (simp add: overwrite_def)

lemma take_drop_append: "take k xs @ drop k xs @ ys = xs @ ys"
  by (metis append.assoc append_take_drop_id)

lemma writemsg_loop_overwrite:
  assumes src: "reads src data"
  shows "r \<le> length v \<Longrightarrow> k \<le> length data \<Longrightarrow> writemsg_loop (v # vs) r src (length data) k = (ws, n) \<Longrightarrow>
    concat ws = take (length v - r) v @ overwrite 0 (drop k data) (drop (length v - r) v @ concat vs) \<and>
    map length ws = map length (v # vs) \<and> n = k + min (length data - k) (r + length (concat vs))"
proof (induction vs arbitrary: v r k ws n)
  case Nil
  let ?n = "if r < length data - k then r else length data - k"
  have "k < length data \<Longrightarrow> src k ?n = Some (take ?n (drop k data))" using src by (simp add: reads_def)
  then show ?case using Nil by (auto simp: Let_def overwrite_def min_def add.commute split: if_splits)
next
  case (Cons w vs)
  show ?case
  proof (cases "k < length data")
    case False
    then show ?thesis using Cons.prems by (auto simp: take_drop_append)
  next
    case True
    define m where "m = (if r < length data - k then r else length data - k)"
    have m: "m \<le> r" "k + m \<le> length data" "m < r \<Longrightarrow> k + m = length data" using True by (auto simp: m_def split: if_splits)
    then have s: "src k m = Some (take m (drop k data))" using src by (simp add: reads_def)
    obtain us j where us: "writemsg_loop (w # vs) (length w) src (length data) (k + m) = (us, j)" by fastforce
    have IH: "concat us = overwrite 0 (drop (k + m) data) (concat (w # vs))" "map length us = map length (w # vs)"
      "j = k + m + min (length data - (k + m)) (length (concat (w # vs)))"
      using Cons.IH [OF _ m(2) us] by simp_all
    have ws: "ws = (take (length v - r) v @ take m (drop k data) @ drop (length v - r + m) v) # us" "n = j"
      using Cons.prems(3) True s us
      by (simp_all add: writemsg_loop.simps(2) [of v] next_size_def m_def [symmetric] Let_def del: writemsg_loop.simps)
    have "take m (drop k data) @ drop (length v - r + m) v @ overwrite 0 (drop (k + m) data) (concat (w # vs)) =
        overwrite 0 (drop k data) (drop (length v - r) v @ concat (w # vs))"
    proof (cases "m = r")
      case True
      then show ?thesis using m Cons.prems(1) by (subst overwrite_long) (simp_all add: add.commute)
    next
      case False
      then have l: "length data = k + m" using m(1, 3) by simp
      then show ?thesis using m(1) Cons.prems(1) by (subst overwrite_short) (simp_all add: l add.commute)
    qed
    moreover have "k + m + min (length data - (k + m)) l = k + min (length data - k) (r + l)" for l
      using m by (cases "m = r") auto
    moreover have "length (take (length v - r) v @ take m (drop k data) @ drop (length v - r + m) v) = length v"
      using m Cons.prems(1) by simp
    ultimately show ?thesis using IH ws by auto
  qed
qed

lemma replymsg_loop_writemsg:
  "replymsg_loop vs (next_size vs) src n k = fst (writemsg_loop vs (next_size vs) src n k)"
  by (induction vs arbitrary: k) (auto simp: next_size_def Let_def split: option.split prod.split)

lemma writemsg_overwrite:
  assumes "seekiov vs off = Inr (i, r)" and "reads src data" and "writemsg_loop (drop i vs) r src (length data) 0 = (ws, n)"
  shows "concat (take i vs @ ws) = overwrite (nat off) data (concat vs)" and "map length (take i vs @ ws) = map length vs"
    and "n = min (length data) (length (concat vs) - nat off)"
proof -
  obtain v us where d: "drop i vs = v # us" and r: "0 < r" "r \<le> length v"
    and off: "off = int (length (concat (take i vs)) + (length v - r))" by (rule seekiov_split [OF assms(1)])
  have W: "concat ws = take (length v - r) v @ overwrite 0 data (drop (length v - r) v @ concat us)"
    "map length ws = map length (v # us)" "n = min (length data) (r + length (concat us))"
    using writemsg_loop_overwrite [OF assms(2) r(2) _ assms(3) [unfolded d]] by simp_all
  have vs: "concat vs = concat (take i vs) @ take (length v - r) v @ (drop (length v - r) v @ concat us)"
    by (metis append.assoc append_take_drop_id concat.simps(2) concat_append d)
  have o: "nat off = length (concat (take i vs)) + (length v - r)" unfolding off by (rule nat_int)
  show "concat (take i vs @ ws) = overwrite (nat off) data (concat vs)"
    using overwrite_append [of "nat off" "concat (take i vs) @ take (length v - r) v" data] W(1) o by (subst vs) simp
  show "map length (take i vs @ ws) = map length vs" using W(2) d by (metis append_take_drop_id map_append)
  show "n = min (length data) (length (concat vs) - nat off)" using W(3) o r by (subst vs) simp
qed

section \<open>The backlog as a table of messages\<close>

text \<open>
  A table of at most \<open>cap\<close> entries that gives each new entry an identifier: what a mount relies on for its
  messages.
\<close>

locale id_table =
  fixes inv :: "'b \<Rightarrow> bool"
    and lookup :: "'b \<Rightarrow> nat \<Rightarrow> 'm option"
    and insert_new :: "'m \<Rightarrow> 'b \<Rightarrow> (nat \<times> 'b) option"
    and release :: "nat \<Rightarrow> 'b \<Rightarrow> 'b"
    and cap :: "'b \<Rightarrow> nat"
  assumes dom_cap: "inv x \<Longrightarrow> dom (lookup x) \<subseteq> {..<cap x}"
    and insert_Some: "inv x \<Longrightarrow> insert_new m x = Some (t, x') \<Longrightarrow>
      inv x' \<and> t < cap x \<and> lookup x t = None \<and> lookup x' = (lookup x)(t := Some m) \<and> cap x' = cap x"
    and insert_None: "inv x \<Longrightarrow> insert_new m x = None \<longleftrightarrow> dom (lookup x) = {..<cap x}"
    and release_ok: "inv x \<Longrightarrow> t < cap x \<Longrightarrow> inv (release t x) \<and> lookup (release t x) = (lookup x)(t := None) \<and>
      cap (release t x) = cap x"
begin

lemma dom_finite: "inv x \<Longrightarrow> finite (dom (lookup x))"
  using dom_cap finite_subset by blast

lemma card_dom_cap: "inv x \<Longrightarrow> card (dom (lookup x)) \<le> cap x"
  using card_mono [OF _ dom_cap] by fastforce

text \<open>There is room for a new entry exactly as long as fewer than \<open>cap\<close> are in use.\<close>

lemma insert_room: "inv x \<Longrightarrow> insert_new m x \<noteq> None \<longleftrightarrow> card (dom (lookup x)) < cap x"
proof -
  assume i: "inv x"
  have "card (dom (lookup x)) = cap x \<longleftrightarrow> dom (lookup x) = {..<cap x}"
    using card_subset_eq [OF _ dom_cap [OF i]] by auto
  then show ?thesis using insert_None [OF i, of m] card_dom_cap [OF i] by linarith
qed

text \<open>An entry that is inserted and released again leaves the table as it was.\<close>

lemma insert_release: "inv x \<Longrightarrow> insert_new m x = Some (t, x') \<Longrightarrow> lookup (release t x') = lookup x"
  using insert_Some [of x m t x'] release_ok [of x' t] by (auto simp: fun_eq_iff)

text \<open>An identifier stays valid for its entry while others come and go.\<close>

lemma insert_other: "inv x \<Longrightarrow> insert_new m x = Some (t, x') \<Longrightarrow> lookup x u = Some k \<Longrightarrow> u \<noteq> t \<and> lookup x' u = Some k"
  using insert_Some [of x m t x'] by auto

end

definition backlog_inv :: "msg_backlog \<Rightarrow> bool" where
  "backlog_inv x \<longleftrightarrow> 0 \<le> backlog_sz x \<and> backlog_sz x \<le> 32 \<and>
     (\<forall>t. bit (free_bitmap x) t \<longrightarrow> int t < backlog_sz x) \<and>
     (\<forall>t. int t < backlog_sz x \<longrightarrow> (bit (free_bitmap x) t \<longleftrightarrow> backlog_msg x t = None))"

definition msg_of :: "msg_backlog \<Rightarrow> nat \<Rightarrow> msg_id option" where
  "msg_of x t = (case msgid_to_msg (int t) x of Some (Some m) \<Rightarrow> Some m | _ \<Rightarrow> None)"

definition take_msgid :: "msg_id \<Rightarrow> msg_backlog \<Rightarrow> (nat \<times> msg_backlog) option" where
  "take_msgid m x =
     (case alloc_msgid x of
        Some (Some t, x') \<Rightarrow> (case assign_msgid t m x' of Some x'' \<Rightarrow> Some (t, x'') | None \<Rightarrow> None)
      | _ \<Rightarrow> None)"

definition drop_msgid :: "nat \<Rightarrow> msg_backlog \<Rightarrow> msg_backlog" where
  "drop_msgid t x = (case free_msgid (int t) x of Some x' \<Rightarrow> x' | None \<Rightarrow> x)"

lemma backlog_mask_bits: "n \<le> 32 \<Longrightarrow> \<exists>w. backlog_mask n = Some w \<and> (\<forall>t. bit w t \<longleftrightarrow> t < n)"
  by (induction n) (auto simp: bit_set1_iff less_Suc_eq)

lemma backlog_mask_over: "32 < n \<Longrightarrow> backlog_mask n = None"
proof (induction n)
  case (Suc n)
  then show ?case unfolding backlog_mask.simps by (cases "backlog_mask n") auto
qed simp

lemma msgid_total: "backlog_inv x \<Longrightarrow> msgid_to_msg t x =
    Some (if 0 \<le> t \<and> t < backlog_sz x then backlog_msg x (nat t) else None)"
  by (auto simp: msgid_to_msg_def MAX_MSG_BACKLOG_def backlog_inv_def and_shl1_eq_0_iff)

lemma msg_of_eq: "backlog_inv x \<Longrightarrow> msg_of x t = (if int t < backlog_sz x then backlog_msg x t else None)"
  by (simp add: msg_of_def msgid_total split: option.split)

lemma init_backlog_inv:
  assumes "0 \<le> sz" and "sz \<le> 32"
  shows "\<exists>x. init_msgbacklog sz = Some x \<and> backlog_inv x \<and> backlog_sz x = sz \<and> msg_of x = (\<lambda>_. None)"
proof -
  have "nat sz \<le> 32" using assms by simp
  then obtain w where w: "backlog_mask (nat sz) = Some w" "\<And>t. bit w t \<longleftrightarrow> t < nat sz"
    using backlog_mask_bits by blast
  let ?x = "\<lparr>backlog_sz = sz, free_bitmap = w, backlog_msg = (\<lambda>_. None)\<rparr>"
  have "bit w t \<longleftrightarrow> int t < sz" for t unfolding w(2) by linarith
  then have inv: "backlog_inv ?x" using assms by (simp add: backlog_inv_def)
  then have "msg_of ?x = (\<lambda>_. None)" by (simp add: msg_of_eq fun_eq_iff)
  then show ?thesis using inv w(1) by (simp add: init_msgbacklog_def)
qed

lemma alloc_loop_found:
  "t + n \<le> 32 \<Longrightarrow> \<exists>r. alloc_msgid_loop t n w = Some r \<and>
     (case r of None \<Rightarrow> \<forall>u. t \<le> u \<and> u < t + n \<longrightarrow> \<not> bit w u
      | Some u \<Rightarrow> t \<le> u \<and> u < t + n \<and> bit w u \<and> (\<forall>v. t \<le> v \<and> v < u \<longrightarrow> \<not> bit w v))"
proof (induction n arbitrary: t)
  case (Suc n)
  show ?case
  proof (cases "bit w t")
    case False
    obtain r where "alloc_msgid_loop (Suc t) n w = Some r" "case r of None \<Rightarrow> \<forall>u. Suc t \<le> u \<and> u < Suc t + n \<longrightarrow> \<not> bit w u
      | Some u \<Rightarrow> Suc t \<le> u \<and> u < Suc t + n \<and> bit w u \<and> (\<forall>v. Suc t \<le> v \<and> v < u \<longrightarrow> \<not> bit w v)"
      using Suc.IH [of "Suc t"] Suc.prems by auto
    moreover have "t \<le> u \<longleftrightarrow> u = t \<or> Suc t \<le> u" for u by arith
    ultimately show ?thesis using False Suc.prems by (cases r) (auto simp: and_shl1_eq_0_iff)
  qed (use Suc.prems in \<open>auto simp: and_shl1_eq_0_iff\<close>)
qed auto

lemma backlog_sz_32: "backlog_inv x \<Longrightarrow> nat (backlog_sz x) \<le> 32" "backlog_inv x \<Longrightarrow> int t < backlog_sz x \<Longrightarrow> t < 32"
  by (auto simp: backlog_inv_def)

lemma alloc_msgid_cases:
  assumes inv: "backlog_inv x"
  obtains "alloc_msgid x = Some (None, x)" and "\<forall>t. int t < backlog_sz x \<longrightarrow> backlog_msg x t \<noteq> None"
  | t where "alloc_msgid x = Some (Some t, x\<lparr>free_bitmap := free_bitmap x AND NOT (shl1 t)\<rparr>)" and "int t < backlog_sz x"
    and "backlog_msg x t = None" and "\<forall>u. u < t \<longrightarrow> backlog_msg x u \<noteq> None"
proof (cases "free_bitmap x = 0")
  case True
  then have "\<forall>t. int t < backlog_sz x \<longrightarrow> backlog_msg x t \<noteq> None" using inv by (auto simp: backlog_inv_def)
  then show thesis using that(1) True by (simp add: alloc_msgid_def)
next
  case False
  have le: "0 + nat (backlog_sz x) \<le> 32" using backlog_sz_32(1) [OF inv] by simp
  obtain r where r: "alloc_msgid_loop 0 (nat (backlog_sz x)) (free_bitmap x) = Some r"
    and rs: "case r of None \<Rightarrow> \<forall>u. 0 \<le> u \<and> u < 0 + nat (backlog_sz x) \<longrightarrow> \<not> bit (free_bitmap x) u
      | Some u \<Rightarrow> 0 \<le> u \<and> u < 0 + nat (backlog_sz x) \<and> bit (free_bitmap x) u \<and> (\<forall>v. 0 \<le> v \<and> v < u \<longrightarrow> \<not> bit (free_bitmap x) v)"
    using alloc_loop_found [OF le] by blast
  show thesis
  proof (cases r)
    case None
    then show thesis using that(1) False r rs inv by (auto simp: alloc_msgid_def backlog_inv_def)
  next
    case (Some t)
    then show thesis using that(2) [of t] False r rs inv by (auto simp: alloc_msgid_def backlog_inv_def)
  qed
qed

lemma take_msgid_Some:
  assumes inv: "backlog_inv x" and t: "take_msgid m x = Some (t, x')"
  shows "backlog_inv x' \<and> int t < backlog_sz x \<and> msg_of x t = None \<and> msg_of x' = (msg_of x)(t := Some m) \<and> backlog_sz x' = backlog_sz x"
  using inv
proof (cases rule: alloc_msgid_cases)
  case (2 u)
  then have "u < 32" using backlog_sz_32(2) [OF inv] by simp
  then have x': "t = u" "x' = x\<lparr>free_bitmap := free_bitmap x AND NOT (shl1 u), backlog_msg := (backlog_msg x)(u := Some m)\<rparr>"
    using t 2(1) by (auto simp: take_msgid_def assign_msgid_def MAX_MSG_BACKLOG_def)
  have inv': "backlog_inv x'" using inv 2 x' by (auto simp: backlog_inv_def bit_clear1_iff)
  have "backlog_sz x' = backlog_sz x" "backlog_msg x' = (backlog_msg x)(u := Some m)" by (simp_all add: x'(2))
  then show ?thesis using inv' 2 inv x'(1) by (auto simp: msg_of_eq fun_eq_iff)
qed (use t in \<open>simp add: take_msgid_def\<close>)

lemma take_msgid_None:
  assumes inv: "backlog_inv x"
  shows "take_msgid m x = None \<longleftrightarrow> dom (msg_of x) = {..<nat (backlog_sz x)}"
  using inv
proof (cases rule: alloc_msgid_cases)
  case 1
  then show ?thesis using inv by (auto simp: take_msgid_def msg_of_eq dom_def split: if_splits)
next
  case (2 t)
  then have "t < 32" using backlog_sz_32(2) [OF inv] by simp
  moreover have "t \<notin> dom (msg_of x)" "t \<in> {..<nat (backlog_sz x)}" using 2 inv by (auto simp: msg_of_eq)
  ultimately show ?thesis using 2(1) by (auto simp: take_msgid_def assign_msgid_def MAX_MSG_BACKLOG_def)
qed

lemma drop_msgid_ok:
  assumes inv: "backlog_inv x" and t: "t < nat (backlog_sz x)"
  shows "backlog_inv (drop_msgid t x) \<and> msg_of (drop_msgid t x) = (msg_of x)(t := None) \<and> backlog_sz (drop_msgid t x) = backlog_sz x"
proof -
  have "t < 32" using backlog_sz_32(1) [OF inv] t by simp
  then have x': "drop_msgid t x = x\<lparr>free_bitmap := free_bitmap x OR shl1 t, backlog_msg := (backlog_msg x)(t := None)\<rparr>"
    using t by (simp add: drop_msgid_def free_msgid_def MAX_MSG_BACKLOG_def)
  have inv': "backlog_inv (drop_msgid t x)" unfolding x' using inv t \<open>t < 32\<close> by (auto simp: backlog_inv_def bit_set1_iff)
  have "backlog_sz (drop_msgid t x) = backlog_sz x" "backlog_msg (drop_msgid t x) = (backlog_msg x)(t := None)" by (simp_all add: x')
  then show ?thesis using inv inv' by (auto simp: msg_of_eq fun_eq_iff)
qed

interpretation backlog: id_table backlog_inv msg_of take_msgid drop_msgid "\<lambda>x. nat (backlog_sz x)"
proof
  fix x assume "backlog_inv x"
  then show "dom (msg_of x) \<subseteq> {..<nat (backlog_sz x)}" by (auto simp: msg_of_eq split: if_splits)
next
  fix x m t x' assume "backlog_inv x" "take_msgid m x = Some (t, x')"
  then show "backlog_inv x' \<and> t < nat (backlog_sz x) \<and> msg_of x t = None \<and> msg_of x' = (msg_of x)(t := Some m) \<and>
      nat (backlog_sz x') = nat (backlog_sz x)" using take_msgid_Some [of x m t x'] by auto
qed (use take_msgid_None drop_msgid_ok in auto)

section \<open>Sending and replying\<close>

lemma upd_msg_sel [simp]:
  "msg_tab (upd_msg m f s) = (msg_tab s)(m := f (msg_tab s m))" "backlogs (upd_msg m f s) = backlogs s"
  "pending_msgs (upd_msg m f s) = pending_msgs s" "fprocs (upd_msg m f s) = fprocs s" "filps (upd_msg m f s) = filps s"
  "current (upd_msg m f s) = current s"
  by (simp_all add: upd_msg_def)

lemma set_backlog_sel [simp]:
  "msg_tab (set_backlog b x s) = msg_tab s" "backlogs (set_backlog b x s) = (backlogs s)(b := x)"
  "pending_msgs (set_backlog b x s) = pending_msgs s" "fprocs (set_backlog b x s) = fprocs s" "filps (set_backlog b x s) = filps s"
  "current (set_backlog b x s) = current s"
  by (simp_all add: set_backlog_def)

lemma knote_object_msgs [simp]:
  "msg_tab (knote_object ob h s) = msg_tab s" "backlogs (knote_object ob h s) = backlogs s"
  "pending_msgs (knote_object ob h s) = pending_msgs s" "fprocs (knote_object ob h s) = fprocs s"
  "filps (knote_object ob h s) = filps s" "current (knote_object ob h s) = current s"
proof -
  have one: "msg_tab (knote_one n h s) = msg_tab s \<and> backlogs (knote_one n h s) = backlogs s \<and>
     pending_msgs (knote_one n h s) = pending_msgs s \<and> fprocs (knote_one n h s) = fprocs s \<and> filps (knote_one n h s) = filps s \<and>
     current (knote_one n h s) = current s" for n and s :: "'b msgs_scheme"
    by (auto simp: knote_one_def Let_def put_pending_def upd_knote_def upd_kqueue_def TaskWakeup_def upd_proc_def split: list.split)
  have "msg_tab (knote_loop ns h s) = msg_tab s \<and> backlogs (knote_loop ns h s) = backlogs s \<and>
     pending_msgs (knote_loop ns h s) = pending_msgs s \<and> fprocs (knote_loop ns h s) = fprocs s \<and>
     filps (knote_loop ns h s) = filps s \<and> current (knote_loop ns h s) = current s" for ns and s :: "'b msgs_scheme"
    by (induction ns arbitrary: s) (simp_all add: one)
  then show "msg_tab (knote_object ob h s) = msg_tab s" "backlogs (knote_object ob h s) = backlogs s"
    "pending_msgs (knote_object ob h s) = pending_msgs s" "fprocs (knote_object ob h s) = fprocs s"
    "filps (knote_object ob h s) = filps s" "current (knote_object ob h s) = current s"
    unfolding knote_object_def by blast+
qed

lemma TaskWakeup_msgs [simp]: "msg_tab (TaskWakeup r s) = msg_tab s" "backlogs (TaskWakeup r s) = backlogs s"
  by (simp_all add: TaskWakeup_def upd_proc_def Let_def split: list.split)

text \<open>A switch to another task changes the state of the scheduler only.\<close>

definition switched :: "'a msgs_scheme \<Rightarrow> 'a msgs_scheme \<Rightarrow> bool" where
  "switched s t \<longleftrightarrow> sched.more t = sched.more s"

lemma switched_sel:
  assumes "switched s t"
  shows "msg_tab t = msg_tab s" "backlogs t = backlogs s" "pending_msgs t = pending_msgs s" "fprocs t = fprocs s" "filps t = filps s"
  using assms unfolding switched_def by (cases s, cases t, simp)+

lemma get_superblock_switched: "switched s t \<Longrightarrow> get_superblock p fd t = get_superblock p fd s"
  using switched_sel [of s t] get_fd_item_cong [of t s] by (simp add: get_superblock_def)

lemma ksendmsg_post_sel:
  "pending_msgs (ksendmsg_post b si ri s) = (pending_msgs s)(Mount_port b := pending_msgs s (Mount_port b) @ [Proc_msg (current s)])"
  "backlogs (ksendmsg_post b si ri s) = backlogs s" "fprocs (ksendmsg_post b si ri s) = fprocs s"
  "filps (ksendmsg_post b si ri s) = filps s"
  "msg_tab (ksendmsg_post b si ri s) = (msg_tab s)(Proc_msg (current s) := (msg_tab s (Proc_msg (current s)))
     \<lparr>reply_port := Some (Reply_port (current s)), siov := si, riov := ri, reply_status := 0, msg_port := Some (Mount_port b)\<rparr>)"
  by (simp_all add: ksendmsg_post_def kputmsg_def Let_def)

lemma take_msgid_alloc:
  assumes "backlog_inv x" and "take_msgid m x = Some (t, x'')"
  obtains x' where "alloc_msgid x = Some (Some t, x')" and "assign_msgid t m x' = Some x''"
  using assms(2) by (auto simp: take_msgid_def split: option.splits prod.splits)

lemma sys_getmsg_takes:
  assumes "get_superblock (current s) fd s = Some (Some b)" and "backlog_inv (backlogs s b)"
    and "pending_msgs s (Mount_port b) = m # ms" and "take_msgid m (backlogs s b) = Some (t, x)"
  shows "sys_getmsg fd n s = Some (Inr (Some (t, take n (concat (siov (msg_tab s m))))),
    set_backlog b x (s\<lparr>pending_msgs := (pending_msgs s)(Mount_port b := ms)\<rparr>))"
proof -
  obtain x' where a: "alloc_msgid (backlogs s b) = Some (Some t, x')" "assign_msgid t m x' = Some x"
    using take_msgid_alloc [OF assms(2, 4)] by blast
  then show ?thesis using assms(1, 3)
    by (simp add: sys_getmsg_def kgetmsg_def Let_def getmsg_loop_take) (simp add: set_backlog_def)
qed

lemma sys_replymsg_replies:
  assumes "get_superblock (current s) fd s = Some (Some b)" and "backlog_inv (backlogs s b)"
    and "msg_of (backlogs s b) t = Some m" and "reply_port (msg_tab s m) = Some rp" and "reads src data"
  shows "\<exists>s'. sys_replymsg brelse fd (int t) status src (length data) s = Some (Inr (), s') \<and>
    pending_msgs s' = (pending_msgs s)(rp := pending_msgs s rp @ [m]) \<and> backlogs s' = (backlogs s)(b := drop_msgid t (backlogs s b)) \<and>
    reply_status (msg_tab s' m) = status \<and> concat (riov (msg_tab s' m)) = overwrite 0 data (concat (riov (msg_tab s m))) \<and>
    (\<forall>k. k \<noteq> m \<longrightarrow> msg_tab s' k = msg_tab s k)"
proof -
  have t: "int t < backlog_sz (backlogs s b)" "t < 32"
    using assms(2, 3) backlog_sz_32(2) [OF assms(2)] by (auto simp: msg_of_eq split: if_splits)
  have m: "msgid_to_msg (int t) (backlogs s b) = Some (Some m)"
    using assms(2, 3) t by (simp add: msg_of_eq msgid_total)
  have f: "free_msgid (int t) (backlogs s b) = Some (drop_msgid t (backlogs s b))"
    using t by (simp add: drop_msgid_def free_msgid_def MAX_MSG_BACKLOG_def)
  let ?vs = "riov (msg_tab s m)"
  have "concat (replymsg_loop ?vs (next_size ?vs) src (length data) 0) = overwrite 0 data (concat ?vs)"
  proof (cases ?vs)
    case (Cons v vs)
    obtain ws k where w: "writemsg_loop (v # vs) (length v) src (length data) 0 = (ws, k)" by fastforce
    have "concat ws = overwrite 0 data (concat (v # vs))"
      using writemsg_loop_overwrite [OF assms(5) _ _ w] by simp
    then show ?thesis using w unfolding replymsg_loop_writemsg Cons by (simp add: next_size_def del: writemsg_loop.simps)
  qed simp
  then show ?thesis using assms(1, 4) m f by (simp add: sys_replymsg_def kreplymsg_def Let_def)
qed

section \<open>Correctness\<close>

text \<open>A kernel for concrete runs: the mount of superblock 5 is descriptor 1 of process 0.\<close>

definition no_msg :: msg where
  "no_msg = \<lparr>msg_port = None, reply_port = None, reply_status = 0, siov = [], riov = []\<rparr>"

definition demo_backlog :: msg_backlog where
  "demo_backlog = \<lparr>backlog_sz = 2, free_bitmap = shl1 0 OR shl1 1, backlog_msg = (\<lambda>_. None)\<rparr>"

definition demo_msgs :: msgs where
  "demo_msgs = events.extend demo_events (msgs.fields (\<lambda>_. no_msg) (\<lambda>_. demo_backlog))"

lemma demo_msgs_sel [simp]:
  "current demo_msgs = 0" "fprocs demo_msgs = [0 \<mapsto> demo_fproc]" "filps demo_msgs = demo_filps"
  "pending_msgs demo_msgs = (\<lambda>_. [])" "backlogs demo_msgs = (\<lambda>_. demo_backlog)" "msg_tab demo_msgs = (\<lambda>_. no_msg)"
  by (simp_all add: demo_msgs_def demo_events_def zero_files_def zero_timers_def zero_sched_def sched.defs timers.defs files.defs
      events.defs msgs.defs)

lemma demo_mount: "fprocs s = [0 \<mapsto> demo_fproc] \<Longrightarrow> filps s = demo_filps \<Longrightarrow> get_superblock 0 1 s = Some (Some 5)"
  by (simp add: get_superblock_def get_fd_item_def get_filp_def OPEN_MAX_def demo_fproc_def demo_filps_def)

lemma demo_backlog_inv: "backlog_inv demo_backlog"
  by (auto simp: backlog_inv_def demo_backlog_def bit_or_iff bit_shl1_iff)

lemma demo_take: "\<exists>x. take_msgid m demo_backlog = Some (0, x)"
  using demo_backlog_inv
proof (cases rule: alloc_msgid_cases)
  case 1
  then show ?thesis by (auto simp: demo_backlog_def dest: spec [of _ 0])
next
  case (2 t)
  then have "t = 0" by (auto simp: demo_backlog_def)
  then show ?thesis using 2(1) by (simp add: take_msgid_def assign_msgid_def MAX_MSG_BACKLOG_def)
qed



text \<open>C22: Messages are received in the order in which they were sent, each under an identifier that no other
  unanswered message has, until as many messages are unanswered as the mount allows; then \<open>sys_getmsg\<close>
  fails with \<open>EAGAIN\<close> and the message stays on the port.\<close>

theorem getmsg_bounded_fifo:
  assumes "get_superblock (current s) fd s = Some (Some b)" and "backlog_inv (backlogs s b)" and "pending_msgs s (Mount_port b) = m # ms"
  shows "if card (dom (msg_of (backlogs s b))) < nat (backlog_sz (backlogs s b))
    then \<exists>t s'. sys_getmsg fd n s = Some (Inr (Some (t, take n (concat (siov (msg_tab s m))))), s') \<and>
      msg_of (backlogs s b) t = None \<and> msg_of (backlogs s' b) = (msg_of (backlogs s b))(t := Some m) \<and>
      pending_msgs s' = (pending_msgs s)(Mount_port b := ms) \<and> backlog_inv (backlogs s' b)
    else sys_getmsg fd n s = Some (Inl EAGAIN, s)"
proof (cases "take_msgid m (backlogs s b)")
  case None
  then have "\<not> card (dom (msg_of (backlogs s b))) < nat (backlog_sz (backlogs s b))"
    using backlog.insert_room [OF assms(2), of m] by simp
  moreover have "alloc_msgid (backlogs s b) = Some (None, backlogs s b)" using assms(2)
  proof (cases rule: alloc_msgid_cases)
    case (2 t)
    then show ?thesis using None backlog_sz_32(2) [OF assms(2)] by (simp add: take_msgid_def assign_msgid_def MAX_MSG_BACKLOG_def)
  qed
  then have "sys_getmsg fd n s = Some (Inl EAGAIN, set_backlog b (backlogs s b) s)" using assms(1) by (simp add: sys_getmsg_def Let_def)
  ultimately show ?thesis by (simp add: set_backlog_def)
next
  case (Some tx)
  obtain t x where tx: "take_msgid m (backlogs s b) = Some (t, x)" using Some by (cases tx) auto
  then have "card (dom (msg_of (backlogs s b))) < nat (backlog_sz (backlogs s b))"
    using backlog.insert_room [OF assms(2), of m] by simp
  then show ?thesis using sys_getmsg_takes [OF assms tx, of n] take_msgid_Some [OF assms(2) tx] by auto
qed

theorem getmsg_bounded_fifo_witness:
  "\<exists>t s'. sys_getmsg 1 1 (ksendmsg_post 5 [[1, 2], [3]] [[0]] demo_msgs) = Some (Inr (Some (t, [1])), s')"
proof -
  let ?s = "ksendmsg_post 5 [[1, 2], [3]] [[0]] demo_msgs"
  have s: "current ?s = 0" "backlogs ?s 5 = demo_backlog" "pending_msgs ?s (Mount_port 5) = [Proc_msg 0]"
    "siov (msg_tab ?s (Proc_msg 0)) = [[1, 2], [3]]"
    by (simp_all add: ksendmsg_post_sel) (simp add: ksendmsg_post_def kputmsg_def Let_def)
  have "msg_of demo_backlog = (\<lambda>_. None)" using demo_backlog_inv by (simp add: msg_of_eq fun_eq_iff) (simp add: demo_backlog_def)
  then show ?thesis using getmsg_bounded_fifo [of ?s 1 5 "Proc_msg 0" "[]" 1] s demo_mount [of ?s] demo_backlog_inv
    by (auto simp: ksendmsg_post_sel demo_backlog_def)
qed

text \<open>C23: Reading a message at an offset returns the bytes that the concatenation of its parts has there, as many
  as fit, and fails with \<open>EINVAL\<close> outside of the message or for an identifier that is not in use.\<close>

theorem sys_readmsg_slice:
  assumes "get_superblock (current s) fd s = Some (Some b)" and "backlog_inv (backlogs s b)"
  shows "sys_readmsg fd (int t) n off s = Some
    (case msg_of (backlogs s b) t of
       None \<Rightarrow> Inl EINVAL
     | Some m \<Rightarrow>
         (let bytes = concat (siov (msg_tab s m))
          in if siov (msg_tab s m) = [] then Inr []
             else if 0 \<le> off \<and> off < int (length bytes) then Inr (take n (drop (nat off) bytes)) else Inl EINVAL))"
proof -
  have m: "msgid_to_msg (int t) (backlogs s b) = Some (msg_of (backlogs s b) t)"
    using assms(2) by (simp add: msgid_total msg_of_eq)
  show ?thesis
  proof (cases "msg_of (backlogs s b) t")
    case (Some k)
    let ?v = "siov (msg_tab s k)"
    show ?thesis
    proof (cases "seekiov ?v off")
      case (Inl e)
      then have "\<not> (0 \<le> off \<and> off < int (length (concat ?v)))" using seekiov_loop_error [of ?v off 0 0 e] by (simp add: seekiov_def)
      then show ?thesis using assms(1) m Some Inl by (auto simp: sys_readmsg_def Let_def)
    next
      case (Inr ir)
      obtain i r where ir: "ir = (i, r)" by (cases ir)
      have "0 \<le> off \<and> off < int (length (concat ?v))"
        using seekiov_loop_error [of ?v off 0 0 EINVAL] Inr by (simp add: seekiov_def)
      then show ?thesis using assms(1) m Some Inr ir readmsg_slice [of ?v off i r n] by (auto simp: sys_readmsg_def Let_def)
    qed
  qed (use assms(1) m in \<open>simp add: sys_readmsg_def\<close>)
qed

theorem sys_readmsg_slice_witness: "sys_readmsg 1 (int 0) 4 0 demo_msgs = Some (Inl EINVAL)"
  using sys_readmsg_slice [of demo_msgs 1 5 0 4 0] demo_mount [of demo_msgs] demo_backlog_inv
  by (simp add: msg_of_eq) (simp add: demo_backlog_def)


text \<open>The kernel state in which the request of \<open>rpc_round_trip_witness\<close> has been received.\<close>

definition served_msgs :: "msgs option" where
  "served_msgs = do { (_, s) \<leftarrow> sys_getmsg 1 2 (ksendmsg_post 5 [[1, 2], [3]] [[0], [0, 0]] demo_msgs); Some s }"


text \<open>The size of the backlog is not checked when a mount is created: beyond 32 the shift is undefined.\<close>

lemma init_msgbacklog_over: "32 < sz \<Longrightarrow> init_msgbacklog sz = None"
  using backlog_mask_over [of "nat sz"] by (simp add: init_msgbacklog_def)

end
