(* ===== verification/VNodes.thy ===== *)
theory VNodes
  imports Messages
begin

unbundle bit_operations_syntax

text \<open>
  Vnodes and superblocks, \<^verbatim>\<open>kernel/fs/vnode.c\<close> and the tables of \<^verbatim>\<open>kernel/fs/mount.c\<close>, with the system calls
  that need nothing else: seeking, the file mode mask, the current directory of a descriptor and the
  identity of a process.  Vnodes and superblocks are named by their index.  A vnode carries a lock
  (\<open>busy\<close>) and a count of its references; each reference is also counted in its superblock.  A vnode
  without references is put at the end of the free list, and may be found there again.

  The result \<open>None\<close> is a NULL dereference, or the removal of an entry from a list that it is not on.
\<close>

section \<open>State\<close>

definition NR_VNODE :: nat where
  "NR_VNODE = 1024"

definition NR_SUPERBLOCK :: nat where
  "NR_SUPERBLOCK = 128"

definition V_FREE :: u32 where
  "V_FREE = shl1 1"

definition V_VALID :: u32 where
  "V_VALID = shl1 2"

definition V_ROOT :: u32 where
  "V_ROOT = shl1 3"

definition S_ABORT :: u32 where
  "S_ABORT = shl1 0"

record vnode =
  v_busy :: bool
  v_reader_cnt :: int
  v_writer_cnt :: int
  superblock :: "nat option"
  v_flags :: u32
  v_reference_cnt :: int
  vnode_mounted_here :: "nat option"
  vnode_covered :: "nat option"
  v_pipe :: "nat option"
  inode_nr :: int
  v_mode :: u32
  v_uid :: int
  v_gid :: int
  v_size :: int
  v_atime :: int
  v_mtime :: int
  v_ctime :: int
  v_blocks :: int
  v_blksize :: int
  v_rdev :: int
  v_nlink :: int

text \<open>The message port and the backlog of a superblock belong to the state of the messages.\<close>

record superblock =
  sb_busy :: bool
  sb_dev :: nat
  sb_size :: int
  sb_block_size :: int
  sb_root :: "nat option"
  sb_flags :: u32
  sb_reference_cnt :: int

text \<open>The identity of a process.\<close>

record cred =
  cr_uid :: int
  cr_gid :: int
  cr_euid :: int
  cr_egid :: int
  cr_pgrp :: int

record vnodes = msgs +
  vnode_tab :: "nat \<Rightarrow> vnode"
  vnode_free_list :: "nat list"
  superblocks :: "nat \<Rightarrow> superblock"
  free_superblock_list :: "nat list"
  root_vnode :: "nat option"
  creds :: "nat \<Rightarrow> cred"
  umasks :: "nat \<Rightarrow> u32"

definition upd_vnode :: "nat \<Rightarrow> (vnode \<Rightarrow> vnode) \<Rightarrow> 'a vnodes_scheme \<Rightarrow> 'a vnodes_scheme" where
  "upd_vnode v f s = s\<lparr>vnode_tab := (vnode_tab s)(v := f (vnode_tab s v))\<rparr>"

definition upd_sb :: "nat \<Rightarrow> (superblock \<Rightarrow> superblock) \<Rightarrow> 'a vnodes_scheme \<Rightarrow> 'a vnodes_scheme" where
  "upd_sb b f s = s\<lparr>superblocks := (superblocks s)(b := f (superblocks s b))\<rparr>"

definition upd_cred :: "nat \<Rightarrow> (cred \<Rightarrow> cred) \<Rightarrow> 'a vnodes_scheme \<Rightarrow> 'a vnodes_scheme" where
  "upd_cred p f s = s\<lparr>creds := (creds s)(p := f (creds s p))\<rparr>"

definition has_flag :: "u32 \<Rightarrow> u32 \<Rightarrow> bool" where
  "has_flag f w \<longleftrightarrow> (w AND f) \<noteq> 0"

section \<open>Vnodes\<close>

definition sb_count :: "int \<Rightarrow> nat \<Rightarrow> 'a vnodes_scheme \<Rightarrow> 'a vnodes_scheme" where
  "sb_count n b s = upd_sb b (\<lambda>x. x\<lparr>sb_reference_cnt := sb_reference_cnt x + n\<rparr>) s"

definition fresh_vnode :: "nat \<Rightarrow> int \<Rightarrow> vnode" where
  "fresh_vnode b ino =
     \<lparr>v_busy = True, v_reader_cnt = 0, v_writer_cnt = 0, superblock = Some b, v_flags = 0, v_reference_cnt = 1,
      vnode_mounted_here = None, vnode_covered = None, v_pipe = None, inode_nr = ino, v_mode = 0,
      v_uid = 9999, v_gid = 9999, v_size = 0, v_atime = 0, v_mtime = 0, v_ctime = 0, v_blocks = 0,
      v_blksize = 512, v_rdev = 0, v_nlink = 0\<rparr>"

definition vnode_new :: "nat \<Rightarrow> int \<Rightarrow> 'a vnodes_scheme \<Rightarrow> nat option \<times> 'a vnodes_scheme" where
  "vnode_new b ino s =
     (case vnode_free_list s of
        [] \<Rightarrow> (None, s)
      | v # vs \<Rightarrow>
          (let s = s\<lparr>vnode_free_list := vs\<rparr>;
               s = sb_count 1 b s;
               s = InitRendez (Rz_vnode v) s;
               s = upd_vnode v (\<lambda>_. fresh_vnode b ino) s
           in (Some v, s\<lparr>object_knotes := (object_knotes s)(Obj_vnode v := [])\<rparr>)))"

definition vnode_find :: "nat \<Rightarrow> int \<Rightarrow> 'a vnodes_scheme \<Rightarrow> nat option" where
  "vnode_find b ino s =
     find (\<lambda>v. superblock (vnode_tab s v) = Some b \<and> inode_nr (vnode_tab s v) = ino) [0..<NR_VNODE]"

text \<open>The wait of \<open>vnode_get\<close> for the lock of the vnode it has found; a sleeping task runs it again.\<close>

definition vnode_get_wait :: "nat \<Rightarrow> 'a vnodes_scheme \<Rightarrow> (nat sys \<times> 'a vnodes_scheme) option" where
  "vnode_get_wait v s =
     (if v_busy (vnode_tab s v) then do { s \<leftarrow> TaskSleep (Rz_vnode v) s; Some (Blocked, s) }
      else do {
        let s = upd_vnode v (\<lambda>x. x\<lparr>v_busy := True\<rparr>) s;
        if has_flag V_FREE (v_flags (vnode_tab s v)) then do {
          vs \<leftarrow> rem_entry v (vnode_free_list s);
          Some (Done v, s\<lparr>vnode_free_list := vs\<rparr>)
        } else Some (Done v, s)
      })"

text \<open>\<open>Done None\<close> is the result \<open>NULL\<close>.\<close>

definition vnode_get :: "nat \<Rightarrow> int \<Rightarrow> 'a vnodes_scheme \<Rightarrow> (nat option sys \<times> 'a vnodes_scheme) option" where
  "vnode_get b ino s =
     (if has_flag S_ABORT (sb_flags (superblocks s b)) then Some (Done None, s)
      else case vnode_find b ino s of
             None \<Rightarrow> Some (Done None, s)
           | Some v \<Rightarrow> do {
               let s = upd_vnode v (\<lambda>x. x\<lparr>v_reference_cnt := v_reference_cnt x + 1\<rparr>) s;
               let s = sb_count 1 b s;
               (r, s) \<leftarrow> vnode_get_wait v s;
               Some (case r of Done v \<Rightarrow> Done (Some v) | Blocked \<Rightarrow> Blocked, s)
             })"

definition vnode_inc_ref :: "nat \<Rightarrow> 'a vnodes_scheme \<Rightarrow> 'a vnodes_scheme option" where
  "vnode_inc_ref v s = do {
     let s = upd_vnode v (\<lambda>x. x\<lparr>v_reference_cnt := v_reference_cnt x + 1\<rparr>) s;
     b \<leftarrow> superblock (vnode_tab s v);
     Some (sb_count 1 b s)
   }"

definition vnode_put :: "nat \<Rightarrow> 'a vnodes_scheme \<Rightarrow> 'a vnodes_scheme option" where
  "vnode_put v s = do {
     let s = upd_vnode v (\<lambda>x. x\<lparr>v_busy := False, v_reference_cnt := v_reference_cnt x - 1\<rparr>) s;
     b \<leftarrow> superblock (vnode_tab s v);
     let s = sb_count (- 1) b s;
     let s = (if v_reference_cnt (vnode_tab s v) = 0 \<and> \<not> has_flag V_ROOT (v_flags (vnode_tab s v)) then
                (upd_vnode v (\<lambda>x. x\<lparr>v_flags := v_flags x OR V_FREE\<rparr>) s)\<lparr>vnode_free_list := vnode_free_list s @ [v]\<rparr>
              else s);
     Some (TaskWakeupAll (Rz_vnode v) s)
   }"

definition vnode_free :: "nat option \<Rightarrow> 'a vnodes_scheme \<Rightarrow> 'a vnodes_scheme" where
  "vnode_free vo s =
     (case vo of
        None \<Rightarrow> s
      | Some v \<Rightarrow>
          (let s = upd_vnode v (\<lambda>x. x\<lparr>v_flags := V_FREE\<rparr>) s;
               s = s\<lparr>vnode_free_list := v # vnode_free_list s\<rparr>;
               s = upd_vnode v (\<lambda>x. x\<lparr>v_busy := False, v_reference_cnt := 0\<rparr>) s
           in TaskWakeupAll (Rz_vnode v) s))"

definition vnode_lock :: "nat \<Rightarrow> 'a vnodes_scheme \<Rightarrow> (unit sys \<times> 'a vnodes_scheme) option" where
  "vnode_lock v s =
     (if v_busy (vnode_tab s v) then do { s \<leftarrow> TaskSleep (Rz_vnode v) s; Some (Blocked, s) }
      else Some (Done (), upd_vnode v (\<lambda>x. x\<lparr>v_busy := True\<rparr>) s))"

definition vnode_unlock :: "nat \<Rightarrow> 'a vnodes_scheme \<Rightarrow> 'a vnodes_scheme" where
  "vnode_unlock v s = TaskWakeupAll (Rz_vnode v) (upd_vnode v (\<lambda>x. x\<lparr>v_busy := False\<rparr>) s)"

definition close_vnode ::
  "nat \<Rightarrow> int \<Rightarrow> 'a vnodes_scheme \<Rightarrow> (unit result sys \<times> 'a vnodes_scheme) option" where
  "close_vnode p fd s = do {
     vo \<leftarrow> get_fd_vnode p fd s;
     case vo of
       None \<Rightarrow> Some (Done (Inl EINVAL), s)
     | Some v \<Rightarrow> do {
         (r, s) \<leftarrow> vnode_lock v s;
         case r of
           Blocked \<Rightarrow> Some (Blocked, s)
         | Done _ \<Rightarrow> do {
             s \<leftarrow> vnode_put v s;
             (_, s) \<leftarrow> free_fd_filp p fd s;
             Some (Done (Inr ()), s)
           }
       }
   }"

section \<open>Superblocks\<close>

text \<open>The count of 1 that \<open>alloc_superblock\<close> stores first is cleared with the rest of the superblock.\<close>

definition zero_superblock :: "nat \<Rightarrow> superblock" where
  "zero_superblock b =
     \<lparr>sb_busy = False, sb_dev = b, sb_size = 0, sb_block_size = 0, sb_root = None, sb_flags = 0, sb_reference_cnt = 0\<rparr>"

definition alloc_superblock :: "'a vnodes_scheme \<Rightarrow> nat option \<times> 'a vnodes_scheme" where
  "alloc_superblock s =
     (case free_superblock_list s of
        [] \<Rightarrow> (None, s)
      | b # bs \<Rightarrow>
          (let s = s\<lparr>free_superblock_list := bs\<rparr>;
               s = upd_sb b (\<lambda>_. zero_superblock b) s
           in (Some b, InitRendez (Rz_superblock b) s)))"

definition free_superblock :: "nat \<Rightarrow> 'a vnodes_scheme \<Rightarrow> 'a vnodes_scheme" where
  "free_superblock b s =
     (let s = sb_count (- 1) b s
      in if sb_reference_cnt (superblocks s b) = 0
         then s\<lparr>free_superblock_list := free_superblock_list s @ [b]\<rparr> else s)"

definition alloc_fd_superblock :: "nat \<Rightarrow> 'a vnodes_scheme \<Rightarrow> (nat result \<times> 'a vnodes_scheme) option" where
  "alloc_fd_superblock p s = do {
     (r, s) \<leftarrow> alloc_fd_filp p s;
     case r of
       Inl _ \<Rightarrow> Some (Inl EMFILE, s)
     | Inr fd \<Rightarrow>
         (case alloc_superblock s of
            (None, s) \<Rightarrow> do { (_, s) \<leftarrow> free_fd_filp p (int fd) s; Some (Inl EMFILE, s) }
          | (Some b, s) \<Rightarrow> do {
              (_, s) \<leftarrow> set_fd p (int fd) FILP_TYPE_SUPERBLOCK False (Some b) s;
              Some (Inr fd, s)
            })
   }"

definition free_fd_superblock ::
  "nat \<Rightarrow> int \<Rightarrow> 'a vnodes_scheme \<Rightarrow> (unit result \<times> 'a vnodes_scheme) option" where
  "free_fd_superblock p fd s = do {
     bo \<leftarrow> get_superblock p fd s;
     case bo of
       None \<Rightarrow> Some (Inl EINVAL, s)
     | Some b \<Rightarrow> do { (_, s) \<leftarrow> free_fd_filp p fd (free_superblock b s); Some (Inr (), s) }
   }"

definition close_mount :: "nat \<Rightarrow> int \<Rightarrow> 'a vnodes_scheme \<Rightarrow> (unit result \<times> 'a vnodes_scheme) option" where
  "close_mount p fd s = do {
     bo \<leftarrow> get_superblock p fd s;
     case bo of
       None \<Rightarrow> Some (Inl EINVAL, s)
     | Some b \<Rightarrow> do { (_, s) \<leftarrow> free_fd_superblock p fd s; Some (Inr (), s) }
   }"

section \<open>System calls\<close>

text \<open>The types of files, by the bits \<open>S_IFMT\<close> of the mode.\<close>

definition S_IFMT :: u32 where
  "S_IFMT = 0xF000"

definition S_ISDIR :: "u32 \<Rightarrow> bool" where
  "S_ISDIR m \<longleftrightarrow> (m AND S_IFMT) = 0x4000"

definition S_ISCHR :: "u32 \<Rightarrow> bool" where
  "S_ISCHR m \<longleftrightarrow> (m AND S_IFMT) = 0x2000"

definition S_ISBLK :: "u32 \<Rightarrow> bool" where
  "S_ISBLK m \<longleftrightarrow> (m AND S_IFMT) = 0x6000"

definition S_ISREG :: "u32 \<Rightarrow> bool" where
  "S_ISREG m \<longleftrightarrow> (m AND S_IFMT) = 0x8000"

definition S_ISFIFO :: "u32 \<Rightarrow> bool" where
  "S_ISFIFO m \<longleftrightarrow> (m AND S_IFMT) = 0x1000"

datatype whence = SEEK_SET | SEEK_CUR | SEEK_END | SEEK_OTHER int

text \<open>The position after a seek; the 64-bit file positions of the code are unbounded here.\<close>

definition seek_position :: "filp \<Rightarrow> vnode \<Rightarrow> int \<Rightarrow> whence \<Rightarrow> int option" where
  "seek_position f v pos w =
     (case w of
        SEEK_SET \<Rightarrow> Some pos
      | SEEK_CUR \<Rightarrow> Some (foffset f + pos)
      | SEEK_END \<Rightarrow> Some (v_size v + pos)
      | SEEK_OTHER n \<Rightarrow> None)"

definition seek_fd :: "int \<Rightarrow> int \<Rightarrow> whence \<Rightarrow> 'a vnodes_scheme \<Rightarrow> (int result \<times> 'a vnodes_scheme) option" where
  "seek_fd fd pos w s = do {
     fo \<leftarrow> get_filp (current s) fd s;
     vo \<leftarrow> get_fd_vnode (current s) fd s;
     case vo of
       None \<Rightarrow> Some (Inl EINVAL, s)
     | Some v \<Rightarrow> do {
         f \<leftarrow> fo;
         let m = v_mode (vnode_tab s v);
         if \<not> S_ISREG m \<and> \<not> S_ISBLK m then Some (Inl EINVAL, s)
         else (case seek_position (filps s f) (vnode_tab s v) pos w of
                 None \<Rightarrow> Some (Inl EINVAL, s)
               | Some n \<Rightarrow> Some (Inr n, upd_filp f (\<lambda>x. x\<lparr>foffset := n\<rparr>) s))
       }
   }"

text \<open>\<open>sys_lseek\<close> returns the new position as a 32-bit \<open>off_t\<close>.\<close>

definition sys_lseek :: "int \<Rightarrow> int \<Rightarrow> whence \<Rightarrow> 'a vnodes_scheme \<Rightarrow> (int result \<times> 'a vnodes_scheme) option" where
  "sys_lseek fd pos w s = do {
     (r, s) \<leftarrow> seek_fd fd pos w s;
     Some (map_sum id (\<lambda>n. sint (word_of_int n :: u32)) r, s)
   }"

text \<open>
  \<open>sys_lseek64\<close> reads the position from the caller, where \<open>None\<close> is a failed copy, which is ignored, and
  writes the new one back.
\<close>

definition sys_lseek64 ::
  "int \<Rightarrow> int option \<Rightarrow> whence \<Rightarrow> 'a vnodes_scheme \<Rightarrow> (int result \<times> 'a vnodes_scheme) option" where
  "sys_lseek64 fd pos w s = seek_fd fd (case pos of None \<Rightarrow> 0 | Some p \<Rightarrow> p) w s"

definition sys_rewinddir :: "int \<Rightarrow> 'a vnodes_scheme \<Rightarrow> (unit result \<times> 'a vnodes_scheme) option" where
  "sys_rewinddir fd s = do {
     fo \<leftarrow> get_filp (current s) fd s;
     vo \<leftarrow> get_fd_vnode (current s) fd s;
     case vo of
       None \<Rightarrow> Some (Inl EINVAL, s)
     | Some v \<Rightarrow>
         (if \<not> S_ISDIR (v_mode (vnode_tab s v)) then Some (Inl EINVAL, s)
          else do { f \<leftarrow> fo; Some (Inr (), upd_filp f (\<lambda>x. x\<lparr>foffset := 0\<rparr>) s) })
   }"

definition sys_fchdir :: "int \<Rightarrow> 'a vnodes_scheme \<Rightarrow> (unit result \<times> 'a vnodes_scheme) option" where
  "sys_fchdir fd s = do {
     let c = current s;
     vo \<leftarrow> get_fd_vnode c fd s;
     case vo of
       None \<Rightarrow> Some (Inl EINVAL, s)
     | Some v \<Rightarrow>
         (if \<not> S_ISDIR (v_mode (vnode_tab s v)) then Some (Inl ENOTDIR, s)
          else do {
            fp \<leftarrow> fprocs s c;
            old \<leftarrow> current_dir fp;
            s \<leftarrow> vnode_put old s;
            fp \<leftarrow> fprocs s c;
            s \<leftarrow> vnode_inc_ref v (set_fproc c (fp\<lparr>current_dir := Some v\<rparr>) s);
            Some (Inr (), s)
          })
   }"

definition sys_access :: "'a vnodes_scheme \<Rightarrow> unit result" where
  "sys_access s = Inr ()"

definition is_allowed :: "nat \<Rightarrow> u32 \<Rightarrow> 'a vnodes_scheme \<Rightarrow> unit result" where
  "is_allowed v access s = Inr ()"

definition sys_umask :: "u32 \<Rightarrow> 'a vnodes_scheme \<Rightarrow> u32 \<times> 'a vnodes_scheme" where
  "sys_umask m s = (umasks s (current s), s\<lparr>umasks := (umasks s)(current s := m)\<rparr>)"

definition sys_getuid :: "'a vnodes_scheme \<Rightarrow> int" where
  "sys_getuid s = cr_uid (creds s (current s))"

definition sys_getgid :: "'a vnodes_scheme \<Rightarrow> int" where
  "sys_getgid s = cr_gid (creds s (current s))"

definition sys_geteuid :: "'a vnodes_scheme \<Rightarrow> int" where
  "sys_geteuid s = cr_euid (creds s (current s))"

definition sys_getegid :: "'a vnodes_scheme \<Rightarrow> int" where
  "sys_getegid s = cr_egid (creds s (current s))"

definition sys_setuid :: "int \<Rightarrow> 'a vnodes_scheme \<Rightarrow> unit result \<times> 'a vnodes_scheme" where
  "sys_setuid u s =
     (let c = current s
      in if cr_uid (creds s c) \<noteq> 0 \<and> cr_gid (creds s c) \<noteq> 0 then (Inl EPERM, s)
         else (Inr (), upd_cred c (\<lambda>x. x\<lparr>cr_uid := u\<rparr>) s))"

definition sys_setgid :: "int \<Rightarrow> 'a vnodes_scheme \<Rightarrow> unit result \<times> 'a vnodes_scheme" where
  "sys_setgid g s =
     (let c = current s
      in if cr_uid (creds s c) \<noteq> 0 \<and> cr_gid (creds s c) \<noteq> 0 then (Inl EPERM, s)
         else (Inr (), upd_cred c (\<lambda>x. x\<lparr>cr_gid := g\<rparr>) s))"

text \<open>The identifier of a process is its index.\<close>

definition sys_setpgrp :: "'a vnodes_scheme \<Rightarrow> unit result \<times> 'a vnodes_scheme" where
  "sys_setpgrp s = (Inr (), upd_cred (current s) (\<lambda>x. x\<lparr>cr_pgrp := int (current s)\<rparr>) s)"

definition sys_getpgrp :: "'a vnodes_scheme \<Rightarrow> int" where
  "sys_getpgrp s = cr_pgrp (creds s (current s))"

definition sys_setegid :: "int \<Rightarrow> 'a vnodes_scheme \<Rightarrow> unit result \<times> 'a vnodes_scheme" where
  "sys_setegid g s = (Inr (), s)"

definition sys_seteuid :: "int \<Rightarrow> 'a vnodes_scheme \<Rightarrow> unit result \<times> 'a vnodes_scheme" where
  "sys_seteuid u s = (Inr (), s)"

text \<open>\<open>sys_knotei\<close> of \<^verbatim>\<open>kernel/fs/msg.c\<close>: a server raises an event on one of its files.\<close>

definition knotei_raise :: "nat \<Rightarrow> u32 \<Rightarrow> 'a vnodes_scheme \<Rightarrow> (unit result sys \<times> 'a vnodes_scheme) option" where
  "knotei_raise v h s = do {
     s \<leftarrow> vnode_put v (knote_object (Obj_vnode v) h s);
     Some (Done (Inr ()), s)
   }"

definition sys_knotei :: "int \<Rightarrow> int \<Rightarrow> u32 \<Rightarrow> 'a vnodes_scheme \<Rightarrow> (unit result sys \<times> 'a vnodes_scheme) option" where
  "sys_knotei fd ino h s = do {
     bo \<leftarrow> get_superblock (current s) fd s;
     case bo of
       None \<Rightarrow> Some (Done (Inl EINVAL), s)
     | Some b \<Rightarrow> do {
         (r, s) \<leftarrow> vnode_get b ino s;
         case r of
           Blocked \<Rightarrow> Some (Blocked, s)
         | Done None \<Rightarrow> Some (Done (Inl EINVAL), s)
         | Done (Some v) \<Rightarrow> knotei_raise v h s
       }
   }"

text \<open>The part of \<open>InitFSLists\<close> for these tables, which start out zeroed.\<close>

definition zero_vnode :: vnode where
  "zero_vnode =
     \<lparr>v_busy = False, v_reader_cnt = 0, v_writer_cnt = 0, superblock = None, v_flags = 0, v_reference_cnt = 0,
      vnode_mounted_here = None, vnode_covered = None, v_pipe = None, inode_nr = 0, v_mode = 0,
      v_uid = 0, v_gid = 0, v_size = 0, v_atime = 0, v_mtime = 0, v_ctime = 0, v_blocks = 0,
      v_blksize = 0, v_rdev = 0, v_nlink = 0\<rparr>"

definition init_vnodes :: "'a vnodes_scheme \<Rightarrow> 'a vnodes_scheme" where
  "init_vnodes s = s\<lparr>vnode_free_list := [0..<NR_VNODE], free_superblock_list := [0..<NR_SUPERBLOCK], root_vnode := None\<rparr>"

section \<open>The invariant of the vnode table\<close>

text \<open>
  The free list holds exactly the vnodes that have no reference and are not the root of a mount, and
  the count of a superblock is the sum of the counts of its vnodes.
\<close>

definition contrib :: "nat \<Rightarrow> vnode \<Rightarrow> int" where
  "contrib b x = (if superblock x = Some b then v_reference_cnt x else 0)"

definition counted :: "(nat \<Rightarrow> vnode) \<Rightarrow> nat \<Rightarrow> int" where
  "counted tab b = (\<Sum>v<NR_VNODE. contrib b (tab v))"

definition unused :: "vnode \<Rightarrow> bool" where
  "unused x \<longleftrightarrow> v_reference_cnt x = 0 \<and> \<not> has_flag V_ROOT (v_flags x)"

definition vinv :: "(nat \<Rightarrow> vnode) \<Rightarrow> nat list \<Rightarrow> (nat \<Rightarrow> int) \<Rightarrow> bool" where
  "vinv tab fl cnt \<longleftrightarrow>
     distinct fl \<and> set fl = {v. v < NR_VNODE \<and> unused (tab v)} \<and> (\<forall>v < NR_VNODE. v_reference_cnt (tab v) \<ge> 0)
     \<and> (\<forall>v \<in> set fl. \<not> v_busy (tab v) \<and> (has_flag V_FREE (v_flags (tab v)) \<or> superblock (tab v) = None))
     \<and> (\<forall>b. cnt b = counted tab b)"

definition sb_counts :: "(nat \<Rightarrow> superblock) \<Rightarrow> nat \<Rightarrow> int" where
  "sb_counts sbs b = sb_reference_cnt (sbs b)"

definition vnode_inv :: "'a vnodes_scheme \<Rightarrow> bool" where
  "vnode_inv s \<longleftrightarrow> vinv (vnode_tab s) (vnode_free_list s) (sb_counts (superblocks s))"

lemma counted_upd:
  assumes "v < NR_VNODE"
  shows "counted (tab(v := x)) b = counted tab b - contrib b (tab v) + contrib b x"
proof -
  have "counted t b = contrib b (t v) + (\<Sum>u \<in> {..<NR_VNODE} - {v}. contrib b (t u))" for t
    unfolding counted_def using assms by (subst sum.remove [of _ v]) auto
  from this [of tab] this [of "tab(v := x)"] show ?thesis by simp
qed

lemma vinvD:
  assumes "vinv tab fl cnt"
  shows "distinct fl" "set fl = {v. v < NR_VNODE \<and> unused (tab v)}" "cnt b = counted tab b"
    and "v < NR_VNODE \<Longrightarrow> v_reference_cnt (tab v) \<ge> 0" "v \<in> set fl \<Longrightarrow> \<not> v_busy (tab v)"
    and "v \<in> set fl \<Longrightarrow> has_flag V_FREE (v_flags (tab v)) \<or> superblock (tab v) = None"
  using assms by (simp_all only: vinv_def) auto

text \<open>One vnode changes: its count and that of its superblock change by the same amount.\<close>

lemma vinv_upd:
  assumes i: "vinv tab fl cnt" and v: "v < NR_VNODE" "superblock x = Some b" "v_reference_cnt x \<ge> 0"
    and old: "superblock (tab v) = Some b \<or> v_reference_cnt (tab v) = 0"
    and fl: "distinct fl'" "set fl' = (if unused x then insert v (set fl) else set fl - {v})"
    and free: "unused x \<Longrightarrow> \<not> v_busy x \<and> has_flag V_FREE (v_flags x)"
  shows "vinv (tab(v := x)) fl' (cnt(b := cnt b + (v_reference_cnt x - v_reference_cnt (tab v))))"
  unfolding vinv_def
proof (intro conjI allI ballI impI)
  show "distinct fl'" by (fact fl(1))
  show "set fl' = {u. u < NR_VNODE \<and> unused ((tab(v := x)) u)}"
    using fl(2) vinvD(2) [OF i] v(1) by (cases "unused x") (auto simp: fun_upd_def)
  show "v_reference_cnt ((tab(v := x)) u) \<ge> 0" if "u < NR_VNODE" for u
    using v(3) vinvD(4) [OF i that] by simp
  show "(cnt(b := cnt b + (v_reference_cnt x - v_reference_cnt (tab v)))) c = counted (tab(v := x)) c" for c
    using vinvD(3) [OF i, of c] v(2) old by (auto simp: counted_upd [OF v(1)] contrib_def)
next
  fix u assume u: "u \<in> set fl'"
  show "\<not> v_busy ((tab(v := x)) u)"
    using u fl(2) free vinvD(5) [OF i, of u] by (cases "unused x") auto
  show "has_flag V_FREE (v_flags ((tab(v := x)) u)) \<or> superblock ((tab(v := x)) u) = None"
    using u fl(2) free vinvD(6) [OF i, of u] by (cases "unused x") auto
qed

section \<open>What the operations change\<close>

text \<open>Sleeping and waking change the state of the scheduler only.\<close>

lemma resched_account_more: "resched_account s = Some s' \<Longrightarrow> sched.more s' = sched.more s"
  by (auto simp: resched_account_def Let_def split: if_splits list.splits)

lemma Reschedule_more: "Reschedule s = Some s' \<Longrightarrow> sched.more s' = sched.more s"
  using resched_account_more [of s] by (auto simp: Reschedule_def Let_def split: Option.bind_splits)

lemma SchedUnready_more: "SchedUnready p s = Some s' \<Longrightarrow> sched.more s' = sched.more s"
  by (auto simp: SchedUnready_def Let_def split: if_splits)

lemma TaskSleep_more: "TaskSleep r s = Some s' \<Longrightarrow> sched.more s' = sched.more s"
  unfolding TaskSleep_def Let_def
  by (fastforce dest: bkl_pass_more SchedUnready_more Reschedule_more split: Option.bind_splits)

lemma TaskWakeupAll_more: "sched.more (TaskWakeupAll r s) = sched.more s \<and> current (TaskWakeupAll r s) = current s"
proof (induction r s rule: TaskWakeupAll.induct)
  case (1 r s)
  then show ?case by (subst (1 2) TaskWakeupAll.simps) (auto simp: Let_def TaskWakeup_sel)
qed

lemma vnodes_more:
  assumes "sched.more t = sched.more s"
  shows "vnode_tab t = vnode_tab s" "vnode_free_list t = vnode_free_list s" "superblocks t = superblocks s"
    "free_superblock_list t = free_superblock_list s" "root_vnode t = root_vnode s" "fprocs t = fprocs s" "filps t = filps s"
    "object_knotes t = object_knotes s" "creds t = creds s" "vnodes.more t = vnodes.more s"
  using assms by (cases s, cases t, simp)+

lemmas TaskWakeupAll_vnodes [simp] = vnodes_more [OF TaskWakeupAll_more [THEN conjunct1]] TaskWakeupAll_more [THEN conjunct2]
lemmas TaskSleep_vnodes = vnodes_more [OF TaskSleep_more]

lemma upd_vnode_sel [simp]:
  "vnode_tab (upd_vnode v f s) = (vnode_tab s)(v := f (vnode_tab s v))" "vnode_free_list (upd_vnode v f s) = vnode_free_list s"
  "superblocks (upd_vnode v f s) = superblocks s" "current (upd_vnode v f s) = current s" "fprocs (upd_vnode v f s) = fprocs s"
  "filps (upd_vnode v f s) = filps s" "root_vnode (upd_vnode v f s) = root_vnode s" "object_knotes (upd_vnode v f s) = object_knotes s"
  "vnodes.more (upd_vnode v f s) = vnodes.more s" "blocked_list (upd_vnode v f s) = blocked_list s"
  by (simp_all add: upd_vnode_def)

lemma sb_count_sel [simp]:
  "vnode_tab (sb_count n b s) = vnode_tab s" "vnode_free_list (sb_count n b s) = vnode_free_list s"
  "sb_counts (superblocks (sb_count n b s)) = (sb_counts (superblocks s))(b := sb_counts (superblocks s) b + n)" "current (sb_count n b s) = current s"
  "fprocs (sb_count n b s) = fprocs s" "filps (sb_count n b s) = filps s" "root_vnode (sb_count n b s) = root_vnode s"
  "sb_flags (superblocks (sb_count n b s) c) = sb_flags (superblocks s c)" "object_knotes (sb_count n b s) = object_knotes s"
  "vnodes.more (sb_count n b s) = vnodes.more s"  "blocked_list (sb_count n b s) = blocked_list s"
  by (auto simp: sb_count_def upd_sb_def sb_counts_def)

lemma vnode_inv_cong:
  "vnode_tab t = vnode_tab s \<Longrightarrow> vnode_free_list t = vnode_free_list s \<Longrightarrow> superblocks t = superblocks s \<Longrightarrow>
   vnode_inv t = vnode_inv s"
  by (simp add: vnode_inv_def)

lemma has_flag_shl1: "has_flag (shl1 t) w \<longleftrightarrow> bit w t"
  by (simp add: has_flag_def and_shl1_eq_0_iff)

lemma flag_bits [simp]:
  "has_flag V_FREE (w OR V_FREE)" "has_flag V_ROOT (w OR V_FREE) = has_flag V_ROOT w" "\<not> has_flag V_ROOT 0" "\<not> has_flag V_FREE 0"
  by (auto simp: has_flag_shl1 V_FREE_def V_ROOT_def bit_or_iff bit_shl1_iff)

lemma vnode_new_inv:
  assumes i: "vnode_inv s" and n: "vnode_new b ino s = (Some v, s')"
  shows "vnode_inv s'" "vnode_tab s' = (vnode_tab s)(v := fresh_vnode b ino)" "v \<in> set (vnode_free_list s)"
proof -
  note I = i [unfolded vnode_inv_def]
  from n obtain vs where vs: "vnode_free_list s = v # vs"
    and s': "vnode_tab s' = (vnode_tab s)(v := fresh_vnode b ino)" "vnode_free_list s' = vs"
      "sb_counts (superblocks s') = (sb_counts (superblocks s))(b := sb_counts (superblocks s) b + 1)"
    by (auto simp: vnode_new_def Let_def InitRendez_def split: list.splits)
  have v: "v < NR_VNODE" "v_reference_cnt (vnode_tab s v) = 0"
    using vinvD(2) [OF I] vs by (auto simp: unused_def)
  have "\<not> unused (fresh_vnode b ino)" by (simp add: unused_def fresh_vnode_def)
  then show "vnode_inv s'"
    using vinv_upd [OF I v(1), of "fresh_vnode b ino" b vs] vinvD(1) [OF I] v vs
    unfolding vnode_inv_def s' by (simp add: fresh_vnode_def)
  show "vnode_tab s' = (vnode_tab s)(v := fresh_vnode b ino)" "v \<in> set (vnode_free_list s)" using s' vs by simp_all
qed

lemma vnode_new_None: "vnode_new b ino s = (None, s') \<Longrightarrow> s' = s"
  by (auto simp: vnode_new_def Let_def split: list.splits)

lemma vnode_find_Some:
  assumes "vnode_find b ino s = Some v"
  shows "v < NR_VNODE" "superblock (vnode_tab s v) = Some b" "inode_nr (vnode_tab s v) = ino"
  using assms by (auto simp: vnode_find_def find_Some_iff nth_append)

lemma vnode_get_wait_inv:
  assumes i: "vnode_inv s" and v: "v < NR_VNODE" "v_reference_cnt (vnode_tab s v) > 0" "superblock (vnode_tab s v) = Some b"
    and w: "vnode_get_wait v s = Some (r, s')"
  shows "vnode_inv s'"
proof (cases "v_busy (vnode_tab s v)")
  case True
  with w obtain t where "TaskSleep (Rz_vnode v) s = Some t" "s' = t"
    by (auto simp: vnode_get_wait_def split: Option.bind_splits)
  then show ?thesis using i TaskSleep_vnodes(1-3) [of _ s t] by (simp add: vnode_inv_def)
next
  case False
  note I = i [unfolded vnode_inv_def]
  let ?x = "(vnode_tab s v)\<lparr>v_busy := True\<rparr>"
  have u: "\<not> unused ?x" "v \<notin> set (vnode_free_list s)"
    using v vinvD(2) [OF I] by (auto simp: unused_def)
  then have s': "s' = upd_vnode v (\<lambda>x. x\<lparr>v_busy := True\<rparr>) s"
    using w False by (auto simp: vnode_get_wait_def rem_entry_def Let_def split: if_splits)
  show ?thesis using vinv_upd [OF I v(1), of ?x b "vnode_free_list s"] vinvD(1) [OF I] u v
    unfolding vnode_inv_def s' by simp
qed

text \<open>\<open>vnode_get\<close> on a vnode of the table: what it returns, and when it corrupts the free list.\<close>

lemma vnode_get_found:
  assumes i: "vnode_inv s" and f: "vnode_find b ino s = Some v" "\<not> has_flag S_ABORT (sb_flags (superblocks s b))"
  shows "v_busy (vnode_tab s v) \<Longrightarrow> vnode_get b ino s = Some (r, s') \<Longrightarrow> r = Blocked \<and> vnode_inv s'"
    and "\<not> v_busy (vnode_tab s v) \<Longrightarrow> has_flag V_FREE (v_flags (vnode_tab s v)) \<Longrightarrow> v \<notin> set (vnode_free_list s) \<Longrightarrow>
      vnode_get b ino s = None"
    and "\<not> v_busy (vnode_tab s v) \<Longrightarrow> \<not> has_flag V_FREE (v_flags (vnode_tab s v)) \<or> v \<in> set (vnode_free_list s) \<Longrightarrow>
      \<exists>t. vnode_get b ino s = Some (Done (Some v), t) \<and> vnode_inv t \<and> v \<notin> set (vnode_free_list t) \<and> superblocks t = superblocks (sb_count 1 b s)
        \<and> vnode_tab t = (vnode_tab s)(v := (vnode_tab s v)\<lparr>v_reference_cnt := v_reference_cnt (vnode_tab s v) + 1, v_busy := True\<rparr>)"
proof -
  note I = i [unfolded vnode_inv_def] and F = vnode_find_Some [OF f(1)]
  let ?y = "(vnode_tab s v)\<lparr>v_reference_cnt := v_reference_cnt (vnode_tab s v) + 1\<rparr>"
  let ?x = "?y\<lparr>v_busy := True\<rparr>"
  let ?s1 = "sb_count 1 b (upd_vnode v (\<lambda>x. x\<lparr>v_reference_cnt := v_reference_cnt x + 1\<rparr>) s)"
  have g: "vnode_get b ino s = do { (r, s) \<leftarrow> vnode_get_wait v ?s1; Some (case r of Done v \<Rightarrow> Done (Some v) | Blocked \<Rightarrow> Blocked, s) }"
    using f by (simp add: vnode_get_def Let_def)
  have ge: "v_reference_cnt (vnode_tab s v) \<ge> 0" using vinvD(4) [OF I F(1)] .
  have u: "\<not> unused ?x" "\<not> unused ?y" using ge by (auto simp: unused_def)
  note upd = vinv_upd [OF I F(1), where b = b]
  show "r = Blocked \<and> vnode_inv s'" if b: "v_busy (vnode_tab s v)" and r: "vnode_get b ino s = Some (r, s')"
  proof -
    have n: "v \<notin> set (vnode_free_list s)" using vinvD(5) [OF I] b by blast
    from r b obtain t where t: "TaskSleep (Rz_vnode v) ?s1 = Some t" "r = Blocked" "s' = t"
      by (auto simp: g vnode_get_wait_def split: Option.bind_splits)
    have "vnode_inv ?s1" using upd [of ?y "vnode_free_list s"] vinvD(1) [OF I] F ge u n by (simp add: vnode_inv_def)
    then show ?thesis using t TaskSleep_vnodes(1-3) [of _ ?s1 t] by (simp add: vnode_inv_def)
  qed
  show "vnode_get b ino s = None"
    if "\<not> v_busy (vnode_tab s v)" "has_flag V_FREE (v_flags (vnode_tab s v))" "v \<notin> set (vnode_free_list s)"
    using that by (simp add: g vnode_get_wait_def Let_def rem_entry_def)
  assume nb: "\<not> v_busy (vnode_tab s v)" and free: "\<not> has_flag V_FREE (v_flags (vnode_tab s v)) \<or> v \<in> set (vnode_free_list s)"
  let ?t = "(upd_vnode v (\<lambda>x. x\<lparr>v_busy := True\<rparr>) ?s1)\<lparr>vnode_free_list := remove1 v (vnode_free_list s)\<rparr>"
  have on: "v \<in> set (vnode_free_list s) \<Longrightarrow> has_flag V_FREE (v_flags (vnode_tab s v))" using vinvD(6) [OF I, of v] F(2) by auto
  have "vnode_get b ino s = Some (Done (Some v), ?t)"
  proof (cases "v \<in> set (vnode_free_list s)")
    case True
    with on nb show ?thesis by (simp add: g vnode_get_wait_def Let_def rem_entry_def)
  next
    case False
    with free nb show ?thesis
      by (simp add: g vnode_get_wait_def Let_def remove1_idem sb_count_def upd_sb_def upd_vnode_def)
  qed
  moreover have "vnode_inv ?t"
    using upd [of ?x "remove1 v (vnode_free_list s)"] vinvD(1) [OF I] F ge u by (simp add: vnode_inv_def set_remove1_eq)
  moreover have "v \<notin> set (vnode_free_list ?t)" using vinvD(1) [OF I] by (simp add: set_remove1_eq)
  ultimately show "\<exists>t. vnode_get b ino s = Some (Done (Some v), t) \<and> vnode_inv t \<and> v \<notin> set (vnode_free_list t)
    \<and> superblocks t = superblocks (sb_count 1 b s)
    \<and> vnode_tab t = (vnode_tab s)(v := (vnode_tab s v)\<lparr>v_reference_cnt := v_reference_cnt (vnode_tab s v) + 1, v_busy := True\<rparr>)"
    by (intro exI [of _ ?t]) (auto simp: sb_count_def upd_sb_def)
qed

lemma vnode_inc_ref_inv:
  assumes i: "vnode_inv s" and v: "v < NR_VNODE" "v_reference_cnt (vnode_tab s v) > 0" and r: "vnode_inc_ref v s = Some s'"
  shows "vnode_inv s'"
    "vnode_tab s' = (vnode_tab s)(v := (vnode_tab s v)\<lparr>v_reference_cnt := v_reference_cnt (vnode_tab s v) + 1\<rparr>)"
proof -
  note I = i [unfolded vnode_inv_def]
  let ?x = "(vnode_tab s v)\<lparr>v_reference_cnt := v_reference_cnt (vnode_tab s v) + 1\<rparr>"
  from r obtain b where b: "superblock (vnode_tab s v) = Some b"
    "s' = sb_count 1 b (upd_vnode v (\<lambda>x. x\<lparr>v_reference_cnt := v_reference_cnt x + 1\<rparr>) s)"
    by (auto simp: vnode_inc_ref_def Let_def split: Option.bind_splits)
  have "\<not> unused ?x" "v \<notin> set (vnode_free_list s)" using v vinvD(2) [OF I] by (auto simp: unused_def)
  then show "vnode_inv s'" using vinv_upd [OF I v(1), of ?x b "vnode_free_list s"] vinvD(1) [OF I] v b by (simp add: vnode_inv_def)
  show "vnode_tab s' = (vnode_tab s)(v := ?x)" using b by simp
qed

lemma vnode_put_inv:
  assumes i: "vnode_inv s" and v: "v < NR_VNODE" "v_reference_cnt (vnode_tab s v) > 0" and r: "vnode_put v s = Some s'"
  shows "vnode_inv s'"
proof -
  note I = i [unfolded vnode_inv_def]
  let ?o = "vnode_tab s v"
  let ?y = "?o\<lparr>v_busy := False, v_reference_cnt := v_reference_cnt ?o - 1\<rparr>"
  have n: "v \<notin> set (vnode_free_list s)" using v vinvD(2) [OF I] by (auto simp: unused_def)
  from r obtain b where b: "superblock ?o = Some b" by (auto simp: vnode_put_def Let_def split: Option.bind_splits)
  show ?thesis
  proof (cases "unused ?y")
    case True
    let ?x = "?y\<lparr>v_flags := v_flags ?o OR V_FREE\<rparr>"
    have "unused ?x" using True by (simp add: unused_def)
    then have x: "vinv ((vnode_tab s)(v := ?x)) (vnode_free_list s @ [v]) ((sb_counts (superblocks s))(b := sb_counts (superblocks s) b + - 1))"
      using vinv_upd [OF I v(1), of ?x b "vnode_free_list s @ [v]"] vinvD(1) [OF I] v b n by simp
    have "vnode_tab s' = (vnode_tab s)(v := ?x)" "vnode_free_list s' = vnode_free_list s @ [v]"
      "sb_counts (superblocks s') = (sb_counts (superblocks s))(b := sb_counts (superblocks s) b + - 1)"
      using r b True by (auto simp: vnode_put_def Let_def unused_def)
    then show ?thesis using x by (simp add: vnode_inv_def)
  next
    case False
    then have "vinv ((vnode_tab s)(v := ?y)) (vnode_free_list s) ((sb_counts (superblocks s))(b := sb_counts (superblocks s) b + - 1))"
      using vinv_upd [OF I v(1), of ?y b "vnode_free_list s"] vinvD(1) [OF I] v b n by simp
    moreover have "vnode_tab s' = (vnode_tab s)(v := ?y)" "vnode_free_list s' = vnode_free_list s"
      "sb_counts (superblocks s') = (sb_counts (superblocks s))(b := sb_counts (superblocks s) b + - 1)"
      using r b False by (auto simp: vnode_put_def Let_def unused_def)
    ultimately show ?thesis by (simp add: vnode_inv_def)
  qed
qed

text \<open>Locking, and filling in the fields of a vnode in use.\<close>

lemma vnode_field_inv:
  assumes i: "vnode_inv s" and v: "v < NR_VNODE" "v_reference_cnt (vnode_tab s v) > 0" "superblock (vnode_tab s v) = Some b"
    and x: "superblock x = Some b" "v_reference_cnt x = v_reference_cnt (vnode_tab s v)"
    and s': "vnode_tab s' = (vnode_tab s)(v := x)" "vnode_free_list s' = vnode_free_list s" "superblocks s' = superblocks s"
  shows "vnode_inv s'"
proof -
  note I = i [unfolded vnode_inv_def]
  have "\<not> unused x" "v \<notin> set (vnode_free_list s)" using v x vinvD(2) [OF I] by (auto simp: unused_def)
  then show ?thesis using vinv_upd [OF I v(1) x(1), of "vnode_free_list s"] vinvD(1) [OF I] v x s'
    by (simp add: vnode_inv_def)
qed

section \<open>Reachable tables\<close>

definition held :: "nat \<Rightarrow> 'a vnodes_scheme \<Rightarrow> bool" where
  "held v s \<longleftrightarrow> v < NR_VNODE \<and> v_reference_cnt (vnode_tab s v) > 0 \<and> superblock (vnode_tab s v) \<noteq> None"

text \<open>
  The steps of the table: the operations, each on a vnode the caller holds a reference to; filling in
  the fields of such a vnode; and whatever leaves the table alone.
\<close>

inductive vnode_step :: "'a vnodes_scheme \<Rightarrow> 'a vnodes_scheme \<Rightarrow> bool" where
  new: "vnode_new b ino s = (vo, s') \<Longrightarrow> vnode_step s s'"
| get: "vnode_get b ino s = Some (r, s') \<Longrightarrow> vnode_step s s'"
| resume: "held v s \<Longrightarrow> vnode_get_wait v s = Some (r, s') \<Longrightarrow> vnode_step s s'"
| inc: "held v s \<Longrightarrow> vnode_inc_ref v s = Some s' \<Longrightarrow> vnode_step s s'"
| put: "held v s \<Longrightarrow> vnode_put v s = Some s' \<Longrightarrow> vnode_step s s'"
| lock: "held v s \<Longrightarrow> vnode_lock v s = Some (r', s') \<Longrightarrow> vnode_step s s'"
| unlock: "held v s \<Longrightarrow> s' = vnode_unlock v s \<Longrightarrow> vnode_step s s'"
| fill: "held v s \<Longrightarrow> superblock (f (vnode_tab s v)) = superblock (vnode_tab s v) \<Longrightarrow>
    v_reference_cnt (f (vnode_tab s v)) = v_reference_cnt (vnode_tab s v) \<Longrightarrow> vnode_step s (upd_vnode v f s)"
| other: "vnode_tab s' = vnode_tab s \<Longrightarrow> vnode_free_list s' = vnode_free_list s \<Longrightarrow> superblocks s' = superblocks s \<Longrightarrow>
    vnode_step s s'"

inductive vnode_reachable :: "'a vnodes_scheme \<Rightarrow> bool" where
  boot: "\<lbrakk>vnode_tab s = (\<lambda>_. zero_vnode); \<forall>b. sb_reference_cnt (superblocks s b) = 0\<rbrakk> \<Longrightarrow> vnode_reachable (init_vnodes s)"
| step: "vnode_reachable s \<Longrightarrow> vnode_step s s' \<Longrightarrow> vnode_reachable s'"

lemma vnode_lock_inv:
  assumes "vnode_inv s" "held v s" "vnode_lock v s = Some (r, s')"
  shows "vnode_inv s'"
proof (cases "v_busy (vnode_tab s v)")
  case True
  then show ?thesis using assms TaskSleep_vnodes(1-3) [of _ s s']
    by (auto simp: vnode_lock_def vnode_inv_def split: Option.bind_splits)
next
  case False
  obtain b where "superblock (vnode_tab s v) = Some b" using assms(2) by (auto simp: held_def)
  then show ?thesis
    using False assms vnode_field_inv [of s v b "(vnode_tab s v)\<lparr>v_busy := True\<rparr>" s'] by (auto simp: vnode_lock_def held_def)
qed

lemma vnode_step_inv: "vnode_step s s' \<Longrightarrow> vnode_inv s \<Longrightarrow> vnode_inv s'"
proof (induction rule: vnode_step.induct)
  case (new b ino s vo s')
  then show ?case using vnode_new_inv(1) [of s b ino _ s'] vnode_new_None [of b ino s s'] by (cases vo) auto
next
  case (get b ino s r s')
  then show ?case
    using vnode_get_found [of s b ino] by (cases "vnode_find b ino s") (fastforce simp: vnode_get_def split: if_splits)+
next
  case (resume v s r s')
  then show ?case using vnode_get_wait_inv [of s v] by (auto simp: held_def)
next
  case (inc v s s')
  then show ?case using vnode_inc_ref_inv(1) [of s v s'] by (simp add: held_def)
next
  case (put v s s')
  then show ?case using vnode_put_inv [of s v s'] by (simp add: held_def)
next
  case (lock v s r s')
  then show ?case using vnode_lock_inv by blast
next
  case (unlock v s s')
  then obtain b where "superblock (vnode_tab s v) = Some b" by (auto simp: held_def)
  then show ?case
    using unlock vnode_field_inv [of s v b "(vnode_tab s v)\<lparr>v_busy := False\<rparr>" s'] by (simp add: held_def vnode_unlock_def)
next
  case (fill v s f)
  then obtain b where "superblock (vnode_tab s v) = Some b" by (auto simp: held_def)
  then show ?case using fill vnode_field_inv [of s v b "f (vnode_tab s v)" "upd_vnode v f s"] by (simp add: held_def)
next
  case (other s' s)
  then show ?case by (simp add: vnode_inv_def)
qed

lemma vnode_reachable_inv: "vnode_reachable s \<Longrightarrow> vnode_inv s"
proof (induction rule: vnode_reachable.induct)
  case (boot s)
  have "{v. v < NR_VNODE \<and> unused zero_vnode} = {..<NR_VNODE}" by (auto simp: unused_def zero_vnode_def)
  then show ?case using boot
    by (auto simp: vnode_inv_def vinv_def init_vnodes_def sb_counts_def counted_def contrib_def zero_vnode_def)
next
  case (step s s')
  then show ?case using vnode_step_inv by blast
qed

section \<open>Properties\<close>

text \<open>A table with one vnode of superblock 5, which has been released.\<close>

definition demo_vnodes :: vnodes where
  "demo_vnodes = msgs.extend demo_msgs
     (vnodes.fields (\<lambda>_. zero_vnode) [] zero_superblock [] None (\<lambda>_. \<lparr>cr_uid = 0, cr_gid = 0, cr_euid = 0, cr_egid = 0, cr_pgrp = 0\<rparr>) (\<lambda>_. 0))"

definition used_vnodes :: vnodes where
  "used_vnodes = snd (vnode_new 5 7 (init_vnodes demo_vnodes))"

definition freed_vnodes :: vnodes where
  "freed_vnodes = the (vnode_put 0 used_vnodes)"

lemma demo_vnodes_sel [simp]:
  "vnode_tab demo_vnodes = (\<lambda>_. zero_vnode)" "superblocks demo_vnodes = zero_superblock"
  by (simp_all add: demo_vnodes_def msgs.defs vnodes.defs)

lemma vnode_upt: "[0..<NR_VNODE] = 0 # [1..<NR_VNODE]"
  using upt_conv_Cons [of 0 NR_VNODE] by (simp add: NR_VNODE_def)

lemma used_vnodes_new: "vnode_new 5 7 (init_vnodes demo_vnodes) = (Some 0, used_vnodes)"
  by (simp add: used_vnodes_def vnode_new_def init_vnodes_def vnode_upt Let_def)

lemma used_vnodes_tab: "vnode_tab used_vnodes = (\<lambda>_. zero_vnode)(0 := fresh_vnode 5 7)"
  by (simp add: used_vnodes_def vnode_new_def init_vnodes_def vnode_upt Let_def InitRendez_def)

lemma freed_vnodes_put: "vnode_put 0 used_vnodes = Some freed_vnodes"
  by (simp add: freed_vnodes_def vnode_put_def used_vnodes_tab fresh_vnode_def)

lemma freed_vnodes_reachable: "vnode_reachable freed_vnodes"
proof -
  have "vnode_reachable (init_vnodes demo_vnodes)" by (rule vnode_reachable.boot) (simp_all add: zero_superblock_def)
  then have "vnode_reachable used_vnodes" using vnode_reachable.step vnode_step.new [OF used_vnodes_new] by blast
  moreover have "held 0 used_vnodes" by (simp add: held_def used_vnodes_tab fresh_vnode_def NR_VNODE_def)
  ultimately show ?thesis using vnode_reachable.step vnode_step.put [OF _ freed_vnodes_put] by blast
qed

lemma freed_vnodes_tab:
  "vnode_tab freed_vnodes = (\<lambda>_. zero_vnode)(0 := (fresh_vnode 5 7)\<lparr>v_busy := False, v_reference_cnt := 0, v_flags := V_FREE\<rparr>)"
  by (simp add: freed_vnodes_def vnode_put_def used_vnodes_tab Let_def fresh_vnode_def)

lemma freed_vnodes_find: "vnode_find 5 7 freed_vnodes = Some 0"
  by (simp add: vnode_find_def vnode_upt freed_vnodes_tab fresh_vnode_def)

lemma freed_vnodes_flags: "sb_flags (superblocks freed_vnodes b) = 0"
proof -
  have "sb_flags (superblocks used_vnodes b) = 0"
    by (simp add: used_vnodes_def vnode_new_def init_vnodes_def vnode_upt Let_def InitRendez_def upd_sb_def sb_count_def zero_superblock_def)
  then show ?thesis by (simp add: freed_vnodes_def vnode_put_def used_vnodes_tab Let_def fresh_vnode_def)
qed



text \<open>
  C26: A file that is looked up again after its last reference was released is found in the table, is taken off
  the free list and locked; but its flag \<open>V_FREE\<close> stays set.  The next lookup of the file, while the first is
  still in use, removes it from the free list a second time, which corrupts the list.
\<close>

theorem vnode_get_recycled:
  assumes "vnode_reachable s" "vnode_find b ino s = Some v" "\<not> has_flag S_ABORT (sb_flags (superblocks s b))"
    and "v_reference_cnt (vnode_tab s v) = 0" "\<not> has_flag V_ROOT (v_flags (vnode_tab s v))"
  shows "\<exists>s1. vnode_get b ino s = Some (Done (Some v), s1) \<and> v_reference_cnt (vnode_tab s1 v) = 1 \<and> v_busy (vnode_tab s1 v)
    \<and> v \<notin> set (vnode_free_list s1) \<and> vnode_get b ino (vnode_unlock v s1) = None"
proof -
  note i = vnode_reachable_inv [OF assms(1)]
  note I = i [unfolded vnode_inv_def] and F = vnode_find_Some [OF assms(2)]
  have on: "v \<in> set (vnode_free_list s)" using vinvD(2) [OF I] F assms(4,5) by (simp add: unused_def)
  have vf: "\<not> v_busy (vnode_tab s v)" "has_flag V_FREE (v_flags (vnode_tab s v))"
    using vinvD(5,6) [OF I on] F by auto
  from vnode_get_found(3) [OF i assms(2,3) vf(1)] on obtain t where t: "vnode_get b ino s = Some (Done (Some v), t)" "vnode_inv t"
    "v \<notin> set (vnode_free_list t)" "superblocks t = superblocks (sb_count 1 b s)"
    "vnode_tab t = (vnode_tab s)(v := (vnode_tab s v)\<lparr>v_reference_cnt := v_reference_cnt (vnode_tab s v) + 1, v_busy := True\<rparr>)"
    by blast
  let ?u = "vnode_unlock v t"
  have "held v t" using t(5) F assms(4) by (simp add: held_def)
  then have ui: "vnode_inv ?u" using vnode_step_inv [OF vnode_step.unlock] t(2) by blast
  have "vnode_find b ino ?u = vnode_find b ino s"
    unfolding vnode_find_def by (rule arg_cong [where f = "\<lambda>P. find P [0..<NR_VNODE]"]) (auto simp: t(5) vnode_unlock_def)
  then have "vnode_get b ino ?u = None"
    using vnode_get_found(2) [OF ui, of b ino v] assms(2,3) t vf by (simp add: vnode_unlock_def)
  then show ?thesis using t assms(4) by auto
qed

theorem vnode_get_recycled_witness:
  "\<exists>s1. vnode_get 5 7 freed_vnodes = Some (Done (Some 0), s1) \<and> vnode_get 5 7 (vnode_unlock 0 s1) = None"
  using vnode_get_recycled [OF freed_vnodes_reachable freed_vnodes_find]
  by (auto simp: freed_vnodes_flags freed_vnodes_tab has_flag_shl1 S_ABORT_def V_ROOT_def V_FREE_def bit_shl1_iff)

end
