(* ===== verification/Pipes.thy ===== *)
theory Pipes
  imports VNodes
begin

unbundle bit_operations_syntax

text \<open>
  Pipes, \<^verbatim>\<open>kernel/fs/pipe.c\<close>.  A pipe is a page used as a ring buffer, with the positions of the next byte to
  write and to read and the sizes of the used and the free part.  A transfer sleeps until there is
  data or space, and copies once.  The loops of \<open>read_from_pipe\<close> and \<open>write_to_pipe\<close> repeat until something
  was copied; they are partial functions, and the result \<open>None\<close> is a loop that does not end or a NULL
  dereference.

  Memory of the caller is an argument: \<open>None\<close> if it cannot be accessed.
\<close>

section \<open>State\<close>

definition NR_PIPE :: nat where
  "NR_PIPE = 64"

definition PIPE_BUF_SZ :: nat where
  "PIPE_BUF_SZ = 4096"

definition PIPE_BUF :: nat where
  "PIPE_BUF = 512"

record pipe =
  p_data :: "u8 list"
  w_pos :: nat
  r_pos :: nat
  free_sz :: nat
  data_sz :: nat
  reader_cnt :: int
  writer_cnt :: int

record pipes = vnodes +
  pipe_tab :: "nat \<Rightarrow> pipe"
  free_pipe_list :: "nat list"
  pipe_inode_nr :: int

text \<open>The superblock \<open>pipe_sb\<close> is not in the table of superblocks.\<close>

definition pipe_sb :: nat where
  "pipe_sb = NR_SUPERBLOCK"

definition upd_pipe :: "nat \<Rightarrow> (pipe \<Rightarrow> pipe) \<Rightarrow> 'a pipes_scheme \<Rightarrow> 'a pipes_scheme" where
  "upd_pipe p f s = s\<lparr>pipe_tab := (pipe_tab s)(p := f (pipe_tab s p))\<rparr>"

section \<open>Creating a pipe\<close>

definition InitPipes :: "'a pipes_scheme \<Rightarrow> 'a pipes_scheme" where
  "InitPipes s = s\<lparr>free_pipe_list := [0..<NR_PIPE]\<rparr>"

text \<open>\<open>page\<close> is the page that \<open>kmalloc_page\<close> returns, with what is left in it.\<close>

definition alloc_pipe :: "u8 list option \<Rightarrow> 'a pipes_scheme \<Rightarrow> nat option \<times> 'a pipes_scheme" where
  "alloc_pipe page s =
     (case free_pipe_list s of
        [] \<Rightarrow> (None, s)
      | p # ps \<Rightarrow>
          (let s = s\<lparr>free_pipe_list := ps\<rparr>;
               s = upd_pipe p (\<lambda>x. x\<lparr>w_pos := 0, r_pos := 0, data_sz := 0, free_sz := PIPE_BUF_SZ,
                     reader_cnt := 0, writer_cnt := 0\<rparr>) s
           in case page of
                None \<Rightarrow> (None, s\<lparr>free_pipe_list := p # free_pipe_list s\<rparr>)
              | Some d \<Rightarrow> (Some p, InitRendez (Rz_pipe p) (upd_pipe p (\<lambda>x. x\<lparr>p_data := d\<rparr>) s))))"

text \<open>The test of \<open>free_pipe\<close> is inverted: it returns for every pipe, and links a NULL pointer otherwise.\<close>

definition free_pipe :: "nat option \<Rightarrow> 'a pipes_scheme \<Rightarrow> 'a pipes_scheme option" where
  "free_pipe po s = (if po \<noteq> None then Some s else None)"

definition O_RDONLY :: u32 where
  "O_RDONLY = 0"

definition O_WRONLY :: u32 where
  "O_WRONLY = 1"

definition pipe_filp :: "nat \<Rightarrow> u32 \<Rightarrow> filp \<Rightarrow> filp" where
  "pipe_filp v flags x = x\<lparr>ftype := FILP_TYPE_VNODE, foffset := 0, fflags := flags, fitem := Some v\<rparr>"

text \<open>\<open>writable\<close> says whether the two descriptors can be copied to the caller.\<close>

definition sys_pipe ::
  "u8 list option \<Rightarrow> bool \<Rightarrow> 'a pipes_scheme \<Rightarrow> ((nat \<times> nat) result \<times> 'a pipes_scheme) option" where
  "sys_pipe page writable s = do {
     let c = current s;
     case alloc_pipe page s of
       (None, s) \<Rightarrow> Some (Inl ENOMEM, s)
     | (Some p, s) \<Rightarrow> do {
         let s = s\<lparr>pipe_inode_nr := pipe_inode_nr s + 1\<rparr>;
         case vnode_new pipe_sb (pipe_inode_nr s) s of
           (None, s) \<Rightarrow> Some (Inl ENOMEM, s)
         | (Some v, s) \<Rightarrow> do {
             (r0, s) \<leftarrow> alloc_fd_filp c s;
             case r0 of
               Inl _ \<Rightarrow> Some (Inl ENOMEM, s)
             | Inr fd0 \<Rightarrow> do {
                 (r1, s) \<leftarrow> alloc_fd_filp c s;
                 case r1 of
                   Inl _ \<Rightarrow> Some (Inl ENOMEM, s)
                 | Inr fd1 \<Rightarrow> do {
                     fo0 \<leftarrow> get_filp c (int fd0) s;
                     f0 \<leftarrow> fo0;
                     let s = upd_filp f0 (pipe_filp v O_RDONLY) s;
                     fo1 \<leftarrow> get_filp c (int fd1) s;
                     f1 \<leftarrow> fo1;
                     let s = upd_filp f1 (pipe_filp v O_WRONLY) s;
                     let s = upd_pipe p (\<lambda>x. x\<lparr>reader_cnt := 1, writer_cnt := 1\<rparr>) s;
                     let s = upd_vnode v (\<lambda>x. x\<lparr>v_pipe := Some p, v_mode := 0x1000 OR 0x1FF\<rparr>) s;
                     let s = vnode_unlock v s;
                     if \<not> writable then Some (Inl EFAULT, s) else Some (Inr (fd0, fd1), s)
                   }
               }
           }
       }
   }"

section \<open>Transfers\<close>

text \<open>Storing bytes into memory at an index.\<close>

definition store :: "nat \<Rightarrow> u8 list \<Rightarrow> u8 list \<Rightarrow> u8 list" where
  "store i bs xs = take i xs @ bs @ drop (i + length bs) xs"

text \<open>
  The copies of \<open>read_from_pipe\<close>.  The bytes up to the end of the page go to the start of the caller's
  buffer; the others are read from the start of the page, and go to the start of the buffer as well.
\<close>

definition pipe_copyout :: "pipe \<Rightarrow> nat \<Rightarrow> u8 list option \<Rightarrow> u8 list option" where
  "pipe_copyout x n dst = do {
     (dst, sz2) \<leftarrow> (if r_pos x + n > PIPE_BUF_SZ then do {
        let sz1 = PIPE_BUF_SZ - r_pos x;
        d \<leftarrow> dst;
        Some (Some (store 0 (take sz1 (drop (r_pos x) (p_data x))) d), n - sz1)
      } else Some (dst, n));
     if sz2 \<noteq> 0 then do { d \<leftarrow> dst; Some (store 0 (take sz2 (p_data x)) d) } else Some (case dst of None \<Rightarrow> [] | Some d \<Rightarrow> d)
   }"

text \<open>The copies of \<open>write_to_pipe\<close>: the bytes that fit before the end of the page, the others at its start.\<close>

definition pipe_copyin :: "pipe \<Rightarrow> nat \<Rightarrow> user_buf \<Rightarrow> pipe \<times> bool" where
  "pipe_copyin x n src =
     (if w_pos x + n > PIPE_BUF_SZ then
        (let sz1 = PIPE_BUF_SZ - w_pos x; sz2 = n - sz1
         in case src 0 sz1 of
              None \<Rightarrow> (x, False)
            | Some bs \<Rightarrow>
                (let x = x\<lparr>p_data := store (w_pos x) bs (p_data x)\<rparr>
                 in if sz2 = 0 then (x, True)
                    else case src sz1 sz2 of
                           None \<Rightarrow> (x, False)
                         | Some cs \<Rightarrow> (x\<lparr>p_data := store 0 cs (p_data x)\<rparr>, True)))
      else if n = 0 then (x, True)
      else case src 0 n of
             None \<Rightarrow> (x, False)
           | Some bs \<Rightarrow> (x\<lparr>p_data := store 0 bs (p_data x)\<rparr>, True))"

definition pipe_taken :: "nat \<Rightarrow> pipe \<Rightarrow> pipe" where
  "pipe_taken n x = x\<lparr>r_pos := (r_pos x + n) mod PIPE_BUF_SZ, data_sz := data_sz x - n, free_sz := free_sz x + n\<rparr>"

definition pipe_added :: "nat \<Rightarrow> pipe \<Rightarrow> pipe" where
  "pipe_added n x = x\<lparr>w_pos := (w_pos x + n) mod PIPE_BUF_SZ, data_sz := data_sz x + n, free_sz := free_sz x - n\<rparr>"

partial_function (option) read_loop ::
  "nat \<Rightarrow> u8 list option \<Rightarrow> nat \<Rightarrow> 'a pipes_scheme \<Rightarrow> ((nat \<times> u8 list) result sys \<times> 'a pipes_scheme) option" where
  "read_loop p dst sz s =
     (let x = pipe_tab s p
      in if data_sz x = 0 \<and> writer_cnt x > 0 then do { s \<leftarrow> TaskSleep (Rz_pipe p) s; Some (Blocked, s) }
         else if writer_cnt x = 0 \<and> data_sz x = 0 then Some (Done (Inr (0, case dst of None \<Rightarrow> [] | Some d \<Rightarrow> d)), s)
         else (let n = (if sz < data_sz x then sz else data_sz x)
               in case pipe_copyout x n dst of
                    None \<Rightarrow> Some (Done (Inl EIO), s)
                  | Some d \<Rightarrow>
                      (let s = TaskWakeupAll (Rz_pipe p) (upd_pipe p (pipe_taken n) s)
                       in if n = 0 then read_loop p dst sz s else Some (Done (Inr (n, d)), s))))"

definition read_from_pipe ::
  "nat \<Rightarrow> u8 list option \<Rightarrow> nat \<Rightarrow> 'a pipes_scheme \<Rightarrow> ((nat \<times> u8 list) result sys \<times> 'a pipes_scheme) option" where
  "read_from_pipe v dst sz s = do { p \<leftarrow> v_pipe (vnode_tab s v); read_loop p dst sz s }"

partial_function (option) write_loop ::
  "nat \<Rightarrow> user_buf \<Rightarrow> nat \<Rightarrow> 'a pipes_scheme \<Rightarrow> (nat result sys \<times> 'a pipes_scheme) option" where
  "write_loop p src sz s =
     (let x = pipe_tab s p
      in if free_sz x < PIPE_BUF \<and> reader_cnt x > 0 then do { s \<leftarrow> TaskSleep (Rz_pipe p) s; Some (Blocked, s) }
         else if reader_cnt x = 0 then Some (Done (Inr 0), s)
         else (let n = (if sz < free_sz x then sz else free_sz x); (x', ok) = pipe_copyin x n src;
                   s = upd_pipe p (\<lambda>_. x') s
               in if \<not> ok then Some (Done (Inl EIO), s)
                  else (let s = TaskWakeupAll (Rz_pipe p) (upd_pipe p (pipe_added n) s)
                        in if n = 0 then write_loop p src sz s else Some (Done (Inr n), s))))"

definition write_to_pipe ::
  "nat \<Rightarrow> user_buf \<Rightarrow> nat \<Rightarrow> 'a pipes_scheme \<Rightarrow> (nat result sys \<times> 'a pipes_scheme) option" where
  "write_to_pipe v src sz s = do { p \<leftarrow> v_pipe (vnode_tab s v); write_loop p src sz s }"

text \<open>
  What \<open>do_close\<close> of \<^verbatim>\<open>kernel/fs/filedesc.c\<close> does to the pipe when the last descriptor of the filp \<open>f\<close> is closed.
  \<open>O_RDONLY\<close> is 0, so that the test of the flags never holds.
\<close>

definition close_pipe_end :: "nat \<Rightarrow> nat \<Rightarrow> 'a pipes_scheme \<Rightarrow> 'a pipes_scheme option" where
  "close_pipe_end f v s =
     (if S_ISFIFO (v_mode (vnode_tab s v)) then do {
        p \<leftarrow> v_pipe (vnode_tab s v);
        Some (if has_flag O_RDONLY (fflags (filps s f)) then upd_pipe p (\<lambda>x. x\<lparr>reader_cnt := reader_cnt x - 1\<rparr>) s
              else upd_pipe p (\<lambda>x. x\<lparr>writer_cnt := writer_cnt x - 1\<rparr>) s)
      } else Some s)"

section \<open>Lemmas\<close>

lemma close_pipe_end_reader:
  assumes "S_ISFIFO (v_mode (vnode_tab s v))" "v_pipe (vnode_tab s v) = Some p" "fflags (filps s f) = O_RDONLY"
  shows "close_pipe_end f v s = Some (upd_pipe p (\<lambda>x. x\<lparr>writer_cnt := writer_cnt x - 1\<rparr>) s)"
  using assms by (simp add: close_pipe_end_def has_flag_def O_RDONLY_def)

definition pipe_inv :: "pipe \<Rightarrow> bool" where
  "pipe_inv x \<longleftrightarrow> length (p_data x) = PIPE_BUF_SZ \<and> r_pos x < PIPE_BUF_SZ \<and> w_pos x < PIPE_BUF_SZ
     \<and> data_sz x + free_sz x = PIPE_BUF_SZ \<and> (r_pos x + data_sz x) mod PIPE_BUF_SZ = w_pos x"

lemma pipes_more:
  assumes "sched.more t = sched.more s"
  shows "pipe_tab t = pipe_tab s" "free_pipe_list t = free_pipe_list s"
  using assms by (cases s, cases t, simp)+

lemmas TaskWakeupAll_pipes [simp] = pipes_more [OF TaskWakeupAll_more [THEN conjunct1]]

lemma upd_pipe_sel [simp]:
  "pipe_tab (upd_pipe p f s) = (pipe_tab s)(p := f (pipe_tab s p))" "vnode_tab (upd_pipe p f s) = vnode_tab s"
  by (simp_all add: upd_pipe_def)

lemma length_store: "i + length bs \<le> length xs \<Longrightarrow> length (store i bs xs) = length xs"
  by (simp add: store_def)

lemma take_store: "length bs \<le> length xs \<Longrightarrow> take (length bs) (store 0 bs xs) = bs"
  by (simp add: store_def)

lemma pipe_moved_sel [simp]:
  "p_data (pipe_taken n x) = p_data x" "r_pos (pipe_taken n x) = (r_pos x + n) mod PIPE_BUF_SZ" "w_pos (pipe_taken n x) = w_pos x"
  "data_sz (pipe_taken n x) = data_sz x - n" "free_sz (pipe_taken n x) = free_sz x + n" "reader_cnt (pipe_taken n x) = reader_cnt x"
  "writer_cnt (pipe_taken n x) = writer_cnt x"
  "p_data (pipe_added n x) = p_data x" "r_pos (pipe_added n x) = r_pos x" "w_pos (pipe_added n x) = (w_pos x + n) mod PIPE_BUF_SZ"
  "data_sz (pipe_added n x) = data_sz x + n" "free_sz (pipe_added n x) = free_sz x - n" "reader_cnt (pipe_added n x) = reader_cnt x"
  "writer_cnt (pipe_added n x) = writer_cnt x"
  by (simp_all add: pipe_taken_def pipe_added_def)

lemma pipe_copyin_sel:
  assumes "pipe_copyin x n src = (x', ok)"
  shows "r_pos x' = r_pos x" "w_pos x' = w_pos x" "data_sz x' = data_sz x" "free_sz x' = free_sz x" "reader_cnt x' = reader_cnt x"
    "writer_cnt x' = writer_cnt x"
  using assms by (auto simp: pipe_copyin_def Let_def split: if_splits option.splits)

text \<open>The sizes and positions stay consistent through any transfer.\<close>

lemma pipe_taken_inv:
  assumes "pipe_inv x" "n \<le> data_sz x"
  shows "pipe_inv (pipe_taken n x)"
proof -
  have "((r_pos x + n) mod PIPE_BUF_SZ + (data_sz x - n)) mod PIPE_BUF_SZ = (r_pos x + data_sz x) mod PIPE_BUF_SZ"
    using assms(2) mod_add_left_eq [of "r_pos x + n" PIPE_BUF_SZ "data_sz x - n"] by simp
  then show ?thesis using assms by (simp add: pipe_inv_def)
qed

lemma pipe_added_inv:
  assumes "pipe_inv x" "n \<le> free_sz x"
  shows "pipe_inv (pipe_added n x)"
proof -
  have "(w_pos x + n) mod PIPE_BUF_SZ = (r_pos x + (data_sz x + n)) mod PIPE_BUF_SZ"
    using assms(1) mod_add_left_eq [of "r_pos x + data_sz x" PIPE_BUF_SZ n] by (simp add: pipe_inv_def add.assoc)
  then show ?thesis using assms by (simp add: pipe_inv_def)
qed

text \<open>One copy: the loops return after it.\<close>

lemma read_loop_copy:
  assumes "0 < sz" "0 < data_sz (pipe_tab s p)"
  shows "read_loop p dst sz s =
    (let x = pipe_tab s p; n = min sz (data_sz x)
     in case pipe_copyout x n dst of
          None \<Rightarrow> Some (Done (Inl EIO), s)
        | Some d \<Rightarrow> Some (Done (Inr (n, d)), TaskWakeupAll (Rz_pipe p) (upd_pipe p (pipe_taken n) s)))"
  using assms by (subst read_loop.simps) (auto simp: Let_def min_def split: option.split)

lemma write_loop_copy:
  assumes "0 < sz" "PIPE_BUF \<le> free_sz (pipe_tab s p)" "0 < reader_cnt (pipe_tab s p)"
  shows "write_loop p src sz s =
    (let n = min sz (free_sz (pipe_tab s p)); (x', ok) = pipe_copyin (pipe_tab s p) n src; s = upd_pipe p (\<lambda>_. x') s
     in Some (if ok then (Done (Inr n), TaskWakeupAll (Rz_pipe p) (upd_pipe p (pipe_added n) s)) else (Done (Inl EIO), s)))"
  using assms by (subst write_loop.simps) (auto simp: Let_def min_def PIPE_BUF_def split: prod.split)

text \<open>A transfer of no bytes never ends.\<close>

lemma read_loop_zero:
  assumes "0 < data_sz (pipe_tab s p)" "r_pos (pipe_tab s p) \<le> PIPE_BUF_SZ"
  shows "read_loop p dst 0 s = None"
proof -
  have "k = 0 \<and> r_pos (pipe_tab u q) \<le> PIPE_BUF_SZ \<longrightarrow> data_sz (pipe_tab u q) = 0" if "read_loop q e k u = Some y" for q e k and u :: "'a pipes_scheme" and y
    using that
  proof (rule read_loop.raw_induct [rotated])
    fix f :: "nat \<Rightarrow> u8 list option \<Rightarrow> nat \<Rightarrow> 'a pipes_scheme \<Rightarrow> ((nat \<times> u8 list) result sys \<times> 'a pipes_scheme) option"
    fix q e k u y
    assume ih: "\<And>q e k u y. f q e k u = Some y \<Longrightarrow> k = 0 \<and> r_pos (pipe_tab u q) \<le> PIPE_BUF_SZ \<longrightarrow> data_sz (pipe_tab u q) = 0"
    assume b: "(let x = pipe_tab u q
      in if data_sz x = 0 \<and> writer_cnt x > 0 then do { s \<leftarrow> TaskSleep (Rz_pipe q) u; Some (Blocked, s) }
         else if writer_cnt x = 0 \<and> data_sz x = 0 then Some (Done (Inr (0, case e of None \<Rightarrow> [] | Some d \<Rightarrow> d)), u)
         else (let n = (if k < data_sz x then k else data_sz x)
               in case pipe_copyout x n e of
                    None \<Rightarrow> Some (Done (Inl EIO), u)
                  | Some d \<Rightarrow>
                      (let s = TaskWakeupAll (Rz_pipe q) (upd_pipe q (pipe_taken n) u)
                       in if n = 0 then f q e k s else Some (Done (Inr (n, d)), s)))) = Some y"
    show "k = 0 \<and> r_pos (pipe_tab u q) \<le> PIPE_BUF_SZ \<longrightarrow> data_sz (pipe_tab u q) = 0"
    proof (rule impI, rule ccontr)
      assume k: "k = 0 \<and> r_pos (pipe_tab u q) \<le> PIPE_BUF_SZ" and d: "data_sz (pipe_tab u q) \<noteq> 0"
      have "pipe_copyout (pipe_tab u q) 0 e \<noteq> None" using k by (simp add: pipe_copyout_def)
      then have "f q e k (TaskWakeupAll (Rz_pipe q) (upd_pipe q (pipe_taken 0) u)) = Some y" using b k d
        by (auto simp: Let_def split: option.splits)
      from ih [OF this] k d show False by (simp add: PIPE_BUF_SZ_def mod_less_divisor less_imp_le)
    qed
  qed
  from this [of p dst 0 s] assms show ?thesis by (cases "read_loop p dst 0 s") auto
qed

lemma write_loop_zero:
  assumes "PIPE_BUF \<le> free_sz (pipe_tab s p)" "0 < reader_cnt (pipe_tab s p)" "w_pos (pipe_tab s p) \<le> PIPE_BUF_SZ"
  shows "write_loop p src 0 s = None"
proof -
  let ?P = "\<lambda>q k (u :: 'a pipes_scheme). \<not> (k = 0 \<and> PIPE_BUF \<le> free_sz (pipe_tab u q) \<and> 0 < reader_cnt (pipe_tab u q)
    \<and> w_pos (pipe_tab u q) \<le> PIPE_BUF_SZ)"
  have "?P q k u" if "write_loop q e k u = Some y" for q e k u y
    using that
  proof (rule write_loop.raw_induct [rotated])
    fix f :: "nat \<Rightarrow> user_buf \<Rightarrow> nat \<Rightarrow> 'a pipes_scheme \<Rightarrow> (nat result sys \<times> 'a pipes_scheme) option"
    fix q e k u y
    assume ih: "\<And>q e k u y. f q e k u = Some y \<Longrightarrow> ?P q k u"
    assume b: "(let x = pipe_tab u q
      in if free_sz x < PIPE_BUF \<and> reader_cnt x > 0 then do { s \<leftarrow> TaskSleep (Rz_pipe q) u; Some (Blocked, s) }
         else if reader_cnt x = 0 then Some (Done (Inr 0), u)
         else (let n = (if k < free_sz x then k else free_sz x); (x', ok) = pipe_copyin x n e; s = upd_pipe q (\<lambda>_. x') u
               in if \<not> ok then Some (Done (Inl EIO), s)
                  else (let s = TaskWakeupAll (Rz_pipe q) (upd_pipe q (pipe_added n) s)
                        in if n = 0 then f q e k s else Some (Done (Inr n), s)))) = Some y"
    show "?P q k u"
    proof
      assume k: "k = 0 \<and> PIPE_BUF \<le> free_sz (pipe_tab u q) \<and> 0 < reader_cnt (pipe_tab u q) \<and> w_pos (pipe_tab u q) \<le> PIPE_BUF_SZ"
      then have "pipe_copyin (pipe_tab u q) 0 e = (pipe_tab u q, True)" by (simp add: pipe_copyin_def)
      then have "f q e k (TaskWakeupAll (Rz_pipe q) (upd_pipe q (pipe_added 0) (upd_pipe q (\<lambda>_. pipe_tab u q) u))) = Some y"
        using b k by (simp add: Let_def split: if_splits)
      from ih [OF this] k show False by (simp add: PIPE_BUF_SZ_def mod_less_divisor less_imp_le)
    qed
  qed
  from this [of p src 0 s] assms show ?thesis by (cases "write_loop p src 0 s") auto
qed

text \<open>Copies that do not pass the end of the page use its start.\<close>

lemma pipe_copyin_flat:
  assumes "0 < length bs" "w_pos x + length bs \<le> PIPE_BUF_SZ" "reads src bs"
  shows "pipe_copyin x (length bs) src = (x\<lparr>p_data := store 0 bs (p_data x)\<rparr>, True)"
  using assms by (auto simp: pipe_copyin_def reads_def)

lemma pipe_copyout_flat:
  assumes "0 < n" "r_pos x + n \<le> PIPE_BUF_SZ"
  shows "pipe_copyout x n (Some d) = Some (store 0 (take n (p_data x)) d)"
  using assms by (simp add: pipe_copyout_def)

lemma write_flat:
  assumes v: "v_pipe (vnode_tab s v) = Some p" and x: "pipe_inv (pipe_tab s p)" "PIPE_BUF \<le> free_sz (pipe_tab s p)" "0 < reader_cnt (pipe_tab s p)"
    and bs: "0 < length bs" "w_pos (pipe_tab s p) + length bs \<le> PIPE_BUF_SZ" "length bs \<le> free_sz (pipe_tab s p)" "reads src bs"
  obtains s' where "write_to_pipe v src (length bs) s = Some (Done (Inr (length bs)), s')" "vnode_tab s' = vnode_tab s"
    and "pipe_tab s' = (pipe_tab s)(p := pipe_added (length bs) ((pipe_tab s p)\<lparr>p_data := store 0 bs (p_data (pipe_tab s p))\<rparr>))"
    and "pipe_inv (pipe_tab s' p)"
proof -
  let ?x = "(pipe_tab s p)\<lparr>p_data := store 0 bs (p_data (pipe_tab s p))\<rparr>"
  let ?s' = "TaskWakeupAll (Rz_pipe p) (upd_pipe p (pipe_added (length bs)) (upd_pipe p (\<lambda>_. ?x) s))"
  have "write_to_pipe v src (length bs) s = Some (Done (Inr (length bs)), ?s')"
    using v bs x by (simp add: write_to_pipe_def write_loop_copy pipe_copyin_flat Let_def)
  moreover have "pipe_inv ?x" using x(1) bs(2) by (simp add: pipe_inv_def length_store)
  then have "pipe_inv (pipe_added (length bs) ?x)" using bs(3) by (intro pipe_added_inv) simp_all
  ultimately show ?thesis by (intro that [of ?s']) simp_all
qed

lemma read_flat:
  assumes "v_pipe (vnode_tab s v) = Some p" "pipe_inv (pipe_tab s p)" "n = min sz (data_sz (pipe_tab s p))" "0 < n"
    "r_pos (pipe_tab s p) + n \<le> PIPE_BUF_SZ"
  obtains s' where "read_from_pipe v (Some d) sz s = Some (Done (Inr (n, store 0 (take n (p_data (pipe_tab s p))) d)), s')"
    and "pipe_tab s' = (pipe_tab s)(p := pipe_taken n (pipe_tab s p))" "pipe_inv (pipe_tab s' p)" "vnode_tab s' = vnode_tab s"
proof -
  let ?s' = "TaskWakeupAll (Rz_pipe p) (upd_pipe p (pipe_taken n) s)"
  have "read_from_pipe v (Some d) sz s = Some (Done (Inr (n, store 0 (take n (p_data (pipe_tab s p))) d)), ?s')"
    using assms by (simp add: read_from_pipe_def read_loop_copy pipe_copyout_flat Let_def)
  moreover have "pipe_inv (pipe_taken n (pipe_tab s p))" using assms(2,3) by (intro pipe_taken_inv) simp_all
  ultimately show ?thesis by (intro that [of ?s']) simp_all
qed

section \<open>Properties\<close>

text \<open>An empty pipe behind vnode 0.\<close>

definition demo_pipe :: pipe where
  "demo_pipe = \<lparr>p_data = replicate PIPE_BUF_SZ 0, w_pos = 0, r_pos = 0, free_sz = PIPE_BUF_SZ, data_sz = 0, reader_cnt = 1, writer_cnt = 1\<rparr>"

definition demo_pipes :: pipes where
  "demo_pipes = upd_vnode 0 (\<lambda>x. x\<lparr>v_pipe := Some 0\<rparr>) (vnodes.extend demo_vnodes (pipes.fields (\<lambda>_. demo_pipe) [] 0))"

definition demo_user :: "u8 list \<Rightarrow> user_buf" where
  "demo_user xs k n = (if k + n \<le> length xs then Some (take n (drop k xs)) else None)"

lemma demo_pipes_sel [simp]: "pipe_tab demo_pipes = (\<lambda>_. demo_pipe)" "v_pipe (vnode_tab demo_pipes 0) = Some 0"
  by (simp_all add: demo_pipes_def vnodes.defs pipes.defs upd_vnode_def)

lemma demo_pipe_inv: "pipe_inv demo_pipe"
  by (simp add: pipe_inv_def demo_pipe_def PIPE_BUF_SZ_def)

lemma demo_user_reads: "reads (demo_user xs) xs"
  by (simp add: reads_def demo_user_def)

text \<open>
  C27: What is written to an empty pipe is read back unchanged, as long as the write does not pass the end of
  the page: the write transfers all bytes, and the next read of at least as many, by any task, returns
  them in order and leaves the pipe empty, with its sizes and positions consistent.
\<close>

theorem pipe_round_trip:
  fixes s :: "'a pipes_scheme"
  assumes "v_pipe (vnode_tab s v) = Some p" "pipe_inv (pipe_tab s p)" "data_sz (pipe_tab s p) = 0" "reader_cnt (pipe_tab s p) > 0"
    and "bs \<noteq> []" "w_pos (pipe_tab s p) + length bs \<le> PIPE_BUF_SZ" "reads src bs" "length bs \<le> sz" "sz \<le> length d"
  shows "\<exists>s1. write_to_pipe v src (length bs) s = Some (Done (Inr (length bs)), s1) \<and>
    (\<forall>s2 :: 'a pipes_scheme. pipe_tab s2 p = pipe_tab s1 p \<and> v_pipe (vnode_tab s2 v) = Some p \<longrightarrow>
      (\<exists>s3. read_from_pipe v (Some d) sz s2 = Some (Done (Inr (length bs, store 0 bs d)), s3)
        \<and> data_sz (pipe_tab s3 p) = 0 \<and> pipe_inv (pipe_tab s3 p)))"
proof -
  have free: "free_sz (pipe_tab s p) = PIPE_BUF_SZ" "w_pos (pipe_tab s p) = r_pos (pipe_tab s p)"
    using assms(2,3) by (auto simp: pipe_inv_def)
  have bs: "0 < length bs" "length bs \<le> length (p_data (pipe_tab s p))" using assms(2,5,6) by (auto simp: pipe_inv_def)
  from write_flat [OF assms(1,2) _ assms(4) bs(1) assms(6) _ assms(7)] free assms(6) obtain s1 where
    s1: "write_to_pipe v src (length bs) s = Some (Done (Inr (length bs)), s1)" "pipe_inv (pipe_tab s1 p)"
      "pipe_tab s1 = (pipe_tab s)(p := pipe_added (length bs) ((pipe_tab s p)\<lparr>p_data := store 0 bs (p_data (pipe_tab s p))\<rparr>))"
    by (auto simp: PIPE_BUF_SZ_def PIPE_BUF_def)
  have x: "data_sz (pipe_tab s1 p) = length bs" "r_pos (pipe_tab s1 p) + length bs \<le> PIPE_BUF_SZ"
    "take (length bs) (p_data (pipe_tab s1 p)) = bs"
    using s1(3) assms(3,6) free bs by (simp_all add: take_store)
  have "\<exists>s3. read_from_pipe v (Some d) sz s2 = Some (Done (Inr (length bs, store 0 bs d)), s3)
        \<and> data_sz (pipe_tab s3 p) = 0 \<and> pipe_inv (pipe_tab s3 p)"
    if "pipe_tab s2 p = pipe_tab s1 p" "v_pipe (vnode_tab s2 v) = Some p" for s2 :: "'a pipes_scheme"
    using read_flat [OF that(2), of "length bs" sz d] that(1) x s1(2) bs(1) assms(8) by (metis fun_upd_same min.absorb2 pipe_moved_sel(4) diff_self_eq_0)
  then show ?thesis using s1(1) by blast
qed

theorem pipe_round_trip_witness:
  "\<exists>s1 s3. write_to_pipe 0 (demo_user [1, 2, 3]) 3 demo_pipes = Some (Done (Inr 3), s1) \<and>
     read_from_pipe 0 (Some [0, 0, 0, 9]) 4 (demo_pipes\<lparr>pipe_tab := pipe_tab s1\<rparr>) = Some (Done (Inr (3, [1, 2, 3, 9])), s3)"
proof -
  have n: "length [1, 2, 3 :: u8] = 3" "store 0 [1, 2, 3] [0, 0, 0, 9] = [1, 2, 3, 9]" by (simp_all add: store_def)
  obtain s1 where s1: "write_to_pipe 0 (demo_user [1, 2, 3]) 3 demo_pipes = Some (Done (Inr 3), s1)"
    "\<forall>s2 :: pipes. pipe_tab s2 0 = pipe_tab s1 0 \<and> v_pipe (vnode_tab s2 0) = Some 0 \<longrightarrow>
      (\<exists>s3. read_from_pipe 0 (Some [0, 0, 0, 9]) 4 s2 = Some (Done (Inr (3, [1, 2, 3, 9])), s3)
        \<and> data_sz (pipe_tab s3 0) = 0 \<and> pipe_inv (pipe_tab s3 0))"
    using pipe_round_trip [of demo_pipes 0 0 "[1, 2, 3]" "demo_user [1, 2, 3]" 4 "[0, 0, 0, 9]", unfolded n]
      demo_pipe_inv demo_user_reads [of "[1, 2, 3]"] by (auto simp: demo_pipe_def PIPE_BUF_SZ_def)
  from s1(2) [rule_format, of "demo_pipes\<lparr>pipe_tab := pipe_tab s1\<rparr>"] s1(1) show ?thesis by auto
qed

text \<open>
  Two writes before a read: although the positions advance, the second write is copied to the start of
  the page as the first was, and the read starts there too.  The read returns as many bytes as were
  written, but they start with the second write.
\<close>

theorem pipe_writes_overwrite:
  assumes "v_pipe (vnode_tab s v) = Some p" "pipe_inv (pipe_tab s p)" "data_sz (pipe_tab s p) = 0" "reader_cnt (pipe_tab s p) > 0"
    and "as \<noteq> []" "bs \<noteq> []" "w_pos (pipe_tab s p) + length as + length bs \<le> PIPE_BUF_SZ" "length as + PIPE_BUF \<le> PIPE_BUF_SZ"
    and "w_pos (pipe_tab s p) + length as < PIPE_BUF_SZ" "reads src as" "reads src' bs" "length as + length bs \<le> length d"
  shows "\<exists>s1 s2 s3 d'. write_to_pipe v src (length as) s = Some (Done (Inr (length as)), s1)
    \<and> write_to_pipe v src' (length bs) s1 = Some (Done (Inr (length bs)), s2)
    \<and> read_from_pipe v (Some d) (length d) s2 = Some (Done (Inr (length as + length bs, d')), s3)
    \<and> take (length bs) d' = bs"
proof -
  let ?x = "pipe_tab s p" and ?k = "length as" and ?m = "length bs"
  have free: "free_sz ?x = PIPE_BUF_SZ" "w_pos ?x = r_pos ?x" using assms(2,3) by (auto simp: pipe_inv_def)
  have k: "0 < ?k" "0 < ?m" "?m \<le> length (p_data ?x)" using assms(2,5,6,7) by (auto simp: pipe_inv_def)
  have n: "PIPE_BUF \<le> free_sz ?x" "w_pos ?x + ?k \<le> PIPE_BUF_SZ" "?k \<le> free_sz ?x"
    using free(1) assms(8,9) by simp_all
  obtain s1 where
    s1: "write_to_pipe v src ?k s = Some (Done (Inr ?k), s1)" "vnode_tab s1 = vnode_tab s" "pipe_inv (pipe_tab s1 p)"
      "pipe_tab s1 = (pipe_tab s)(p := pipe_added ?k (?x\<lparr>p_data := store 0 as (p_data ?x)\<rparr>))"
    using write_flat [OF assms(1,2) n(1) assms(4) k(1) n(2,3) assms(10)] by blast
  have x1: "PIPE_BUF \<le> free_sz (pipe_tab s1 p)" "0 < reader_cnt (pipe_tab s1 p)" "w_pos (pipe_tab s1 p) = w_pos ?x + ?k"
    "?m \<le> free_sz (pipe_tab s1 p)" "v_pipe (vnode_tab s1 v) = Some p"
    using s1 free assms(1,4,7,8,9) by simp_all
  have "w_pos (pipe_tab s1 p) + ?m \<le> PIPE_BUF_SZ" using x1(3) assms(7) by simp
  from write_flat [OF x1(5) s1(3) x1(1,2) k(2) this x1(4) assms(11)] obtain s2 where
    s2: "write_to_pipe v src' ?m s1 = Some (Done (Inr ?m), s2)" "vnode_tab s2 = vnode_tab s1" "pipe_inv (pipe_tab s2 p)"
      "pipe_tab s2 = (pipe_tab s1)(p := pipe_added ?m ((pipe_tab s1 p)\<lparr>p_data := store 0 bs (p_data (pipe_tab s1 p))\<rparr>))"
    by blast
  have l: "?m \<le> length (p_data (pipe_tab s1 p))" using s1(3) assms(7) by (simp add: pipe_inv_def)
  have x2: "v_pipe (vnode_tab s2 v) = Some p" "data_sz (pipe_tab s2 p) = ?k + ?m" "r_pos (pipe_tab s2 p) = w_pos ?x"
    "p_data (pipe_tab s2 p) = store 0 bs (p_data (pipe_tab s1 p))"
    using x1(5) s1(4) s2 assms(3) free by simp_all
  have r2: "r_pos (pipe_tab s2 p) + (?k + ?m) \<le> PIPE_BUF_SZ" "?k + ?m = min (length d) (data_sz (pipe_tab s2 p))" "0 < ?k + ?m"
    using x2 assms(7,12) k by simp_all
  from read_flat [OF x2(1) s2(3) r2(2,3,1), of d] obtain s3 where
    s3: "read_from_pipe v (Some d) (length d) s2 = Some (Done (Inr (?k + ?m, store 0 (take (?k + ?m) (p_data (pipe_tab s2 p))) d)), s3)"
    by blast
  have "take ?m (store 0 (take (?k + ?m) (p_data (pipe_tab s2 p))) d) = bs"
    using l assms(12) x2(4) by (simp add: store_def min_def)
  then show ?thesis using s1(1) s2(1) s3 by blast
qed

theorem pipe_writes_overwrite_witness:
  "\<exists>s1 s2 s3 d'. write_to_pipe 0 (demo_user [1, 2]) 2 demo_pipes = Some (Done (Inr 2), s1)
    \<and> write_to_pipe 0 (demo_user [8]) 1 s1 = Some (Done (Inr 1), s2)
    \<and> read_from_pipe 0 (Some [0, 0, 0]) 3 s2 = Some (Done (Inr (2 + 1, d')), s3) \<and> take 1 d' = [8]"
proof -
  have n: "length [1, 2 :: u8] = 2" "length [8 :: u8] = 1" "length [0, 0, 0 :: u8] = 3" by simp_all
  show ?thesis
    using pipe_writes_overwrite [of demo_pipes 0 0 "[1, 2]" "[8]" "demo_user [1, 2]" "demo_user [8]" "[0, 0, 0]", unfolded n]
      demo_pipe_inv demo_user_reads [of "[1, 2]"] demo_user_reads [of "[8]"]
    by (simp add: demo_pipe_def PIPE_BUF_SZ_def PIPE_BUF_def)
qed

text \<open>
  C28: A transfer that need not wait returns, except that a transfer of no bytes does not: with
  readers and space, \<open>write_to_pipe\<close> returns if and only if the size is not 0, and with data in the pipe,
  so does \<open>read_from_pipe\<close>.
\<close>

theorem pipe_transfer_ends:
  assumes "v_pipe (vnode_tab s v) = Some p" "pipe_inv (pipe_tab s p)"
  shows "(PIPE_BUF \<le> free_sz (pipe_tab s p) \<and> reader_cnt (pipe_tab s p) > 0 \<longrightarrow>
      ((\<exists>r s'. write_to_pipe v src sz s = Some (Done r, s')) \<longleftrightarrow> sz \<noteq> 0))
    \<and> (data_sz (pipe_tab s p) > 0 \<longrightarrow> ((\<exists>r s'. read_from_pipe v dst sz s = Some (Done r, s')) \<longleftrightarrow> sz \<noteq> 0))"
proof -
  have le: "w_pos (pipe_tab s p) \<le> PIPE_BUF_SZ" "r_pos (pipe_tab s p) \<le> PIPE_BUF_SZ" using assms(2) by (auto simp: pipe_inv_def)
  have "(\<exists>r s'. write_to_pipe v src sz s = Some (Done r, s')) \<longleftrightarrow> sz \<noteq> 0"
    if "PIPE_BUF \<le> free_sz (pipe_tab s p)" "reader_cnt (pipe_tab s p) > 0"
    using that assms(1) write_loop_zero [OF that le(1), of src] write_loop_copy [OF _ that, of sz src]
    by (cases "sz = 0") (auto simp: write_to_pipe_def Let_def split: prod.splits)
  moreover have "(\<exists>r s'. read_from_pipe v dst sz s = Some (Done r, s')) \<longleftrightarrow> sz \<noteq> 0" if "data_sz (pipe_tab s p) > 0"
    using that assms(1) read_loop_zero [OF that le(2), of dst] read_loop_copy [OF _ that, of sz dst]
    by (cases "sz = 0") (auto simp: read_from_pipe_def Let_def split: option.splits)
  ultimately show ?thesis by blast
qed

theorem pipe_transfer_ends_witness:
  "\<not> (\<exists>r s'. write_to_pipe 0 (demo_user []) 0 demo_pipes = Some (Done r, s'))"
  using pipe_transfer_ends [of demo_pipes 0 0 "demo_user []" 0 None] demo_pipe_inv
  by (simp add: demo_pipe_def PIPE_BUF_SZ_def PIPE_BUF_def)

end
