(* ===== verification/Name_Cache.thy ===== *)
theory Name_Cache
  imports Pipes Kernel_Strings
begin

unbundle bit_operations_syntax

text \<open>
  The directory name lookup cache, \<^verbatim>\<open>kernel/fs/dnlc.c\<close>: a fixed table of entries, each of which says which vnode
  a name in a directory refers to.  The entries in use are found by a hash of the name; all
  entries are on a list in the order in which they are to be reused.  Names are lists of characters
  without NUL (see \<open>Kernel_Strings\<close>), and a hash key of -1 marks an entry that is not in use.

  The result \<open>None\<close> is a NULL dereference, or the removal of an entry from a list that it is not on.
\<close>

section \<open>State\<close>

definition NR_DNAME :: nat where
  "NR_DNAME = 64"

definition DNAME_SZ :: nat where
  "DNAME_SZ = 64"

definition DNAME_HASH :: nat where
  "DNAME_HASH = 32"

definition MNT_NODNLC :: u32 where
  "MNT_NODNLC = 0x08000000"

record dname =
  dir_vnode :: nat
  dn_vnode :: "nat option"
  dn_name :: string
  hash_key :: int

record names = pipes +
  dnames :: "nat \<Rightarrow> dname"
  dname_lru_list :: "nat list"
  dname_hash :: "nat \<Rightarrow> nat list"

definition upd_dname :: "nat \<Rightarrow> (dname \<Rightarrow> dname) \<Rightarrow> 'a names_scheme \<Rightarrow> 'a names_scheme" where
  "upd_dname t f s = s\<lparr>dnames := (dnames s)(t := f (dnames s t))\<rparr>"

definition set_bucket :: "nat \<Rightarrow> nat list \<Rightarrow> 'a names_scheme \<Rightarrow> 'a names_scheme" where
  "set_bucket k ts s = s\<lparr>dname_hash := (dname_hash s)(k := ts)\<rparr>"

section \<open>Operations\<close>

text \<open>The part of \<open>InitFSLists\<close> for the cache.\<close>

definition init_dnames :: "'a names_scheme \<Rightarrow> 'a names_scheme" where
  "init_dnames s = s\<lparr>dname_lru_list := [0..<NR_DNAME], dnames := (\<lambda>t. (dnames s t)\<lparr>hash_key := - 1\<rparr>), dname_hash := (\<lambda>_. [])\<rparr>"

definition name_key :: "string \<Rightarrow> nat" where
  "name_key name = sum_list (map of_char name) mod DNAME_HASH"

text \<open>Directories of a mount without the cache, and names that are too long, are not cached.\<close>

definition uncached :: "nat \<Rightarrow> string \<Rightarrow> 'a names_scheme \<Rightarrow> bool option" where
  "uncached dir name s = do {
     b \<leftarrow> superblock (vnode_tab s dir);
     Some (has_flag MNT_NODNLC (sb_flags (superblocks s b)) \<or> length name + 1 > DNAME_SZ)
   }"

definition dname_find :: "nat \<Rightarrow> string \<Rightarrow> 'a names_scheme \<Rightarrow> nat option" where
  "dname_find dir name s =
     find (\<lambda>t. dir_vnode (dnames s t) = dir \<and> dn_name (dnames s t) = name) (dname_hash s (name_key name))"

text \<open>A miss is \<open>Some (None, s)\<close>.  A negative entry has no vnode to reference.\<close>

definition dname_lookup :: "nat \<Rightarrow> string \<Rightarrow> 'a names_scheme \<Rightarrow> (nat option \<times> 'a names_scheme) option" where
  "dname_lookup dir name s = do {
     u \<leftarrow> uncached dir name s;
     if u then Some (None, s)
     else (case dname_find dir name s of
             None \<Rightarrow> Some (None, s)
           | Some t \<Rightarrow> do { v \<leftarrow> dn_vnode (dnames s t); s \<leftarrow> vnode_inc_ref v s; Some (Some v, s) })
   }"

definition dname_enter :: "nat \<Rightarrow> nat option \<Rightarrow> string \<Rightarrow> 'a names_scheme \<Rightarrow> (bool \<times> 'a names_scheme) option" where
  "dname_enter dir vn name s = do {
     u \<leftarrow> uncached dir name s;
     if u then Some (False, s)
     else do {
       let key = name_key name;
       case dname_find dir name s of
         Some t \<Rightarrow> Some (True, upd_dname t (\<lambda>x. x\<lparr>hash_key := int key, dir_vnode := dir, dn_vnode := vn\<rparr>) s)
       | None \<Rightarrow>
           (case dname_lru_list s of
              [] \<Rightarrow> None
            | t # ts \<Rightarrow> do {
                let s = s\<lparr>dname_lru_list := ts\<rparr>;
                let h = hash_key (dnames s t);
                s \<leftarrow> (if h \<noteq> - 1 then do { xs \<leftarrow> rem_entry t (dname_hash s (nat h)); Some (set_bucket (nat h) xs s) } else Some s);
                let s = upd_dname t (\<lambda>x. x\<lparr>hash_key := int key, dir_vnode := dir, dn_vnode := vn, dn_name := name\<rparr>) s;
                let s = s\<lparr>dname_lru_list := dname_lru_list s @ [t]\<rparr>;
                Some (True, set_bucket key (t # dname_hash s key) s)
              })
     }
   }"

text \<open>Taking an entry out of use: it becomes the first to be reused.\<close>

definition dname_drop :: "nat \<Rightarrow> nat \<Rightarrow> 'a names_scheme \<Rightarrow> 'a names_scheme option" where
  "dname_drop key t s = do {
     xs \<leftarrow> rem_entry t (dname_hash s key);
     let s = upd_dname t (\<lambda>x. x\<lparr>hash_key := - 1\<rparr>) (set_bucket key xs s);
     ls \<leftarrow> rem_entry t (dname_lru_list s);
     Some (s\<lparr>dname_lru_list := t # ls\<rparr>)
   }"

text \<open>\<open>dname_remove\<close> compares the name only, not the directory.\<close>

definition dname_remove :: "nat \<Rightarrow> string \<Rightarrow> 'a names_scheme \<Rightarrow> (bool \<times> 'a names_scheme) option" where
  "dname_remove dir name s = do {
     u \<leftarrow> uncached dir name s;
     if u then Some (False, s)
     else (case find (\<lambda>t. dn_name (dnames s t) = name) (dname_hash s (name_key name)) of
             None \<Rightarrow> Some (False, s)
           | Some t \<Rightarrow> do { s \<leftarrow> dname_drop (name_key name) t s; Some (True, s) })
   }"

fun purge_loop :: "('a names_scheme \<Rightarrow> nat \<Rightarrow> bool option) \<Rightarrow> nat list \<Rightarrow> 'a names_scheme \<Rightarrow> 'a names_scheme option" where
  "purge_loop sel [] s = Some s"
| "purge_loop sel (t # ts) s = do {
     b \<leftarrow> (if hash_key (dnames s t) \<noteq> - 1 then sel s t else Some False);
     s \<leftarrow> (if b then dname_drop (nat (hash_key (dnames s t))) t s else Some s);
     purge_loop sel ts s
   }"

definition dname_purge_vnode :: "nat \<Rightarrow> 'a names_scheme \<Rightarrow> 'a names_scheme option" where
  "dname_purge_vnode v s =
     purge_loop (\<lambda>s t. Some (dn_vnode (dnames s t) = Some v \<or> dir_vnode (dnames s t) = v)) [0..<NR_DNAME] s"

definition dname_purge_superblock :: "nat \<Rightarrow> 'a names_scheme \<Rightarrow> 'a names_scheme option" where
  "dname_purge_superblock b s =
     purge_loop (\<lambda>s t. do { v \<leftarrow> dn_vnode (dnames s t); Some (superblock (vnode_tab s v) = Some b) }) [0..<NR_DNAME] s"

definition dname_purge_all :: "'a names_scheme \<Rightarrow> 'a names_scheme" where
  "dname_purge_all s =
     s\<lparr>dnames := (\<lambda>t. if t < NR_DNAME then (dnames s t)\<lparr>hash_key := - 1, dn_vnode := None\<rparr> else dnames s t), dname_lru_list := []\<rparr>"

section \<open>Caches that may forget\<close>

text \<open>
  The contract of a cache: an entry that is put can be found until it is purged or forgotten, and
  nothing else appears.  What is found is then always the value put last, and not purged since.
\<close>

datatype ('k, 'v, 'p) cache_op = Put 'k 'v | Purge 'p

fun run_ops :: "('k \<Rightarrow> 'v \<Rightarrow> 's \<Rightarrow> 's option) \<Rightarrow> ('p \<Rightarrow> 's \<Rightarrow> 's option) \<Rightarrow> ('k, 'v, 'p) cache_op list \<Rightarrow> 's \<Rightarrow> 's option" where
  "run_ops put purge [] s = Some s"
| "run_ops put purge (op # ops) s = (case op of Put k v \<Rightarrow> put k v s | Purge p \<Rightarrow> purge p s) \<bind> run_ops put purge ops"

text \<open>What a map that forgets nothing holds.\<close>

definition spec_op :: "('p \<Rightarrow> 'k \<Rightarrow> 'v \<Rightarrow> bool) \<Rightarrow> ('k, 'v, 'p) cache_op \<Rightarrow> ('k \<rightharpoonup> 'v) \<Rightarrow> ('k \<rightharpoonup> 'v)" where
  "spec_op hit op m =
     (case op of
        Put k v \<Rightarrow> m(k \<mapsto> v)
      | Purge p \<Rightarrow> (\<lambda>k. case m k of None \<Rightarrow> None | Some v \<Rightarrow> if hit p k v then None else Some v))"

locale lossy_map =
  fixes inv :: "'s \<Rightarrow> bool"
    and get :: "'s \<Rightarrow> 'k \<rightharpoonup> 'v"
    and put :: "'k \<Rightarrow> 'v \<Rightarrow> 's \<Rightarrow> 's option"
    and purge :: "'p \<Rightarrow> 's \<Rightarrow> 's option"
    and hit :: "'p \<Rightarrow> 'k \<Rightarrow> 'v \<Rightarrow> bool"
  assumes put_law: "inv s \<Longrightarrow> put k v s = Some s' \<Longrightarrow> inv s' \<and> get s' k = Some v \<and> (\<forall>k'. k' \<noteq> k \<longrightarrow> get s' k' = None \<or> get s' k' = get s k')"
    and purge_law: "inv s \<Longrightarrow> purge p s = Some s' \<Longrightarrow> inv s' \<and> (\<forall>k v. get s' k = Some v \<longrightarrow> get s k = Some v \<and> \<not> hit p k v)"
begin

lemma step_law:
  assumes "inv s" "get s \<subseteq>\<^sub>m m" "(case op of Put k v \<Rightarrow> put k v s | Purge p \<Rightarrow> purge p s) = Some s'"
  shows "inv s' \<and> get s' \<subseteq>\<^sub>m spec_op hit op m"
proof (cases op)
  case (Put k v)
  then have p: "inv s'" "get s' k = Some v" "\<forall>k'. k' \<noteq> k \<longrightarrow> get s' k' = None \<or> get s' k' = get s k'"
    using assms put_law [of s k v s'] by auto
  have "get s' \<subseteq>\<^sub>m m(k \<mapsto> v)"
    unfolding map_le_def
  proof
    fix a assume a: "a \<in> dom (get s')"
    show "get s' a = (m(k \<mapsto> v)) a"
      using p(2,3) a assms(2) by (cases "a = k") (force simp: map_le_def)+
  qed
  then show ?thesis using p(1) Put by (simp add: spec_op_def)
next
  case (Purge p)
  then have p: "inv s'" "\<forall>k v. get s' k = Some v \<longrightarrow> get s k = Some v \<and> \<not> hit p k v"
    using assms purge_law [of s p s'] by auto
  have "get s' \<subseteq>\<^sub>m spec_op hit op m"
    unfolding map_le_def
  proof
    fix a assume "a \<in> dom (get s')"
    then obtain v where v: "get s' a = Some v" by auto
    with p(2) have "get s a = Some v" "\<not> hit p a v" by auto
    moreover from this(1) assms(2) have "m a = Some v" by (force simp: map_le_def)
    ultimately show "get s' a = spec_op hit op m a" using v Purge by (simp add: spec_op_def)
  qed
  then show ?thesis using p(1) by simp
qed

lemma run_law:
  assumes "inv s" "get s \<subseteq>\<^sub>m m" "run_ops put purge ops s = Some s'"
  shows "inv s' \<and> get s' \<subseteq>\<^sub>m fold (spec_op hit) ops m"
  using assms
proof (induction ops arbitrary: s m)
  case (Cons op ops)
  from Cons.prems(3) obtain t where
    t: "(case op of Put k v \<Rightarrow> put k v s | Purge p \<Rightarrow> purge p s) = Some t" "run_ops put purge ops t = Some s'"
    by (auto split: Option.bind_splits)
  from step_law [OF Cons.prems(1,2) t(1)] Cons.IH [of t "spec_op hit op m"] t(2) show ?case by simp
qed simp

end

section \<open>The invariant\<close>

definition in_use :: "nat \<Rightarrow> 'a names_scheme \<Rightarrow> bool" where
  "in_use t s \<longleftrightarrow> t < NR_DNAME \<and> hash_key (dnames s t) \<noteq> - 1"

definition dn_key :: "dname \<Rightarrow> nat \<times> string" where
  "dn_key x = (dir_vnode x, dn_name x)"

definition cache_inv :: "'a names_scheme \<Rightarrow> bool" where
  "cache_inv s \<longleftrightarrow>
     distinct (dname_lru_list s) \<and> set (dname_lru_list s) = {..<NR_DNAME} \<and> (\<forall>k. distinct (dname_hash s k))
     \<and> (\<forall>k t. t \<in> set (dname_hash s k) \<longleftrightarrow> t < NR_DNAME \<and> hash_key (dnames s t) = int k)
     \<and> (\<forall>t. in_use t s \<longrightarrow> hash_key (dnames s t) = int (name_key (dn_name (dnames s t))))
     \<and> (\<forall>t u. in_use t s \<longrightarrow> in_use u s \<longrightarrow> dn_key (dnames s t) = dn_key (dnames s u) \<longrightarrow> t = u)"

text \<open>The map that the cache stands for.\<close>

definition cached :: "'a names_scheme \<Rightarrow> nat \<times> string \<rightharpoonup> nat option" where
  "cached s k = (case dname_find (fst k) (snd k) s of None \<Rightarrow> None | Some t \<Rightarrow> Some (dn_vnode (dnames s t)))"

lemma cache_invD:
  assumes "cache_inv s"
  shows "distinct (dname_lru_list s)" "set (dname_lru_list s) = {..<NR_DNAME}" "distinct (dname_hash s k)"
    and "t \<in> set (dname_hash s k) \<longleftrightarrow> t < NR_DNAME \<and> hash_key (dnames s t) = int k"
    and "in_use t s \<Longrightarrow> hash_key (dnames s t) = int (name_key (dn_name (dnames s t)))"
    and "in_use t s \<Longrightarrow> in_use u s \<Longrightarrow> dn_key (dnames s t) = dn_key (dnames s u) \<Longrightarrow> t = u"
  using assms unfolding cache_inv_def by (elim conjE; blast)+

lemma dname_find_iff:
  assumes "cache_inv s"
  shows "dname_find d n s = Some t \<longleftrightarrow> in_use t s \<and> dn_key (dnames s t) = (d, n)"
proof
  assume "dname_find d n s = Some t"
  then have "t \<in> set (dname_hash s (name_key n))" "dn_key (dnames s t) = (d, n)"
    by (auto simp: dname_find_def dn_key_def find_Some_iff)
  then show "in_use t s \<and> dn_key (dnames s t) = (d, n)" using cache_invD(4) [OF assms] by (auto simp: in_use_def)
next
  assume t: "in_use t s \<and> dn_key (dnames s t) = (d, n)"
  then have "t \<in> set (dname_hash s (name_key n))"
    using cache_invD(4,5) [OF assms, of t] by (auto simp: in_use_def dn_key_def)
  then have "dname_find d n s \<noteq> None" using t by (auto simp: dname_find_def find_None_iff dn_key_def)
  then obtain u where u: "dname_find d n s = Some u" by auto
  then have "u \<in> set (dname_hash s (name_key n))" "dn_key (dnames s u) = (d, n)"
    by (auto simp: dname_find_def dn_key_def find_Some_iff)
  then have "u = t" using cache_invD(4) [OF assms] cache_invD(6) [OF assms, of u t] t by (auto simp: in_use_def)
  then show "dname_find d n s = Some t" using u by simp
qed

lemma cached_iff:
  assumes "cache_inv s"
  shows "cached s k = Some v \<longleftrightarrow> (\<exists>t. in_use t s \<and> dn_key (dnames s t) = k \<and> dn_vnode (dnames s t) = v)"
proof -
  have "cached s k = Some v \<longleftrightarrow> (\<exists>t. dname_find (fst k) (snd k) s = Some t \<and> dn_vnode (dnames s t) = v)"
    by (auto simp: cached_def split: option.splits)
  then show ?thesis by (simp add: dname_find_iff [OF assms] conj_assoc)
qed

lemma map_eqI: "(\<And>k v. f k = Some v \<longleftrightarrow> g k = Some v) \<Longrightarrow> f = g"
  by (rule ext) (metis not_None_eq)

section \<open>What the operations do\<close>

lemma upd_dname_sel [simp]:
  "dnames (upd_dname t f s) = (dnames s)(t := f (dnames s t))" "dname_lru_list (upd_dname t f s) = dname_lru_list s"
  "dname_hash (upd_dname t f s) = dname_hash s" "vnode_tab (upd_dname t f s) = vnode_tab s" "superblocks (upd_dname t f s) = superblocks s"
  by (simp_all add: upd_dname_def)

lemma set_bucket_sel [simp]:
  "dnames (set_bucket k ts s) = dnames s" "dname_lru_list (set_bucket k ts s) = dname_lru_list s"
  "dname_hash (set_bucket k ts s) = (dname_hash s)(k := ts)" "vnode_tab (set_bucket k ts s) = vnode_tab s"
  "superblocks (set_bucket k ts s) = superblocks s"
  by (simp_all add: set_bucket_def)

text \<open>Entry \<open>t\<close> becomes unused.\<close>

lemma unuse_inv:
  assumes i: "cache_inv s" and t: "in_use t s"
    and s': "dnames s' = (dnames s)(t := (dnames s t)\<lparr>hash_key := - 1\<rparr>)"
      "dname_hash s' = (dname_hash s)(nat (hash_key (dnames s t)) := remove1 t (dname_hash s (nat (hash_key (dnames s t)))))"
      "distinct (dname_lru_list s')" "set (dname_lru_list s') = {..<NR_DNAME}"
  shows "cache_inv s'" "cached s' = (cached s)(dn_key (dnames s t) := None)"
proof -
  let ?h = "nat (hash_key (dnames s t))"
  have h: "hash_key (dnames s t) = int ?h" using cache_invD(5) [OF i t] by simp
  have u: "in_use u s' \<longleftrightarrow> in_use u s \<and> u \<noteq> t" for u using s'(1) by (auto simp: in_use_def)
  have m: "u \<in> set (dname_hash s' k) \<longleftrightarrow> u < NR_DNAME \<and> hash_key (dnames s' u) = int k" for u k
    using s'(1,2) h cache_invD(3) [OF i, of k] cache_invD(4) [OF i, of u k] cache_invD(3) [OF i, of ?h] cache_invD(4) [OF i, of u ?h]
    by (auto simp: set_remove1_eq)
  show inv: "cache_inv s'"
    unfolding cache_inv_def
  proof (intro conjI allI impI)
    show "distinct (dname_hash s' k)" for k using s'(2) cache_invD(3) [OF i] by simp
    show "hash_key (dnames s' u) = int (name_key (dn_name (dnames s' u)))" if "in_use u s'" for u
      using that u s'(1) cache_invD(5) [OF i, of u] by simp
    show "a = b" if "in_use a s'" "in_use b s'" "dn_key (dnames s' a) = dn_key (dnames s' b)" for a b
      using that u s'(1) cache_invD(6) [OF i, of a b] by simp
  qed (use s'(3,4) m in auto)
  have "cached s' k = Some v \<longleftrightarrow> ((cached s)(dn_key (dnames s t) := None)) k = Some v" for k v
  proof
    assume "cached s' k = Some v"
    then obtain w where w: "in_use w s" "w \<noteq> t" "dn_key (dnames s w) = k" "dn_vnode (dnames s w) = v"
      using cached_iff [OF inv, of k v] u s'(1) by auto
    moreover from this have "k \<noteq> dn_key (dnames s t)" using cache_invD(6) [OF i _ t, of w] by blast
    ultimately show "((cached s)(dn_key (dnames s t) := None)) k = Some v" using cached_iff [OF i, of k v] by auto
  next
    assume "((cached s)(dn_key (dnames s t) := None)) k = Some v"
    then obtain w where w: "in_use w s" "dn_key (dnames s w) = k" "dn_vnode (dnames s w) = v" "k \<noteq> dn_key (dnames s t)"
      using cached_iff [OF i, of k v] by (auto split: if_splits)
    then have "w \<noteq> t" by blast
    then show "cached s' k = Some v" using w cached_iff [OF inv, of k v] u s'(1) by auto
  qed
  then show "cached s' = (cached s)(dn_key (dnames s t) := None)" by (rule map_eqI)
qed

lemma dname_drop_ok:
  assumes i: "cache_inv s" and t: "in_use t s"
  obtains s' where "dname_drop (nat (hash_key (dnames s t))) t s = Some s'" "cache_inv s'"
    "cached s' = (cached s)(dn_key (dnames s t) := None)" "dnames s' = (dnames s)(t := (dnames s t)\<lparr>hash_key := - 1\<rparr>)"
    "vnode_tab s' = vnode_tab s" "superblocks s' = superblocks s"
proof -
  let ?h = "nat (hash_key (dnames s t))"
  have h: "t \<in> set (dname_hash s ?h)" "t \<in> set (dname_lru_list s)"
    using cache_invD(4) [OF i, of t ?h] cache_invD(5) [OF i t] cache_invD(2) [OF i] t by (auto simp: in_use_def)
  let ?s' = "(upd_dname t (\<lambda>x. x\<lparr>hash_key := - 1\<rparr>) (set_bucket ?h (remove1 t (dname_hash s ?h)) s))
    \<lparr>dname_lru_list := t # remove1 t (dname_lru_list s)\<rparr>"
  have "dname_drop ?h t s = Some ?s'" using h by (simp add: dname_drop_def rem_entry_def)
  moreover have "distinct (dname_lru_list ?s')" "set (dname_lru_list ?s') = {..<NR_DNAME}"
    using cache_invD(1,2) [OF i] h by (auto simp: set_remove1_eq)
  ultimately show ?thesis using unuse_inv [OF i t, of ?s'] by (intro that [of ?s']) simp_all
qed

text \<open>Entry \<open>t\<close>, which was not in use, gets a key that was not in the cache.\<close>

lemma use_inv:
  assumes i: "cache_inv s" and t: "t < NR_DNAME" "\<not> in_use t s" and k: "cached s (dn_key x) = None"
    and x: "hash_key x = int (name_key (dn_name x))"
    and s': "dnames s' = (dnames s)(t := x)"
      "dname_hash s' = (dname_hash s)(name_key (dn_name x) := t # dname_hash s (name_key (dn_name x)))"
      "distinct (dname_lru_list s')" "set (dname_lru_list s') = {..<NR_DNAME}"
  shows "cache_inv s'" "cached s' = (cached s)(dn_key x \<mapsto> dn_vnode x)"
proof -
  let ?h = "name_key (dn_name x)"
  have u: "in_use u s' \<longleftrightarrow> in_use u s \<or> u = t" for u using s'(1) t x by (auto simp: in_use_def)
  have new: "dn_key (dnames s w) \<noteq> dn_key x" if "in_use w s" for w using that k cached_iff [OF i, of "dn_key x"] by auto
  have nt: "t \<notin> set (dname_hash s c)" for c using cache_invD(4) [OF i] t by (auto simp: in_use_def)
  have m: "w \<in> set (dname_hash s' c) \<longleftrightarrow> w < NR_DNAME \<and> hash_key (dnames s' w) = int c" for w c
    using s'(1,2) t(1) x nt [of c] nt [of ?h] cache_invD(4) [OF i, of w c] cache_invD(4) [OF i, of w ?h] by auto
  show inv: "cache_inv s'"
    unfolding cache_inv_def
  proof (intro conjI allI impI)
    show "distinct (dname_hash s' c)" for c using s'(2) cache_invD(3) [OF i] nt by simp
    show "hash_key (dnames s' w) = int (name_key (dn_name (dnames s' w)))" if "in_use w s'" for w
      using that u s'(1) x cache_invD(5) [OF i, of w] by (cases "w = t") auto
    show "a = b" if "in_use a s'" "in_use b s'" "dn_key (dnames s' a) = dn_key (dnames s' b)" for a b
      using that u s'(1) new [of a] new [of b] cache_invD(6) [OF i, of a b] t(2) by (cases "a = t"; cases "b = t") auto
  qed (use s'(3,4) m in auto)
  have "cached s' k = Some v \<longleftrightarrow> ((cached s)(dn_key x \<mapsto> dn_vnode x)) k = Some v" for k v
  proof (cases "k = dn_key x")
    case True
    then show ?thesis using cached_iff [OF inv, of k v] u s'(1) new t(2) by (auto split: if_splits)
  next
    case False
    have "in_use w s' \<and> dn_key (dnames s' w) = k \<and> dn_vnode (dnames s' w) = v \<longleftrightarrow>
      in_use w s \<and> dn_key (dnames s w) = k \<and> dn_vnode (dnames s w) = v" for w
      using False u s'(1) t(2) by (cases "w = t") auto
    then show ?thesis using cached_iff [OF inv, of k v] cached_iff [OF i, of k v] False by simp
  qed
  then show "cached s' = (cached s)(dn_key x \<mapsto> dn_vnode x)" by (rule map_eqI)
qed

text \<open>An entry in use gets another vnode.\<close>

lemma change_inv:
  assumes i: "cache_inv s" and t: "in_use t s"
    and x: "hash_key x = hash_key (dnames s t)" "dn_key x = dn_key (dnames s t)"
    and s': "dnames s' = (dnames s)(t := x)" "dname_hash s' = dname_hash s" "dname_lru_list s' = dname_lru_list s"
  shows "cache_inv s'" "cached s' = (cached s)(dn_key x \<mapsto> dn_vnode x)"
proof -
  have u: "in_use u s' \<longleftrightarrow> in_use u s" "dn_key (dnames s' u) = dn_key (dnames s u)" "hash_key (dnames s' u) = hash_key (dnames s u)" for u
    using s'(1) x by (auto simp: in_use_def)
  have n: "dn_name (dnames s' u) = dn_name (dnames s u)" for u using u(2) [of u] by (simp add: dn_key_def)
  show inv: "cache_inv s'"
    using i unfolding cache_inv_def u n s'(2,3) .
  have "cached s' k = Some v \<longleftrightarrow> ((cached s)(dn_key x \<mapsto> dn_vnode x)) k = Some v" for k v
  proof (cases "k = dn_key x")
    case True
    then show ?thesis using cached_iff [OF inv, of k v] u s'(1) x(2) t cache_invD(6) [OF i _ t] by (auto split: if_splits)
  next
    case False
    have "in_use w s' \<and> dn_key (dnames s' w) = k \<and> dn_vnode (dnames s' w) = v \<longleftrightarrow>
      in_use w s \<and> dn_key (dnames s w) = k \<and> dn_vnode (dnames s w) = v" for w
      using False u(1) s'(1) x(2) by (cases "w = t") auto
    then show ?thesis using cached_iff [OF inv, of k v] cached_iff [OF i, of k v] False by simp
  qed
  then show "cached s' = (cached s)(dn_key x \<mapsto> dn_vnode x)" by (rule map_eqI)
qed

text \<open>What entering a name makes the cache forget.\<close>

definition victim :: "nat \<Rightarrow> string \<Rightarrow> 'a names_scheme \<Rightarrow> (nat \<times> string) set" where
  "victim d n s =
     (if dname_find d n s \<noteq> None then {}
      else let t = hd (dname_lru_list s) in if in_use t s then {dn_key (dnames s t)} else {})"

lemma dname_enter_ok:
  assumes i: "cache_inv s" and c: "uncached d n s = Some False"
  obtains s' where "dname_enter d vn n s = Some (True, s')" "cache_inv s'" "cached s' = (cached s |` (- victim d n s))((d, n) \<mapsto> vn)"
    "vnode_tab s' = vnode_tab s" "superblocks s' = superblocks s"
proof (cases "dname_find d n s")
  case (Some t)
  let ?x = "(dnames s t)\<lparr>hash_key := int (name_key n), dir_vnode := d, dn_vnode := vn\<rparr>"
  let ?s' = "upd_dname t (\<lambda>x. x\<lparr>hash_key := int (name_key n), dir_vnode := d, dn_vnode := vn\<rparr>) s"
  have t: "in_use t s" "dn_key (dnames s t) = (d, n)" using Some dname_find_iff [OF i] by auto
  have "hash_key ?x = hash_key (dnames s t)" "dn_key ?x = dn_key (dnames s t)"
    using cache_invD(5) [OF i t(1)] t(2) by (auto simp: dn_key_def)
  from change_inv [OF i t(1) this, of ?s'] t(2) Some c show ?thesis
    by (intro that [of ?s']) (auto simp: dname_enter_def Let_def victim_def dn_key_def)
next
  case None
  have "0 \<in> set (dname_lru_list s)" using cache_invD(2) [OF i] by (simp add: NR_DNAME_def)
  then obtain t ts where l: "dname_lru_list s = t # ts" by (cases "dname_lru_list s") auto
  have t: "t < NR_DNAME" using cache_invD(2) [OF i] l by auto
  let ?h = "nat (hash_key (dnames s t))"
  let ?s1 = "if in_use t s then upd_dname t (\<lambda>x. x\<lparr>hash_key := - 1\<rparr>) (set_bucket ?h (remove1 t (dname_hash s ?h)) s) else s"
  let ?x = "(dnames s t)\<lparr>hash_key := int (name_key n), dir_vnode := d, dn_vnode := vn, dn_name := n\<rparr>"
  have s1: "cache_inv ?s1 \<and> cached ?s1 = cached s |` (- victim d n s)"
  proof (cases "in_use t s")
    case True
    have "cache_inv ?s1" "cached ?s1 = (cached s)(dn_key (dnames s t) := None)"
      using unuse_inv [OF i True, of ?s1] cache_invD(1,2) [OF i] True by simp_all
    moreover have "victim d n s = {dn_key (dnames s t)}" using None l True by (simp add: victim_def)
    ultimately show ?thesis by (auto simp: restrict_map_def)
  next
    case False
    then have "victim d n s = {}" using None l by (simp add: victim_def)
    then show ?thesis using i False by (simp add: restrict_map_def)
  qed
  note s1 = s1 [THEN conjunct1] s1 [THEN conjunct2]
  let ?b = "if in_use t s then set_bucket ?h (remove1 t (dname_hash s ?h)) (s\<lparr>dname_lru_list := ts\<rparr>) else s\<lparr>dname_lru_list := ts\<rparr>"
  let ?s2 = "(upd_dname t (\<lambda>x. x\<lparr>hash_key := int (name_key n), dir_vnode := d, dn_vnode := vn, dn_name := n\<rparr>) ?b)\<lparr>dname_lru_list := ts @ [t]\<rparr>"
  let ?s' = "set_bucket (name_key n) (t # dname_hash ?s2 (name_key n)) ?s2"
  have h: "t \<in> set (dname_hash s ?h)" if "in_use t s"
    using cache_invD(4) [OF i, of t ?h] cache_invD(5) [OF i that] t by auto
  have "dname_enter d vn n s = Some (True, ?s')"
    using c None l h t by (auto simp: dname_enter_def Let_def rem_entry_def in_use_def)
  moreover have "cached ?s1 (dn_key ?x) = None"
    using s1(2) None by (simp add: restrict_map_def cached_def dn_key_def)
  then have "cache_inv ?s'" "cached ?s' = (cached ?s1)(dn_key ?x \<mapsto> dn_vnode ?x)"
    using use_inv [OF s1(1) t, of ?x ?s'] cache_invD(1,2) [OF i] l t by (auto simp: in_use_def)
  ultimately show ?thesis using s1(2) by (intro that [of ?s']) (simp_all add: dn_key_def)
qed

lemma purge_loop_ok:
  assumes "cache_inv s" "set ts \<subseteq> {..<NR_DNAME}" "\<And>x. P (x\<lparr>hash_key := - 1\<rparr>) = P x"
  shows "\<exists>s'. purge_loop (\<lambda>s t. Some (P (dnames s t))) ts s = Some s' \<and> cache_inv s'
    \<and> (\<forall>k v. cached s' k = Some v \<longleftrightarrow>
          cached s k = Some v \<and> \<not> (\<exists>t \<in> set ts. in_use t s \<and> dn_key (dnames s t) = k \<and> P (dnames s t)))"
  using assms(1,2)
proof (induction ts arbitrary: s)
  case (Cons t ts)
  show ?case
  proof (cases "in_use t s \<and> P (dnames s t)")
    case True
    from dname_drop_ok [OF Cons.prems(1) True [THEN conjunct1]] obtain s1 where
      s1: "dname_drop (nat (hash_key (dnames s t))) t s = Some s1" "cache_inv s1" "cached s1 = (cached s)(dn_key (dnames s t) := None)"
        "dnames s1 = (dnames s)(t := (dnames s t)\<lparr>hash_key := - 1\<rparr>)" by metis
    from Cons.IH [OF s1(2)] Cons.prems(2) obtain s' where
      s': "purge_loop (\<lambda>s t. Some (P (dnames s t))) ts s1 = Some s'" "cache_inv s'"
        "\<And>k v. cached s' k = Some v \<longleftrightarrow> cached s1 k = Some v \<and> \<not> (\<exists>t \<in> set ts. in_use t s1 \<and> dn_key (dnames s1 t) = k \<and> P (dnames s1 t))"
      by auto
    have "in_use u s1 \<longleftrightarrow> in_use u s \<and> u \<noteq> t" for u using s1(4) by (auto simp: in_use_def)
    moreover have "P (dnames s1 u) = P (dnames s u)" "dn_key (dnames s1 u) = dn_key (dnames s u)" for u
      using s1(4) assms(3) by (auto simp: dn_key_def)
    ultimately have "cached s' k = Some v \<longleftrightarrow>
      cached s k = Some v \<and> \<not> (\<exists>t \<in> set (t # ts). in_use t s \<and> dn_key (dnames s t) = k \<and> P (dnames s t))" for k v
      using s'(3) [of k v] s1(3) True cache_invD(6) [OF Cons.prems(1), of _ t] by auto
    moreover have "purge_loop (\<lambda>s t. Some (P (dnames s t))) (t # ts) s = Some s'"
      using True s1(1) s'(1) by (simp add: in_use_def)
    ultimately show ?thesis using s'(2) by blast
  next
    case False
    then have "purge_loop (\<lambda>s t. Some (P (dnames s t))) (t # ts) s = purge_loop (\<lambda>s t. Some (P (dnames s t))) ts s"
      using Cons.prems(2) by (auto simp: in_use_def)
    then show ?thesis using Cons.IH [OF Cons.prems(1)] Cons.prems(2) False by auto
  qed
qed simp

lemma dname_purge_vnode_ok:
  assumes "cache_inv s"
  obtains s' where "dname_purge_vnode v s = Some s'" "cache_inv s'"
    "\<And>k x. cached s' k = Some x \<longleftrightarrow> cached s k = Some x \<and> x \<noteq> Some v \<and> fst k \<noteq> v"
proof -
  let ?P = "\<lambda>x. dn_vnode x = Some v \<or> dir_vnode x = v"
  have sub: "set [0..<NR_DNAME] \<subseteq> {..<NR_DNAME}" by auto
  have P: "?P (x\<lparr>hash_key := - 1\<rparr>) = ?P x" for x by simp
  obtain s' where s': "dname_purge_vnode v s = Some s'" "cache_inv s'"
    "\<And>k x. cached s' k = Some x \<longleftrightarrow>
      cached s k = Some x \<and> \<not> (\<exists>t \<in> set [0..<NR_DNAME]. in_use t s \<and> dn_key (dnames s t) = k \<and> ?P (dnames s t))"
    using purge_loop_ok [where P = ?P, OF assms sub P] unfolding dname_purge_vnode_def by blast
  have "(\<exists>t \<in> set [0..<NR_DNAME]. in_use t s \<and> dn_key (dnames s t) = k \<and> ?P (dnames s t)) \<longleftrightarrow> x = Some v \<or> fst k = v"
    if k: "cached s k = Some x" for k x
  proof -
    obtain t where t: "in_use t s" "dn_key (dnames s t) = k" "dn_vnode (dnames s t) = x" using cached_iff [OF assms] k by auto
    then have "t \<in> set [0..<NR_DNAME]" "\<And>u. in_use u s \<Longrightarrow> dn_key (dnames s u) = k \<Longrightarrow> u = t"
      using cache_invD(6) [OF assms] by (auto simp: in_use_def)
    then have "(\<exists>t \<in> set [0..<NR_DNAME]. in_use t s \<and> dn_key (dnames s t) = k \<and> ?P (dnames s t)) \<longleftrightarrow> ?P (dnames s t)" using t by blast
    then show ?thesis using t by (auto simp: dn_key_def)
  qed
  then show ?thesis using s' by (intro that [of s']) blast+
qed

section \<open>The cache is such a map\<close>

definition cache_put :: "nat \<times> string \<Rightarrow> nat option \<Rightarrow> 'a names_scheme \<Rightarrow> 'a names_scheme option" where
  "cache_put k v s = (case dname_enter (fst k) v (snd k) s of Some (True, s') \<Rightarrow> Some s' | _ \<Rightarrow> None)"

definition cache_hit :: "nat \<Rightarrow> nat \<times> string \<Rightarrow> nat option \<Rightarrow> bool" where
  "cache_hit p k v \<longleftrightarrow> v = Some p \<or> fst k = p"

lemma cache_put_law:
  assumes "cache_inv s" "cache_put k v s = Some s'"
  shows "cache_inv s' \<and> cached s' k = Some v \<and> (\<forall>k'. k' \<noteq> k \<longrightarrow> cached s' k' = None \<or> cached s' k' = cached s k')"
proof -
  have "uncached (fst k) (snd k) s = Some False"
    using assms(2) by (auto simp: cache_put_def dname_enter_def split: option.splits Option.bind_splits if_splits)
  from dname_enter_ok [OF assms(1) this, of v] obtain t where "dname_enter (fst k) v (snd k) s = Some (True, t)" "cache_inv t"
    "cached t = (cached s |` (- victim (fst k) (snd k) s))((fst k, snd k) \<mapsto> v)" by metis
  moreover from this assms(2) have "t = s'" by (simp add: cache_put_def)
  ultimately show ?thesis by (auto simp: restrict_map_def)
qed

interpretation dnlc: lossy_map cache_inv cached cache_put dname_purge_vnode cache_hit
proof
  show "cache_inv s' \<and> cached s' k = Some v \<and> (\<forall>k'. k' \<noteq> k \<longrightarrow> cached s' k' = None \<or> cached s' k' = cached s k')"
    if "cache_inv s" "cache_put k v s = Some s'" for s s' :: "'a names_scheme" and k v
    using cache_put_law [OF that] .
  show "cache_inv s' \<and> (\<forall>k v. cached s' k = Some v \<longrightarrow> cached s k = Some v \<and> \<not> cache_hit p k v)"
    if "cache_inv s" "dname_purge_vnode p s = Some s'" for s s' :: "'a names_scheme" and p
  proof -
    from dname_purge_vnode_ok [OF that(1), of p] obtain t where "dname_purge_vnode p s = Some t" "cache_inv t"
      "\<And>k x. cached t k = Some x \<longleftrightarrow> cached s k = Some x \<and> x \<noteq> Some p \<and> fst k \<noteq> p" by metis
    then show ?thesis using that(2) by (auto simp: cache_hit_def)
  qed
qed

section \<open>Properties\<close>

lemma init_dnames_inv: "cache_inv (init_dnames s)" "cached (init_dnames s) = Map.empty"
  by (auto simp: cache_inv_def init_dnames_def in_use_def cached_def dname_find_def fun_eq_iff)


text \<open>A cache after boot, over a table with one vnode in use.\<close>

definition demo_names :: names where
  "demo_names = init_dnames (pipes.extend (vnodes.extend used_vnodes (pipes.fields (\<lambda>_. demo_pipe) [] 0))
     (names.fields (\<lambda>_. \<lparr>dir_vnode = 0, dn_vnode = None, dn_name = '''', hash_key = 0\<rparr>) [] (\<lambda>_. [])))"

lemma demo_names_sel [simp]: "vnode_tab demo_names = vnode_tab used_vnodes" "superblocks demo_names = superblocks used_vnodes"
  by (simp_all add: demo_names_def init_dnames_def pipes.defs names.defs vnodes.defs)

lemma demo_names_init: "init_dnames demo_names = demo_names"
  by (simp add: demo_names_def init_dnames_def)

lemma demo_uncached: "length name < 63 \<Longrightarrow> uncached 0 name demo_names = Some False"
proof -
  have "sb_flags (superblocks used_vnodes 5) = 0"
    by (simp add: used_vnodes_def vnode_new_def init_vnodes_def vnode_upt Let_def InitRendez_def upd_sb_def sb_count_def zero_superblock_def)
  then show "length name < 63 \<Longrightarrow> uncached 0 name demo_names = Some False"
    by (simp add: uncached_def used_vnodes_tab fresh_vnode_def DNAME_SZ_def has_flag_def)
qed


lemma dname_enter_head:
  assumes "dname_enter e w n s = Some (r, s1)" "uncached e n s = Some False" "dname_find e n s = None"
  shows "\<exists>t ts. dname_hash s1 (name_key n) = t # ts \<and> dn_key (dnames s1 t) = (e, n)"
  using assms by (auto simp: dname_enter_def Let_def dn_key_def split: list.splits Option.bind_splits)

text \<open>
  C30: Removing a name from one directory removes the same name of another directory, if that was entered
  later: the name that was to be removed is still found.
\<close>

theorem dname_remove_other_dir:
  assumes "cache_inv s" "uncached d n s = Some False" "uncached e n s = Some False" "d \<noteq> e" "cached s (e, n) = None"
    and "cached s (d, n) = Some v" "victim e n s \<noteq> {(d, n)}"
  shows "\<exists>s1 s2. dname_enter e w n s = Some (True, s1) \<and> dname_remove d n s1 = Some (True, s2)
    \<and> cached s2 (d, n) = Some v \<and> cached s2 (e, n) = None"
proof -
  obtain s1 where s1: "dname_enter e w n s = Some (True, s1)" "cache_inv s1" "cached s1 = (cached s |` (- victim e n s))((e, n) \<mapsto> w)"
    "vnode_tab s1 = vnode_tab s" "superblocks s1 = superblocks s"
    using dname_enter_ok [OF assms(1,3), of w] by metis
  have f: "dname_find e n s = None" using assms(5) by (simp add: cached_def split: option.splits)
  from dname_enter_head [OF s1(1) assms(3) f] obtain t ts where
    t: "dname_hash s1 (name_key n) = t # ts" "dn_key (dnames s1 t) = (e, n)" by blast
  have u: "in_use t s1" "nat (hash_key (dnames s1 t)) = name_key n"
    using cache_invD(4) [OF s1(2), of t "name_key n"] t(1) by (auto simp: in_use_def)
  from dname_drop_ok [OF s1(2) u(1)] obtain s2 where s2: "dname_drop (name_key n) t s1 = Some s2" "cached s2 = (cached s1)((e, n) := None)"
    unfolding u(2) t(2) by metis
  have "uncached d n s1 = Some False" using assms(2) s1(4,5) by (simp add: uncached_def)
  then have "dname_remove d n s1 = Some (True, s2)" using t s2(1) by (simp add: dname_remove_def dn_key_def)
  moreover have "(d, n) \<notin> victim e n s" using assms(7) by (auto simp: victim_def Let_def split: if_splits)
  ultimately show ?thesis using s1(1,3) s2(2) assms(4,6) by (intro exI [of _ s1] exI [of _ s2]) simp
qed

theorem dname_remove_other_dir_witness:
  "\<exists>s0 s1 s2. dname_enter 0 (Some 3) ''bin'' (upd_vnode 1 (\<lambda>_. vnode_tab demo_names 0) demo_names) = Some (True, s0)
    \<and> dname_enter 1 (Some 4) ''bin'' s0 = Some (True, s1) \<and> dname_remove 0 ''bin'' s1 = Some (True, s2)
    \<and> cached s2 (0, ''bin'') = Some (Some 3)"
proof -
  let ?s = "upd_vnode 1 (\<lambda>_. vnode_tab demo_names 0) demo_names"
  have s: "init_dnames ?s = ?s" by (simp add: demo_names_def init_dnames_def upd_vnode_def)
  have i: "cache_inv ?s" "cached ?s = Map.empty"
    using init_dnames_inv [of ?s] unfolding s by simp_all
  have c: "uncached 0 ''bin'' ?s = Some False" "uncached 1 ''bin'' ?s = Some False"
    using demo_uncached [of "''bin''"] by (auto simp: uncached_def upd_vnode_def used_vnodes_tab)
  obtain s0 where s0: "dname_enter 0 (Some 3) ''bin'' ?s = Some (True, s0)" "cache_inv s0"
    "cached s0 = (cached ?s |` (- victim 0 ''bin'' ?s))((0, ''bin'') \<mapsto> Some 3)"
    "vnode_tab s0 = vnode_tab ?s" "superblocks s0 = superblocks ?s" using dname_enter_ok [OF i(1) c(1), of "Some 3"] by metis
  have c0: "uncached 0 ''bin'' s0 = Some False" "uncached 1 ''bin'' s0 = Some False"
    using c s0(4,5) by (simp_all add: uncached_def)
  have l: "dname_lru_list ?s = 0 # 1 # [2..<NR_DNAME]" "hash_key (dnames ?s t) = - 1" for t
    using upt_conv_Cons [of 0 NR_DNAME] upt_conv_Cons [of 1 NR_DNAME]
    by (simp_all add: demo_names_def init_dnames_def upd_vnode_def) (simp_all add: NR_DNAME_def numeral_2_eq_2)
  have "dname_find 0 ''bin'' ?s = None" using i(2) by (auto simp: cached_def fun_eq_iff split: option.splits)
  then have "hd (dname_lru_list s0) = 1" "\<not> in_use 1 s0"
    using s0(1) c(1) l by (auto simp: dname_enter_def Let_def in_use_def)
  then have "victim 1 ''bin'' s0 \<noteq> {(0, ''bin'')}" by (simp add: victim_def)
  moreover have "cached s0 (1, ''bin'') = None" "cached s0 (0, ''bin'') = Some (Some 3)"
    unfolding s0(3) i(2) by (simp_all add: restrict_map_def)
  ultimately show ?thesis using dname_remove_other_dir [OF s0(2) c0, of "Some 3" "Some 4"] s0(1) by (metis zero_neq_one)
qed

end
