(* ===== verification/Segments.thy ===== *)
theory Segments
  imports Cheviot_Prelude
begin

unbundle bit_operations_syntax

text \<open>
  The segment table of an address space, \<^verbatim>\<open>kernel/vm/segment.c\<close>.  An entry is a 32-bit word: the
  page-aligned address at which the segment starts, with the type of the segment in its low bits.
  A segment ends where the next one starts; the entry after the last segment is the ceiling.  The
  table is an array of \<open>NSEGMENT\<close> words; \<open>None\<close> is an access outside the array.  The bit
  \<open>MAP_FIXED\<close> of the flags, which the C library defines, is the argument \<open>fixed\<close>.
\<close>

section \<open>The table\<close>

definition NSEGMENT :: nat where
  "NSEGMENT = 32"

definition SEG_TYPE_FREE :: u32 where
  "SEG_TYPE_FREE = 0"

definition SEG_TYPE_ALLOC :: u32 where
  "SEG_TYPE_ALLOC = 1"

definition SEG_TYPE_PHYS :: u32 where
  "SEG_TYPE_PHYS = 2"

definition SEG_TYPE_CEILING :: u32 where
  "SEG_TYPE_CEILING = 3"

definition SEG_TYPE_MASK :: u32 where
  "SEG_TYPE_MASK = 0x0000000f"

definition SEG_ADDR_MASK :: u32 where
  "SEG_ADDR_MASK = 0xfffff000"

definition VM_USER_CEILING :: u32 where
  "VM_USER_CEILING = 0x7F000000"

record AddressSpace =
  segment_table :: "u32 list"
  segment_cnt :: nat

definition seg_addr :: "u32 \<Rightarrow> u32" where
  "seg_addr e = e AND SEG_ADDR_MASK"

definition seg_type :: "u32 \<Rightarrow> u32" where
  "seg_type e = e AND SEG_TYPE_MASK"

definition ceiling_entry :: u32 where
  "ceiling_entry = VM_USER_CEILING OR SEG_TYPE_CEILING"

definition sget :: "u32 list \<Rightarrow> nat \<Rightarrow> u32 option" where
  "sget tbl i = (if i < length tbl then Some (tbl ! i) else None)"

definition sset :: "u32 list \<Rightarrow> nat \<Rightarrow> u32 \<Rightarrow> u32 list option" where
  "sset tbl i v = (if i < length tbl then Some (tbl[i := v]) else None)"

section \<open>Operations\<close>

text \<open>Binary search; the result \<open>Some None\<close> is the NULL that the code returns.\<close>

function find_loop :: "u32 list \<Rightarrow> u32 \<Rightarrow> int \<Rightarrow> int \<Rightarrow> nat option option" where
  "find_loop tbl addr low high =
     (if low \<le> high then
        (let mid = low + (high - low) div 2
         in do {
           b \<leftarrow> sget tbl (nat (mid + 1));
           a \<leftarrow> sget tbl (nat mid);
           if addr \<ge> seg_addr b then find_loop tbl addr (mid + 1) high
           else if addr < seg_addr a then find_loop tbl addr low (mid - 1)
           else Some (Some (nat mid))
         })
      else Some None)"
  by pat_completeness auto
termination
  by (relation "measure (\<lambda>(tbl, addr, low, high). nat (high - low + 1))") auto

declare find_loop.simps [simp del]

definition segment_find :: "AddressSpace \<Rightarrow> u32 \<Rightarrow> nat option option" where
  "segment_find as addr = find_loop (segment_table as) addr 0 (int (segment_cnt as) - 1)"

text \<open>The loop that moves entries up, from the last one; \<open>k\<close> entries are left to move.\<close>

fun insert_loop :: "u32 list \<Rightarrow> nat \<Rightarrow> nat \<Rightarrow> nat \<Rightarrow> u32 list option" where
  "insert_loop tbl lo cnt 0 = Some tbl"
| "insert_loop tbl lo cnt (Suc k) = do {
     v \<leftarrow> sget tbl (lo + k - cnt);
     tbl \<leftarrow> sset tbl (lo + k) v;
     insert_loop tbl lo cnt k
   }"

definition segment_insert :: "AddressSpace \<Rightarrow> nat \<Rightarrow> nat \<Rightarrow> AddressSpace option" where
  "segment_insert as index cnt = do {
     tbl \<leftarrow> insert_loop (segment_table as) (index + cnt) cnt (segment_cnt as - index);
     tbl \<leftarrow> sset tbl (segment_cnt as + cnt) ceiling_entry;
     Some (as\<lparr>segment_table := tbl, segment_cnt := segment_cnt as + cnt\<rparr>)
   }"

text \<open>
  First fit from the address \<open>addr\<close> on: the index and the start of the new segment.  The loop is
  over \<open>n\<close> entries from \<open>i\<close>.
\<close>

fun alloc_loop :: "u32 list \<Rightarrow> u32 \<Rightarrow> u32 \<Rightarrow> nat \<Rightarrow> nat \<Rightarrow> (nat \<times> u32) option option" where
  "alloc_loop tbl sz addr i 0 = Some None"
| "alloc_loop tbl sz addr i (Suc n) = do {
     a \<leftarrow> sget tbl i;
     if seg_type a \<noteq> SEG_TYPE_FREE then alloc_loop tbl sz addr (Suc i) n
     else do {
       b \<leftarrow> sget tbl (Suc i);
       if seg_addr a \<le> addr \<and> addr + sz < seg_addr b then Some (Some (i, addr))
       else if seg_addr a \<ge> addr \<and> sz \<le> seg_addr b - seg_addr a then Some (Some (i, seg_addr a))
       else alloc_loop tbl sz addr (Suc i) n
     }
   }"

definition segment_alloc ::
  "AddressSpace \<Rightarrow> u32 \<Rightarrow> bool \<Rightarrow> u32 \<Rightarrow> (nat \<times> u32) option option" where
  "segment_alloc as sz fixed ret_addr =
     (let addr = (if \<not> fixed \<and> ret_addr = 0 then 0x00800000 else ret_addr)
      in alloc_loop (segment_table as) sz addr 0 (segment_cnt as))"

text \<open>The choice of the segment that is to hold the new one, with the address of the new one.\<close>

definition segment_choose ::
  "AddressSpace \<Rightarrow> u32 \<Rightarrow> u32 \<Rightarrow> bool \<Rightarrow> (nat \<times> u32) option option" where
  "segment_choose as addr sz fixed =
     (if fixed then do {
        r \<leftarrow> segment_find as addr;
        case r of
          None \<Rightarrow> Some None
        | Some t \<Rightarrow> do {
            a \<leftarrow> sget (segment_table as) t;
            b \<leftarrow> sget (segment_table as) (Suc t);
            if seg_type a \<noteq> SEG_TYPE_FREE then Some None
            else if addr + sz > seg_addr b then Some None
            else Some (Some (t, addr))
          }
      }
      else segment_alloc as sz fixed addr)"

text \<open>Placing the new segment in the free segment \<open>t\<close>: the four cases of \<open>segment_create\<close>.\<close>

definition segment_place ::
  "AddressSpace \<Rightarrow> nat \<Rightarrow> u32 \<Rightarrow> u32 \<Rightarrow> u32 \<Rightarrow> AddressSpace option" where
  "segment_place as t addr sz type = do {
     a \<leftarrow> sget (segment_table as) t;
     b \<leftarrow> sget (segment_table as) (Suc t);
     if seg_addr a = addr \<and> seg_addr b = addr + sz then do {
       tbl \<leftarrow> sset (segment_table as) t ((a AND NOT SEG_TYPE_MASK) OR (type AND SEG_TYPE_MASK));
       Some (as\<lparr>segment_table := tbl\<rparr>)
     }
     else if seg_addr a < addr \<and> seg_addr b > addr + sz then do {
       as \<leftarrow> segment_insert as t 2;
       tbl \<leftarrow> sset (segment_table as) t (seg_addr a OR SEG_TYPE_FREE);
       tbl \<leftarrow> sset tbl (t + 1) (addr OR (type AND SEG_TYPE_MASK));
       tbl \<leftarrow> sset tbl (t + 2) ((addr + sz) OR SEG_TYPE_FREE);
       Some (as\<lparr>segment_table := tbl\<rparr>)
     }
     else if seg_addr a = addr \<and> seg_addr b > addr + sz then do {
       as \<leftarrow> segment_insert as t 1;
       tbl \<leftarrow> sset (segment_table as) t (addr OR (type AND SEG_TYPE_MASK));
       tbl \<leftarrow> sset tbl (t + 1) ((addr + sz) OR SEG_TYPE_FREE);
       Some (as\<lparr>segment_table := tbl\<rparr>)
     }
     else do {
       as \<leftarrow> segment_insert as t 1;
       tbl \<leftarrow> sset (segment_table as) t (seg_addr a OR SEG_TYPE_FREE);
       tbl \<leftarrow> sset tbl (t + 1) (addr OR (type AND SEG_TYPE_MASK));
       Some (as\<lparr>segment_table := tbl\<rparr>)
     }
   }"

definition segment_create ::
  "AddressSpace \<Rightarrow> u32 \<Rightarrow> u32 \<Rightarrow> u32 \<Rightarrow> bool \<Rightarrow> (u32 option \<times> AddressSpace) option" where
  "segment_create as addr sz type fixed =
     (if segment_cnt as \<ge> NSEGMENT - 3 then Some (None, as)
      else if sz = 0 then Some (None, as)
      else do {
        r \<leftarrow> segment_choose as addr sz fixed;
        case r of
          None \<Rightarrow> Some (None, as)
        | Some (t, addr) \<Rightarrow> do {
            as \<leftarrow> segment_place as t addr sz type;
            Some (Some addr, as)
          }
      })"

text \<open>The index of the entry, with \<open>Inl ()\<close> for the \<open>-1\<close> of an address that is not found.\<close>

definition segment_splice ::
  "AddressSpace \<Rightarrow> u32 \<Rightarrow> ((unit + nat) \<times> AddressSpace) option" where
  "segment_splice as addr =
     (if addr = VM_USER_CEILING then Some (Inr NSEGMENT, as)
      else do {
        r \<leftarrow> segment_find as addr;
        case r of
          None \<Rightarrow> Some (Inl (), as)
        | Some i \<Rightarrow> do {
            a \<leftarrow> sget (segment_table as) i;
            if addr = seg_addr a then Some (Inr i, as)
            else do {
              as \<leftarrow> segment_insert as i 1;
              v \<leftarrow> sget (segment_table as) i;
              tbl \<leftarrow> sset (segment_table as) (i + 1) v;
              Some (Inr i, as\<lparr>segment_table := tbl\<rparr>)
            }
          }
      })"

fun coalesce_loop :: "u32 list \<Rightarrow> nat \<Rightarrow> nat \<Rightarrow> nat \<Rightarrow> (u32 list \<times> nat) option" where
  "coalesce_loop tbl t s 0 = Some (tbl, s)"
| "coalesce_loop tbl t s (Suc n) = do {
     v \<leftarrow> sget tbl t;
     p \<leftarrow> (if s > 0 then sget tbl (s - 1) else Some 0);
     if s > 0 \<and> seg_type p = SEG_TYPE_FREE \<and> seg_type v = SEG_TYPE_FREE
     then do { tbl \<leftarrow> sset tbl (s - 1) v; coalesce_loop tbl (Suc t) s n }
     else do { tbl \<leftarrow> sset tbl s v; coalesce_loop tbl (Suc t) (Suc s) n }
   }"

definition segment_coalesce :: "AddressSpace \<Rightarrow> AddressSpace option" where
  "segment_coalesce as = do {
     (tbl, s) \<leftarrow> coalesce_loop (segment_table as) 0 0 (segment_cnt as + 1);
     tbl \<leftarrow> sset tbl s ceiling_entry;
     Some (as\<lparr>segment_table := tbl, segment_cnt := s\<rparr>)
   }"

fun free_loop :: "u32 list \<Rightarrow> nat \<Rightarrow> nat \<Rightarrow> u32 list option" where
  "free_loop tbl t 0 = Some tbl"
| "free_loop tbl t (Suc n) = do {
     v \<leftarrow> sget tbl t;
     tbl \<leftarrow> sset tbl t (seg_addr v OR SEG_TYPE_FREE);
     free_loop tbl (Suc t) n
   }"

text \<open>
  The loop runs from \<open>lo\<close> to \<open>hi - 1\<close>.  With \<open>lo = -1\<close> it writes before the array, unless \<open>hi\<close> is
  \<open>-1\<close> as well.
\<close>

definition segment_free :: "AddressSpace \<Rightarrow> u32 \<Rightarrow> u32 \<Rightarrow> AddressSpace option" where
  "segment_free as base sz =
     (if base = 0 then Some as
      else do {
        (lo, as) \<leftarrow> segment_splice as base;
        (hi, as) \<leftarrow> segment_splice as (base + sz);
        tbl \<leftarrow> (case (lo, hi) of
                 (Inr l, Inr h) \<Rightarrow> free_loop (segment_table as) l (h - l)
               | (Inr l, Inl _) \<Rightarrow> Some (segment_table as)
               | (Inl _, Inl _) \<Rightarrow> Some (segment_table as)
               | (Inl _, Inr h) \<Rightarrow> None);
        segment_coalesce (as\<lparr>segment_table := tbl\<rparr>)
      })"

section \<open>Entries\<close>

definition page_aligned :: "u32 \<Rightarrow> bool" where
  "page_aligned a \<longleftrightarrow> a AND 0xfff = 0"

lemma seg_masks: "SEG_ADDR_MASK = NOT (mask 12)" "SEG_TYPE_MASK = mask 4" "(0xfff :: u32) = mask 12"
  by (simp_all add: SEG_ADDR_MASK_def SEG_TYPE_MASK_def mask_eq_exp_minus_1)

lemma page_aligned_bit: "page_aligned a \<Longrightarrow> n < 12 \<Longrightarrow> \<not> bit a n"
  unfolding page_aligned_def seg_masks by (auto simp: bit_eq_iff bit_simps dest!: spec [of _ n])

lemma seg_entry:
  assumes "page_aligned a"
  shows "seg_addr (a OR (t AND SEG_TYPE_MASK)) = a" "seg_type (a OR (t AND SEG_TYPE_MASK)) = t AND SEG_TYPE_MASK"
    "seg_addr (a OR SEG_TYPE_FREE) = a" "seg_type (a OR SEG_TYPE_FREE) = SEG_TYPE_FREE"
  unfolding seg_addr_def seg_type_def seg_masks SEG_TYPE_FREE_def
  using page_aligned_bit [OF assms] by (auto intro!: bit_eqI simp: bit_simps)

lemma seg_addr_aligned: "page_aligned (seg_addr e)"
  unfolding page_aligned_def seg_addr_def seg_masks by (auto intro!: bit_eqI simp: bit_simps)

lemma seg_retype: "seg_addr ((e AND NOT SEG_TYPE_MASK) OR (t AND SEG_TYPE_MASK)) = seg_addr e"
  "seg_type ((e AND NOT SEG_TYPE_MASK) OR (t AND SEG_TYPE_MASK)) = t AND SEG_TYPE_MASK"
  unfolding seg_addr_def seg_type_def seg_masks by (auto intro!: bit_eqI simp: bit_simps)

lemma page_aligned_add:
  assumes "page_aligned a" "page_aligned b"
  shows "page_aligned (a + b)"
proof -
  have "take_bit 12 a = 0" "take_bit 12 b = 0"
    using assms unfolding page_aligned_def seg_masks take_bit_eq_mask by simp_all
  then have "push_bit 12 (drop_bit 12 a) = a" "push_bit 12 (drop_bit 12 b) = b"
    using bits_ident [of 12 a] bits_ident [of 12 b] by simp_all
  then have "a + b = push_bit 12 (drop_bit 12 a + drop_bit 12 b)" by (simp only: push_bit_add)
  moreover have "take_bit 12 (push_bit 12 z) = 0" for z :: u32
    by (rule bit_eqI) (auto simp: bit_simps)
  ultimately have "take_bit 12 (a + b) = 0" by metis
  then show ?thesis unfolding page_aligned_def seg_masks take_bit_eq_mask by simp
qed

lemma ceiling_entry_sel: "seg_addr ceiling_entry = VM_USER_CEILING" "seg_type ceiling_entry = SEG_TYPE_CEILING"
  by (simp_all add: ceiling_entry_def seg_addr_def seg_type_def SEG_ADDR_MASK_def SEG_TYPE_MASK_def
      VM_USER_CEILING_def SEG_TYPE_CEILING_def)

section \<open>Well-formed tables\<close>

text \<open>The entries in use, with the ceiling; their addresses increase strictly.\<close>

definition entries :: "AddressSpace \<Rightarrow> u32 list" where
  "entries as = take (Suc (segment_cnt as)) (segment_table as)"

definition seg_wf :: "AddressSpace \<Rightarrow> bool" where
  "seg_wf as \<longleftrightarrow> length (segment_table as) = NSEGMENT \<and> 0 < segment_cnt as
     \<and> segment_cnt as < NSEGMENT \<and> segment_table as ! segment_cnt as = ceiling_entry
     \<and> sorted_wrt (<) (map seg_addr (entries as))"

text \<open>The type of the segment that an address lies in.\<close>

fun type_at :: "u32 list \<Rightarrow> u32 \<Rightarrow> u32 option" where
  "type_at (a # b # es) x =
     (if seg_addr a \<le> x \<and> x < seg_addr b then Some (seg_type a) else type_at (b # es) x)"
| "type_at es x = None"

lemma entries_nth: "seg_wf as \<Longrightarrow> i \<le> segment_cnt as \<Longrightarrow> entries as ! i = segment_table as ! i"
  by (simp add: entries_def)

lemma length_entries: "seg_wf as \<Longrightarrow> length (entries as) = Suc (segment_cnt as)"
  by (simp add: entries_def seg_wf_def)

lemma last_entries:
  "segment_cnt as < length (segment_table as) \<Longrightarrow> segment_table as ! segment_cnt as = last (entries as)"
  by (simp add: entries_def take_Suc_conv_app_nth)

lemma seg_addr_mono:
  "\<lbrakk>seg_wf as; i < j; j \<le> segment_cnt as\<rbrakk> \<Longrightarrow>
     seg_addr (segment_table as ! i) < seg_addr (segment_table as ! j)"
  using sorted_wrt_nth_less [of "(<)" "map seg_addr (entries as)" i j]
  by (simp add: seg_wf_def entries_def)

lemma sget_wf: "seg_wf as \<Longrightarrow> i \<le> segment_cnt as \<Longrightarrow> sget (segment_table as) i = Some (segment_table as ! i)"
  by (simp add: sget_def seg_wf_def)

lemma type_at_range:
  assumes "sorted_wrt (<) (map seg_addr es)" "type_at es x = Some ty"
  shows "seg_addr (hd es) \<le> x \<and> x < seg_addr (last es)"
  using assms
proof (induction es x rule: type_at.induct)
  case (1 a b es x)
  show ?case
  proof (cases "seg_addr a \<le> x \<and> x < seg_addr b")
    case True
    have "seg_addr b \<le> seg_addr (last (b # es))" using 1(2) by (cases es rule: rev_cases) auto
    then show ?thesis using True by auto
  next
    case False
    then show ?thesis using 1 by auto
  qed
qed auto

section \<open>Finding a segment\<close>

definition holds :: "AddressSpace \<Rightarrow> u32 \<Rightarrow> nat \<Rightarrow> bool" where
  "holds as addr i \<longleftrightarrow> i < segment_cnt as \<and> seg_addr (segment_table as ! i) \<le> addr
     \<and> addr < seg_addr (segment_table as ! Suc i)"

lemma holds_unique: "\<lbrakk>seg_wf as; holds as addr i; holds as addr j\<rbrakk> \<Longrightarrow> i = j"
proof (rule ccontr)
  assume a: "seg_wf as" "holds as addr i" "holds as addr j" "i \<noteq> j"
  have "\<not> (i < j \<and> holds as addr i \<and> holds as addr j)" for i j
  proof
    assume ij: "i < j \<and> holds as addr i \<and> holds as addr j"
    then have "seg_addr (segment_table as ! Suc i) \<le> seg_addr (segment_table as ! j)"
      using seg_addr_mono [OF a(1), of "Suc i" j] by (cases "Suc i = j") (auto simp: holds_def)
    then show False using ij by (auto simp: holds_def)
  qed
  then show False using a(2-4) by (metis linorder_neqE_nat)
qed

lemma find_loop_correct:
  assumes "seg_wf as" "0 \<le> low" "high < int (segment_cnt as)"
    and "\<And>i. holds as addr i \<Longrightarrow> low \<le> int i \<and> int i \<le> high"
  shows "\<exists>r. find_loop (segment_table as) addr low high = Some r
    \<and> (case r of Some i \<Rightarrow> holds as addr i | None \<Rightarrow> \<forall>i. \<not> holds as addr i)"
  using assms
proof (induction "segment_table as" addr low high rule: find_loop.induct)
  case (1 addr low high)
  show ?case
  proof (cases "low \<le> high")
    case False
    then show ?thesis using 1(6) by (force simp: find_loop.simps [of _ _ low high])
  next
    case True
    define mid where "mid = low + (high - low) div 2"
    have mid: "low \<le> mid" "mid \<le> high" using True by (simp_all add: mid_def)
    then have mc: "Suc (nat mid) \<le> segment_cnt as" using 1(4,5) by linarith
    from mid have g: "sget (segment_table as) (nat mid) = Some (segment_table as ! nat mid)"
      "sget (segment_table as) (nat (mid + 1)) = Some (segment_table as ! Suc (nat mid))"
      using sget_wf [OF 1(3), of "nat mid"] sget_wf [OF 1(3), of "nat (mid + 1)"] 1(4,5)
      by (simp_all add: nat_add_distrib)
    have eq: "find_loop (segment_table as) addr low high =
       (if seg_addr (segment_table as ! Suc (nat mid)) \<le> addr then find_loop (segment_table as) addr (mid + 1) high
        else if addr < seg_addr (segment_table as ! nat mid) then find_loop (segment_table as) addr low (mid - 1)
        else Some (Some (nat mid)))"
      using True g by (simp add: find_loop.simps [of _ _ low high] mid_def [symmetric] Let_def)
    have up: "mid + 1 \<le> int i" if "seg_addr (segment_table as ! Suc (nat mid)) \<le> addr" "holds as addr i" for i
    proof (rule ccontr)
      assume "\<not> mid + 1 \<le> int i"
      then have "Suc i \<le> Suc (nat mid)" by simp
      then have "seg_addr (segment_table as ! Suc i) \<le> seg_addr (segment_table as ! Suc (nat mid))"
        using seg_addr_mono [OF 1(3), of "Suc i" "Suc (nat mid)"] mc
        by (cases "Suc i = Suc (nat mid)") auto
      then show False using that by (meson holds_def leD order_trans)
    qed
    have down: "int i \<le> mid - 1" if "addr < seg_addr (segment_table as ! nat mid)" "holds as addr i" for i
    proof (rule ccontr)
      assume "\<not> int i \<le> mid - 1"
      then have "nat mid \<le> i" by simp
      then have "seg_addr (segment_table as ! nat mid) \<le> seg_addr (segment_table as ! i)"
        using seg_addr_mono [OF 1(3), of "nat mid" i] that(2)
        by (cases "nat mid = i") (auto simp: holds_def)
      then show False using that by (meson holds_def leD order_trans)
    qed
    consider (r) "seg_addr (segment_table as ! Suc (nat mid)) \<le> addr"
      | (l) "addr < seg_addr (segment_table as ! nat mid)" "\<not> seg_addr (segment_table as ! Suc (nat mid)) \<le> addr"
      | (m) "\<not> seg_addr (segment_table as ! Suc (nat mid)) \<le> addr" "\<not> addr < seg_addr (segment_table as ! nat mid)"
      by blast
    then show ?thesis
    proof cases
      case r
      then show ?thesis
        using eq 1(1) [OF True mid_def g(2,1) r 1(3)] 1(4-6) mid up by simp
    next
      case l
      then show ?thesis
        using eq 1(2) [OF True mid_def g(2,1) l(2,1) 1(3)] 1(4-6) mid down by simp
    next
      case m
      then have "holds as addr (nat mid)" using mc by (simp add: holds_def not_le not_less)
      then show ?thesis using eq m by simp
    qed
  qed
qed

lemma segment_find_correct:
  assumes "seg_wf as"
  shows "\<exists>r. segment_find as addr = Some r
    \<and> (case r of Some i \<Rightarrow> holds as addr i | None \<Rightarrow> \<forall>i. \<not> holds as addr i)"
  unfolding segment_find_def
  by (rule find_loop_correct [OF assms]) (auto simp: holds_def)

section \<open>Choosing a place\<close>

text \<open>A place in a free segment, without wrap-around.\<close>

definition fits :: "AddressSpace \<Rightarrow> u32 \<Rightarrow> nat \<Rightarrow> u32 \<Rightarrow> bool" where
  "fits as sz t a \<longleftrightarrow> t < segment_cnt as \<and> seg_type (segment_table as ! t) = SEG_TYPE_FREE
     \<and> page_aligned a \<and> seg_addr (segment_table as ! t) \<le> a
     \<and> unat a + unat sz \<le> unat (seg_addr (segment_table as ! Suc t))"

lemma unat_add_nowrap: "unat (a :: u32) + unat b < 2 ^ 32 \<Longrightarrow> unat (a + b) = unat a + unat b"
  using unat_add_lem [of a b] by simp

lemma alloc_loop_fits:
  assumes "seg_wf as" "page_aligned addr" "unat addr + unat sz < 2 ^ 32" "i + n \<le> segment_cnt as"
  shows "\<exists>r. alloc_loop (segment_table as) sz addr i n = Some r
    \<and> (case r of None \<Rightarrow> True | Some (t, a) \<Rightarrow> fits as sz t a)"
  using assms(4)
proof (induction n arbitrary: i)
  case 0
  then show ?case by simp
next
  case (Suc n)
  let ?a = "segment_table as ! i" and ?b = "segment_table as ! Suc i"
  have g: "sget (segment_table as) i = Some ?a" "sget (segment_table as) (Suc i) = Some ?b"
    using sget_wf [OF assms(1)] Suc(2) by simp_all
  have lt: "seg_addr ?a < seg_addr ?b" using seg_addr_mono [OF assms(1)] Suc(2) by simp
  have ih: "\<exists>r. alloc_loop (segment_table as) sz addr (Suc i) n = Some r
    \<and> (case r of None \<Rightarrow> True | Some (t, a) \<Rightarrow> fits as sz t a)"
    using Suc.IH [of "Suc i"] Suc(2) by simp
  have one: "fits as sz i addr"
    if "seg_type ?a = SEG_TYPE_FREE" "seg_addr ?a \<le> addr" "addr + sz < seg_addr ?b"
    using that Suc(2) assms(2) unat_add_nowrap [OF assms(3)] by (simp add: fits_def word_less_nat_alt)
  have two: "fits as sz i (seg_addr ?a)"
    if "seg_type ?a = SEG_TYPE_FREE" "sz \<le> seg_addr ?b - seg_addr ?a"
    using that Suc(2) lt unat_sub [of "seg_addr ?a" "seg_addr ?b"] seg_addr_aligned
    by (simp add: fits_def word_le_nat_alt word_less_nat_alt)
  show ?case using g ih one two by auto
qed

lemma segment_choose_fits:
  assumes "seg_wf as" "page_aligned addr" "unat addr + unat sz + 0x800000 < 2 ^ 32"
  shows "\<exists>r. segment_choose as addr sz fixed = Some r
    \<and> (case r of None \<Rightarrow> True | Some (t, a) \<Rightarrow> fits as sz t a \<and> (fixed \<longrightarrow> a = addr))"
proof (cases fixed)
  case False
  let ?h = "if addr = 0 then 0x00800000 else addr"
  have "page_aligned ?h" "unat ?h + unat sz < 2 ^ 32"
    using assms(2,3) by (auto simp: page_aligned_def)
  from alloc_loop_fits [OF assms(1) this, of 0 "segment_cnt as"] obtain r
    where "alloc_loop (segment_table as) sz ?h 0 (segment_cnt as) = Some r"
      "case r of None \<Rightarrow> True | Some (t, a) \<Rightarrow> fits as sz t a" by auto
  then show ?thesis using False
    by (intro exI [of _ r]) (simp add: segment_choose_def segment_alloc_def Let_def split: option.splits prod.splits)
next
  case True
  from segment_find_correct [OF assms(1), of addr] obtain r where r: "segment_find as addr = Some r"
    "case r of Some i \<Rightarrow> holds as addr i | None \<Rightarrow> \<forall>i. \<not> holds as addr i" by blast
  show ?thesis
  proof (cases r)
    case None
    then show ?thesis using r True by (simp add: segment_choose_def)
  next
    case (Some t)
    then have h: "t < segment_cnt as" "seg_addr (segment_table as ! t) \<le> addr"
      using r(2) by (simp_all add: holds_def)
    have "unat (addr + sz) = unat addr + unat sz" using assms(3) by (intro unat_add_nowrap) simp
    then show ?thesis
      using r(1) Some True h sget_wf [OF assms(1)] assms(2)
      by (auto simp: segment_choose_def fits_def word_less_nat_alt not_less)
  qed
qed

section \<open>Inserting entries\<close>

lemma insert_loop_nth:
  assumes "lo + k \<le> length tbl" "cnt \<le> lo"
  shows "\<exists>tbl'. insert_loop tbl lo cnt k = Some tbl' \<and> length tbl' = length tbl
    \<and> (\<forall>i < length tbl. tbl' ! i = (if lo \<le> i \<and> i < lo + k then tbl ! (i - cnt) else tbl ! i))"
  using assms
proof (induction k arbitrary: tbl)
  case 0
  then show ?case by auto
next
  case (Suc k)
  let ?t = "tbl[lo + k := tbl ! (lo + k - cnt)]"
  from Suc.IH [of ?t] Suc(2,3) obtain tbl' where t: "insert_loop ?t lo cnt k = Some tbl'"
    "length tbl' = length tbl"
    "\<forall>i < length tbl. tbl' ! i = (if lo \<le> i \<and> i < lo + k then ?t ! (i - cnt) else ?t ! i)"
    by auto
  have "insert_loop tbl lo cnt (Suc k) = Some tbl'"
    using Suc(2,3) t(1) by (simp add: sget_def sset_def)
  moreover have "tbl' ! i = (if lo \<le> i \<and> i < lo + Suc k then tbl ! (i - cnt) else tbl ! i)"
    if "i < length tbl" for i
    using t(3) that by (auto simp: nth_list_update less_Suc_eq)
  ultimately show ?case using t(2) by blast
qed

lemma segment_insert_nth:
  assumes "seg_wf as" "t \<le> segment_cnt as" "segment_cnt as + n < NSEGMENT"
  shows "\<exists>as'. segment_insert as t n = Some as' \<and> segment_cnt as' = segment_cnt as + n
    \<and> length (segment_table as') = NSEGMENT
    \<and> (\<forall>i \<le> segment_cnt as + n. segment_table as' ! i =
         (if t + n \<le> i then segment_table as ! (i - n) else segment_table as ! i))"
proof -
  have l: "length (segment_table as) = NSEGMENT" "segment_table as ! segment_cnt as = ceiling_entry"
    using assms(1) by (simp_all add: seg_wf_def)
  from insert_loop_nth [of "t + n" "segment_cnt as - t" "segment_table as" n] assms l
  obtain tbl where t: "insert_loop (segment_table as) (t + n) n (segment_cnt as - t) = Some tbl"
    "length tbl = NSEGMENT" "\<forall>i < NSEGMENT. tbl ! i =
       (if t + n \<le> i \<and> i < segment_cnt as + n then segment_table as ! (i - n) else segment_table as ! i)"
    by auto
  then show ?thesis
    using assms(2,3) l
    by (auto simp: segment_insert_def sset_def nth_list_update)
qed

text \<open>Replacing the entry \<open>t\<close> by the entries \<open>news\<close>, in the table after \<open>segment_insert\<close>.\<close>

lemma replace_entries:
  assumes "seg_wf as" "t < segment_cnt as" "segment_cnt as + n < NSEGMENT" "length news = Suc n"
    and as': "segment_insert as t n = Some as'"
    and tbl: "length tbl = NSEGMENT"
      "\<forall>i < NSEGMENT. tbl ! i = (if t \<le> i \<and> i \<le> t + n then news ! (i - t) else segment_table as' ! i)"
  shows "take (Suc (segment_cnt as')) tbl = take t (entries as) @ news @ drop (Suc t) (entries as)"
    and "segment_cnt as' = segment_cnt as + n"
proof -
  from segment_insert_nth [OF assms(1) _ assms(3), of t] assms(2) as'
  have s: "segment_cnt as' = segment_cnt as + n"
    "\<forall>i \<le> segment_cnt as + n. segment_table as' ! i =
       (if t + n \<le> i then segment_table as ! (i - n) else segment_table as ! i)" by auto
  have l: "length (entries as) = Suc (segment_cnt as)" using assms(1) by (rule length_entries)
  show "take (Suc (segment_cnt as')) tbl = take t (entries as) @ news @ drop (Suc t) (entries as)"
  proof (rule nth_equalityI)
    show "length (take (Suc (segment_cnt as')) tbl) =
        length (take t (entries as) @ news @ drop (Suc t) (entries as))"
      using assms(2-4) tbl(1) s(1) l by simp
    fix i assume "i < length (take (Suc (segment_cnt as')) tbl)"
    then have i: "i < NSEGMENT" "i \<le> segment_cnt as + n" using tbl(1) s(1) by simp_all
    have "\<not> i \<le> t + n \<Longrightarrow> i - n = Suc (i - Suc n)" by simp
    then show "take (Suc (segment_cnt as')) tbl ! i = (take t (entries as) @ news @ drop (Suc t) (entries as)) ! i"
      using i tbl(2) s assms(2,4) l entries_nth [OF assms(1)]
      by (auto simp: nth_append)
  qed
  show "segment_cnt as' = segment_cnt as + n" by (rule s)
qed

section \<open>Lookup by address\<close>

lemma type_at_below:
  "sorted_wrt (<) (map seg_addr (a # es)) \<Longrightarrow> x < seg_addr a \<Longrightarrow> type_at (a # es) x = None"
proof (induction es arbitrary: a)
  case (Cons b es)
  then show ?case by fastforce
qed simp

lemma type_at_split:
  "sorted_wrt (<) (map seg_addr (us @ a # vs)) \<Longrightarrow>
     type_at (us @ a # vs) x = (if x < seg_addr a then type_at (us @ [a]) x else type_at (a # vs) x)"
proof (induction us)
  case Nil
  then show ?case using type_at_below [of a vs x] by simp
next
  case (Cons u us)
  then show ?case by (cases us) (auto simp: not_less)
qed

lemma type_at_last: "seg_addr a = seg_addr b \<Longrightarrow> type_at (us @ [a]) x = type_at (us @ [b]) x"
proof (induction us)
  case (Cons u us)
  then show ?case by (cases us) auto
qed simp

text \<open>
  Replacing an entry by entries that start at the same address changes the type only between this
  address and the next.
\<close>

lemma sorted_replace:
  fixes f :: "'b \<Rightarrow> 'c :: linorder"
  assumes "sorted_wrt (<) (map f (us @ a # b # vs))" "sorted_wrt (<) (map f (a' # ns @ b # vs))"
    "f a' = f a"
  shows "sorted_wrt (<) (map f (us @ a' # ns @ b # vs))"
proof -
  have "\<forall>x \<in> set us. \<forall>y \<in> set (a' # ns @ b # vs). f x < f y"
  proof (intro ballI)
    fix x y assume xy: "x \<in> set us" "y \<in> set (a' # ns @ b # vs)"
    have "f x < f a" using assms(1) xy(1) by (auto simp: sorted_wrt_append)
    moreover have "f a \<le> f y" using assms(2,3) xy(2) by (auto simp: less_imp_le)
    ultimately show "f x < f y" by simp
  qed
  then show ?thesis using assms by (auto simp: sorted_wrt_append)
qed

lemma type_at_replace:
  assumes "sorted_wrt (<) (map seg_addr (us @ a # b # vs))"
    "sorted_wrt (<) (map seg_addr (a' # ns @ b # vs))" "seg_addr a' = seg_addr a"
  shows "type_at (us @ a' # ns @ b # vs) x =
    (if seg_addr a \<le> x \<and> x < seg_addr b then type_at (a' # ns @ b # vs) x
     else type_at (us @ a # b # vs) x)"
proof -
  have s: "sorted_wrt (<) (map seg_addr (us @ a' # ns @ b # vs))"
    by (rule sorted_replace [OF assms])
  have "type_at (a' # ns @ b # vs) x = type_at (b # vs) x" if "\<not> x < seg_addr b"
    using type_at_split [of "a' # ns" b vs x] assms(2) that by simp
  moreover have "type_at (a # b # vs) x = type_at (b # vs) x" if "\<not> x < seg_addr b"
    using that by simp
  ultimately show ?thesis
    using type_at_split [OF s] type_at_split [OF assms(1)] type_at_last [OF assms(3), of us x] assms(3)
    by (auto simp: not_less)
qed

lemma entries_split:
  assumes "seg_wf as" "t < segment_cnt as"
  obtains us vs where "take t (entries as) = us"
    "drop (Suc t) (entries as) = segment_table as ! Suc t # vs"
    "entries as = us @ segment_table as ! t # segment_table as ! Suc t # vs"
proof -
  have l: "length (entries as) = Suc (segment_cnt as)" using assms(1) by (rule length_entries)
  have d: "drop (Suc t) (entries as) = segment_table as ! Suc t # drop (Suc (Suc t)) (entries as)"
    using l assms entries_nth [OF assms(1), of "Suc t"] by (simp add: Cons_nth_drop_Suc [symmetric])
  have e: "entries as = take t (entries as) @ segment_table as ! t # drop (Suc t) (entries as)"
    using l assms entries_nth [OF assms(1), of t] id_take_nth_drop [of t "entries as"] by simp
  show thesis by (rule that [OF refl d]) (subst e, subst d, rule refl)
qed

lemma type_at_inside:
  assumes "seg_wf as" "t < segment_cnt as" "seg_addr (segment_table as ! t) \<le> x"
    "x < seg_addr (segment_table as ! Suc t)"
  shows "type_at (entries as) x = Some (seg_type (segment_table as ! t))"
proof -
  from entries_split [OF assms(1,2)] obtain us vs where
    e: "entries as = us @ segment_table as ! t # segment_table as ! Suc t # vs" by metis
  have "sorted_wrt (<) (map seg_addr (entries as))" using assms(1) by (simp add: seg_wf_def)
  from type_at_split [OF this [unfolded e], of x] show ?thesis using assms(3,4) e by (auto dest: leD)
qed

text \<open>
  The result of placing a segment: the entry \<open>t\<close> is replaced by one to three entries, which cover
  the old segment.
\<close>

definition placed :: "AddressSpace \<Rightarrow> nat \<Rightarrow> u32 \<Rightarrow> u32 \<Rightarrow> u32 \<Rightarrow> AddressSpace \<Rightarrow> u32 list \<Rightarrow> bool" where
  "placed as t addr sz type as' news \<longleftrightarrow> length (segment_table as') = NSEGMENT
     \<and> Suc (segment_cnt as') = segment_cnt as + length news
     \<and> entries as' = take t (entries as) @ news @ drop (Suc t) (entries as)
     \<and> (case news of [] \<Rightarrow> False | n # ns \<Rightarrow> seg_addr n = seg_addr (segment_table as ! t))
     \<and> sorted_wrt (<) (map seg_addr (news @ [segment_table as ! Suc t]))
     \<and> (\<forall>x. seg_addr (segment_table as ! t) \<le> x \<and> x < seg_addr (segment_table as ! Suc t) \<longrightarrow>
          type_at (news @ [segment_table as ! Suc t]) x =
            Some (if addr \<le> x \<and> x < addr + sz then type AND SEG_TYPE_MASK else SEG_TYPE_FREE))"

lemma placed_wf:
  assumes "seg_wf as" "t < segment_cnt as" "placed as t addr sz type as' news"
    "segment_cnt as + length news \<le> NSEGMENT"
  shows "seg_wf as'"
    and "type_at (entries as') x =
      (if seg_addr (segment_table as ! t) \<le> x \<and> x < seg_addr (segment_table as ! Suc t)
       then Some (if addr \<le> x \<and> x < addr + sz then type AND SEG_TYPE_MASK else SEG_TYPE_FREE)
       else type_at (entries as) x)"
proof -
  let ?a = "segment_table as ! t" and ?b = "segment_table as ! Suc t"
  note p = assms(3) [unfolded placed_def]
  then obtain n ns where n: "news = n # ns" "seg_addr n = seg_addr ?a" by (cases news) auto
  from entries_split [OF assms(1,2)] obtain us vs where e: "take t (entries as) = us"
    "drop (Suc t) (entries as) = ?b # vs" "entries as = us @ ?a # ?b # vs" by metis
  have s: "sorted_wrt (<) (map seg_addr (us @ ?a # ?b # vs))"
    using assms(1) e(3) by (simp add: seg_wf_def)
  then have s2: "sorted_wrt (<) (map seg_addr (n # ns @ ?b # vs))"
    using p n(1) by (auto simp: sorted_wrt_append) (meson order.strict_trans)
  have ent: "entries as' = us @ n # ns @ ?b # vs" using p e n(1) by simp
  have l: "last (entries as') = last (entries as)" using ent e(3) by simp
  have "segment_table as ! segment_cnt as = last (entries as)"
    using assms(1) by (intro last_entries) (simp add: seg_wf_def)
  moreover have "segment_table as' ! segment_cnt as' = last (entries as')"
    using p assms(4) by (intro last_entries) simp
  ultimately have "segment_table as' ! segment_cnt as' = ceiling_entry"
    using l assms(1) by (simp add: seg_wf_def)
  then show "seg_wf as'"
    using p n(1) assms(1,4) sorted_replace [OF s s2 n(2)] ent by (simp add: seg_wf_def)
  have "type_at (n # ns @ ?b # vs) x = type_at (news @ [?b]) x" if "x < seg_addr ?b"
    using type_at_split [of "n # ns" ?b vs x] s2 that n(1) by simp
  then show "type_at (entries as') x =
      (if seg_addr ?a \<le> x \<and> x < seg_addr ?b
       then Some (if addr \<le> x \<and> x < addr + sz then type AND SEG_TYPE_MASK else SEG_TYPE_FREE)
       else type_at (entries as) x)"
    using type_at_replace [OF s s2 n(2), of x] p ent e(3) by simp
qed

lemma insert1_entries:
  assumes "seg_wf as" "t < segment_cnt as" "segment_cnt as + 1 < NSEGMENT"
  shows "\<exists>as'. segment_insert as t 1 = Some as' \<and> segment_cnt as' = segment_cnt as + 1
    \<and> length (segment_table as') = NSEGMENT \<and> Suc t < NSEGMENT
    \<and> take (Suc (segment_cnt as')) ((segment_table as')[t := x, Suc t := y])
      = take t (entries as) @ [x, y] @ drop (Suc t) (entries as)"
proof -
  from segment_insert_nth [OF assms(1) _ assms(3), of t] assms(2) obtain as' where
    as': "segment_insert as t 1 = Some as'" "length (segment_table as') = NSEGMENT" by auto
  have "\<forall>i < NSEGMENT. (segment_table as')[t := x, Suc t := y] ! i =
      (if t \<le> i \<and> i \<le> t + 1 then [x, y] ! (i - t) else segment_table as' ! i)"
    using as'(2) by (auto simp: nth_list_update le_Suc_eq)
  from replace_entries [OF assms _ as'(1) _ this] as'(2) assms(2,3) as'(1) show ?thesis by simp
qed

lemma insert2_entries:
  assumes "seg_wf as" "t < segment_cnt as" "segment_cnt as + 2 < NSEGMENT"
  shows "\<exists>as'. segment_insert as t 2 = Some as' \<and> segment_cnt as' = segment_cnt as + 2
    \<and> length (segment_table as') = NSEGMENT \<and> Suc (Suc t) < NSEGMENT
    \<and> take (Suc (segment_cnt as')) ((segment_table as')[t := x, Suc t := y, Suc (Suc t) := z])
      = take t (entries as) @ [x, y, z] @ drop (Suc t) (entries as)"
proof -
  from segment_insert_nth [OF assms(1) _ assms(3), of t] assms(2) obtain as' where
    as': "segment_insert as t 2 = Some as'" "length (segment_table as') = NSEGMENT" by auto
  have "\<forall>i < NSEGMENT. (segment_table as')[t := x, Suc t := y, Suc (Suc t) := z] ! i =
      (if t \<le> i \<and> i \<le> t + 2 then [x, y, z] ! (i - t) else segment_table as' ! i)"
    using as'(2) by (auto simp: nth_list_update le_Suc_eq numeral_2_eq_2)
  from replace_entries [OF assms _ as'(1) _ this] as'(2) assms(2,3) as'(1) show ?thesis by simp
qed

lemma segment_place_placed:
  assumes "seg_wf as" "fits as sz t addr" "sz \<noteq> 0" "page_aligned sz" "segment_cnt as + 3 < NSEGMENT"
  shows "\<exists>as' news. segment_place as t addr sz type = Some as' \<and> placed as t addr sz type as' news
    \<and> length news \<le> 3"
proof -
  let ?a = "segment_table as ! t" and ?b = "segment_table as ! Suc t"
  let ?y = "type AND SEG_TYPE_MASK"
  have t: "t < segment_cnt as" "seg_type ?a = SEG_TYPE_FREE" "page_aligned addr" "seg_addr ?a \<le> addr"
    "unat addr + unat sz \<le> unat (seg_addr ?b)" using assms(2) by (simp_all add: fits_def)
  have L: "length (segment_table as) = NSEGMENT" using assms(1) by (simp add: seg_wf_def)
  have g: "sget (segment_table as) t = Some ?a" "sget (segment_table as) (Suc t) = Some ?b"
    using sget_wf [OF assms(1)] t(1) by simp_all
  have sm: "unat (addr + sz) = unat addr + unat sz"
    using t(5) unsigned_less [of "seg_addr ?b", where 'a = nat] by (intro unat_add_nowrap) simp
  have lt: "addr < addr + sz" "addr + sz \<le> seg_addr ?b"
    using sm t(5) assms(3) by (simp_all add: word_less_nat_alt word_le_nat_alt unat_gt_0)
  have al: "page_aligned (addr + sz)" using t(3) assms(4) by (rule page_aligned_add)
  note en = seg_entry(1,2) [OF t(3), of type] seg_entry(3,4) [OF al] seg_entry(3,4) [OF seg_addr_aligned]
  consider (perfect) "seg_addr ?a = addr" "seg_addr ?b = addr + sz"
    | (middle) "seg_addr ?a < addr" "addr + sz < seg_addr ?b"
    | (bottom) "seg_addr ?a = addr" "addr + sz < seg_addr ?b"
    | (top) "seg_addr ?a < addr" "seg_addr ?b = addr + sz"
    using t(4) lt(2) by fastforce
  then show ?thesis
  proof cases
    case perfect
    let ?e = "(?a AND NOT SEG_TYPE_MASK) OR ?y"
    let ?as = "as\<lparr>segment_table := (segment_table as)[t := ?e]\<rparr>"
    have "entries ?as = (entries as)[t := ?e]" by (simp add: entries_def take_update_swap)
    then have "entries ?as = take t (entries as) @ [?e] @ drop (Suc t) (entries as)"
      using t(1) length_entries [OF assms(1)] by (simp add: upd_conv_take_nth_drop)
    then have "placed as t addr sz type ?as [?e]"
      using perfect L lt(1) seg_retype [of ?a type] by (simp add: placed_def)
    then show ?thesis using perfect g L t(1) assms(5) by (force simp: segment_place_def sset_def)
  next
    case middle
    let ?n = "[seg_addr ?a OR SEG_TYPE_FREE, addr OR ?y, (addr + sz) OR SEG_TYPE_FREE]"
    from insert2_entries [OF assms(1) t(1), of "?n ! 0" "?n ! 1" "?n ! 2"] assms(5) obtain as' where
      as': "segment_insert as t 2 = Some as'" "segment_cnt as' = segment_cnt as + 2"
        "length (segment_table as') = NSEGMENT" "Suc (Suc t) < NSEGMENT"
        "take (Suc (segment_cnt as')) ((segment_table as')[t := ?n ! 0, Suc t := ?n ! 1,
           Suc (Suc t) := ?n ! 2]) = take t (entries as) @ ?n @ drop (Suc t) (entries as)" by auto
    let ?as = "as'\<lparr>segment_table := (segment_table as')[t := ?n ! 0, Suc t := ?n ! 1,
           Suc (Suc t) := ?n ! 2]\<rparr>"
    have "placed as t addr sz type ?as ?n"
      using middle as' lt(1) en by (auto simp: placed_def entries_def)
    then show ?thesis using middle g as' by (force simp: segment_place_def sset_def)
  next
    case bottom
    let ?n = "[addr OR ?y, (addr + sz) OR SEG_TYPE_FREE]"
    from insert1_entries [OF assms(1) t(1), of "?n ! 0" "?n ! 1"] assms(5) obtain as' where
      as': "segment_insert as t 1 = Some as'" "segment_cnt as' = segment_cnt as + 1"
        "length (segment_table as') = NSEGMENT" "Suc t < NSEGMENT"
        "take (Suc (segment_cnt as')) ((segment_table as')[t := ?n ! 0, Suc t := ?n ! 1])
           = take t (entries as) @ ?n @ drop (Suc t) (entries as)" by auto
    let ?as = "as'\<lparr>segment_table := (segment_table as')[t := ?n ! 0, Suc t := ?n ! 1]\<rparr>"
    have "placed as t addr sz type ?as ?n"
      using bottom as' lt(1) en by (auto simp: placed_def entries_def)
    then show ?thesis using bottom g as' by (force simp: segment_place_def sset_def)
  next
    case top
    let ?n = "[seg_addr ?a OR SEG_TYPE_FREE, addr OR ?y]"
    from insert1_entries [OF assms(1) t(1), of "?n ! 0" "?n ! 1"] assms(5) obtain as' where
      as': "segment_insert as t 1 = Some as'" "segment_cnt as' = segment_cnt as + 1"
        "length (segment_table as') = NSEGMENT" "Suc t < NSEGMENT"
        "take (Suc (segment_cnt as')) ((segment_table as')[t := ?n ! 0, Suc t := ?n ! 1])
           = take t (entries as) @ ?n @ drop (Suc t) (entries as)" by auto
    let ?as = "as'\<lparr>segment_table := (segment_table as')[t := ?n ! 0, Suc t := ?n ! 1]\<rparr>"
    have "placed as t addr sz type ?as ?n"
      using top as' lt(1) en by (auto simp: placed_def entries_def)
    then show ?thesis using top g as' by (force simp: segment_place_def sset_def)
  qed
qed

lemma coalesce_loop_id:
  assumes "s + n \<le> length tbl"
    and "\<And>i. 0 < i \<Longrightarrow> i < s + n \<Longrightarrow>
      \<not> (seg_type (tbl ! (i - 1)) = SEG_TYPE_FREE \<and> seg_type (tbl ! i) = SEG_TYPE_FREE)"
  shows "coalesce_loop tbl s s n = Some (tbl, s + n)"
  using assms
proof (induction n arbitrary: s)
  case (Suc n)
  then show ?case
    using Suc.IH [of "Suc s"] Suc.prems(2) [of s]
    by (auto simp: sget_def sset_def)
qed simp

section \<open>Properties\<close>

text \<open>The table of a new process, as \<open>create_process\<close> writes it, with the base of user space at 0x8000.\<close>

definition fresh_as :: AddressSpace where
  "fresh_as = \<lparr>segment_table = (0x8000 OR SEG_TYPE_FREE) # ceiling_entry # replicate 30 0, segment_cnt = 1\<rparr>"

lemma fresh_as_wf: "seg_wf fresh_as" "entries fresh_as = [0x8000, ceiling_entry]"
  by (simp_all add: seg_wf_def fresh_as_def NSEGMENT_def entries_def ceiling_entry_sel SEG_TYPE_FREE_def)
    (simp add: seg_addr_def SEG_ADDR_MASK_def VM_USER_CEILING_def)

text \<open>C11: The binary search \<open>segment_find\<close> is right.  On a table whose addresses increase up to the
  ceiling it ends, inside the table, and returns the index of the one segment that holds the
  address, or NULL if the address lies below the first segment or at or above the ceiling.\<close>

theorem segment_find_lookup:
  assumes "seg_wf as"
  shows "\<exists>r. segment_find as addr = Some r \<and>
    (case r of
       Some i \<Rightarrow> i < segment_cnt as \<and> seg_addr (segment_table as ! i) \<le> addr
         \<and> addr < seg_addr (segment_table as ! Suc i)
         \<and> (\<forall>j < segment_cnt as. seg_addr (segment_table as ! j) \<le> addr
              \<and> addr < seg_addr (segment_table as ! Suc j) \<longrightarrow> j = i)
         \<and> type_at (entries as) addr = Some (seg_type (segment_table as ! i))
     | None \<Rightarrow> addr < seg_addr (segment_table as ! 0) \<or> VM_USER_CEILING \<le> addr)"
proof -
  from segment_find_correct [OF assms, of addr] obtain r where r: "segment_find as addr = Some r"
    "case r of Some i \<Rightarrow> holds as addr i | None \<Rightarrow> \<forall>i. \<not> holds as addr i" by blast
  have none: "addr < seg_addr (segment_table as ! 0) \<or> VM_USER_CEILING \<le> addr"
    if "\<forall>i. \<not> holds as addr i"
  proof (rule ccontr)
    assume a: "\<not> ?thesis"
    have "i \<le> segment_cnt as \<Longrightarrow> seg_addr (segment_table as ! i) \<le> addr" for i
    proof (induction i)
      case 0
      then show ?case using a by (simp add: not_less)
    next
      case (Suc i)
      then show ?case using that by (auto simp: holds_def not_less)
    qed
    from this [of "segment_cnt as"] a assms show False
      by (auto simp: seg_wf_def ceiling_entry_sel)
  qed
  show ?thesis
  proof (cases r)
    case None
    then show ?thesis using r none by simp
  next
    case (Some i)
    then have h: "holds as addr i" using r(2) by simp
    then have "\<forall>j < segment_cnt as. seg_addr (segment_table as ! j) \<le> addr
        \<and> addr < seg_addr (segment_table as ! Suc j) \<longrightarrow> j = i"
      using holds_unique [OF assms _ h] unfolding holds_def by blast
    then show ?thesis
      using r(1) Some h type_at_inside [OF assms, of i addr] by (simp add: holds_def)
  qed
qed

theorem segment_find_lookup_witness:
  "\<exists>r. segment_find fresh_as 0x9000 = Some r \<and> (r = None \<longrightarrow> 0x9000 < (0x8000 :: u32) \<or> VM_USER_CEILING \<le> 0x9000)"
proof -
  have "seg_addr (segment_table fresh_as ! 0) = 0x8000"
    by (simp add: fresh_as_def seg_addr_def SEG_ADDR_MASK_def SEG_TYPE_FREE_def)
  with segment_find_lookup [OF fresh_as_wf(1), where addr = "0x9000"] show ?thesis by auto
qed

lemma segment_create_result:
  assumes "seg_wf as" "page_aligned addr" "page_aligned sz" "unat addr + unat sz + 0x800000 < 2 ^ 32"
  shows "\<exists>r as'. segment_create as addr sz type fixed = Some (r, as') \<and> seg_wf as' \<and>
    (case r of
       None \<Rightarrow> as' = as
     | Some a \<Rightarrow> page_aligned a \<and> (fixed \<longrightarrow> a = addr) \<and> unat a + unat sz < 2 ^ 32
         \<and> (\<forall>x. a \<le> x \<and> x < a + sz \<longrightarrow> type_at (entries as) x = Some SEG_TYPE_FREE)
         \<and> (\<forall>x. type_at (entries as') x =
              (if a \<le> x \<and> x < a + sz then Some (type AND SEG_TYPE_MASK) else type_at (entries as) x)))"
proof (cases "segment_cnt as \<ge> NSEGMENT - 3 \<or> sz = 0")
  case True
  then show ?thesis using assms(1) by (auto simp: segment_create_def)
next
  case False
  from segment_choose_fits [OF assms(1,2,4)] obtain r where r:
    "segment_choose as addr sz fixed = Some r"
    "case r of None \<Rightarrow> True | Some (t, a) \<Rightarrow> fits as sz t a \<and> (fixed \<longrightarrow> a = addr)" by blast
  show ?thesis
  proof (cases r)
    case None
    then show ?thesis using False r(1) assms(1) by (simp add: segment_create_def)
  next
    case (Some ta)
    obtain t a where ta: "r = Some (t, a)" using Some by (cases ta) simp
    then have f: "fits as sz t a" "fixed \<longrightarrow> a = addr" using r(2) by simp_all
    have c: "segment_cnt as + 3 < NSEGMENT" using False by (simp add: NSEGMENT_def)
    from segment_place_placed [OF assms(1) f(1) _ assms(3) c, of type] False obtain as' news where
      p: "segment_place as t a sz type = Some as'" "placed as t a sz type as' news" "length news \<le> 3"
      by blast
    have t: "t < segment_cnt as" "seg_addr (segment_table as ! t) \<le> a" "page_aligned a"
      "seg_type (segment_table as ! t) = SEG_TYPE_FREE"
      "unat a + unat sz \<le> unat (seg_addr (segment_table as ! Suc t))" using f(1) by (simp_all add: fits_def)
    then have nw: "unat a + unat sz < 2 ^ 32"
      using unsigned_less [of "seg_addr (segment_table as ! Suc t)", where 'a = nat] by simp
    then have b: "a + sz \<le> seg_addr (segment_table as ! Suc t)"
      using t(5) unat_add_nowrap [OF nw] by (simp add: word_le_nat_alt)
    note w = placed_wf [OF assms(1) t(1) p(2)]
    have old: "type_at (entries as) x = Some SEG_TYPE_FREE"
      if "seg_addr (segment_table as ! t) \<le> x" "x < seg_addr (segment_table as ! Suc t)" for x
      using type_at_inside [OF assms(1) t(1) that] t(4) by simp
    have "type_at (entries as') x =
        (if a \<le> x \<and> x < a + sz then Some (type AND SEG_TYPE_MASK) else type_at (entries as) x)" for x
      using w(2) p(3) c old [of x] t(2) b by auto
    moreover have "type_at (entries as) x = Some SEG_TYPE_FREE" if "a \<le> x" "x < a + sz" for x
      using old [of x] that t(2) b by auto
    ultimately show ?thesis
      using False r(1) ta p(1,3) w(1) c f(2) t(3) nw by (simp add: segment_create_def)
  qed
qed

text \<open>C12: \<open>segment_create\<close> reserves exactly the range it returns.  For page-aligned arguments
  that do not wrap around, it returns NULL and changes nothing, or it returns an address, the
  requested one if \<open>MAP_FIXED\<close> is given, such that the range was free before; afterwards the range
  has the new type, every other address has its old type, and the table is again in order.\<close>

theorem segment_create_correct:
  assumes "seg_wf as" "page_aligned addr" "page_aligned sz" "unat addr + unat sz + 0x800000 < 2 ^ 32"
  shows "\<exists>r as'. segment_create as addr sz type fixed = Some (r, as') \<and> seg_wf as' \<and>
    (case r of
       None \<Rightarrow> as' = as
     | Some a \<Rightarrow> page_aligned a \<and> (fixed \<longrightarrow> a = addr) \<and> unat a + unat sz < 2 ^ 32
         \<and> (\<forall>x. a \<le> x \<and> x < a + sz \<longrightarrow> type_at (entries as) x = Some SEG_TYPE_FREE)
         \<and> (\<forall>x. type_at (entries as') x =
              (if a \<le> x \<and> x < a + sz then Some (type AND SEG_TYPE_MASK) else type_at (entries as) x)))"
  using segment_create_result [OF assms] .

theorem segment_create_correct_witness:
  "\<exists>r as'. segment_create fresh_as 0x800000 0x3000 SEG_TYPE_ALLOC True = Some (r, as') \<and> seg_wf as'
     \<and> (r = None \<or> r = Some 0x800000)"
proof -
  have "page_aligned 0x800000" "page_aligned 0x3000" "unat (0x800000 :: u32) + unat (0x3000 :: u32) + 0x800000 < 2 ^ 32"
    by (simp_all add: page_aligned_def)
  from segment_create_correct [OF fresh_as_wf(1) this, of SEG_TYPE_ALLOC True] obtain r as' where
    r: "segment_create fresh_as 0x800000 0x3000 SEG_TYPE_ALLOC True = Some (r, as')" "seg_wf as'"
      "\<forall>a. r = Some a \<longrightarrow> a = 0x800000" by (fastforce split: option.splits)
  then show ?thesis by (cases r) auto
qed


text \<open>A \<open>MAP_FIXED\<close> request whose end wraps around is accepted and leaves the table out of
  order: \<open>segment_create\<close> compares the wrapped end with the end of the free segment.\<close>

theorem segment_create_wraps:
  "case segment_create fresh_as 0x800000 0xfffff000 SEG_TYPE_ALLOC True of
     Some (Some a, as') \<Rightarrow> a = 0x800000 \<and> \<not> seg_wf as'
   | _ \<Rightarrow> False"
  by code_simp

text \<open>\<open>segment_coalesce\<close> takes the ceiling for a segment.  Where no two neighbours are free it
  should leave the table alone; it adds one entry, and on a full table it writes behind the array.\<close>

theorem segment_coalesce_grows:
  assumes "seg_wf as" "\<And>i. 0 < i \<Longrightarrow> i < segment_cnt as \<Longrightarrow>
      \<not> (seg_type (segment_table as ! (i - 1)) = SEG_TYPE_FREE \<and> seg_type (segment_table as ! i) = SEG_TYPE_FREE)"
  shows "segment_coalesce as =
    (if segment_cnt as + 1 < NSEGMENT
     then Some (as\<lparr>segment_table := (segment_table as)[segment_cnt as + 1 := ceiling_entry],
                  segment_cnt := segment_cnt as + 1\<rparr>)
     else None)"
proof -
  have l: "length (segment_table as) = NSEGMENT" "segment_cnt as < NSEGMENT"
    "segment_table as ! segment_cnt as = ceiling_entry" using assms(1) by (simp_all add: seg_wf_def)
  have "seg_type ceiling_entry \<noteq> SEG_TYPE_FREE"
    by (simp add: ceiling_entry_sel SEG_TYPE_CEILING_def SEG_TYPE_FREE_def)
  then have "coalesce_loop (segment_table as) 0 0 (segment_cnt as + 1)
      = Some (segment_table as, 0 + (segment_cnt as + 1))"
    using assms(2) l by (intro coalesce_loop_id) (auto simp: less_Suc_eq)
  then show ?thesis using l(1) by (simp add: segment_coalesce_def sset_def)
qed

theorem segment_coalesce_grows_witness:
  "\<exists>as'. segment_coalesce fresh_as = Some as' \<and> segment_cnt as' = 2"
proof -
  have "\<not> (seg_type (segment_table fresh_as ! (i - 1)) = SEG_TYPE_FREE
      \<and> seg_type (segment_table fresh_as ! i) = SEG_TYPE_FREE)" if "0 < i" "i < segment_cnt fresh_as" for i
    using that by (simp add: fresh_as_def)
  from segment_coalesce_grows [OF fresh_as_wf(1) this] show ?thesis
    by (simp add: fresh_as_def NSEGMENT_def)
qed

end
