(* ===== verification/Page_Frames.thy ===== *)
theory Page_Frames
  imports Kernel_Lists Segments "HOL-Library.Multiset"
begin

unbundle bit_operations_syntax

text \<open>
  Physical memory, \<^verbatim>\<open>kernel/vm/page.c\<close> and the set-up of the page frames in
  \<^verbatim>\<open>kernel/boards/raspberry_pi_4/init_vm.c\<close>.  A page frame is named by its index in
  \<^verbatim>\<open>pageframe_table\<close>.  The kernel sees a frame as a page of bytes, as a page table (256 entries and
  256 \<^verbatim>\<open>PmapVPTE\<close> flags), or, for a block of four frames named by the first, as a page directory;
  the memory has a component for each of these views, and clearing a frame clears it in all of
  them.  A frame is used in one of the views only, which \<open>Page_Maps\<close> keeps as an invariant.  The
  free lists are lists of frames; the lists of \<^verbatim>\<open>PmapVPTE\<close>s, which the code corrupts, keep
  the links of \<open>Kernel_Lists\<close>.  \<open>None\<close> is a panic or an access behind the frame table.
\<close>

section \<open>Memory\<close>

definition PAGE_SIZE :: u32 where
  "PAGE_SIZE = 4096"

definition PGF_INUSE :: u32 where
  "PGF_INUSE = 1"

record Pageframe =
  pf_size :: u32
  physical_addr :: u32
  reference_cnt :: int
  pf_flags :: u32

text \<open>A \<^verbatim>\<open>PmapVPTE\<close> is named by the frame of its page table and its index.\<close>

type_synonym vpte = "nat \<times> nat"

record vmem =
  pageframe_table :: "Pageframe list"
  free_4k_pf_list :: "nat list"
  free_16k_pf_list :: "nat list"
  free_64k_pf_list :: "nat list"
  page_bytes :: "nat \<Rightarrow> nat \<Rightarrow> u8"
  pt_words :: "nat \<Rightarrow> nat \<Rightarrow> u32"
  vpte_flags :: "nat \<Rightarrow> nat \<Rightarrow> u32"
  pd_words :: "nat \<Rightarrow> nat \<Rightarrow> u32"
  vpte_links :: "vpte links"
  vpte_list :: "nat \<Rightarrow> vpte header"
  root_pagedir :: "nat \<Rightarrow> u32"

definition ALIGN_DOWN :: "u32 \<Rightarrow> u32 \<Rightarrow> u32" where
  "ALIGN_DOWN val al = val - val mod al"

definition ALIGN_UP :: "u32 \<Rightarrow> u32 \<Rightarrow> u32" where
  "ALIGN_UP val al = ((val + al - 1) div al) * al"

definition pmap_va_to_pa :: "u32 \<Rightarrow> u32" where
  "pmap_va_to_pa vaddr = vaddr - 0x80000000"

definition pmap_pa_to_va :: "u32 \<Rightarrow> u32" where
  "pmap_pa_to_va paddr = paddr + 0x80000000"

definition pmap_pa_to_pf :: "u32 \<Rightarrow> nat" where
  "pmap_pa_to_pf pa = unat (pa div PAGE_SIZE)"

definition pmap_va_to_pf :: "u32 \<Rightarrow> nat" where
  "pmap_va_to_pf va = unat (pmap_va_to_pa va div PAGE_SIZE)"

definition frame :: "vmem \<Rightarrow> nat \<Rightarrow> Pageframe option" where
  "frame s f = (if f < length (pageframe_table s) then Some (pageframe_table s ! f) else None)"

definition upd_frame :: "nat \<Rightarrow> (Pageframe \<Rightarrow> Pageframe) \<Rightarrow> vmem \<Rightarrow> vmem option" where
  "upd_frame f g s =
     (if f < length (pageframe_table s)
      then Some (s\<lparr>pageframe_table := (pageframe_table s)[f := g (pageframe_table s ! f)]\<rparr>) else None)"

definition pmap_pf_to_pa :: "vmem \<Rightarrow> nat \<Rightarrow> u32 option" where
  "pmap_pf_to_pa s f = map_option physical_addr (frame s f)"

definition pmap_pf_to_va :: "vmem \<Rightarrow> nat \<Rightarrow> u32 option" where
  "pmap_pf_to_va s f = map_option (\<lambda>pf. pmap_pa_to_va (physical_addr pf)) (frame s f)"

definition pmap_pageframe_init :: "nat \<Rightarrow> vmem \<Rightarrow> vmem" where
  "pmap_pageframe_init f s =
     (let (h, l) = LIST_INIT (vpte_links s, vpte_list s f)
      in s\<lparr>vpte_links := h, vpte_list := (vpte_list s)(f := l)\<rparr>)"

text \<open>\<^verbatim>\<open>memset\<close> of whole frames to zero.\<close>

definition clear_on :: "nat \<Rightarrow> nat \<Rightarrow> (nat \<Rightarrow> nat \<Rightarrow> 'a :: zero) \<Rightarrow> nat \<Rightarrow> nat \<Rightarrow> 'a" where
  "clear_on f n m = (\<lambda>g. if f \<le> g \<and> g < f + n then (\<lambda>_. 0) else m g)"

definition clear_links :: "nat \<Rightarrow> nat \<Rightarrow> vpte links \<Rightarrow> vpte links" where
  "clear_links f n h = h\<lparr>lnext := (\<lambda>v. if f \<le> fst v \<and> fst v < f + n then None else lnext h v),
     lprev := (\<lambda>v. if f \<le> fst v \<and> fst v < f + n then None else lprev h v)\<rparr>"

definition clear_frames :: "nat \<Rightarrow> nat \<Rightarrow> vmem \<Rightarrow> vmem" where
  "clear_frames f n s = s\<lparr>page_bytes := clear_on f n (page_bytes s), pt_words := clear_on f n (pt_words s),
     vpte_flags := clear_on f n (vpte_flags s), pd_words := clear_on f n (pd_words s),
     vpte_links := clear_links f n (vpte_links s)\<rparr>"

section \<open>Allocation\<close>

definition rem_head_4k :: "vmem \<Rightarrow> nat option \<times> vmem" where
  "rem_head_4k s = (case free_4k_pf_list s of [] \<Rightarrow> (None, s) | f # fs \<Rightarrow> (Some f, s\<lparr>free_4k_pf_list := fs\<rparr>))"

definition rem_head_16k :: "vmem \<Rightarrow> nat option \<times> vmem" where
  "rem_head_16k s = (case free_16k_pf_list s of [] \<Rightarrow> (None, s) | f # fs \<Rightarrow> (Some f, s\<lparr>free_16k_pf_list := fs\<rparr>))"

definition rem_head_64k :: "vmem \<Rightarrow> nat option \<times> vmem" where
  "rem_head_64k s = (case free_64k_pf_list s of [] \<Rightarrow> (None, s) | f # fs \<Rightarrow> (Some f, s\<lparr>free_64k_pf_list := fs\<rparr>))"

definition alloc_head :: "u32 \<Rightarrow> vmem \<Rightarrow> nat option \<times> vmem" where
  "alloc_head sz s =
     (let (head, s) = (if sz = 4096 then rem_head_4k s
                       else if sz = 16384 then rem_head_16k s else (None, s))
      in if head = None \<or> sz = 65536 then rem_head_64k s else (head, s))"

fun split_16k :: "nat \<Rightarrow> nat \<Rightarrow> vmem \<Rightarrow> vmem option" where
  "split_16k h 0 s = Some s"
| "split_16k h (Suc t) s = do {
     s \<leftarrow> upd_frame (h + Suc t * 4) (\<lambda>pf. pf\<lparr>pf_size := 16384, pf_flags := 0\<rparr>) s;
     split_16k h t (s\<lparr>free_16k_pf_list := (h + Suc t * 4) # free_16k_pf_list s\<rparr>) }"

fun split_4k :: "nat \<Rightarrow> nat \<Rightarrow> vmem \<Rightarrow> vmem option" where
  "split_4k h 0 s = Some s"
| "split_4k h (Suc t) s = do {
     s \<leftarrow> upd_frame (h + Suc t) (\<lambda>pf. pf\<lparr>pf_size := 4096, pf_flags := 0\<rparr>) s;
     split_4k h t (s\<lparr>free_4k_pf_list := (h + Suc t) # free_4k_pf_list s\<rparr>) }"

definition alloc_pageframe :: "u32 \<Rightarrow> vmem \<Rightarrow> (nat option \<times> vmem) option" where
  "alloc_pageframe sz s =
     (case alloc_head sz s of
        (None, s) \<Rightarrow> Some (None, s)
      | (Some h, s) \<Rightarrow> do {
          pf \<leftarrow> frame s h;
          s \<leftarrow> (if pf_size pf = 65536 \<and> sz = 16384 then do {
                  s \<leftarrow> split_16k h 3 s;
                  upd_frame h (\<lambda>pf. pf\<lparr>pf_size := 16384, pf_flags := 0\<rparr>) s }
                else if pf_size pf = 65536 \<and> sz = 4096 then do {
                  s \<leftarrow> split_4k h 15 s;
                  upd_frame h (\<lambda>pf. pf\<lparr>pf_size := 4096, pf_flags := 0\<rparr>) s }
                else Some s);
          s \<leftarrow> upd_frame h (\<lambda>pf. pf\<lparr>pf_flags := PGF_INUSE, reference_cnt := 0\<rparr>) s;
          let s = pmap_pageframe_init h s;
          Some (Some h, clear_frames (pmap_pa_to_pf (physical_addr pf)) (unat (sz div PAGE_SIZE)) s)
        })"

text \<open>
  \<open>free_pageframe\<close> and \<open>coalesce_slab\<close> return before their first effect (\<^verbatim>\<open>#if 1 return;\<close>), so
  memory is never given back.
\<close>

definition free_pageframe :: "nat \<Rightarrow> vmem \<Rightarrow> vmem" where
  "free_pageframe f s = s"

definition coalesce_slab :: "nat \<Rightarrow> vmem \<Rightarrow> vmem" where
  "coalesce_slab f s = s"

definition dup_pageframe :: "nat \<Rightarrow> vmem \<Rightarrow> vmem option" where
  "dup_pageframe f s = upd_frame f (\<lambda>pf. pf\<lparr>reference_cnt := reference_cnt pf + 1\<rparr>) s"

definition kmalloc_page :: "vmem \<Rightarrow> (u32 option \<times> vmem) option" where
  "kmalloc_page s = do {
     (pf, s) \<leftarrow> alloc_pageframe PAGE_SIZE s;
     case pf of
       None \<Rightarrow> Some (None, s)
     | Some f \<Rightarrow> do { va \<leftarrow> pmap_pf_to_va s f; Some (Some va, s) } }"

definition kfree_page :: "u32 \<Rightarrow> vmem \<Rightarrow> vmem" where
  "kfree_page vaddr s = free_pageframe (pmap_va_to_pf vaddr) s"

section \<open>Set-up\<close>

definition init_memory_map :: "vmem \<Rightarrow> vmem" where
  "init_memory_map s =
     fold pmap_pageframe_init [0..<length (pageframe_table s)]
       (s\<lparr>pageframe_table := map (\<lambda>t. \<lparr>pf_size = PAGE_SIZE, physical_addr = of_nat t * PAGE_SIZE,
          reference_cnt = 0, pf_flags = 0\<rparr>) [0..<length (pageframe_table s)]\<rparr>)"

fun flags_loop :: "nat list \<Rightarrow> u32 \<Rightarrow> vmem \<Rightarrow> vmem option" where
  "flags_loop [] flags s = Some s"
| "flags_loop (f # fs) flags s = do {
     s \<leftarrow> upd_frame f (\<lambda>pf. pf\<lparr>pf_flags := flags\<rparr>) s;
     flags_loop fs flags s }"

definition init_pageframe_flags :: "u32 \<Rightarrow> u32 \<Rightarrow> u32 \<Rightarrow> vmem \<Rightarrow> vmem option" where
  "init_pageframe_flags base ceiling flags s =
     flags_loop [pmap_pa_to_pf (ALIGN_DOWN base PAGE_SIZE)..<pmap_pa_to_pf (ALIGN_UP ceiling PAGE_SIZE)] flags s"

definition pf_free :: "vmem \<Rightarrow> nat \<Rightarrow> bool" where
  "pf_free s f \<longleftrightarrow> pf_flags (pageframe_table s ! f) = 0"

text \<open>One 64k slab; \<open>f\<close> is its first frame.\<close>

definition coalesce_step :: "nat \<Rightarrow> vmem \<Rightarrow> vmem" where
  "coalesce_step f s =
     (if length (filter (pf_free s) [f..<f + 16]) * 4096 = 0x10000
      then s\<lparr>pageframe_table := (pageframe_table s)[f := (pageframe_table s ! f)\<lparr>pf_size := 0x10000\<rparr>],
             free_64k_pf_list := free_64k_pf_list s @ [f]\<rparr>
      else fold (\<lambda>g s. if pf_free s g
                       then s\<lparr>pageframe_table := (pageframe_table s)[g := (pageframe_table s ! g)\<lparr>pf_size := PAGE_SIZE\<rparr>],
                              free_4k_pf_list := free_4k_pf_list s @ [g]\<rparr>
                       else s) [f..<f + 16] s)"

text \<open>
  The loop over the slabs.  Where the table is shorter than the memory it is read behind its end;
  from 0xFFFF0000 bytes of memory on, the test \<^verbatim>\<open>pa + 0x10000 <= mem_size\<close> wraps and the loop does
  not end.
\<close>

definition coalesce_free_pageframes :: "u32 \<Rightarrow> vmem \<Rightarrow> vmem option" where
  "coalesce_free_pageframes mem_size s =
     (if 0xFFFF0000 \<le> mem_size \<or> length (pageframe_table s) < unat mem_size div 65536 * 16 then None
      else Some (fold coalesce_step (map (\<lambda>k. k * 16) [0..<unat mem_size div 65536])
                   (s\<lparr>free_4k_pf_list := [], free_16k_pf_list := [], free_64k_pf_list := []\<rparr>)))"

text \<open>What the boot loader and the linker say about the memory, and \<open>init_vm\<close>.\<close>

definition BOOT_BASE_ADDR :: u32 where
  "BOOT_BASE_ADDR = 0x1000"

definition BOOT_CEILING_ADDR :: u32 where
  "BOOT_CEILING_ADDR = 0x10000"

definition PGF_KERNEL :: u32 where
  "PGF_KERNEL = 8"

definition VirtToPhys :: "u32 \<Rightarrow> u32" where
  "VirtToPhys va = va AND 0x7FFFFFFF"

record BootInfo =
  pagetable_base :: u32
  pagetable_ceiling :: u32
  videocore_base :: u32
  videocore_ceiling :: u32
  ifs_exe_base :: u32
  ifs_image :: u32
  bi_mem_size :: u32
  stext :: u32
  ebss :: u32
  heap_base :: u32
  heap_current :: u32

definition init_vm :: "BootInfo \<Rightarrow> vmem \<Rightarrow> vmem option" where
  "init_vm b s = do {
     let s = init_memory_map s;
     s \<leftarrow> init_pageframe_flags 0 BOOT_BASE_ADDR (PGF_KERNEL OR PGF_INUSE) s;
     s \<leftarrow> init_pageframe_flags BOOT_BASE_ADDR BOOT_CEILING_ADDR (PGF_KERNEL OR PGF_INUSE) s;
     s \<leftarrow> init_pageframe_flags (videocore_base b) (videocore_ceiling b) PGF_INUSE s;
     s \<leftarrow> init_pageframe_flags (VirtToPhys (stext b)) (VirtToPhys (ebss b)) (PGF_KERNEL OR PGF_INUSE) s;
     s \<leftarrow> init_pageframe_flags (VirtToPhys (pagetable_base b)) (VirtToPhys (pagetable_ceiling b)) (PGF_KERNEL OR PGF_INUSE) s;
     s \<leftarrow> init_pageframe_flags (VirtToPhys (heap_base b)) (VirtToPhys (heap_current b)) (PGF_KERNEL OR PGF_INUSE) s;
     s \<leftarrow> init_pageframe_flags (VirtToPhys (heap_current b)) (ifs_exe_base b) 0 s;
     s \<leftarrow> init_pageframe_flags (ifs_image b) (bi_mem_size b) PGF_INUSE s;
     if list_all (\<lambda>f. f < length (pageframe_table s) \<and> reference_cnt (pageframe_table s ! f) \<le> 1)
          [0..<(unat (bi_mem_size b) + 4095) div 4096]
     then coalesce_free_pageframes (bi_mem_size b) s
     else None }"

section \<open>The free memory\<close>

text \<open>The blocks on the free lists, and the frames in them.\<close>

definition free_blocks :: "vmem \<Rightarrow> (nat \<times> nat) list" where
  "free_blocks s = map (\<lambda>f. (f, 1)) (free_4k_pf_list s) @ map (\<lambda>f. (f, 4)) (free_16k_pf_list s)
     @ map (\<lambda>f. (f, 16)) (free_64k_pf_list s)"

definition free_frames :: "vmem \<Rightarrow> nat list" where
  "free_frames s = concat (map (\<lambda>(f, n). [f..<f + n]) (free_blocks s))"

definition frames_wf :: "vmem \<Rightarrow> bool" where
  "frames_wf s \<longleftrightarrow> length (pageframe_table s) \<le> 2 ^ 20
     \<and> (\<forall>f < length (pageframe_table s). physical_addr (pageframe_table s ! f) = of_nat f * PAGE_SIZE)
     \<and> distinct (free_frames s) \<and> (\<forall>f \<in> set (free_frames s). f < length (pageframe_table s))
     \<and> (\<forall>f \<in> set (free_frames s). pf_flags (pageframe_table s ! f) = 0)
     \<and> (\<forall>f \<in> set (free_4k_pf_list s). pf_size (pageframe_table s ! f) = 4096)
     \<and> (\<forall>f \<in> set (free_16k_pf_list s). pf_size (pageframe_table s ! f) = 16384)
     \<and> (\<forall>f \<in> set (free_64k_pf_list s). pf_size (pageframe_table s ! f) = 65536)"

section \<open>Allocation is right\<close>

lemma unat_sizes [simp]:
  "unat ((4096 :: u32) div 4096) = 1" "unat ((16384 :: u32) div 4096) = 4" "unat ((65536 :: u32) div 4096) = 16"
  by simp_all

lemma pa_to_pf_of_nat: "f \<le> 2 ^ 20 \<Longrightarrow> f < 2 ^ 20 \<Longrightarrow> pmap_pa_to_pf (of_nat f * PAGE_SIZE) = f"
  by (simp add: pmap_pa_to_pf_def PAGE_SIZE_def unat_div unat_word_ariths unat_of_nat)

lemma split_4k_result:
  assumes "h + t < length (pageframe_table s)"
  shows "\<exists>tab. split_4k h t s = Some (s\<lparr>pageframe_table := tab, free_4k_pf_list := [Suc h..<Suc (h + t)] @ free_4k_pf_list s\<rparr>)
    \<and> length tab = length (pageframe_table s)
    \<and> (\<forall>g. tab ! g = (if h < g \<and> g \<le> h + t then (pageframe_table s ! g)\<lparr>pf_size := 4096, pf_flags := 0\<rparr>
                      else pageframe_table s ! g))"
  using assms
proof (induction t arbitrary: s)
  case 0
  then show ?case by (intro exI [of _ "pageframe_table s"]) auto
next
  case (Suc t)
  let ?g = "\<lambda>pf. pf\<lparr>pf_size := 4096, pf_flags := 0\<rparr>"
  let ?s = "s\<lparr>pageframe_table := (pageframe_table s)[h + Suc t := ?g (pageframe_table s ! (h + Suc t))],
              free_4k_pf_list := (h + Suc t) # free_4k_pf_list s\<rparr>"
  have "h + t < length (pageframe_table ?s)" using Suc.prems by simp
  from Suc.IH [OF this] obtain tab where tab:
    "split_4k h t ?s = Some (?s\<lparr>pageframe_table := tab, free_4k_pf_list := [Suc h..<Suc (h + t)] @ free_4k_pf_list ?s\<rparr>)"
    "length tab = length (pageframe_table ?s)"
    "\<And>g. tab ! g = (if h < g \<and> g \<le> h + t then ?g (pageframe_table ?s ! g) else pageframe_table ?s ! g)"
    by blast
  show ?case
  proof (intro exI [of _ tab] conjI allI)
    show "split_4k h (Suc t) s = Some (s\<lparr>pageframe_table := tab, free_4k_pf_list := [Suc h..<Suc (h + Suc t)] @ free_4k_pf_list s\<rparr>)"
      using Suc.prems tab(1) by (simp add: upd_frame_def)
    show "length tab = length (pageframe_table s)" using tab(2) by simp
    show "tab ! g = (if h < g \<and> g \<le> h + Suc t then ?g (pageframe_table s ! g) else pageframe_table s ! g)" for g
      using Suc.prems tab(3) [of g] by (auto simp: nth_list_update)
  qed
qed

lemma split_16k_result:
  assumes "h + 12 < length (pageframe_table s)"
  shows "\<exists>tab. split_16k h 3 s = Some (s\<lparr>pageframe_table := tab,
      free_16k_pf_list := [h + 4, h + 8, h + 12] @ free_16k_pf_list s\<rparr>)
    \<and> length tab = length (pageframe_table s)
    \<and> (\<forall>g. tab ! g = (if g \<in> {h + 4, h + 8, h + 12} then (pageframe_table s ! g)\<lparr>pf_size := 16384, pf_flags := 0\<rparr>
                      else pageframe_table s ! g))"
  using assms by (auto simp: upd_frame_def numeral_3_eq_3 nth_list_update intro!: exI)

definition fresh_block :: "nat \<Rightarrow> nat \<Rightarrow> vmem \<Rightarrow> vmem \<Rightarrow> bool" where
  "fresh_block f n s s' \<longleftrightarrow> mset (free_frames s) = mset [f..<f + n] + mset (free_frames s') \<and> frames_wf s'
     \<and> length (pageframe_table s') = length (pageframe_table s)
     \<and> (\<forall>g. g \<notin> set (free_frames s) \<longrightarrow> pageframe_table s' ! g = pageframe_table s ! g)
     \<and> reference_cnt (pageframe_table s' ! f) = 0 \<and> pf_flags (pageframe_table s' ! f) = PGF_INUSE
     \<and> page_bytes s' = clear_on f n (page_bytes s) \<and> pt_words s' = clear_on f n (pt_words s)
     \<and> vpte_flags s' = clear_on f n (vpte_flags s) \<and> pd_words s' = clear_on f n (pd_words s)
     \<and> root_pagedir s' = root_pagedir s"

lemma free_frames_simps:
  "set (free_frames s) = set (free_4k_pf_list s) \<union> (\<Union>f \<in> set (free_16k_pf_list s). {f..<f + 4})
     \<union> (\<Union>f \<in> set (free_64k_pf_list s). {f..<f + 16})"
  by (auto simp: free_frames_def free_blocks_def)

lemma free_frames_upd [simp]:
  "free_frames (s\<lparr>pageframe_table := a\<rparr>) = free_frames s"
  "free_frames (s\<lparr>vpte_links := b\<rparr>) = free_frames s"
  "free_frames (s\<lparr>vpte_list := c\<rparr>) = free_frames s"
  "free_frames (clear_frames f n s) = free_frames s"
  "free_frames (pmap_pageframe_init f s) = free_frames s"
  by (simp_all add: free_frames_def free_blocks_def clear_frames_def pmap_pageframe_init_def LIST_INIT_def)

text \<open>What remains to be shown when the block has been taken off the lists: the new lists hold the
  other free frames, their frames are as before or have been cut to size, and the block is
  cleared.\<close>

lemma fresh_block_step:
  assumes wf: "frames_wf s" and f: "f < length (pageframe_table s)"
    and m: "mset (free_frames s) = mset [f..<f + n] + mset (free_frames t)"
    and n: "unat (sz div PAGE_SIZE) = n" "0 < n"
    and tab: "length (pageframe_table t) = length (pageframe_table s)"
      "\<And>g. g \<noteq> f \<Longrightarrow> pageframe_table t ! g = pageframe_table s ! g
         \<or> g \<in> set (free_frames s) \<and> (\<exists>x. pageframe_table t ! g = (pageframe_table s ! g)\<lparr>pf_size := x, pf_flags := 0\<rparr>)"
      "physical_addr (pageframe_table t ! f) = physical_addr (pageframe_table s ! f)"
    and sizes: "\<And>g. g \<in> set (free_4k_pf_list t) \<Longrightarrow> pf_size (pageframe_table t ! g) = 4096"
      "\<And>g. g \<in> set (free_16k_pf_list t) \<Longrightarrow> pf_size (pageframe_table t ! g) = 16384"
      "\<And>g. g \<in> set (free_64k_pf_list t) \<Longrightarrow> pf_size (pageframe_table t ! g) = 65536"
    and rest: "page_bytes t = page_bytes s" "pt_words t = pt_words s" "vpte_flags t = vpte_flags s"
      "pd_words t = pd_words s" "root_pagedir t = root_pagedir s"
  shows "\<exists>t'. upd_frame f (\<lambda>pf. pf\<lparr>pf_flags := PGF_INUSE, reference_cnt := 0\<rparr>) t = Some t'
    \<and> fresh_block f n s (clear_frames (pmap_pa_to_pf (physical_addr (pageframe_table s ! f)))
          (unat (sz div PAGE_SIZE)) (pmap_pageframe_init f t'))"
proof -
  let ?pf = "(pageframe_table t ! f)\<lparr>pf_flags := PGF_INUSE, reference_cnt := 0\<rparr>"
  let ?t = "t\<lparr>pageframe_table := (pageframe_table t)[f := ?pf]\<rparr>"
  let ?u = "clear_frames f n (pmap_pageframe_init f ?t)"
  have d: "distinct (free_frames s)" using wf by (simp add: frames_wf_def)
  have dt: "distinct (free_frames t)" and dj: "set (free_frames t) \<inter> {f..<f + n} = {}"
  proof -
    have "mset (free_frames s) = mset ([f..<f + n] @ free_frames t)" using m by simp
    from mset_eq_imp_distinct_iff [OF this] d have "distinct ([f..<f + n] @ free_frames t)" by simp
    then show "distinct (free_frames t)" "set (free_frames t) \<inter> {f..<f + n} = {}" by auto
  qed
  have sub: "set (free_frames s) = {f..<f + n} \<union> set (free_frames t)"
    using arg_cong [OF m, of set_mset] by simp
  have pf: "pmap_pa_to_pf (physical_addr (pageframe_table s ! f)) = f"
    using wf f by (auto simp: frames_wf_def intro!: pa_to_pf_of_nat)
  have nf: "f \<notin> set (free_frames t)" using dj n(2) by auto
  have phys: "physical_addr (pageframe_table t ! g) = physical_addr (pageframe_table s ! g)" for g
    using tab(2) [of g] tab(3) by (cases "g = f") auto
  have ff: "free_frames ?u = free_frames t" by simp
  have tu: "pageframe_table ?u = (pageframe_table t)[f := ?pf]"
    by (simp add: clear_frames_def pmap_pageframe_init_def LIST_INIT_def)
  have l: "free_4k_pf_list ?u = free_4k_pf_list t" "free_16k_pf_list ?u = free_16k_pf_list t"
    "free_64k_pf_list ?u = free_64k_pf_list t"
    by (simp_all add: clear_frames_def pmap_pageframe_init_def LIST_INIT_def)
  have nl: "f \<notin> set (free_4k_pf_list t)" "f \<notin> set (free_16k_pf_list t)" "f \<notin> set (free_64k_pf_list t)"
    using nf by (auto simp: free_frames_simps)
  have fl: "pf_flags (pageframe_table t ! g) = 0" if "g \<in> set (free_frames t)" for g
  proof -
    have "g \<noteq> f" "g \<in> set (free_frames s)" using that nf sub by auto
    then show ?thesis using tab(2) [of g] wf by (auto simp: frames_wf_def)
  qed
  have "frames_wf ?u"
    unfolding frames_wf_def ff tu l
  proof (intro conjI ballI allI impI)
    show "length ((pageframe_table t)[f := ?pf]) \<le> 2 ^ 20" using wf tab(1) by (simp add: frames_wf_def)
    show "physical_addr ((pageframe_table t)[f := ?pf] ! g) = of_nat g * PAGE_SIZE"
      if "g < length ((pageframe_table t)[f := ?pf])" for g
      using that wf phys [of g] tab(1) by (cases "g = f") (auto simp: frames_wf_def)
    show "distinct (free_frames t)" by (rule dt)
    show "g < length ((pageframe_table t)[f := ?pf])" if "g \<in> set (free_frames t)" for g
      using that sub wf tab(1) by (auto simp: frames_wf_def)
    show "pf_flags ((pageframe_table t)[f := ?pf] ! g) = 0" if "g \<in> set (free_frames t)" for g
      using that nf fl by (cases "g = f") auto
  qed (use nl sizes in \<open>metis nth_list_update_neq\<close>)+
  moreover have "\<forall>g. g \<notin> set (free_frames s) \<longrightarrow> pageframe_table ?u ! g = pageframe_table s ! g"
  proof (intro allI impI)
    fix g assume "g \<notin> set (free_frames s)"
    then show "pageframe_table ?u ! g = pageframe_table s ! g"
      using tab(2) [of g] sub n(2) unfolding tu by (cases "g = f") auto
  qed
  moreover have "pageframe_table ?u ! f = ?pf" "length (pageframe_table ?u) = length (pageframe_table s)"
    using f tab(1) unfolding tu by simp_all
  moreover have "page_bytes ?u = clear_on f n (page_bytes s)" "pt_words ?u = clear_on f n (pt_words s)"
    "vpte_flags ?u = clear_on f n (vpte_flags s)" "pd_words ?u = clear_on f n (pd_words s)"
    "root_pagedir ?u = root_pagedir s"
    using rest by (simp_all add: clear_frames_def pmap_pageframe_init_def LIST_INIT_def)
  ultimately have "fresh_block f n s ?u"
    unfolding fresh_block_def ff using m by simp
  then show ?thesis
    using f tab(1) n(1) pf by (simp add: upd_frame_def)
qed

lemma upt_4k_concat: "concat (map (\<lambda>f. [f]) xs) = xs"
  by (induction xs) auto

lemma free_frames_concat:
  "free_frames s = free_4k_pf_list s @ concat (map (\<lambda>f. [f..<f + 4]) (free_16k_pf_list s))
     @ concat (map (\<lambda>f. [f..<f + 16]) (free_64k_pf_list s))"
  by (simp add: free_frames_def free_blocks_def upt_4k_concat [symmetric] comp_def)

lemma upt_16: "[h..<h + 16] = [h..<h + 4] @ [h + 4..<h + 8] @ [h + 8..<h + 12] @ [h + 12..<h + 16]"
  using upt_add_eq_append [of h "h + 4" 12] upt_add_eq_append [of "h + 4" "h + 8" 8]
    upt_add_eq_append [of "h + 8" "h + 12" 4] by (simp add: add.assoc)

definition pf_lists_empty :: "u32 \<Rightarrow> vmem \<Rightarrow> bool" where
  "pf_lists_empty sz s \<longleftrightarrow> free_64k_pf_list s = [] \<and> (sz = 4096 \<longrightarrow> free_4k_pf_list s = [])
     \<and> (sz = 16384 \<longrightarrow> free_16k_pf_list s = [])"

lemma alloc_small:
  assumes wf: "frames_wf s" and l: "free_4k_pf_list s = h # fs"
  shows "\<exists>s'. alloc_pageframe 4096 s = Some (Some h, s') \<and> fresh_block h 1 s s'"
proof -
  let ?t = "s\<lparr>free_4k_pf_list := fs\<rparr>"
  have h: "h < length (pageframe_table s)" "pf_size (pageframe_table s ! h) = 4096" "pf_flags (pageframe_table s ! h) = 0"
    using wf l by (auto simp: frames_wf_def free_frames_concat)
  have "\<exists>t'. upd_frame h (\<lambda>pf. pf\<lparr>pf_flags := PGF_INUSE, reference_cnt := 0\<rparr>) ?t = Some t'
    \<and> fresh_block h 1 s (clear_frames (pmap_pa_to_pf (physical_addr (pageframe_table s ! h)))
          (unat (4096 div PAGE_SIZE)) (pmap_pageframe_init h t'))"
    using wf l by (intro fresh_block_step) (auto simp: h PAGE_SIZE_def free_frames_concat frames_wf_def)
  then show ?thesis
    using h l by (auto simp: alloc_pageframe_def alloc_head_def rem_head_4k_def frame_def)
qed

lemma alloc_medium:
  assumes wf: "frames_wf s" and l: "free_16k_pf_list s = h # fs"
  shows "\<exists>s'. alloc_pageframe 16384 s = Some (Some h, s') \<and> fresh_block h 4 s s'"
proof -
  let ?t = "s\<lparr>free_16k_pf_list := fs\<rparr>"
  have h: "h < length (pageframe_table s)" "pf_size (pageframe_table s ! h) = 16384" "pf_flags (pageframe_table s ! h) = 0"
    using wf l by (auto simp: frames_wf_def free_frames_concat)
  have "\<exists>t'. upd_frame h (\<lambda>pf. pf\<lparr>pf_flags := PGF_INUSE, reference_cnt := 0\<rparr>) ?t = Some t'
    \<and> fresh_block h 4 s (clear_frames (pmap_pa_to_pf (physical_addr (pageframe_table s ! h)))
          (unat (16384 div PAGE_SIZE)) (pmap_pageframe_init h t'))"
    using wf l by (intro fresh_block_step) (auto simp: h PAGE_SIZE_def free_frames_concat frames_wf_def)
  then show ?thesis
    using h l by (auto simp: alloc_pageframe_def alloc_head_def rem_head_16k_def frame_def)
qed

lemma alloc_large:
  assumes wf: "frames_wf s" and l: "free_64k_pf_list s = h # fs"
  shows "\<exists>s'. alloc_pageframe 65536 s = Some (Some h, s') \<and> fresh_block h 16 s s'"
proof -
  let ?t = "s\<lparr>free_64k_pf_list := fs\<rparr>"
  have h: "h < length (pageframe_table s)" "pf_size (pageframe_table s ! h) = 65536" "pf_flags (pageframe_table s ! h) = 0"
    using wf l by (auto simp: frames_wf_def free_frames_concat)
  have "\<exists>t'. upd_frame h (\<lambda>pf. pf\<lparr>pf_flags := PGF_INUSE, reference_cnt := 0\<rparr>) ?t = Some t'
    \<and> fresh_block h 16 s (clear_frames (pmap_pa_to_pf (physical_addr (pageframe_table s ! h)))
          (unat (65536 div PAGE_SIZE)) (pmap_pageframe_init h t'))"
    using wf l by (intro fresh_block_step) (auto simp: h PAGE_SIZE_def free_frames_concat frames_wf_def)
  then show ?thesis
    using h l by (auto simp: alloc_pageframe_def alloc_head_def rem_head_64k_def frame_def)
qed

lemma large_block:
  assumes "frames_wf s" "free_64k_pf_list s = h # fs"
  shows "h + 15 < length (pageframe_table s)" "pf_size (pageframe_table s ! h) = 65536"
    "pf_flags (pageframe_table s ! h) = 0" "h \<notin> set fs"
    "\<forall>g \<in> set (free_4k_pf_list s). \<not> (h \<le> g \<and> g < h + 16)"
    "\<forall>g \<in> set (free_16k_pf_list s). \<not> (h \<le> g \<and> g < h + 16)" "\<forall>g \<in> set fs. \<not> (h \<le> g \<and> g < h + 16)"
proof -
  have "h + 15 \<in> set (free_frames s)" "h \<in> set (free_frames s)" using assms by (auto simp: free_frames_concat)
  then show "h + 15 < length (pageframe_table s)" "pf_flags (pageframe_table s ! h) = 0"
    using assms(1) by (auto simp: frames_wf_def)
  show "pf_size (pageframe_table s ! h) = 65536" using assms by (simp add: frames_wf_def)
  have d: "distinct (free_4k_pf_list s @ concat (map (\<lambda>f. [f..<f + 4]) (free_16k_pf_list s))
      @ [h..<h + 16] @ concat (map (\<lambda>f. [f..<f + 16]) fs))"
    using assms by (simp add: frames_wf_def free_frames_concat)
  then show "\<forall>g \<in> set (free_4k_pf_list s). \<not> (h \<le> g \<and> g < h + 16)" by auto
  have e: "g \<in> set (concat (map (\<lambda>f. [f..<f + n]) xs))" if "g \<in> set xs" "0 < n" for g n :: nat and xs
    using that by auto
  from d have "set (concat (map (\<lambda>f. [f..<f + 4]) (free_16k_pf_list s))) \<inter> set [h..<h + 16] = {}"
    "set (concat (map (\<lambda>f. [f..<f + 16]) fs)) \<inter> set [h..<h + 16] = {}"
    by (simp_all only: distinct_append set_append) blast+
  then show "\<forall>g \<in> set (free_16k_pf_list s). \<not> (h \<le> g \<and> g < h + 16)"
    and *: "\<forall>g \<in> set fs. \<not> (h \<le> g \<and> g < h + 16)"
    using e [of _ _ 4] e [of _ _ 16] by (fastforce simp del: set_concat set_map)+
  then show "h \<notin> set fs" by auto
qed

lemma alloc_small_split:
  assumes wf: "frames_wf s" and l: "free_4k_pf_list s = []" "free_64k_pf_list s = h # fs"
  shows "\<exists>s'. alloc_pageframe 4096 s = Some (Some h, s') \<and> fresh_block h 1 s s'"
proof -
  note L = large_block [OF wf l(2)]
  let ?s = "s\<lparr>free_64k_pf_list := fs\<rparr>"
  obtain tab where t: "split_4k h 15 ?s = Some (?s\<lparr>pageframe_table := tab, free_4k_pf_list := [Suc h..<Suc (h + 15)] @ free_4k_pf_list ?s\<rparr>)"
    "length tab = length (pageframe_table s)"
    "\<And>g. tab ! g = (if h < g \<and> g \<le> h + 15 then (pageframe_table s ! g)\<lparr>pf_size := 4096, pf_flags := 0\<rparr>
                      else pageframe_table s ! g)"
    using split_4k_result [of h 15 ?s] L(1) by auto
  let ?tab = "tab[h := (tab ! h)\<lparr>pf_size := 4096, pf_flags := 0\<rparr>]"
  let ?t = "?s\<lparr>pageframe_table := ?tab, free_4k_pf_list := [Suc h..<Suc (h + 15)]\<rparr>"
  have m: "mset (free_frames s) = mset [h..<h + 1] + mset (free_frames ?t)"
    using l upt_conv_Cons [of h "h + 16"] by (simp add: free_frames_concat add.commute del: mset_upt)
  have tab: "?tab ! g = (if h \<le> g \<and> g \<le> h + 15 then (pageframe_table s ! g)\<lparr>pf_size := 4096, pf_flags := 0\<rparr>
                      else pageframe_table s ! g)" for g
    using t(2,3) L(1) by (auto simp: nth_list_update)
  have fr: "g \<in> set (free_frames s)" if "h \<le> g" "g \<le> h + 15" for g
    using that l by (auto simp: free_frames_concat)
  have "\<exists>t'. upd_frame h (\<lambda>pf. pf\<lparr>pf_flags := PGF_INUSE, reference_cnt := 0\<rparr>) ?t = Some t'
    \<and> fresh_block h 1 s (clear_frames (pmap_pa_to_pf (physical_addr (pageframe_table s ! h)))
          (unat (4096 div PAGE_SIZE)) (pmap_pageframe_init h t'))"
  proof (rule fresh_block_step [OF wf _ m])
    show "pageframe_table ?t ! g = pageframe_table s ! g
         \<or> g \<in> set (free_frames s) \<and> (\<exists>x. pageframe_table ?t ! g = (pageframe_table s ! g)\<lparr>pf_size := x, pf_flags := 0\<rparr>)" for g
      using tab [of g] fr [of g] by auto
    show "pf_size (pageframe_table ?t ! g) = 16384" if "g \<in> set (free_16k_pf_list ?t)" for g
      using that L(6) wf tab [of g] by (auto simp: frames_wf_def)
    show "pf_size (pageframe_table ?t ! g) = 65536" if "g \<in> set (free_64k_pf_list ?t)" for g
      using that L(7) wf l(2) tab [of g] by (auto simp: frames_wf_def)
  qed (use L(1) t(2) tab in \<open>auto simp: PAGE_SIZE_def\<close>)
  then show ?thesis
    using L(1,2,3) l t(1,2) by (auto simp: alloc_pageframe_def alloc_head_def rem_head_4k_def rem_head_64k_def frame_def upd_frame_def)
qed

lemma alloc_medium_split:
  assumes wf: "frames_wf s" and l: "free_16k_pf_list s = []" "free_64k_pf_list s = h # fs"
  shows "\<exists>s'. alloc_pageframe 16384 s = Some (Some h, s') \<and> fresh_block h 4 s s'"
proof -
  note L = large_block [OF wf l(2)]
  let ?s = "s\<lparr>free_64k_pf_list := fs\<rparr>"
  obtain tab where t: "split_16k h 3 ?s = Some (?s\<lparr>pageframe_table := tab, free_16k_pf_list := [h + 4, h + 8, h + 12] @ free_16k_pf_list ?s\<rparr>)"
    "length tab = length (pageframe_table s)"
    "\<And>g. tab ! g = (if g \<in> {h + 4, h + 8, h + 12} then (pageframe_table s ! g)\<lparr>pf_size := 16384, pf_flags := 0\<rparr>
                      else pageframe_table s ! g)"
    using split_16k_result [of h ?s] L(1) by auto
  let ?tab = "tab[h := (tab ! h)\<lparr>pf_size := 16384, pf_flags := 0\<rparr>]"
  let ?t = "?s\<lparr>pageframe_table := ?tab, free_16k_pf_list := [h + 4, h + 8, h + 12]\<rparr>"
  have m: "mset (free_frames s) = mset [h..<h + 4] + mset (free_frames ?t)"
    using l by (simp add: free_frames_concat upt_16 del: upt_Suc mset_upt) (simp add: ac_simps del: mset_upt)
  have tab: "?tab ! g = (if g \<in> {h, h + 4, h + 8, h + 12} then (pageframe_table s ! g)\<lparr>pf_size := 16384, pf_flags := 0\<rparr>
                      else pageframe_table s ! g)" for g
    using t(2,3) L(1) by (auto simp: nth_list_update)
  have fr: "g \<in> set (free_frames s)" if "g \<in> {h, h + 4, h + 8, h + 12}" for g
    using that l by (auto simp: free_frames_concat)
  have "\<exists>t'. upd_frame h (\<lambda>pf. pf\<lparr>pf_flags := PGF_INUSE, reference_cnt := 0\<rparr>) ?t = Some t'
    \<and> fresh_block h 4 s (clear_frames (pmap_pa_to_pf (physical_addr (pageframe_table s ! h)))
          (unat (16384 div PAGE_SIZE)) (pmap_pageframe_init h t'))"
  proof (rule fresh_block_step [OF wf _ m])
    show "pageframe_table ?t ! g = pageframe_table s ! g
         \<or> g \<in> set (free_frames s) \<and> (\<exists>x. pageframe_table ?t ! g = (pageframe_table s ! g)\<lparr>pf_size := x, pf_flags := 0\<rparr>)" for g
      using tab [of g] fr [of g] by auto
    show "pf_size (pageframe_table ?t ! g) = 4096" if "g \<in> set (free_4k_pf_list ?t)" for g
      using that L(5) wf tab [of g] by (auto simp: frames_wf_def)
    show "pf_size (pageframe_table ?t ! g) = 65536" if "g \<in> set (free_64k_pf_list ?t)" for g
      using that L(7) wf l(2) tab [of g] by (auto simp: frames_wf_def)
  qed (use L(1) t(2) tab in \<open>auto simp: PAGE_SIZE_def\<close>)
  then show ?thesis
    using L(1,2,3) l t(1,2) by (auto simp: alloc_pageframe_def alloc_head_def rem_head_16k_def rem_head_64k_def frame_def upd_frame_def)
qed

lemma alloc_none:
  assumes "pf_lists_empty sz s" "sz \<in> {4096, 16384, 65536}"
  shows "alloc_pageframe sz s = Some (None, s)"
  using assms by (auto simp: alloc_pageframe_def alloc_head_def rem_head_4k_def rem_head_16k_def rem_head_64k_def pf_lists_empty_def)

lemma alloc_cases:
  assumes wf: "frames_wf s" and sz: "sz \<in> {4096, 16384, 65536}"
  shows "alloc_pageframe sz s = Some (None, s) \<and> pf_lists_empty sz s
    \<or> (\<exists>f s'. alloc_pageframe sz s = Some (Some f, s') \<and> fresh_block f (unat (sz div PAGE_SIZE)) s s')"
proof (cases "pf_lists_empty sz s")
  case True
  then show ?thesis using alloc_none sz by blast
next
  case False
  consider (a) h fs where "sz = 4096" "free_4k_pf_list s = h # fs"
    | (b) h fs where "sz = 4096" "free_4k_pf_list s = []" "free_64k_pf_list s = h # fs"
    | (c) h fs where "sz = 16384" "free_16k_pf_list s = h # fs"
    | (d) h fs where "sz = 16384" "free_16k_pf_list s = []" "free_64k_pf_list s = h # fs"
    | (e) h fs where "sz = 65536" "free_64k_pf_list s = h # fs"
    using False sz
    by (cases "free_4k_pf_list s"; cases "free_16k_pf_list s"; cases "free_64k_pf_list s") (auto simp: pf_lists_empty_def)
  then show ?thesis
  proof cases
    case a then show ?thesis using alloc_small [OF wf] by (auto simp: PAGE_SIZE_def)
  next
    case b then show ?thesis using alloc_small_split [OF wf] by (auto simp: PAGE_SIZE_def)
  next
    case c then show ?thesis using alloc_medium [OF wf] by (auto simp: PAGE_SIZE_def)
  next
    case d then show ?thesis using alloc_medium_split [OF wf] by (auto simp: PAGE_SIZE_def)
  next
    case e then show ?thesis using alloc_large [OF wf] by (auto simp: PAGE_SIZE_def)
  qed
qed

section \<open>The set-up of the free lists\<close>

text \<open>A step of the set-up changes the sizes of free frames of its slab only, and adds the slab's
  free frames to the lists.\<close>

definition same_but_sizes :: "nat set \<Rightarrow> vmem \<Rightarrow> vmem \<Rightarrow> bool" where
  "same_but_sizes F s t \<longleftrightarrow> length (pageframe_table t) = length (pageframe_table s)
     \<and> (\<forall>g. pf_flags (pageframe_table t ! g) = pf_flags (pageframe_table s ! g)
          \<and> physical_addr (pageframe_table t ! g) = physical_addr (pageframe_table s ! g)
          \<and> (g \<notin> F \<longrightarrow> pageframe_table t ! g = pageframe_table s ! g))"

abbreviation slab_4k_step :: "nat \<Rightarrow> vmem \<Rightarrow> vmem" where
  "slab_4k_step g s \<equiv> (if pf_free s g
     then s\<lparr>pageframe_table := (pageframe_table s)[g := (pageframe_table s ! g)\<lparr>pf_size := PAGE_SIZE\<rparr>],
            free_4k_pf_list := free_4k_pf_list s @ [g]\<rparr> else s)"

lemma slab_4k_fold:
  assumes "\<forall>g \<in> set gs. g < length (pageframe_table s)" "distinct gs"
  shows "\<exists>tab. fold slab_4k_step gs s = s\<lparr>pageframe_table := tab, free_4k_pf_list := free_4k_pf_list s @ filter (pf_free s) gs\<rparr>
    \<and> same_but_sizes (set gs) s (s\<lparr>pageframe_table := tab\<rparr>)
    \<and> (\<forall>g \<in> set gs. pf_free s g \<longrightarrow> pf_size (tab ! g) = PAGE_SIZE)"
  using assms
proof (induction gs arbitrary: s)
  case Nil
  then show ?case by (intro exI [of _ "pageframe_table s"]) (auto simp: same_but_sizes_def)
next
  case (Cons g gs)
  let ?s = "slab_4k_step g s"
  have same: "same_but_sizes {g} s ?s" using Cons.prems by (auto simp: same_but_sizes_def nth_list_update)
  then have free: "pf_free ?s = pf_free s" by (auto simp: pf_free_def same_but_sizes_def fun_eq_iff)
  have "\<forall>g \<in> set gs. g < length (pageframe_table ?s)" using Cons.prems same by (auto simp: same_but_sizes_def)
  from Cons.IH [OF this] Cons.prems(2) obtain tab where tab:
    "fold slab_4k_step gs ?s = ?s\<lparr>pageframe_table := tab, free_4k_pf_list := free_4k_pf_list ?s @ filter (pf_free s) gs\<rparr>"
    "same_but_sizes (set gs) ?s (?s\<lparr>pageframe_table := tab\<rparr>)"
    "\<forall>g \<in> set gs. pf_free s g \<longrightarrow> pf_size (tab ! g) = PAGE_SIZE"
    unfolding free by auto
  have "tab ! g = pageframe_table ?s ! g" using tab(2) Cons.prems(2) by (auto simp: same_but_sizes_def)
  then have "pf_free s g \<Longrightarrow> pf_size (tab ! g) = PAGE_SIZE" using Cons.prems(1) by simp
  with tab same show ?case by (intro exI [of _ tab]) (auto simp: same_but_sizes_def)
qed

definition coalesced :: "nat \<Rightarrow> vmem \<Rightarrow> vmem \<Rightarrow> bool" where
  "coalesced n s t \<longleftrightarrow> same_but_sizes {..<n} s t \<and> free_16k_pf_list t = []
     \<and> mset (free_frames t) = mset (filter (pf_free s) [0..<n])
     \<and> (\<forall>f \<in> set (free_4k_pf_list t). pf_size (pageframe_table t ! f) = 4096)
     \<and> (\<forall>f \<in> set (free_64k_pf_list t). pf_size (pageframe_table t ! f) = 65536)"

lemma filter_all_length: "length (filter P xs) = length xs \<Longrightarrow> filter P xs = xs"
  by (metis filter_id_conv length_filter_conv_card length_filter_less less_irrefl)

lemma coalesce_step_coalesced:
  assumes c: "coalesced n s t" and n: "n + 16 \<le> length (pageframe_table s)"
  shows "coalesced (n + 16) s (coalesce_step n t)"
proof -
  have same: "same_but_sizes {..<n} s t" using c by (simp add: coalesced_def)
  then have free: "pf_free t = pf_free s" by (auto simp: pf_free_def same_but_sizes_def fun_eq_iff)
  have len: "length (pageframe_table t) = length (pageframe_table s)" using same by (simp add: same_but_sizes_def)
  have sub: "set (free_frames t) \<subseteq> {..<n}"
    using c arg_cong [of _ _ set_mset] by (fastforce simp: coalesced_def dest: arg_cong [of _ _ set_mset])
  then have in4: "f < n" if "f \<in> set (free_4k_pf_list t)" for f using that by (auto simp: free_frames_concat)
  have in64: "f < n" if "f \<in> set (free_64k_pf_list t)" for f
  proof -
    have "f \<in> set (free_frames t)" using that by (auto simp: free_frames_concat)
    then show ?thesis using sub by auto
  qed
  have upt: "[0..<n + 16] = [0..<n] @ [n..<n + 16]" using upt_add_eq_append [of 0 n 16] by simp
  show ?thesis
  proof (cases "length (filter (pf_free s) [n..<n + 16]) = 16")
    case True
    then have "filter (pf_free s) [n..<n + 16] = [n..<n + 16]" by (intro filter_all_length) simp
    moreover have "coalesce_step n t = t\<lparr>pageframe_table := (pageframe_table t)[n := (pageframe_table t ! n)\<lparr>pf_size := 0x10000\<rparr>],
             free_64k_pf_list := free_64k_pf_list t @ [n]\<rparr>"
      using True by (simp add: coalesce_step_def free)
    ultimately show ?thesis
      using c n len in4 in64 same
      by (auto simp: coalesced_def upt free_frames_concat same_but_sizes_def nth_list_update ac_simps simp del: upt_Suc mset_upt)
  next
    case False
    obtain tab where tab: "fold slab_4k_step [n..<n + 16] t = t\<lparr>pageframe_table := tab,
        free_4k_pf_list := free_4k_pf_list t @ filter (pf_free s) [n..<n + 16]\<rparr>"
      "same_but_sizes {n..<n + 16} t (t\<lparr>pageframe_table := tab\<rparr>)"
      "\<forall>g \<in> {n..<n + 16}. pf_free s g \<longrightarrow> pf_size (tab ! g) = PAGE_SIZE"
      using slab_4k_fold [of "[n..<n + 16]" t] n len free by auto
    have "coalesce_step n t = t\<lparr>pageframe_table := tab, free_4k_pf_list := free_4k_pf_list t @ filter (pf_free s) [n..<n + 16]\<rparr>"
      using False tab(1) by (simp add: coalesce_step_def free)
    moreover have "tab ! f = pageframe_table t ! f" if "f < n" for f
      using tab(2) that by (auto simp: same_but_sizes_def)
    moreover have "same_but_sizes {..<n + 16} s (t\<lparr>pageframe_table := tab\<rparr>)"
      using same tab(2) by (auto simp: same_but_sizes_def)
    ultimately show ?thesis
      using c in4 in64 tab(3)
      by (auto simp: coalesced_def upt free_frames_concat PAGE_SIZE_def same_but_sizes_def ac_simps simp del: upt_Suc)
  qed
qed

lemma coalesce_fold:
  assumes "16 * m \<le> length (pageframe_table s)" "free_4k_pf_list s = []" "free_16k_pf_list s = []" "free_64k_pf_list s = []"
  shows "coalesced (16 * m) s (fold coalesce_step (map (\<lambda>k. k * 16) [0..<m]) s)"
  using assms(1)
proof (induction m)
  case 0
  then show ?case using assms by (simp add: coalesced_def same_but_sizes_def free_frames_concat)
next
  case (Suc m)
  then show ?case using coalesce_step_coalesced [of "16 * m" s] by (simp add: mult.commute add.commute)
qed

lemma coalesce_free_memory:
  assumes "length (pageframe_table s) \<le> 2 ^ 20" "mem_size < 0xFFFF0000"
    "unat mem_size div 65536 * 16 \<le> length (pageframe_table s)"
    "\<forall>f < length (pageframe_table s). physical_addr (pageframe_table s ! f) = of_nat f * PAGE_SIZE"
  shows "\<exists>t. coalesce_free_pageframes mem_size s = Some t \<and> frames_wf t
    \<and> mset (free_frames t) = mset (filter (pf_free s) [0..<unat mem_size div 65536 * 16])"
proof -
  let ?s = "s\<lparr>free_4k_pf_list := [], free_16k_pf_list := [], free_64k_pf_list := []\<rparr>"
  let ?n = "unat mem_size div 65536"
  let ?t = "fold coalesce_step (map (\<lambda>k. k * 16) [0..<?n]) ?s"
  have c: "coalesced (16 * ?n) ?s ?t" using assms(3) by (intro coalesce_fold) simp_all
  have free: "pf_free ?s = pf_free s" by (auto simp: pf_free_def fun_eq_iff)
  have m: "mset (free_frames ?t) = mset (filter (pf_free s) [0..<?n * 16])"
    using c by (simp add: coalesced_def free mult.commute)
  then have d: "distinct (free_frames ?t)" using mset_eq_imp_distinct_iff [OF m] by simp
  have mem: "set (free_frames ?t) = {f. f < ?n * 16 \<and> pf_free s f}" using mset_eq_setD [OF m] by auto
  have "frames_wf ?t"
    using c assms(1,3,4) d mem by (auto simp: frames_wf_def coalesced_def same_but_sizes_def pf_free_def)
  moreover have "coalesce_free_pageframes mem_size s = Some ?t"
    using assms(2,3) by (simp add: coalesce_free_pageframes_def)
  ultimately show ?thesis using m by blast
qed

lemma init_memory_map_table:
  "length (pageframe_table (init_memory_map s)) = length (pageframe_table s)"
  "f < length (pageframe_table s) \<Longrightarrow> pageframe_table (init_memory_map s) ! f
     = \<lparr>pf_size = PAGE_SIZE, physical_addr = of_nat f * PAGE_SIZE, reference_cnt = 0, pf_flags = 0\<rparr>"
proof -
  have "pageframe_table (fold pmap_pageframe_init fs t) = pageframe_table t" for fs t
    by (induction fs arbitrary: t) (simp_all add: pmap_pageframe_init_def split: prod.split)
  then show "length (pageframe_table (init_memory_map s)) = length (pageframe_table s)"
    "f < length (pageframe_table s) \<Longrightarrow> pageframe_table (init_memory_map s) ! f
       = \<lparr>pf_size = PAGE_SIZE, physical_addr = of_nat f * PAGE_SIZE, reference_cnt = 0, pf_flags = 0\<rparr>"
    by (simp_all add: init_memory_map_def)
qed

definition phys_ok :: "vmem \<Rightarrow> bool" where
  "phys_ok s \<longleftrightarrow> length (pageframe_table s) \<le> 2 ^ 20
     \<and> (\<forall>f < length (pageframe_table s). physical_addr (pageframe_table s ! f) = of_nat f * PAGE_SIZE)"

lemma init_pageframe_flags_ok: "init_pageframe_flags b c fl s = Some t \<Longrightarrow> phys_ok s \<Longrightarrow> phys_ok t"
proof -
  have "flags_loop fs fl s = Some t \<Longrightarrow> phys_ok s \<Longrightarrow> phys_ok t" for fs
  proof (induction fs arbitrary: s)
    case (Cons f fs)
    then obtain u where u: "upd_frame f (\<lambda>pf. pf\<lparr>pf_flags := fl\<rparr>) s = Some u" "flags_loop fs fl u = Some t"
      by (auto split: bind_splits)
    then have "phys_ok u" using Cons.prems(2) by (auto simp: upd_frame_def phys_ok_def nth_list_update split: if_splits)
    then show ?case using Cons.IH u(2) by blast
  qed simp
  then show "init_pageframe_flags b c fl s = Some t \<Longrightarrow> phys_ok s \<Longrightarrow> phys_ok t" by (simp add: init_pageframe_flags_def)
qed

text \<open>After \<open>init_vm\<close> the allocator is in order.\<close>

lemma init_vm_frames:
  assumes "init_vm b s = Some t" "length (pageframe_table s) \<le> 2 ^ 20"
  shows "frames_wf t"
proof -
  have 0: "phys_ok (init_memory_map s)" using init_memory_map_table assms(2) by (simp add: phys_ok_def)
  obtain u where u: "coalesce_free_pageframes (bi_mem_size b) u = Some t" "phys_ok u"
    using assms(1) init_pageframe_flags_ok 0 unfolding init_vm_def
    by (auto split: bind_splits if_splits)
  then have m: "bi_mem_size b < 0xFFFF0000" "unat (bi_mem_size b) div 65536 * 16 \<le> length (pageframe_table u)"
    by (auto simp: coalesce_free_pageframes_def not_le split: if_splits)
  show ?thesis using coalesce_free_memory [OF _ m] u by (auto simp: phys_ok_def)
qed

text \<open>C32: The set-up gives the allocator exactly the memory nobody uses: after \<open>coalesce_free_pageframes\<close>
  every frame below the last whole 64k of memory whose flags are zero lies in exactly one block of
  the free lists, no other frame does, and the blocks have the size their list says.\<close>

theorem free_memory_set_up:
  assumes "length (pageframe_table s) \<le> 2 ^ 20" "mem_size < 0xFFFF0000"
    "unat mem_size div 65536 * 16 \<le> length (pageframe_table s)"
    "\<forall>f < length (pageframe_table s). physical_addr (pageframe_table s ! f) = of_nat f * PAGE_SIZE"
  shows "\<exists>t. coalesce_free_pageframes mem_size s = Some t \<and> frames_wf t
    \<and> mset (free_frames t) = mset (filter (pf_free s) [0..<unat mem_size div 65536 * 16])"
  using coalesce_free_memory [OF assms] .

text \<open>A machine with 48 frames, the first 16 of them used by the kernel.\<close>

definition demo_pageframes :: vmem where
  "demo_pageframes = \<lparr>pageframe_table = map (\<lambda>t. \<lparr>pf_size = PAGE_SIZE, physical_addr = of_nat t * PAGE_SIZE,
       reference_cnt = 0, pf_flags = (if t < 16 then PGF_INUSE else 0)\<rparr>) [0..<48],
     free_4k_pf_list = [], free_16k_pf_list = [], free_64k_pf_list = [],
     page_bytes = (\<lambda>_ _. 0), pt_words = (\<lambda>_ _. 0), vpte_flags = (\<lambda>_ _. 0), pd_words = (\<lambda>_ _. 0),
     vpte_links = \<lparr>lnext = (\<lambda>_. None), lprev = (\<lambda>_. None)\<rparr>, vpte_list = (\<lambda>_. \<lparr>head = None, tail = None\<rparr>),
     root_pagedir = (\<lambda>_. 0)\<rparr>"

lemma demo_pageframes_ok:
  "length (pageframe_table demo_pageframes) = 48"
  "f < 48 \<Longrightarrow> physical_addr (pageframe_table demo_pageframes ! f) = of_nat f * PAGE_SIZE"
  "f < 48 \<Longrightarrow> pf_flags (pageframe_table demo_pageframes ! f) = (if f < 16 then PGF_INUSE else 0)"
  by (simp_all add: demo_pageframes_def)

theorem free_memory_set_up_witness:
  "\<exists>t. coalesce_free_pageframes 0x30000 demo_pageframes = Some t \<and> frames_wf t
    \<and> mset (free_frames t) = mset (filter (pf_free demo_pageframes) [0..<48])"
  using free_memory_set_up [of demo_pageframes "0x30000"] by (simp add: demo_pageframes_ok)

definition demo_memory :: vmem where
  "demo_memory = the (coalesce_free_pageframes 0x30000 demo_pageframes)"

lemma demo_memory_eq:
  "demo_memory = demo_pageframes\<lparr>pageframe_table := map (\<lambda>t. \<lparr>pf_size = (if t \<in> {16, 32} then 65536 else 4096), physical_addr = of_nat t * PAGE_SIZE,
       reference_cnt = 0, pf_flags = (if t < 16 then PGF_INUSE else 0)\<rparr>) [0..<48], free_64k_pf_list := [16, 32]\<rparr>"
proof -
  have u: "[0..<3] = [0, 1, 2 :: nat]" by (simp add: upt_rec)
  show ?thesis
    by (simp add: demo_memory_def coalesce_free_pageframes_def u coalesce_step_def demo_pageframes_def pf_free_def
        PGF_INUSE_def PAGE_SIZE_def upt_rec)
qed

lemma demo_memory_wf: "frames_wf demo_memory"
  by (auto simp: frames_wf_def free_frames_concat demo_memory_eq demo_pageframes_def)

text \<open>The number of frames that an allocation of 4k can draw on.\<close>

definition avail :: "vmem \<Rightarrow> nat" where
  "avail s = length (free_4k_pf_list s) + 16 * length (free_64k_pf_list s)"

lemma avail_empty: "pf_lists_empty 4096 s \<longleftrightarrow> avail s = 0"
  by (auto simp: pf_lists_empty_def avail_def)

lemma upd_frame_avail: "upd_frame f h s = Some t \<Longrightarrow> avail t = avail s"
  by (auto simp: upd_frame_def avail_def split: if_splits)

lemma split_avail:
  "split_4k h n s = Some t \<Longrightarrow> avail t = avail s + n" "split_16k h n s = Some t \<Longrightarrow> avail t = avail s"
  by (induction n arbitrary: s) (auto dest!: upd_frame_avail split: bind_splits simp: avail_def)

lemma clear_avail: "avail (clear_frames f n (pmap_pageframe_init g s)) = avail s"
  by (simp add: avail_def clear_frames_def pmap_pageframe_init_def split: prod.split)

lemma alloc_avail:
  assumes "frames_wf s" "alloc_pageframe sz s = Some (r, t)"
  shows "avail s \<le> avail t + (if sz = 4096 then 1 else 16)"
proof -
  obtain h u where h: "alloc_head sz s = (h, u)" by fastforce
  show ?thesis
  proof (cases h)
    case None
    then show ?thesis using h assms(2)
      by (auto simp: alloc_pageframe_def alloc_head_def rem_head_4k_def rem_head_16k_def rem_head_64k_def Let_def split: list.splits if_splits)
  next
    case (Some f)
    have "avail s \<le> avail u + (if sz = 4096 \<and> pf_size (pageframe_table u ! f) \<noteq> 65536 then 1 else 16)"
      using assms(1) h Some by (auto simp: alloc_head_def rem_head_4k_def rem_head_16k_def rem_head_64k_def frames_wf_def avail_def
          split: list.splits if_splits)
    moreover have "avail u + (if sz = 4096 \<and> pf_size (pageframe_table u ! f) = 65536 then 15 else 0) = avail t"
      using assms(2) h Some
      by (auto simp: alloc_pageframe_def clear_avail frame_def dest!: upd_frame_avail split_avail split: if_splits bind_splits)
    ultimately show ?thesis by (auto split: if_splits)
  qed
qed



end
