(* ===== verification/Page_Maps.thy ===== *)
theory Page_Maps
  imports Page_Frames
begin

unbundle bit_operations_syntax

text \<open>
  The page tables, \<^verbatim>\<open>kernel/boards/raspberry_pi_4/pmap.c\<close>.  A page directory and a page table are
  named by their (first) frame; their entries are 32-bit words as the processor reads them, and
  the physical address in a word leads to the frame of the page table or page.  The barriers and the
  invalidation of the translation buffers have no effect on memory.  The \<open>PmapVPTE\<close>s of the
  mappings of a frame are linked with the macros of \<open>Kernel_Lists\<close>.

  The second half states the tables as a map from directory and page to physical address and flags
  (\<open>slot\<close>), the invariant \<open>maps_wf\<close> under which the code implements that map, and the effect of
  every operation on it.
\<close>

section \<open>Constants\<close>

definition PROT_READ :: u32 where "PROT_READ = 1"
definition PROT_WRITE :: u32 where "PROT_WRITE = 2"
definition MEM_ALLOC :: u32 where "MEM_ALLOC = 0x20000000"
definition MEM_PHYS :: u32 where "MEM_PHYS = 0x30000000"
definition MAP_COW :: u32 where "MAP_COW = 0x04000000"
definition MAP_USER :: u32 where "MAP_USER = 0x08000000"
definition MEM_MASK :: u32 where "MEM_MASK = 0xF0000000"
definition VM_SYSTEM_MASK :: u32 where "VM_SYSTEM_MASK = MEM_MASK OR MAP_COW OR MAP_USER"

definition L1_ADDR_BITS :: u32 where "L1_ADDR_BITS = 0xFFF00000"
definition L1_IDX_SHIFT :: nat where "L1_IDX_SHIFT = 20"
definition L1_C_ADDR_MASK :: u32 where "L1_C_ADDR_MASK = 0xFFFFFC00"
definition L1_TYPE_INV :: u32 where "L1_TYPE_INV = 0"
definition L1_TYPE_C :: u32 where "L1_TYPE_C = 1"
definition L1_TYPE_MASK :: u32 where "L1_TYPE_MASK = 3"
definition L2_ADDR_MASK :: u32 where "L2_ADDR_MASK = 0xFFFFF000"
definition L2_ADDR_BITS :: u32 where "L2_ADDR_BITS = 0x000FF000"
definition L2_IDX_SHIFT :: nat where "L2_IDX_SHIFT = 12"
definition L2_TYPE_MASK :: u32 where "L2_TYPE_MASK = 3"
definition L2_TYPE_INV :: u32 where "L2_TYPE_INV = 0"
definition L2_TYPE_S :: u32 where "L2_TYPE_S = 2"
definition L2_AP0 :: u32 where "L2_AP0 = 0x010"
definition L2_AP1 :: u32 where "L2_AP1 = 0x020"
definition L2_AP2 :: u32 where "L2_AP2 = 0x200"
definition L2_AP_RWK :: u32 where "L2_AP_RWK = L2_AP0"
definition L2_AP_RWKU :: u32 where "L2_AP_RWKU = L2_AP1 OR L2_AP0"
definition L2_AP_RKU :: u32 where "L2_AP_RKU = L2_AP2 OR L2_AP1 OR L2_AP0"
definition VPAGETABLE_SZ :: u32 where "VPAGETABLE_SZ = 4096"
definition PAGEDIR_SZ :: u32 where "PAGEDIR_SZ = 16384"
definition N_PAGETABLE_PTE :: nat where "N_PAGETABLE_PTE = 256"

lemmas l1_consts = L1_TYPE_INV_def L1_TYPE_C_def L1_TYPE_MASK_def L1_C_ADDR_MASK_def
lemmas l2_consts = L2_TYPE_INV_def L2_TYPE_S_def L2_TYPE_MASK_def L2_ADDR_MASK_def L2_AP_RWKU_def L2_AP_RKU_def
  L2_AP_RWK_def L2_AP0_def L2_AP1_def L2_AP2_def
lemmas mem_consts = PROT_READ_def PROT_WRITE_def MEM_ALLOC_def MEM_PHYS_def MAP_COW_def MEM_MASK_def

section \<open>Operations\<close>

text \<open>\<^verbatim>\<open>struct AddressSpace\<close>: the page directory and the segment table.\<close>

record vm_space =
  l1_table :: nat
  segs :: AddressSpace

definition pde_idx :: "u32 \<Rightarrow> nat" where
  "pde_idx va = unat (drop_bit L1_IDX_SHIFT (va AND L1_ADDR_BITS))"

definition pte_idx :: "u32 \<Rightarrow> nat" where
  "pte_idx va = unat (drop_bit L2_IDX_SHIFT (va AND L2_ADDR_BITS))"

definition pmap_calc_pa_bits :: "u32 \<Rightarrow> u32" where
  "pmap_calc_pa_bits flags =
     (if flags AND PROT_WRITE \<noteq> 0 \<and> flags AND MAP_COW = 0 then L2_TYPE_S OR L2_AP_RWKU
      else L2_TYPE_S OR L2_AP_RKU)"

definition set_pde :: "nat \<Rightarrow> nat \<Rightarrow> u32 \<Rightarrow> vmem \<Rightarrow> vmem" where
  "set_pde d i w s = s\<lparr>pd_words := (pd_words s)(d := (pd_words s d)(i := w))\<rparr>"

definition set_pte :: "nat \<Rightarrow> nat \<Rightarrow> u32 \<Rightarrow> vmem \<Rightarrow> vmem" where
  "set_pte pt j w s = s\<lparr>pt_words := (pt_words s)(pt := (pt_words s pt)(j := w))\<rparr>"

definition set_vpte_flags :: "nat \<Rightarrow> nat \<Rightarrow> u32 \<Rightarrow> vmem \<Rightarrow> vmem" where
  "set_vpte_flags pt j w s = s\<lparr>vpte_flags := (vpte_flags s)(pt := (vpte_flags s pt)(j := w))\<rparr>"

text \<open>\<^verbatim>\<open>LIST_ADD_HEAD\<close> and \<^verbatim>\<open>LIST_REM_ENTRY\<close> on the list of the mappings of frame \<open>f\<close>.\<close>

definition vpte_add :: "nat \<Rightarrow> vpte \<Rightarrow> vmem \<Rightarrow> vmem option" where
  "vpte_add f v s =
     (if f < length (pageframe_table s) then
        (let (h, l) = LIST_ADD_HEAD v (vpte_links s, vpte_list s f)
         in Some (s\<lparr>vpte_links := h, vpte_list := (vpte_list s)(f := l)\<rparr>))
      else None)"

definition vpte_rem :: "nat \<Rightarrow> vpte \<Rightarrow> vmem \<Rightarrow> vmem option" where
  "vpte_rem f v s =
     (if f < length (pageframe_table s) then
        (let (h, l) = LIST_REM_ENTRY v (vpte_links s, vpte_list s f)
         in Some (s\<lparr>vpte_links := h, vpte_list := (vpte_list s)(f := l)\<rparr>))
      else None)"

definition pmap_alloc_pagetable :: "vmem \<Rightarrow> (nat option \<times> vmem) option" where
  "pmap_alloc_pagetable s = do {
     (pf, s) \<leftarrow> alloc_pageframe VPAGETABLE_SZ s;
     case pf of
       None \<Rightarrow> Some (None, s)
     | Some pt \<Rightarrow>
         let s = clear_frames pt 1 s;
             s = s\<lparr>pt_words := (pt_words s)(pt := (\<lambda>t. if t < 256 then L2_TYPE_INV else pt_words s pt t))\<rparr>
         in Some (Some pt, s) }"

definition pmap_free_pagetable :: "nat \<Rightarrow> vmem \<Rightarrow> vmem" where
  "pmap_free_pagetable pt s = free_pageframe pt s"

definition pmap_get_pagetable :: "nat \<Rightarrow> nat \<Rightarrow> vmem \<Rightarrow> (nat option \<times> vmem) option" where
  "pmap_get_pagetable d i s =
     (if pd_words s d i AND L1_TYPE_MASK = L1_TYPE_INV then do {
        (pt, s) \<leftarrow> pmap_alloc_pagetable s;
        case pt of
          None \<Rightarrow> Some (None, s)
        | Some pt \<Rightarrow> do {
            phys_pt \<leftarrow> pmap_pf_to_pa s pt;
            Some (Some pt, set_pde d i (phys_pt OR L1_TYPE_C) s) } }
      else Some (Some (pmap_pa_to_pf (pd_words s d i AND L1_C_ADDR_MASK)), s))"

definition pmap_enter :: "vm_space \<Rightarrow> u32 \<Rightarrow> u32 \<Rightarrow> u32 \<Rightarrow> vmem \<Rightarrow> (unit result \<times> vmem) option" where
  "pmap_enter as va pa flags s =
     (if va = 0 then Some (Inl EFAULT, s)
      else do {
        let d = l1_table as;
        let i = pde_idx va;
        (pt, s) \<leftarrow> pmap_get_pagetable d i s;
        case pt of
          None \<Rightarrow> Some (Inl ENOMEM, s)
        | Some pt \<Rightarrow>
            let j = pte_idx va
            in if pt_words s pt j AND L2_TYPE_MASK \<noteq> L2_TYPE_INV
               then Some (Inl EINVAL, set_pde d i L1_TYPE_INV (pmap_free_pagetable pt s))
               else do {
                 s \<leftarrow> (if flags AND MEM_MASK \<noteq> MEM_PHYS then vpte_add (pmap_pa_to_pf pa) (pt, j) s else Some s);
                 let s = set_vpte_flags pt j flags s;
                 let s = set_pte pt j (pa OR pmap_calc_pa_bits flags) s;
                 s \<leftarrow> upd_frame pt (\<lambda>pf. pf\<lparr>reference_cnt := reference_cnt pf + 1\<rparr>) s;
                 Some (Inr (), s)
               }
      })"

definition pmap_remove :: "vm_space \<Rightarrow> u32 \<Rightarrow> vmem \<Rightarrow> (unit result \<times> vmem) option" where
  "pmap_remove as va s =
     (if va = 0 then Some (Inl EFAULT, s)
      else
        let d = l1_table as;
            i = pde_idx va
        in if pd_words s d i AND L1_TYPE_MASK = L1_TYPE_INV then Some (Inl EINVAL, s)
           else
             let pt = pmap_pa_to_pf (pd_words s d i AND L1_C_ADDR_MASK);
                 j = pte_idx va;
                 current_paddr = pt_words s pt j AND L2_ADDR_MASK
             in if pt_words s pt j AND L2_TYPE_MASK = L2_TYPE_INV then Some (Inl EINVAL, s)
                else do {
                  s \<leftarrow> (if vpte_flags s pt j AND MEM_PHYS = 0 then vpte_rem (pmap_pa_to_pf current_paddr) (pt, j) s
                        else Some s);
                  let s = set_vpte_flags pt j 0 s;
                  let s = set_pte pt j L2_TYPE_INV s;
                  s \<leftarrow> upd_frame pt (\<lambda>pf. pf\<lparr>reference_cnt := reference_cnt pf - 1\<rparr>) s;
                  ptpf \<leftarrow> frame s pt;
                  Some (Inr (), if reference_cnt ptpf = 0
                                then set_pde d i L1_TYPE_INV (pmap_free_pagetable pt s) else s)
                })"

definition pmap_protect :: "vm_space \<Rightarrow> u32 \<Rightarrow> u32 \<Rightarrow> vmem \<Rightarrow> vmem option" where
  "pmap_protect as va flags s =
     (if va = 0 then Some s
      else
        let d = l1_table as;
            i = pde_idx va
        in if pd_words s d i AND L1_TYPE_MASK = L1_TYPE_INV then None
           else
             let pt = pmap_pa_to_pf (pd_words s d i AND L1_C_ADDR_MASK);
                 j = pte_idx va;
                 pa = pt_words s pt j AND L2_ADDR_MASK
             in if pt_words s pt j AND L2_TYPE_MASK = L2_TYPE_INV then None
                else
                  let s = set_vpte_flags pt j flags s
                  in Some (set_pte pt j (pa OR pmap_calc_pa_bits (vpte_flags s pt j)) s))"

text \<open>The result \<open>None\<close> is -1: no page table, or no page.\<close>

definition pmap_extract :: "vm_space \<Rightarrow> u32 \<Rightarrow> vmem \<Rightarrow> (u32 \<times> u32) option" where
  "pmap_extract as va s =
     (let d = l1_table as;
          i = pde_idx va
      in if pd_words s d i AND L1_TYPE_MASK = L1_TYPE_INV then None
         else
           let pt = pmap_pa_to_pf (pd_words s d i AND L1_C_ADDR_MASK);
               j = pte_idx va;
               current_paddr = pt_words s pt j AND L2_ADDR_MASK
           in if pt_words s pt j AND L2_TYPE_MASK = L2_TYPE_INV then None
              else Some (current_paddr, vpte_flags s pt j))"

definition pmap_is_pagetable_present :: "vm_space \<Rightarrow> u32 \<Rightarrow> vmem \<Rightarrow> bool" where
  "pmap_is_pagetable_present as addr s \<longleftrightarrow> pd_words s (l1_table as) (pde_idx addr) AND L1_TYPE_MASK \<noteq> L1_TYPE_INV"

definition pmap_is_page_present :: "vm_space \<Rightarrow> u32 \<Rightarrow> vmem \<Rightarrow> bool" where
  "pmap_is_page_present as addr s =
     (let d = l1_table as;
          i = pde_idx addr
      in if pd_words s d i AND L1_TYPE_MASK = L1_TYPE_INV then False
         else
           let pt = pmap_pa_to_pf (pd_words s d i AND L1_C_ADDR_MASK)
           in pt_words s pt (pte_idx addr) AND L2_TYPE_MASK \<noteq> L2_TYPE_INV)"

text \<open>\<^verbatim>\<open>pmap_create\<close> returns -1, here \<open>None\<close> in the result, if there is no memory for a directory.\<close>

definition pmap_create :: "vm_space \<Rightarrow> vmem \<Rightarrow> (vm_space option \<times> vmem) option" where
  "pmap_create as s = do {
     (pf, s) \<leftarrow> alloc_pageframe PAGEDIR_SZ s;
     case pf of
       None \<Rightarrow> Some (None, s)
     | Some d \<Rightarrow>
         let s = s\<lparr>pd_words := (pd_words s)(d := (\<lambda>t. if t < 2048 then L1_TYPE_INV
                                                     else if t < 4096 then root_pagedir s t else pd_words s d t))\<rparr>
         in Some (Some (as\<lparr>l1_table := d\<rparr>), s) }"

definition pmap_destroy :: "vm_space \<Rightarrow> vmem \<Rightarrow> vmem" where
  "pmap_destroy as s = free_pageframe (l1_table as) s"

definition pmap_supports_cache_policy :: "u32 \<Rightarrow> int" where
  "pmap_supports_cache_policy flags = 0"

text \<open>The page tables of the file cache lie in the frames from \<open>c\<close> on.\<close>

definition CACHE_PAGETABLES_CNT :: nat where "CACHE_PAGETABLES_CNT = 256"
definition CACHE_PAGETABLES_PDE_BASE :: nat where "CACHE_PAGETABLES_PDE_BASE = 3072"

definition init_buffer_cache_pagetables :: "nat \<Rightarrow> vmem \<Rightarrow> vmem" where
  "init_buffer_cache_pagetables c s =
     fold (\<lambda>t s. s\<lparr>root_pagedir := (root_pagedir s)(CACHE_PAGETABLES_PDE_BASE + t := of_nat (c + t) * PAGE_SIZE OR L1_TYPE_C),
         pt_words := (pt_words s)(c + t := (\<lambda>j. if j < N_PAGETABLE_PTE then L2_TYPE_INV else pt_words s (c + t) j)),
         vpte_flags := (vpte_flags s)(c + t := (\<lambda>j. if j < N_PAGETABLE_PTE then 0 else vpte_flags s (c + t) j)),
         vpte_links := clear_links (c + t) 1 (vpte_links s)\<rparr>) [0..<CACHE_PAGETABLES_CNT] s"

text \<open>The mappings of the kernel's file cache, in the page tables of \<^verbatim>\<open>root_pagedir\<close>.\<close>

definition cache_pagetable :: "u32 \<Rightarrow> vmem \<Rightarrow> nat" where
  "cache_pagetable addr s = pmap_pa_to_pf (root_pagedir s (pde_idx addr) AND L1_C_ADDR_MASK)"

definition pmap_cache_enter :: "u32 \<Rightarrow> u32 \<Rightarrow> vmem \<Rightarrow> vmem option" where
  "pmap_cache_enter addr paddr s = do {
     let pt = cache_pagetable addr s;
     let j = pte_idx addr;
     let s = set_vpte_flags pt j (PROT_READ OR PROT_WRITE) s;
     s \<leftarrow> vpte_add (pmap_pa_to_pf paddr) (pt, j) s;
     Some (set_pte pt j (paddr OR (L2_TYPE_S OR L2_AP_RWK)) s) }"

definition pmap_cache_remove :: "u32 \<Rightarrow> vmem \<Rightarrow> vmem option" where
  "pmap_cache_remove va s = do {
     let pt = cache_pagetable va s;
     let j = pte_idx va;
     s \<leftarrow> vpte_rem (pmap_pa_to_pf (pt_words s pt j AND L2_ADDR_MASK)) (pt, j) s;
     let s = set_vpte_flags pt j 0 s;
     Some (set_pte pt j L2_TYPE_INV s) }"

definition pmap_cache_extract :: "u32 \<Rightarrow> vmem \<Rightarrow> u32" where
  "pmap_cache_extract va s = pt_words s (cache_pagetable va s) (pte_idx va) AND L2_ADDR_MASK"

definition pmap_interprocess_copy :: "vm_space \<Rightarrow> u32 \<Rightarrow> vm_space \<Rightarrow> u32 \<Rightarrow> u32 \<Rightarrow> vmem \<Rightarrow> unit result \<times> vmem" where
  "pmap_interprocess_copy dst_as dst src_as src sz s = (Inl ENOTSUP, s)"

section \<open>Addresses\<close>

lemma page_aligned_mod: "page_aligned a \<longleftrightarrow> unat a mod 4096 = 0"
proof -
  have "a AND 0xfff = take_bit 12 a" by (simp add: take_bit_eq_mask mask_eq_exp_minus_1)
  then show ?thesis
    by (simp add: page_aligned_def unat_eq_0 [symmetric] unat_mod take_bit_eq_mod)
qed

lemma index_masks: "(0xFFF00000 :: u32) = NOT (mask 20)" "(0x000FF000 :: u32) = NOT (mask 12) AND mask 20"
  "(0xFFFFFC00 :: u32) = NOT (mask 10)" "(0xFFFFF000 :: u32) = NOT (mask 12)" "(3 :: u32) = mask 2"
  by (simp_all add: mask_eq_exp_minus_1)

lemma pde_idx_div: "pde_idx va = unat va div 2 ^ 20"
proof -
  have "drop_bit 20 (va AND 0xFFF00000) = drop_bit 20 va"
    unfolding index_masks by (intro bit_word_eqI) (auto simp: bit_simps dest: bit_u32_less)
  then show ?thesis
    by (simp add: pde_idx_def L1_IDX_SHIFT_def L1_ADDR_BITS_def drop_bit_eq_div unat_div)
qed

lemma pte_idx_div: "pte_idx va = unat va div 2 ^ 12 mod 256"
proof -
  have "drop_bit 12 (va AND 0x000FF000) = take_bit 8 (drop_bit 12 va)"
    unfolding index_masks by (intro bit_word_eqI) (auto simp: bit_simps)
  then show ?thesis
    by (simp add: pte_idx_def L2_IDX_SHIFT_def L2_ADDR_BITS_def drop_bit_eq_div take_bit_eq_mod unat_div unat_mod)
qed

lemma pte_idx_less [simp]: "pte_idx va < 256"
  by (simp add: pte_idx_div)

lemma unat_va: "unat va = pde_idx va * 2 ^ 20 + pte_idx va * 2 ^ 12 + unat va mod 4096"
proof -
  let ?n = "unat va"
  have "q = a * 256 + b \<Longrightarrow> q * 4096 = a * 1048576 + b * 4096" for q a b :: nat by simp
  from this [OF div_mult_mod_eq [of "?n div 4096" 256, symmetric]] show ?thesis
    using div_mult_mod_eq [of ?n 4096] div_mult2_eq [of ?n 4096 256] by (simp add: pde_idx_div pte_idx_div)
qed

lemma page_idx_inj:
  assumes "page_aligned a" "page_aligned b" "pde_idx a = pde_idx b" "pte_idx a = pte_idx b"
  shows "a = b"
  using unat_va [of a] unat_va [of b] assms by (simp add: page_aligned_mod word_unat_eq_iff)

lemma user_pde: "va < 0x80000000 \<longleftrightarrow> pde_idx va < 2048"
proof -
  have "va < 0x80000000 \<longleftrightarrow> unat va < 0x80000000" by (simp add: word_less_nat_alt)
  also have "\<dots> \<longleftrightarrow> pde_idx va < 2048" by (simp add: pde_idx_div div_less_iff_less_mult)
  finally show ?thesis .
qed

lemma frame_word:
  assumes "f < 2 ^ 20"
  shows "page_aligned (of_nat f * 4096 :: u32)" "pmap_pa_to_pf (of_nat f * 4096) = f"
  using assms pa_to_pf_of_nat [of f]
  by (simp_all add: page_aligned_mod unat_word_ariths unat_of_nat PAGE_SIZE_def)

lemma page_aligned_or_masks:
  assumes "page_aligned a" "b AND 0xFFFFF000 = 0"
  shows "(a OR b) AND 0xFFFFF000 = a" "(a OR b) AND 3 = b AND 3" "(a OR b) AND 0x200 = b AND 0x200"
proof -
  have bits: "\<not> bit a n" if "n < 12" for n using page_aligned_bit [OF assms(1) that] .
  have "a AND 0xFFFFF000 = a" unfolding index_masks using bits by (intro bit_word_eqI) (auto simp: bit_simps)
  moreover have "a AND 3 = 0" unfolding index_masks using bits by (intro bit_word_eqI) (auto simp: bit_simps)
  moreover have "a AND 0x200 = 0" using bits [of 9] and_exp_eq_0_iff_not_bit [of a 9] by simp
  ultimately show "(a OR b) AND 0xFFFFF000 = a" "(a OR b) AND 3 = b AND 3" "(a OR b) AND 0x200 = b AND 0x200"
    using assms(2) by (simp_all add: bit.conj_disj_distrib2)
qed

lemma page_aligned_1k: "page_aligned a \<Longrightarrow> (a OR 1) AND 0xFFFFFC00 = a"
proof -
  assume a: "page_aligned a"
  have bits: "\<not> bit a n" if "n < 12" for n using page_aligned_bit [OF a that] .
  have "a AND 0xFFFFFC00 = a" unfolding index_masks using bits by (intro bit_word_eqI) (auto simp: bit_simps)
  then show ?thesis by (simp add: bit.conj_disj_distrib2)
qed

lemma pa_bits: "pmap_calc_pa_bits flags AND 0xFFFFF000 = 0" "pmap_calc_pa_bits flags AND 3 = 2"
  by (simp_all add: pmap_calc_pa_bits_def l2_consts)

definition writable :: "u32 \<Rightarrow> bool" where
  "writable flags \<longleftrightarrow> flags AND PROT_WRITE \<noteq> 0 \<and> flags AND MAP_COW = 0"

definition is_phys :: "u32 \<Rightarrow> bool" where
  "is_phys flags \<longleftrightarrow> flags AND MEM_MASK = MEM_PHYS"

text \<open>What the entry of a page says: its address, its type, and, in the access bits, whether the
  user may write.\<close>

lemma pte_word:
  assumes "page_aligned pa"
  shows "(pa OR pmap_calc_pa_bits flags) AND L2_ADDR_MASK = pa"
    "(pa OR pmap_calc_pa_bits flags) AND L2_TYPE_MASK = L2_TYPE_S"
    "(pa OR pmap_calc_pa_bits flags) AND L2_AP2 = 0 \<longleftrightarrow> writable flags"
  using page_aligned_or_masks [OF assms pa_bits(1), of flags]
  by (auto simp: l2_consts pmap_calc_pa_bits_def writable_def pa_bits(2))

lemma pde_word:
  assumes "pt < 2 ^ 20"
  shows "(of_nat pt * 4096 OR L1_TYPE_C) AND L1_TYPE_MASK = L1_TYPE_C"
    "pmap_pa_to_pf ((of_nat pt * 4096 OR L1_TYPE_C) AND L1_C_ADDR_MASK) = pt"
  using page_aligned_or_masks(2) [OF frame_word(1) [OF assms], of 1] page_aligned_1k [OF frame_word(1) [OF assms]]
    frame_word(2) [OF assms]
  by (simp_all add: l1_consts)

section \<open>The tables as a map\<close>

definition pt_at :: "vmem \<Rightarrow> nat \<Rightarrow> nat \<Rightarrow> nat option" where
  "pt_at s d i = (if pd_words s d i AND L1_TYPE_MASK = L1_TYPE_INV then None
                  else Some (pmap_pa_to_pf (pd_words s d i AND L1_C_ADDR_MASK)))"

definition pte_slot :: "vmem \<Rightarrow> nat \<Rightarrow> nat \<Rightarrow> (u32 \<times> u32) option" where
  "pte_slot s pt j = (if pt_words s pt j AND L2_TYPE_MASK = L2_TYPE_INV then None
                      else Some (pt_words s pt j AND L2_ADDR_MASK, vpte_flags s pt j))"

definition slot :: "vmem \<Rightarrow> nat \<Rightarrow> nat \<Rightarrow> nat \<Rightarrow> (u32 \<times> u32) option" where
  "slot s d i j = (case pt_at s d i of None \<Rightarrow> None | Some pt \<Rightarrow> pte_slot s pt j)"

lemma pmap_extract_slot: "pmap_extract as va s = slot s (l1_table as) (pde_idx va) (pte_idx va)"
  by (simp add: pmap_extract_def slot_def pt_at_def pte_slot_def Let_def)

lemma page_present_slot: "pmap_is_page_present as va s \<longleftrightarrow> slot s (l1_table as) (pde_idx va) (pte_idx va) \<noteq> None"
  by (simp add: pmap_is_page_present_def slot_def pt_at_def pte_slot_def Let_def)

lemma pagetable_present_pt: "pmap_is_pagetable_present as va s \<longleftrightarrow> pt_at s (l1_table as) (pde_idx va) \<noteq> None"
  by (simp add: pmap_is_pagetable_present_def pt_at_def)

section \<open>The invariant\<close>

definition in_use :: "vmem \<Rightarrow> nat \<Rightarrow> bool" where
  "in_use s f \<longleftrightarrow> f < length (pageframe_table s) \<and> f \<notin> set (free_frames s)"

definition dir_frames :: "nat set \<Rightarrow> nat set" where
  "dir_frames D = (\<Union>d \<in> D. {d..<d + 4})"

definition tables :: "vmem \<Rightarrow> nat set \<Rightarrow> nat set" where
  "tables s D = {pt. \<exists>d \<in> D. \<exists>i < 2048. pt_at s d i = Some pt}"

definition user_frame :: "vmem \<Rightarrow> nat set \<Rightarrow> nat \<Rightarrow> bool" where
  "user_frame s D f \<longleftrightarrow> in_use s f \<and> f \<notin> dir_frames D \<and> f \<notin> tables s D"

definition valid_ptes :: "vmem \<Rightarrow> nat \<Rightarrow> nat set" where
  "valid_ptes s pt = {j. j < 256 \<and> pt_words s pt j AND L2_TYPE_MASK \<noteq> L2_TYPE_INV}"

definition pte_ok :: "vmem \<Rightarrow> nat \<Rightarrow> nat \<Rightarrow> bool" where
  "pte_ok s pt j \<longleftrightarrow> pt_words s pt j = 0
     \<or> (\<exists>pa. page_aligned pa \<and> pt_words s pt j = pa OR pmap_calc_pa_bits (vpte_flags s pt j))"

definition flags_ok :: "u32 \<Rightarrow> bool" where
  "flags_ok fl \<longleftrightarrow> fl AND MEM_MASK = MEM_ALLOC \<or> fl AND MEM_MASK = MEM_PHYS"

text \<open>
  \<open>D\<close> is the set of the page directories of the processes.  Directories, page tables and the
  frames of mapped memory are in use and pairwise disjoint; an entry of the user half of a directory
  is empty or leads to a page table of its own, whose reference count is the number of its entries
  in use; an entry of a table is empty or holds an aligned address with the access bits its flags
  ask for; and address 0 is not mapped.
\<close>

definition dirs_wf :: "vmem \<Rightarrow> nat set \<Rightarrow> bool" where
  "dirs_wf s D \<longleftrightarrow> finite D \<and> (\<forall>g \<in> dir_frames D. in_use s g)
     \<and> (\<forall>d \<in> D. \<forall>e \<in> D. d \<noteq> e \<longrightarrow> {d..<d + 4} \<inter> {e..<e + 4} = {})"

definition pdes_wf :: "vmem \<Rightarrow> nat set \<Rightarrow> bool" where
  "pdes_wf s D \<longleftrightarrow> (\<forall>d \<in> D. \<forall>i < 2048. pd_words s d i = 0
     \<or> (\<exists>pt. in_use s pt \<and> pt \<notin> dir_frames D \<and> pd_words s d i = of_nat pt * 4096 OR L1_TYPE_C))"

definition tables_inj :: "vmem \<Rightarrow> nat set \<Rightarrow> bool" where
  "tables_inj s D \<longleftrightarrow> (\<forall>d \<in> D. \<forall>e \<in> D. \<forall>i < 2048. \<forall>k < 2048. \<forall>pt.
     pt_at s d i = Some pt \<longrightarrow> pt_at s e k = Some pt \<longrightarrow> d = e \<and> i = k)"

definition counts_wf :: "vmem \<Rightarrow> nat set \<Rightarrow> bool" where
  "counts_wf s D \<longleftrightarrow> (\<forall>pt \<in> tables s D. reference_cnt (pageframe_table s ! pt) = int (card (valid_ptes s pt)))"

definition ptes_wf :: "vmem \<Rightarrow> nat set \<Rightarrow> bool" where
  "ptes_wf s D \<longleftrightarrow> (\<forall>pt \<in> tables s D. \<forall>j < 256. pte_ok s pt j)"

definition slots_wf :: "vmem \<Rightarrow> nat set \<Rightarrow> bool" where
  "slots_wf s D \<longleftrightarrow> (\<forall>d \<in> D. slot s d 0 0 = None)
     \<and> (\<forall>d \<in> D. \<forall>i < 2048. \<forall>j < 256. \<forall>pa fl. slot s d i j = Some (pa, fl)
          \<longrightarrow> flags_ok fl \<and> (\<not> is_phys fl \<longrightarrow> user_frame s D (pmap_pa_to_pf pa)))"

definition maps_wf :: "vmem \<Rightarrow> nat set \<Rightarrow> bool" where
  "maps_wf s D \<longleftrightarrow> frames_wf s \<and> dirs_wf s D \<and> pdes_wf s D \<and> tables_inj s D \<and> counts_wf s D
     \<and> ptes_wf s D \<and> slots_wf s D"

text \<open>What a step keeps of the frames that are not tables: they stay in use, with their contents
  and their reference counts.\<close>

definition keeps :: "nat set \<Rightarrow> vmem \<Rightarrow> vmem \<Rightarrow> bool" where
  "keeps D s t \<longleftrightarrow> (\<forall>f. user_frame s D f \<longrightarrow> user_frame t D f \<and> page_bytes t f = page_bytes s f
     \<and> reference_cnt (pageframe_table t ! f) = reference_cnt (pageframe_table s ! f))
     \<and> root_pagedir t = root_pagedir s \<and> length (pageframe_table t) = length (pageframe_table s)
     \<and> set (free_frames t) \<subseteq> set (free_frames s)"

lemma keeps_refl [simp]: "keeps D s s"
  by (simp add: keeps_def)

lemma keeps_trans: "keeps D s t \<Longrightarrow> keeps D t u \<Longrightarrow> keeps D s u"
  by (auto simp: keeps_def)

definition slots_upd :: "nat set \<Rightarrow> vmem \<Rightarrow> vmem \<Rightarrow> nat \<Rightarrow> nat \<Rightarrow> nat \<Rightarrow> (u32 \<times> u32) option \<Rightarrow> bool" where
  "slots_upd D s t d i j v \<longleftrightarrow> (\<forall>e \<in> D. \<forall>k < 2048. \<forall>l < 256.
     slot t e k l = (if e = d \<and> k = i \<and> l = j then v else slot s e k l))"

definition slots_same :: "nat set \<Rightarrow> vmem \<Rightarrow> vmem \<Rightarrow> bool" where
  "slots_same D s t \<longleftrightarrow> (\<forall>e \<in> D. \<forall>k < 2048. \<forall>l < 256. slot t e k l = slot s e k l)"

lemma slots_same_refl [simp]: "slots_same D s s"
  by (simp add: slots_same_def)

lemma slots_same_upd: "slots_same D s t \<Longrightarrow> slots_upd D t u d i j v \<Longrightarrow> slots_upd D s u d i j v"
  by (simp add: slots_same_def slots_upd_def)

lemma maps_wf_pt:
  assumes "maps_wf s D" "d \<in> D" "i < 2048" "pt_at s d i = Some pt"
  shows "in_use s pt" "pt \<notin> dir_frames D" "pt \<in> tables s D" "pd_words s d i = of_nat pt * 4096 OR L1_TYPE_C"
proof -
  obtain p where p: "in_use s p" "p \<notin> dir_frames D" "pd_words s d i = of_nat p * 4096 OR L1_TYPE_C"
  proof -
    have "pd_words s d i \<noteq> 0" using assms(4) by (auto simp: pt_at_def l1_consts)
    moreover have "pdes_wf s D" using assms(1) by (simp add: maps_wf_def)
    ultimately show ?thesis using that assms(2,3) unfolding pdes_wf_def by blast
  qed
  then have "p < 2 ^ 20" using assms(1) by (simp add: maps_wf_def frames_wf_def in_use_def)
  from pde_word [OF this] have "pt_at s d i = Some p" by (simp add: pt_at_def p(3) L1_TYPE_C_def L1_TYPE_INV_def)
  then show "in_use s pt" "pt \<notin> dir_frames D" "pd_words s d i = of_nat pt * 4096 OR L1_TYPE_C"
    using p assms(4) by simp_all
  show "pt \<in> tables s D" using assms by (auto simp: tables_def)
qed

lemma fresh_block_free:
  assumes "fresh_block f n s s'"
  shows "set (free_frames s) = {f..<f + n} \<union> set (free_frames s')"
proof -
  have "mset (free_frames s) = mset ([f..<f + n] @ free_frames s')" using assms by (simp add: fresh_block_def)
  from mset_eq_setD [OF this] show ?thesis by simp
qed

lemma fresh_block_in_use:
  assumes "fresh_block f n s s'" "frames_wf s"
  shows "in_use s g \<Longrightarrow> in_use s' g" "g \<in> {f..<f + n} \<Longrightarrow> in_use s' g" "g \<in> {f..<f + n} \<Longrightarrow> \<not> in_use s g"
proof -
  note sub = fresh_block_free [OF assms(1)]
  have "mset (free_frames s) = mset ([f..<f + n] @ free_frames s')" using assms(1) by (simp add: fresh_block_def)
  from mset_eq_imp_distinct_iff [OF this] assms(2) have "distinct ([f..<f + n] @ free_frames s')"
    by (simp add: frames_wf_def)
  then have dj: "{f..<f + n} \<inter> set (free_frames s') = {}" by auto
  have len: "length (pageframe_table s') = length (pageframe_table s)" using assms(1) by (simp add: fresh_block_def)
  show "in_use s g \<Longrightarrow> in_use s' g" using sub len by (auto simp: in_use_def)
  show "in_use s' g" "\<not> in_use s g" if "g \<in> {f..<f + n}"
    using that sub dj len assms(2) by (auto simp: in_use_def frames_wf_def)
qed

text \<open>Allocating a block changes nothing about the maps.\<close>

lemma fresh_block_same:
  assumes fb: "fresh_block f n s s'" and wf: "frames_wf s" and g: "in_use s g"
  shows "page_bytes s' g = page_bytes s g" "pd_words s' g = pd_words s g" "pt_words s' g = pt_words s g"
    "vpte_flags s' g = vpte_flags s g" "pageframe_table s' ! g = pageframe_table s ! g"
proof -
  have "g \<notin> {f..<f + n}" using fresh_block_in_use(3) [OF fb wf] g by blast
  then show "page_bytes s' g = page_bytes s g" "pd_words s' g = pd_words s g" "pt_words s' g = pt_words s g"
    "vpte_flags s' g = vpte_flags s g"
    using fb by (auto simp: fresh_block_def clear_on_def)
  show "pageframe_table s' ! g = pageframe_table s ! g" using fb g by (simp add: fresh_block_def in_use_def)
qed

lemma fresh_block_maps:
  assumes fb: "fresh_block f n s s'" and wf: "maps_wf s D"
  shows "maps_wf s' D" "keeps D s s'" "slots_same D s s'" "tables s' D = tables s D"
    "\<And>d i. d \<in> D \<Longrightarrow> pd_words s' d i = pd_words s d i"
proof -
  have fwf: "frames_wf s" using wf by (simp add: maps_wf_def)
  note same = fresh_block_same [OF fb fwf]
  have din: "in_use s d" if "d \<in> D" for d using wf that by (force simp: maps_wf_def dirs_wf_def dir_frames_def)
  then show pd: "\<And>d i. d \<in> D \<Longrightarrow> pd_words s' d i = pd_words s d i" using same(2) by simp
  then have pt: "pt_at s' d i = pt_at s d i" if "d \<in> D" for d i using that by (simp add: pt_at_def)
  then show tb: "tables s' D = tables s D" by (auto simp: tables_def)
  have sl: "slot s' d i j = slot s d i j" if "d \<in> D" "i < 2048" for d i j
    using that pt maps_wf_pt(1) [OF wf that] same by (auto simp: slot_def pte_slot_def split: option.split)
  then show "slots_same D s s'" by (simp add: slots_same_def)
  have uf: "user_frame s' D f" if "user_frame s D f" for f
    using that tb fresh_block_in_use(1) [OF fb fwf] by (auto simp: user_frame_def)
  then show "keeps D s s'"
    using same fb fresh_block_free [OF fb] by (simp add: keeps_def user_frame_def fresh_block_def)
  have tin: "in_use s pt" if "pt \<in> tables s D" for pt using that maps_wf_pt(1) [OF wf] by (auto simp: tables_def)
  have vp: "valid_ptes s' pt = valid_ptes s pt" "pte_ok s' pt = pte_ok s pt" if "pt \<in> tables s D" for pt
    using same [OF tin [OF that]] by (auto simp: valid_ptes_def pte_ok_def fun_eq_iff)
  show "maps_wf s' D"
    unfolding maps_wf_def
  proof (intro conjI)
    show "frames_wf s'" using fb by (simp add: fresh_block_def)
    show "dirs_wf s' D" using wf fresh_block_in_use(1) [OF fb fwf] by (simp add: maps_wf_def dirs_wf_def)
    show "pdes_wf s' D"
      using wf pd fresh_block_in_use(1) [OF fb fwf] by (fastforce simp: maps_wf_def pdes_wf_def)
    show "tables_inj s' D" using wf pt by (simp add: maps_wf_def tables_inj_def)
    show "counts_wf s' D" using wf vp same(5) tin by (simp add: maps_wf_def counts_wf_def tb)
    show "ptes_wf s' D" using wf vp by (simp add: maps_wf_def ptes_wf_def tb)
    show "slots_wf s' D" using wf sl uf by (simp add: maps_wf_def slots_wf_def)
  qed
qed

section \<open>Page tables come and go\<close>

lemma frames_wf_views [simp]:
  "frames_wf (s\<lparr>page_bytes := a\<rparr>) = frames_wf s" "frames_wf (s\<lparr>pt_words := b\<rparr>) = frames_wf s"
  "frames_wf (s\<lparr>vpte_flags := c\<rparr>) = frames_wf s" "frames_wf (s\<lparr>pd_words := e\<rparr>) = frames_wf s"
  "frames_wf (s\<lparr>vpte_links := f\<rparr>) = frames_wf s" "frames_wf (s\<lparr>vpte_list := g\<rparr>) = frames_wf s"
  by (simp_all add: frames_wf_def free_frames_def free_blocks_def)

lemma free_frames_views [simp]:
  "free_frames (s\<lparr>page_bytes := a\<rparr>) = free_frames s" "free_frames (s\<lparr>pt_words := b\<rparr>) = free_frames s"
  "free_frames (s\<lparr>vpte_flags := c\<rparr>) = free_frames s" "free_frames (s\<lparr>pd_words := e\<rparr>) = free_frames s"
  by (simp_all add: free_frames_def free_blocks_def)

lemma in_use_views [simp]:
  "in_use (s\<lparr>page_bytes := a\<rparr>) = in_use s" "in_use (s\<lparr>pt_words := b\<rparr>) = in_use s"
  "in_use (s\<lparr>vpte_flags := c\<rparr>) = in_use s" "in_use (s\<lparr>pd_words := e\<rparr>) = in_use s"
  "in_use (s\<lparr>vpte_links := f\<rparr>) = in_use s" "in_use (s\<lparr>vpte_list := g\<rparr>) = in_use s"
  by (simp_all add: in_use_def fun_eq_iff)

lemma clear_on_idem [simp]: "clear_on f n (clear_on f n m) = clear_on f n m"
  by (auto simp: clear_on_def)

lemma alloc_pagetable_cases:
  assumes wf: "maps_wf s D"
  shows "pmap_alloc_pagetable s = Some (None, s) \<and> pf_lists_empty 4096 s
    \<or> (\<exists>pt s'. pmap_alloc_pagetable s = Some (Some pt, s') \<and> fresh_block pt 1 s s')"
proof -
  have "frames_wf s" using wf by (simp add: maps_wf_def)
  from alloc_cases [OF this, of 4096] consider
      (none) "alloc_pageframe 4096 s = Some (None, s)" "pf_lists_empty 4096 s"
    | (some) pt t where "alloc_pageframe 4096 s = Some (Some pt, t)" "fresh_block pt 1 s t"
    by (auto simp: PAGE_SIZE_def)
  then show ?thesis
  proof cases
    case none
    then show ?thesis by (simp add: pmap_alloc_pagetable_def VPAGETABLE_SZ_def)
  next
    case some
    let ?t = "clear_frames pt 1 t"
    have "(\<lambda>j. if j < 256 then L2_TYPE_INV else pt_words ?t pt j) = pt_words ?t pt"
      by (auto simp: clear_frames_def clear_on_def L2_TYPE_INV_def)
    then have z: "?t\<lparr>pt_words := (pt_words ?t)(pt := (\<lambda>j. if j < 256 then L2_TYPE_INV else pt_words ?t pt j))\<rparr> = ?t"
      by (simp only: fun_upd_triv) simp
    have "fresh_block pt 1 s ?t"
      using some(2) by (simp add: fresh_block_def clear_frames_def)
    then show ?thesis
      using some unfolding pmap_alloc_pagetable_def VPAGETABLE_SZ_def Let_def by (auto simp only: z bind.bind_lunit option.case prod.case)
  qed
qed

lemma pt_at_set_pde:
  "pt_at (set_pde d i w s) e k = (if e = d \<and> k = i
     then (if w AND L1_TYPE_MASK = L1_TYPE_INV then None else Some (pmap_pa_to_pf (w AND L1_C_ADDR_MASK)))
     else pt_at s e k)"
  by (simp add: pt_at_def set_pde_def)

lemma set_pde_sel [simp]:
  "pt_words (set_pde d i w s) = pt_words s" "vpte_flags (set_pde d i w s) = vpte_flags s"
  "page_bytes (set_pde d i w s) = page_bytes s" "pageframe_table (set_pde d i w s) = pageframe_table s"
  "free_frames (set_pde d i w s) = free_frames s" "root_pagedir (set_pde d i w s) = root_pagedir s"
  "frames_wf (set_pde d i w s) = frames_wf s" "in_use (set_pde d i w s) = in_use s"
  "valid_ptes (set_pde d i w s) = valid_ptes s" "pte_slot (set_pde d i w s) = pte_slot s" "pte_ok (set_pde d i w s) = pte_ok s"
  by (simp_all add: set_pde_def valid_ptes_def pte_slot_def pte_ok_def fun_eq_iff)

lemma tablesI: "d \<in> D \<Longrightarrow> i < 2048 \<Longrightarrow> pt_at s d i = Some pt \<Longrightarrow> pt \<in> tables s D"
  by (auto simp: tables_def)

lemma add_table:
  assumes wf: "maps_wf s D" and d: "d \<in> D" "i < 2048" and none: "pt_at s d i = None"
    and pt: "in_use s pt" "pt \<notin> dir_frames D" "pt \<notin> tables s D" "pt_words s pt = (\<lambda>_. 0)"
      "reference_cnt (pageframe_table s ! pt) = 0"
    and nouser: "\<forall>e \<in> D. \<forall>k < 2048. \<forall>l < 256. \<forall>pa fl. slot s e k l = Some (pa, fl) \<longrightarrow> \<not> is_phys fl
      \<longrightarrow> pmap_pa_to_pf pa \<noteq> pt"
  shows "maps_wf (set_pde d i (of_nat pt * 4096 OR L1_TYPE_C) s) D"
    "slots_same D s (set_pde d i (of_nat pt * 4096 OR L1_TYPE_C) s)"
    "pt_at (set_pde d i (of_nat pt * 4096 OR L1_TYPE_C) s) d i = Some pt"
    "\<And>f. f \<noteq> pt \<Longrightarrow> user_frame s D f \<Longrightarrow> user_frame (set_pde d i (of_nat pt * 4096 OR L1_TYPE_C) s) D f"
proof -
  let ?s = "set_pde d i (of_nat pt * 4096 OR L1_TYPE_C) s"
  have "pt < 2 ^ 20" using pt(1) wf by (simp add: maps_wf_def frames_wf_def in_use_def)
  note w = pde_word [OF this]
  have at: "pt_at ?s e k = (if e = d \<and> k = i then Some pt else pt_at s e k)" for e k
    using w by (simp add: pt_at_set_pde L1_TYPE_C_def L1_TYPE_INV_def)
  then show "pt_at ?s d i = Some pt" by simp
  have tb: "tables ?s D = insert pt (tables s D)"
  proof (intro set_eqI iffI)
    fix x assume "x \<in> insert pt (tables s D)"
    then consider "x = pt" | e k where "e \<in> D" "k < 2048" "pt_at s e k = Some x" by (auto simp: tables_def)
    then show "x \<in> tables ?s D"
    proof cases
      case 1
      then show ?thesis using d by (intro tablesI [of d D i]) (simp_all add: at)
    next
      case 2
      then show ?thesis using none by (intro tablesI [of e D k]) (auto simp: at)
    qed
  qed (auto simp: tables_def at split: if_splits)
  have z: "pte_slot s pt = (\<lambda>_. None)" "valid_ptes s pt = {}" "pte_ok s pt = (\<lambda>_. True)"
    using pt(4) by (auto simp: pte_slot_def valid_ptes_def pte_ok_def L2_TYPE_INV_def fun_eq_iff)
  have sl: "slot ?s e k l = slot s e k l" for e k l
    using none by (auto simp: slot_def at z split: option.split)
  then show "slots_same D s ?s" by (simp add: slots_same_def)
  show uf: "\<And>f. f \<noteq> pt \<Longrightarrow> user_frame s D f \<Longrightarrow> user_frame ?s D f" by (simp add: user_frame_def tb)
  show "maps_wf ?s D"
    unfolding maps_wf_def
  proof (intro conjI)
    show "frames_wf ?s" "dirs_wf ?s D" using wf by (simp_all add: maps_wf_def dirs_wf_def)
    have "pd_words ?s e k = (if e = d \<and> k = i then of_nat pt * 4096 OR L1_TYPE_C else pd_words s e k)" for e k
      by (simp add: set_pde_def)
    then show "pdes_wf ?s D"
      using wf pt(1,2) by (simp add: maps_wf_def pdes_wf_def) blast
    have "pt_at s e k \<noteq> Some pt" if "e \<in> D" "k < 2048" for e k using pt(3) that by (auto simp: tables_def)
    then show "tables_inj ?s D" using wf by (auto simp: maps_wf_def tables_inj_def at)
    show "counts_wf ?s D" using wf pt(5) z by (simp add: maps_wf_def counts_wf_def tb)
    show "ptes_wf ?s D" using wf z by (simp add: maps_wf_def ptes_wf_def tb)
    show "slots_wf ?s D" using wf nouser uf by (simp add: maps_wf_def slots_wf_def sl)
  qed
qed

lemma get_pagetable_cases:
  assumes wf: "maps_wf s D" and d: "d \<in> D" "i < 2048"
  shows "pmap_get_pagetable d i s = Some (None, s) \<and> pf_lists_empty 4096 s
    \<or> (\<exists>pt s'. pmap_get_pagetable d i s = Some (Some pt, s') \<and> maps_wf s' D \<and> keeps D s s' \<and> slots_same D s s'
         \<and> pt_at s' d i = Some pt)"
proof (cases "pt_at s d i")
  case (Some pt)
  then have "pmap_get_pagetable d i s = Some (Some pt, s)"
    by (simp add: pmap_get_pagetable_def pt_at_def split: if_splits)
  then show ?thesis using wf Some by simp
next
  case None
  then have inv: "pd_words s d i AND L1_TYPE_MASK = L1_TYPE_INV" by (simp add: pt_at_def split: if_splits)
  have fwf: "frames_wf s" using wf by (simp add: maps_wf_def)
  from alloc_pagetable_cases [OF wf] consider
      (none) "pmap_alloc_pagetable s = Some (None, s)" "pf_lists_empty 4096 s"
    | (some) pt t where "pmap_alloc_pagetable s = Some (Some pt, t)" "fresh_block pt 1 s t"
    by blast
  then show ?thesis
  proof cases
    case none
    then show ?thesis using inv by (simp add: pmap_get_pagetable_def)
  next
    case some
    note m = fresh_block_maps [OF some(2) wf] and u = fresh_block_in_use [OF some(2) fwf]
    let ?t = "set_pde d i (of_nat pt * 4096 OR L1_TYPE_C) t"
    have pt: "in_use t pt" "\<not> in_use s pt" using u by simp_all
    have tab: "pt \<notin> tables t D" "pt \<notin> dir_frames D"
      using pt(2) m(4) maps_wf_pt(1) [OF wf] wf by (auto simp: tables_def maps_wf_def dirs_wf_def)
    have zero: "pt_words t pt = (\<lambda>_. 0)" "reference_cnt (pageframe_table t ! pt) = 0"
      using some(2) by (simp_all add: fresh_block_def clear_on_def)
    have no: "\<forall>e \<in> D. \<forall>k < 2048. \<forall>l < 256. \<forall>pa fl. slot t e k l = Some (pa, fl) \<longrightarrow> \<not> is_phys fl
      \<longrightarrow> pmap_pa_to_pf pa \<noteq> pt"
      using m(3) wf pt(2) by (auto simp: slots_same_def maps_wf_def slots_wf_def user_frame_def)
    have "pt_at t d i = None" using inv m(5) [OF d(1)] by (simp add: pt_at_def)
    note a = add_table [OF m(1) d this pt(1) tab(2) tab(1) zero no]
    have "physical_addr (pageframe_table t ! pt) = of_nat pt * 4096" "pt < length (pageframe_table t)"
      using pt(1) m(1) by (simp_all add: maps_wf_def frames_wf_def in_use_def PAGE_SIZE_def)
    then have "pmap_get_pagetable d i s = Some (Some pt, ?t)"
      using inv some(1) by (simp add: pmap_get_pagetable_def pmap_pf_to_pa_def frame_def)
    moreover have "keeps D s ?t"
      unfolding keeps_def
    proof (intro conjI allI impI)
      fix f assume f: "user_frame s D f"
      then have "f \<noteq> pt" using pt(2) by (auto simp: user_frame_def)
      then show "user_frame ?t D f" using f a(4) m(2) by (simp add: keeps_def)
    qed (use m(2) in \<open>simp_all add: keeps_def\<close>)
    moreover have "slots_same D s ?t" using m(3) a(2) by (simp add: slots_same_def)
    ultimately show ?thesis using a by blast
  qed
qed

section \<open>Writing an entry\<close>

lemma links_views [simp]:
  "pt_at (s\<lparr>vpte_links := h, vpte_list := l\<rparr>) = pt_at s" "pte_slot (s\<lparr>vpte_links := h, vpte_list := l\<rparr>) = pte_slot s"
  "slot (s\<lparr>vpte_links := h, vpte_list := l\<rparr>) = slot s" "tables (s\<lparr>vpte_links := h, vpte_list := l\<rparr>) = tables s"
  "user_frame (s\<lparr>vpte_links := h, vpte_list := l\<rparr>) = user_frame s"
  "valid_ptes (s\<lparr>vpte_links := h, vpte_list := l\<rparr>) = valid_ptes s" "pte_ok (s\<lparr>vpte_links := h, vpte_list := l\<rparr>) = pte_ok s"
  by (simp_all add: fun_eq_iff pt_at_def pte_slot_def slot_def tables_def user_frame_def valid_ptes_def pte_ok_def)

lemma links_maps [simp]:
  "maps_wf (s\<lparr>vpte_links := h, vpte_list := l\<rparr>) D = maps_wf s D" "keeps D s (s\<lparr>vpte_links := h, vpte_list := l\<rparr>)"
  "slots_same D s (s\<lparr>vpte_links := h, vpte_list := l\<rparr>)"
  by (simp_all add: maps_wf_def dirs_wf_def pdes_wf_def tables_inj_def counts_wf_def ptes_wf_def slots_wf_def keeps_def slots_same_def)

lemma vpte_add_result: "f < length (pageframe_table s) \<Longrightarrow> \<exists>h l. vpte_add f v s = Some (s\<lparr>vpte_links := h, vpte_list := l\<rparr>)"
  by (auto simp: vpte_add_def split: prod.split)

lemma vpte_rem_result: "f < length (pageframe_table s) \<Longrightarrow> \<exists>h l. vpte_rem f v s = Some (s\<lparr>vpte_links := h, vpte_list := l\<rparr>)"
  by (auto simp: vpte_rem_def split: prod.split)

definition put_pte :: "nat \<Rightarrow> nat \<Rightarrow> u32 \<Rightarrow> u32 \<Rightarrow> int \<Rightarrow> vmem \<Rightarrow> vmem" where
  "put_pte pt j w fl n s = (set_pte pt j w (set_vpte_flags pt j fl s))
     \<lparr>pageframe_table := (pageframe_table s)[pt := (pageframe_table s ! pt)\<lparr>reference_cnt := n\<rparr>]\<rparr>"

lemma put_pte_sel [simp]:
  "pd_words (put_pte pt j w fl n s) = pd_words s" "page_bytes (put_pte pt j w fl n s) = page_bytes s"
  "free_frames (put_pte pt j w fl n s) = free_frames s" "root_pagedir (put_pte pt j w fl n s) = root_pagedir s"
  "in_use (put_pte pt j w fl n s) = in_use s" "length (pageframe_table (put_pte pt j w fl n s)) = length (pageframe_table s)"
  "pt_at (put_pte pt j w fl n s) = pt_at s" "tables (put_pte pt j w fl n s) = tables s"
  "user_frame (put_pte pt j w fl n s) = user_frame s"
  by (simp_all add: put_pte_def set_pte_def set_vpte_flags_def in_use_def fun_eq_iff pt_at_def tables_def user_frame_def
      free_frames_def free_blocks_def)

lemma frames_wf_counts:
  assumes "length (pageframe_table t) = length (pageframe_table s)" "free_4k_pf_list t = free_4k_pf_list s"
    "free_16k_pf_list t = free_16k_pf_list s" "free_64k_pf_list t = free_64k_pf_list s"
    "\<And>f. pf_size (pageframe_table t ! f) = pf_size (pageframe_table s ! f)
       \<and> pf_flags (pageframe_table t ! f) = pf_flags (pageframe_table s ! f)
       \<and> physical_addr (pageframe_table t ! f) = physical_addr (pageframe_table s ! f)"
  shows "frames_wf t = frames_wf s"
  using assms by (simp add: frames_wf_def free_frames_def free_blocks_def)

lemma put_pte_frames [simp]: "frames_wf (put_pte pt j w fl n s) = frames_wf s"
proof (rule frames_wf_counts)
  fix f
  show "pf_size (pageframe_table (put_pte pt j w fl n s) ! f) = pf_size (pageframe_table s ! f)
       \<and> pf_flags (pageframe_table (put_pte pt j w fl n s) ! f) = pf_flags (pageframe_table s ! f)
       \<and> physical_addr (pageframe_table (put_pte pt j w fl n s) ! f) = physical_addr (pageframe_table s ! f)"
    by (cases "f = pt"; cases "pt < length (pageframe_table s)") (simp_all add: put_pte_def list_update_beyond)
qed (simp_all add: put_pte_def set_pte_def set_vpte_flags_def)

lemma put_pte_tables:
  "pte_slot (put_pte pt j w fl n s) q l = (if q = pt \<and> l = j then (if w AND L2_TYPE_MASK = L2_TYPE_INV then None else Some (w AND L2_ADDR_MASK, fl))
     else pte_slot s q l)"
  "q \<noteq> pt \<Longrightarrow> valid_ptes (put_pte pt j w fl n s) q = valid_ptes s q"
  "valid_ptes (put_pte pt j w fl n s) pt = (if j < 256 \<and> w AND L2_TYPE_MASK \<noteq> L2_TYPE_INV then insert j (valid_ptes s pt) else valid_ptes s pt - {j})"
  "pte_ok (put_pte pt j w fl n s) q l = (if q = pt \<and> l = j then w = 0 \<or> (\<exists>pa. page_aligned pa \<and> w = pa OR pmap_calc_pa_bits fl)
     else pte_ok s q l)"
  by (auto simp: put_pte_def set_pte_def set_vpte_flags_def pte_slot_def valid_ptes_def pte_ok_def)

lemma put_pte_maps:
  assumes wf: "maps_wf s D" and d: "d \<in> D" "i < 2048" "j < 256" and pt: "pt_at s d i = Some pt"
    and w: "w = 0 \<or> (\<exists>pa. page_aligned pa \<and> w = pa OR pmap_calc_pa_bits fl)"
    and ok: "w \<noteq> 0 \<Longrightarrow> flags_ok fl \<and> (\<not> is_phys fl \<longrightarrow> user_frame s D (pmap_pa_to_pf (w AND L2_ADDR_MASK))) \<and> (i \<noteq> 0 \<or> j \<noteq> 0)"
    and n: "n = int (card (valid_ptes (put_pte pt j w fl n s) pt))"
  shows "maps_wf (put_pte pt j w fl n s) D" "keeps D s (put_pte pt j w fl n s)"
    "slots_upd D s (put_pte pt j w fl n s) d i j (if w = 0 then None else Some (w AND L2_ADDR_MASK, fl))"
proof -
  let ?s = "put_pte pt j w fl n s"
  note P = maps_wf_pt [OF wf d(1,2) pt]
  have inv: "w AND L2_TYPE_MASK = L2_TYPE_INV \<longleftrightarrow> w = 0"
    using w pte_word(2) [of _ fl] by (auto simp: L2_TYPE_S_def L2_TYPE_INV_def)
  have nth: "pageframe_table ?s ! f = (if f = pt then (pageframe_table s ! pt)\<lparr>reference_cnt := n\<rparr> else pageframe_table s ! f)" for f
    using P(1) by (auto simp: put_pte_def in_use_def)
  have sl: "slot ?s e k l = (if e = d \<and> k = i \<and> l = j then (if w = 0 then None else Some (w AND L2_ADDR_MASK, fl)) else slot s e k l)"
    if "e \<in> D" "k < 2048" for e k l
  proof (cases "pt_at s e k = Some pt")
    case True
    then have "e = d \<and> k = i" using wf that d pt by (auto simp: maps_wf_def tables_inj_def)
    then show ?thesis using pt inv by (simp add: slot_def put_pte_tables)
  next
    case False
    then show ?thesis using pt by (auto simp: slot_def put_pte_tables split: option.split)
  qed
  then show "slots_upd D s ?s d i j (if w = 0 then None else Some (w AND L2_ADDR_MASK, fl))"
    by (simp add: slots_upd_def)
  have nt: "f \<noteq> pt" if "user_frame s D f" for f using that P(3) by (auto simp: user_frame_def)
  then show "keeps D s ?s" by (simp add: keeps_def nth)
  show "maps_wf ?s D"
    unfolding maps_wf_def
  proof (intro conjI)
    show "frames_wf ?s" "dirs_wf ?s D" "pdes_wf ?s D" "tables_inj ?s D"
      using wf by (simp_all add: maps_wf_def dirs_wf_def pdes_wf_def tables_inj_def)
    show "counts_wf ?s D"
      unfolding counts_wf_def
    proof
      fix q assume "q \<in> tables ?s D"
      then show "reference_cnt (pageframe_table ?s ! q) = int (card (valid_ptes ?s q))"
        using wf n by (cases "q = pt") (simp_all add: nth put_pte_tables(2) maps_wf_def counts_wf_def)
    qed
    show "ptes_wf ?s D" using wf w by (simp add: maps_wf_def ptes_wf_def put_pte_tables(4))
    show "slots_wf ?s D"
      using wf ok unfolding maps_wf_def slots_wf_def by (auto simp: sl)
  qed
qed

lemma drop_table:
  assumes wf: "maps_wf s D" and d: "d \<in> D" "i < 2048" and pt: "pt_at s d i = Some pt" "valid_ptes s pt = {}"
  shows "maps_wf (set_pde d i L1_TYPE_INV s) D" "keeps D s (set_pde d i L1_TYPE_INV s)"
    "slots_same D s (set_pde d i L1_TYPE_INV s)"
proof -
  let ?s = "set_pde d i L1_TYPE_INV s"
  have at: "pt_at ?s e k = (if e = d \<and> k = i then None else pt_at s e k)" for e k
    by (simp add: pt_at_set_pde l1_consts)
  have tb: "tables ?s D \<subseteq> tables s D" by (auto simp: tables_def at split: if_splits)
  have no: "pte_slot s pt l = None" if "l < 256" for l using pt(2) that by (auto simp: valid_ptes_def pte_slot_def)
  have sl: "slot ?s e k l = slot s e k l" if "e \<in> D" "k < 2048" "l < 256" for e k l
    using pt no [OF that(3)] by (auto simp: slot_def at split: option.split)
  then show "slots_same D s ?s" by (simp add: slots_same_def)
  have uf: "user_frame s D f \<Longrightarrow> user_frame ?s D f" for f using tb by (auto simp: user_frame_def)
  then show "keeps D s ?s" by (simp add: keeps_def)
  have pd: "pd_words ?s e k = (if e = d \<and> k = i then 0 else pd_words s e k)" for e k
    by (simp add: set_pde_def L1_TYPE_INV_def)
  show "maps_wf ?s D"
    unfolding maps_wf_def
  proof (intro conjI)
    show "frames_wf ?s" "dirs_wf ?s D" "pdes_wf ?s D"
      using wf by (simp_all add: maps_wf_def dirs_wf_def pdes_wf_def pd)
    show "tables_inj ?s D" using wf by (simp add: maps_wf_def tables_inj_def at)
    show "counts_wf ?s D" "ptes_wf ?s D" using wf tb by (auto simp: maps_wf_def counts_wf_def ptes_wf_def)
    show "slots_wf ?s D" using wf uf sl by (simp add: maps_wf_def slots_wf_def)
  qed
qed

section \<open>The operations on the map\<close>

lemma idx_0 [simp]: "pde_idx 0 = 0" "pte_idx 0 = 0"
  by (simp_all add: pde_idx_div pte_idx_div)

lemma page_zero_idx: "page_aligned va \<Longrightarrow> va \<noteq> 0 \<Longrightarrow> pde_idx va \<noteq> 0 \<or> pte_idx va \<noteq> 0"
  using page_idx_inj [of va 0] by (auto simp: page_aligned_def)

lemma slots_wfD:
  assumes "maps_wf s D" "d \<in> D" "i < 2048" "j < 256" "slot s d i j = Some (pa, fl)"
  shows "flags_ok fl" "\<not> is_phys fl \<longrightarrow> user_frame s D (pmap_pa_to_pf pa)"
proof -
  have "slots_wf s D" using assms(1) by (simp add: maps_wf_def)
  then show "flags_ok fl" "\<not> is_phys fl \<longrightarrow> user_frame s D (pmap_pa_to_pf pa)"
    using assms(2-5) unfolding slots_wf_def by blast+
qed

lemma slot_va_nonzero:
  assumes "maps_wf s D" "d \<in> D" "slot s d (pde_idx va) (pte_idx va) \<noteq> None"
  shows "va \<noteq> 0"
proof
  assume "va = 0"
  with assms show False by (simp add: maps_wf_def slots_wf_def)
qed

lemma finite_valid_ptes [simp]: "finite (valid_ptes s pt)"
  by (simp add: valid_ptes_def)

lemma pmap_enter_slot:
  assumes wf: "maps_wf s D" and d: "l1_table as \<in> D" and va: "page_aligned va" "va \<noteq> 0" "va < 0x80000000"
    and free: "slot s (l1_table as) (pde_idx va) (pte_idx va) = None" and pa: "page_aligned pa" and fl: "flags_ok fl"
    and user: "\<not> is_phys fl \<longrightarrow> user_frame s D (pmap_pa_to_pf pa)"
  shows "pmap_enter as va pa fl s = Some (Inl ENOMEM, s) \<and> pf_lists_empty 4096 s
    \<or> (\<exists>s'. pmap_enter as va pa fl s = Some (Inr (), s') \<and> maps_wf s' D \<and> keeps D s s'
         \<and> slots_upd D s s' (l1_table as) (pde_idx va) (pte_idx va) (Some (pa, fl)))"
proof -
  let ?d = "l1_table as" and ?i = "pde_idx va" and ?j = "pte_idx va" and ?w = "pa OR pmap_calc_pa_bits fl"
  have i: "?i < 2048" using va(3) user_pde by simp
  from get_pagetable_cases [OF wf d i] show ?thesis
  proof (elim disjE exE conjE)
    assume "pmap_get_pagetable ?d ?i s = Some (None, s)" "pf_lists_empty 4096 s"
    then show ?thesis using va(2) by (simp add: pmap_enter_def)
  next
    fix pt t assume get: "pmap_get_pagetable ?d ?i s = Some (Some pt, t)" and t: "maps_wf t D" "keeps D s t"
      "slots_same D s t" "pt_at t ?d ?i = Some pt"
    note P = maps_wf_pt [OF t(1) d i t(4)]
    have "slot t ?d ?i ?j = None" using free t(3) d i by (simp add: slots_same_def)
    then have "pte_slot t pt ?j = None" using t(4) by (simp add: slot_def)
    then have inv: "pt_words t pt ?j AND L2_TYPE_MASK = L2_TYPE_INV" "?j \<notin> valid_ptes t pt"
      by (auto simp: pte_slot_def valid_ptes_def split: if_splits)
    have user': "\<not> is_phys fl \<longrightarrow> user_frame t D (pmap_pa_to_pf pa)" using user t(2) by (auto simp: keeps_def)
    obtain h l where v: "(if fl AND MEM_MASK \<noteq> MEM_PHYS then vpte_add (pmap_pa_to_pf pa) (pt, ?j) t else Some t)
        = Some (t\<lparr>vpte_links := h, vpte_list := l\<rparr>)"
    proof (cases "is_phys fl")
      case True
      then show ?thesis using that [of "vpte_list t" "vpte_links t"] by (simp add: is_phys_def)
    next
      case False
      then have "pmap_pa_to_pf pa < length (pageframe_table t)" using user' by (simp add: user_frame_def in_use_def)
      from vpte_add_result [OF this, of "(pt, ?j)"] False show ?thesis using that by (auto simp: is_phys_def)
    qed
    let ?t = "t\<lparr>vpte_links := h, vpte_list := l\<rparr>"
    let ?n = "reference_cnt (pageframe_table t ! pt) + 1"
    let ?u = "put_pte pt ?j ?w fl ?n ?t"
    have w: "?w AND L2_ADDR_MASK = pa" "?w AND L2_TYPE_MASK = L2_TYPE_S" "?w \<noteq> 0"
      using pte_word [OF pa, of fl] by (auto simp: L2_TYPE_S_def)
    have "reference_cnt (pageframe_table t ! pt) = int (card (valid_ptes t pt))"
      using t(1) P(3) by (simp add: maps_wf_def counts_wf_def)
    then have n: "?n = int (card (valid_ptes ?u pt))"
      using inv(2) w(2) by (simp add: put_pte_tables(3) L2_TYPE_S_def L2_TYPE_INV_def)
    have "maps_wf ?t D" "pt_at ?t ?d ?i = Some pt" using t by simp_all
    note M = this
    have "?w = 0 \<or> (\<exists>pa. page_aligned pa \<and> ?w = pa OR pmap_calc_pa_bits fl)" using pa by blast
    moreover have "flags_ok fl \<and> (\<not> is_phys fl \<longrightarrow> user_frame ?t D (pmap_pa_to_pf (?w AND L2_ADDR_MASK))) \<and> (?i \<noteq> 0 \<or> ?j \<noteq> 0)"
      using fl user' page_zero_idx [OF va(1,2)] w(1) by simp
    ultimately have u: "maps_wf ?u D" "keeps D ?t ?u"
      "slots_upd D ?t ?u ?d ?i ?j (if ?w = 0 then None else Some (?w AND L2_ADDR_MASK, fl))"
      by (rule put_pte_maps [OF M(1) d i pte_idx_less M(2) _ _ n]; assumption)+
    have "pmap_enter as va pa fl s = Some (Inr (), ?u)"
      using va(2) get inv(1) v P(1)
      by (simp add: pmap_enter_def Let_def upd_frame_def in_use_def put_pte_def set_pte_def set_vpte_flags_def)
    moreover have "keeps D s ?u" by (rule keeps_trans [OF keeps_trans [OF t(2) links_maps(2)] u(2)])
    moreover have "slots_upd D s ?u ?d ?i ?j (Some (pa, fl))"
      using u(3) t(3) w by (simp add: slots_upd_def slots_same_def)
    ultimately show ?thesis using u(1) by blast
  qed
qed

lemma slot_pt:
  assumes "slot s d i j = Some (pa, fl)"
  obtains pt where "pt_at s d i = Some pt" "pt_words s pt j AND L2_TYPE_MASK \<noteq> L2_TYPE_INV"
    "pt_words s pt j AND L2_ADDR_MASK = pa" "vpte_flags s pt j = fl"
  using assms by (auto simp: slot_def pte_slot_def split: option.splits if_splits)

lemma pt_atD: "pt_at s d i = Some pt \<Longrightarrow> pd_words s d i AND L1_TYPE_MASK \<noteq> L1_TYPE_INV
    \<and> pmap_pa_to_pf (pd_words s d i AND L1_C_ADDR_MASK) = pt"
  by (simp add: pt_at_def split: if_splits)

lemma flags_ok_mem: "flags_ok fl \<Longrightarrow> fl AND MEM_PHYS \<noteq> 0 \<and> (fl AND MEM_PHYS = MEM_PHYS \<longleftrightarrow> is_phys fl)"
proof -
  have "fl AND MEM_PHYS = (fl AND MEM_MASK) AND MEM_PHYS" by (simp add: mem_consts and.assoc)
  then show "flags_ok fl \<Longrightarrow> ?thesis" by (auto simp: flags_ok_def is_phys_def mem_consts)
qed

lemma pmap_remove_slot:
  assumes wf: "maps_wf s D" and d: "l1_table as \<in> D" and va: "va < 0x80000000"
    and sl: "slot s (l1_table as) (pde_idx va) (pte_idx va) = Some (pa, fl)"
  shows "\<exists>s'. pmap_remove as va s = Some (Inr (), s') \<and> maps_wf s' D \<and> keeps D s s'
         \<and> slots_upd D s s' (l1_table as) (pde_idx va) (pte_idx va) None"
proof -
  let ?d = "l1_table as" and ?i = "pde_idx va" and ?j = "pte_idx va"
  have i: "?i < 2048" using va user_pde by simp
  obtain pt where pt: "pt_at s ?d ?i = Some pt" "pt_words s pt ?j AND L2_TYPE_MASK \<noteq> L2_TYPE_INV"
    "vpte_flags s pt ?j = fl" by (rule slot_pt [OF sl]) blast
  note P = maps_wf_pt [OF wf d i pt(1)] and A = pt_atD [OF pt(1)]
  have "flags_ok fl" using slots_wfD(1) [OF wf d i pte_idx_less sl] .
  then have fl: "fl AND MEM_PHYS \<noteq> 0" using flags_ok_mem by blast
  have va0: "va \<noteq> 0" using slot_va_nonzero [OF wf d] sl by auto
  let ?n = "reference_cnt (pageframe_table s ! pt) - 1"
  let ?u = "put_pte pt ?j 0 0 ?n s"
  have c: "reference_cnt (pageframe_table s ! pt) = int (card (valid_ptes s pt))"
    using wf P(3) by (simp add: maps_wf_def counts_wf_def)
  have j: "?j \<in> valid_ptes s pt" using pt(2) by (simp add: valid_ptes_def)
  then have "0 < card (valid_ptes s pt)" by (auto simp: card_gt_0_iff)
  then have n: "?n = int (card (valid_ptes ?u pt))" using c j by (simp add: put_pte_tables(3) L2_TYPE_INV_def of_nat_diff)
  note u = put_pte_maps [OF wf d i pte_idx_less pt(1) _ _ n]
  have U: "maps_wf ?u D" "keeps D s ?u" "slots_upd D s ?u ?d ?i ?j None" using u by auto
  let ?v = "if ?n = 0 then set_pde ?d ?i L1_TYPE_INV ?u else ?u"
  have "pmap_remove as va s = Some (Inr (), ?v)"
    using va0 A pt P(1) fl
    by (simp add: pmap_remove_def Let_def upd_frame_def in_use_def put_pte_def set_pte_def set_vpte_flags_def
        frame_def pmap_free_pagetable_def free_pageframe_def L2_TYPE_INV_def)
  moreover have "maps_wf ?v D \<and> keeps D s ?v \<and> slots_upd D s ?v ?d ?i ?j None"
  proof (cases "?n = 0")
    case True
    then have "valid_ptes ?u pt = {}" using n by simp
    from drop_table [OF U(1) d i _ this] True U pt(1) show ?thesis
      by (auto simp: slots_upd_def slots_same_def intro: keeps_trans)
  qed (use U in simp)
  ultimately show ?thesis by blast
qed

lemma pmap_remove_none:
  assumes "slot s (l1_table as) (pde_idx va) (pte_idx va) = None"
  shows "\<exists>e. pmap_remove as va s = Some (Inl e, s)"
  using assms by (auto simp: pmap_remove_def slot_def pt_at_def pte_slot_def Let_def split: if_splits)

lemma pmap_protect_slot:
  assumes wf: "maps_wf s D" and d: "l1_table as \<in> D" and va: "va < 0x80000000" "page_aligned va"
    and sl: "slot s (l1_table as) (pde_idx va) (pte_idx va) = Some (pa, fl0)"
    and fl: "flags_ok fl" "is_phys fl = is_phys fl0"
  shows "\<exists>s'. pmap_protect as va fl s = Some s' \<and> maps_wf s' D \<and> keeps D s s'
         \<and> slots_upd D s s' (l1_table as) (pde_idx va) (pte_idx va) (Some (pa, fl))"
proof -
  let ?d = "l1_table as" and ?i = "pde_idx va" and ?j = "pte_idx va" and ?w = "pa OR pmap_calc_pa_bits fl"
  have i: "?i < 2048" using va(1) user_pde by simp
  obtain pt where pt: "pt_at s ?d ?i = Some pt" "pt_words s pt ?j AND L2_TYPE_MASK \<noteq> L2_TYPE_INV"
    "pt_words s pt ?j AND L2_ADDR_MASK = pa" "vpte_flags s pt ?j = fl0" by (rule slot_pt [OF sl]) blast
  note P = maps_wf_pt [OF wf d i pt(1)] and A = pt_atD [OF pt(1)]
  have va0: "va \<noteq> 0" using slot_va_nonzero [OF wf d] sl by auto
  have "pte_ok s pt ?j" using wf P(3) by (simp add: maps_wf_def ptes_wf_def)
  then obtain q where "page_aligned q" "pt_words s pt ?j = q OR pmap_calc_pa_bits fl0"
    using pt(2,4) by (auto simp: pte_ok_def L2_TYPE_INV_def)
  then have pa: "page_aligned pa" using pte_word(1) pt(3) by simp
  have w: "?w AND L2_ADDR_MASK = pa" "?w AND L2_TYPE_MASK = L2_TYPE_S" "?w \<noteq> 0"
    using pte_word [OF pa, of fl] by (auto simp: L2_TYPE_S_def)
  let ?n = "reference_cnt (pageframe_table s ! pt)"
  let ?u = "put_pte pt ?j ?w fl ?n s"
  have "?n = int (card (valid_ptes s pt))" using wf P(3) by (simp add: maps_wf_def counts_wf_def)
  moreover have "?j \<in> valid_ptes s pt" using pt(2) by (simp add: valid_ptes_def)
  ultimately have n: "?n = int (card (valid_ptes ?u pt))"
    using w(2) by (simp add: put_pte_tables(3) L2_TYPE_S_def L2_TYPE_INV_def insert_absorb)
  have "\<not> is_phys fl0 \<longrightarrow> user_frame s D (pmap_pa_to_pf pa)"
    using slots_wfD(2) [OF wf d i pte_idx_less sl] .
  then have "maps_wf ?u D" "keeps D s ?u" "slots_upd D s ?u ?d ?i ?j (Some (pa, fl))"
    using put_pte_maps [OF wf d i pte_idx_less pt(1) _ _ n] pa fl page_zero_idx [OF va(2) va0] w by auto
  moreover have "pmap_protect as va fl s = Some ?u"
    using va0 A pt P(1) by (simp add: pmap_protect_def Let_def put_pte_def set_pte_def set_vpte_flags_def in_use_def)
  ultimately show ?thesis by blast
qed

lemma slot_aligned:
  assumes "maps_wf s D" "d \<in> D" "i < 2048" "j < 256" "slot s d i j = Some (pa, fl)"
  shows "page_aligned pa"
proof -
  obtain pt where pt: "pt_at s d i = Some pt" "pt_words s pt j AND L2_TYPE_MASK \<noteq> L2_TYPE_INV"
    "pt_words s pt j AND L2_ADDR_MASK = pa" by (rule slot_pt [OF assms(5)]) blast
  have "pte_ok s pt j" using assms pt(1) by (auto simp: maps_wf_def ptes_wf_def intro: tablesI)
  with pt show ?thesis using pte_word(1) by (auto simp: pte_ok_def L2_TYPE_INV_def)
qed

lemma pt_at_None:
  assumes "maps_wf s D" "d \<in> D" "i < 2048" "pt_at s d i = None"
  shows "pd_words s d i = 0"
proof (rule ccontr)
  assume "pd_words s d i \<noteq> 0"
  moreover have "pdes_wf s D" using assms(1) by (simp add: maps_wf_def)
  ultimately obtain p where p: "in_use s p" "pd_words s d i = of_nat p * 4096 OR L1_TYPE_C"
    using assms(2,3) unfolding pdes_wf_def by blast
  then have "p < 2 ^ 20" using assms(1) by (simp add: maps_wf_def frames_wf_def in_use_def)
  from pde_word [OF this] assms(4) show False by (simp add: pt_at_def p(2) L1_TYPE_C_def L1_TYPE_INV_def)
qed

text \<open>A new directory: no user page is mapped, and the old maps are unchanged.\<close>

lemma pmap_create_slot:
  assumes wf: "maps_wf s D"
  shows "pmap_create as s = Some (None, s) \<and> pf_lists_empty 16384 s
    \<or> (\<exists>d s'. pmap_create as s = Some (Some (as\<lparr>l1_table := d\<rparr>), s') \<and> d \<notin> D \<and> maps_wf s' (insert d D) \<and> keeps D s s'
         \<and> slots_same D s s' \<and> (\<forall>i < 2048. \<forall>j. slot s' d i j = None)
         \<and> (\<forall>f. user_frame s D f \<longrightarrow> user_frame s' (insert d D) f)
         \<and> (\<forall>t. 2048 \<le> t \<and> t < 4096 \<longrightarrow> pd_words s' d t = root_pagedir s t))"
proof -
  have fwf: "frames_wf s" using wf by (simp add: maps_wf_def)
  from alloc_cases [OF this, of 16384] consider
      (none) "alloc_pageframe 16384 s = Some (None, s)" "pf_lists_empty 16384 s"
    | (some) d t where "alloc_pageframe 16384 s = Some (Some d, t)" "fresh_block d 4 s t"
    by (auto simp: PAGE_SIZE_def)
  then show ?thesis
  proof cases
    case none
    then show ?thesis by (simp add: pmap_create_def PAGEDIR_SZ_def)
  next
    case some
    note m = fresh_block_maps [OF some(2) wf] and u = fresh_block_in_use [OF some(2) fwf]
    let ?w = "\<lambda>t'. if t' < 2048 then L1_TYPE_INV else if t' < 4096 then root_pagedir t t' else pd_words t d t'"
    let ?t = "t\<lparr>pd_words := (pd_words t)(d := ?w)\<rparr>"
    have old: "in_use s g" if "g \<in> dir_frames D" for g using that wf by (simp add: maps_wf_def dirs_wf_def)
    have d: "d \<notin> D" using old u(3) [of d] by (force simp: dir_frames_def)
    have at: "pt_at ?t e k = pt_at t e k" if "e \<noteq> d" for e k using that by (simp add: pt_at_def)
    have at': "pt_at ?t e k = pt_at t e k" if "e \<in> D" for e k using that d by (intro at) auto
    have new: "pt_at ?t d k = None" if "k < 2048" for k using that by (simp add: pt_at_def l1_consts)
    have tb: "tables ?t (insert d D) = tables t D" "tables ?t D = tables t D"
      using new at' by (auto simp: tables_def)
    have sl: "slot ?t e k l = slot t e k l" if "e \<in> D" for e k l
      using that d by (auto simp: slot_def pt_at_def pte_slot_def)
    have none: "slot ?t d k l = None" if "k < 2048" for k l using new [OF that] by (simp add: slot_def)
    have tin: "in_use s q" if "q \<in> tables t D" for q
      using that maps_wf_pt(1) [OF wf] unfolding m(4) by (auto simp: tables_def)
    have nb: "g \<notin> {d..<d + 4}" if "in_use s g" for g using that u(3) by blast
    have uf: "user_frame ?t (insert d D) f" if "user_frame s D f" for f
      using that nb [of f] m(2) by (auto simp: user_frame_def keeps_def dir_frames_def tb)
    have "keeps D s ?t" using m(2) by (simp add: keeps_def user_frame_def tb)
    moreover have "maps_wf ?t (insert d D)"
      unfolding maps_wf_def
    proof (intro conjI)
      show "frames_wf ?t" using m(1) by (simp add: maps_wf_def)
      show "dirs_wf ?t (insert d D)"
      proof -
        have dj: "{d..<d + 4} \<inter> {e..<e + 4} = {}" if "e \<in> D" for e
          using old nb that by (fastforce simp: dir_frames_def)
        have "dirs_wf t D" using m(1) by (simp add: maps_wf_def)
        then show ?thesis using u(2) dj by (auto simp: dirs_wf_def dir_frames_def)
      qed
      have "q \<notin> dir_frames (insert d D)" if "q \<in> tables t D" for q
        using that tin nb maps_wf_pt(2) [OF m(1)] by (fastforce simp: dir_frames_def tables_def)
      moreover have "pd_words t e k = 0 \<or> (\<exists>pt. in_use t pt \<and> pt \<in> tables t D \<and> pd_words t e k = of_nat pt * 4096 OR L1_TYPE_C)"
        if "e \<in> D" "k < 2048" for e k
      proof (cases "pt_at t e k")
        case None
        then show ?thesis using pt_at_None [OF m(1) that] by simp
      next
        case (Some q)
        then show ?thesis using maps_wf_pt [OF m(1) that] by blast
      qed
      ultimately show "pdes_wf ?t (insert d D)"
        using d by (simp add: pdes_wf_def L1_TYPE_INV_def) blast
      show "tables_inj ?t (insert d D)"
        using m(1) new at' by (simp add: maps_wf_def tables_inj_def)
      show "counts_wf ?t (insert d D)" "ptes_wf ?t (insert d D)"
        using m(1) by (simp_all add: maps_wf_def counts_wf_def ptes_wf_def tb valid_ptes_def pte_ok_def)
      show "slots_wf ?t (insert d D)"
        unfolding slots_wf_def
      proof (intro conjI ballI allI impI)
        fix e assume "e \<in> insert d D"
        then show "slot ?t e 0 0 = None" using none sl m(1) by (auto simp: maps_wf_def slots_wf_def)
        fix k l pa fl assume kl: "k < 2048" "l < (256 :: nat)" "slot ?t e k l = Some (pa, fl)"
        then have e: "e \<in> D" using \<open>e \<in> insert d D\<close> none by auto
        then have "slot s e k l = Some (pa, fl)" using kl sl m(3) by (simp add: slots_same_def)
        from slots_wfD [OF wf e kl(1,2) this] uf show "flags_ok fl" "\<not> is_phys fl \<Longrightarrow> user_frame ?t (insert d D) (pmap_pa_to_pf pa)"
          by simp_all
      qed
    qed
    moreover have "pmap_create as s = Some (Some (as\<lparr>l1_table := d\<rparr>), ?t)"
      using some(1) by (simp add: pmap_create_def PAGEDIR_SZ_def)
    moreover have "slots_same D s ?t" using m(3) sl by (simp add: slots_same_def)
    moreover have "\<forall>t'. 2048 \<le> t' \<and> t' < 4096 \<longrightarrow> pd_words ?t d t' = root_pagedir s t'"
      using m(2) by (simp add: keeps_def)
    ultimately show ?thesis using d none uf by (intro disjI2 exI [of _ d] exI [of _ ?t] conjI) simp_all
  qed
qed

text \<open>Entering a page takes at most one frame, for a page table.\<close>

lemma set_avail [simp]:
  "avail (set_vpte_flags pt j fl s) = avail s" "avail (set_pte pt j w s) = avail s" "avail (set_pde d i w s) = avail s"
  "avail (clear_frames f n s) = avail s" "avail (pmap_free_pagetable pt s) = avail s" "avail (s\<lparr>pt_words := p\<rparr>) = avail s"
  "avail (s\<lparr>page_bytes := b\<rparr>) = avail s" "avail (s\<lparr>pd_words := p'\<rparr>) = avail s"
  by (simp_all add: avail_def set_vpte_flags_def set_pte_def set_pde_def clear_frames_def pmap_free_pagetable_def free_pageframe_def)

lemma vpte_add_avail: "vpte_add f v s = Some t \<Longrightarrow> avail t = avail s"
  by (auto simp: vpte_add_def avail_def Let_def split: if_splits prod.splits)

lemma get_pagetable_avail:
  assumes "frames_wf s" "pmap_get_pagetable d i s = Some (r, t)"
  shows "avail s \<le> avail t + 1"
  using assms(2) alloc_avail [OF assms(1), of 4096]
  by (fastforce simp: pmap_get_pagetable_def pmap_alloc_pagetable_def VPAGETABLE_SZ_def Let_def split: if_splits bind_splits option.splits)

lemma pmap_enter_avail:
  assumes "frames_wf s" "pmap_enter as va pa fl s = Some (r, t)"
  shows "avail s \<le> avail t + 1"
  using assms(2) get_pagetable_avail [OF assms(1)]
  by (fastforce simp: pmap_enter_def Let_def split: if_splits bind_splits option.splits dest!: upd_frame_avail vpte_add_avail)

lemma pmap_create_avail:
  assumes "frames_wf s" "pmap_create as s = Some (r, t)"
  shows "avail s \<le> avail t + 16"
  using assms(2) alloc_avail [OF assms(1), of 16384]
  by (fastforce simp: pmap_create_def PAGEDIR_SZ_def split: bind_splits option.splits)

section \<open>The contract of the page maps\<close>

text \<open>
  What the rest of the kernel relies on: a partial map from places to entries, of which one place is
  filled or emptied at a time.  \<open>ok\<close> says which entries may be put at a place.
\<close>

locale place_map =
  fixes inv :: "'s \<Rightarrow> bool"
    and view :: "'s \<Rightarrow> 'p \<Rightarrow> 'e option"
    and ok :: "'s \<Rightarrow> 'p \<Rightarrow> 'e \<Rightarrow> bool"
    and put :: "'p \<Rightarrow> 'e \<Rightarrow> 's \<Rightarrow> (unit result \<times> 's) option"
    and take :: "'p \<Rightarrow> 's \<Rightarrow> (unit result \<times> 's) option"
  assumes put_law: "inv s \<Longrightarrow> view s p = None \<Longrightarrow> ok s p e \<Longrightarrow>
      \<exists>r s'. put p e s = Some (r, s') \<and> inv s' \<and> view s' = (case r of Inl _ \<Rightarrow> view s | Inr _ \<Rightarrow> (view s)(p \<mapsto> e))"
    and take_law: "inv s \<Longrightarrow> view s p = Some e \<Longrightarrow>
      \<exists>s'. take p s = Some (Inr (), s') \<and> inv s' \<and> view s' = (view s)(p := None)"
    and take_ok: "inv s \<Longrightarrow> view s p = Some e \<Longrightarrow> take p s = Some (Inr (), s') \<Longrightarrow> ok s q e' \<Longrightarrow> ok s' q e'"
begin

text \<open>An entry that is put in and taken out leaves the map as it was.\<close>

lemma put_take:
  assumes "inv s" "view s p = None" "ok s p e" "put p e s = Some (Inr (), s')"
  shows "\<exists>t. take p s' = Some (Inr (), t) \<and> inv t \<and> view t = view s"
proof -
  from put_law [OF assms(1-3)] assms(4) have s': "inv s'" "view s' = (view s)(p \<mapsto> e)" by auto
  then have "view s' p = Some e" by simp
  from take_law [OF s'(1) this] s'(2) assms(2) show ?thesis by (auto simp: fun_eq_iff)
qed

text \<open>Replacing an entry: only its place changes, and it is empty if there is no memory.\<close>

lemma replace:
  assumes "inv s" "view s p = Some e" "ok s p e'"
  shows "\<exists>s' r t. take p s = Some (Inr (), s') \<and> put p e' s' = Some (r, t) \<and> inv t
    \<and> view t = (case r of Inl _ \<Rightarrow> (view s)(p := None) | Inr _ \<Rightarrow> (view s)(p \<mapsto> e'))"
proof -
  from take_law [OF assms(1,2)] obtain s' where s': "take p s = Some (Inr (), s')" "inv s'" "view s' = (view s)(p := None)"
    by blast
  have "ok s' p e'" by (rule take_ok [OF assms(1,2) s'(1) assms(3)])
  with put_law [OF s'(2), of p e'] s'(3) obtain r t where "put p e' s' = Some (r, t)" "inv t"
    "view t = (case r of Inl _ \<Rightarrow> view s' | Inr _ \<Rightarrow> (view s')(p \<mapsto> e'))" by auto
  then show ?thesis using s' by (auto split: sum.splits)
qed

end

text \<open>A place is a page directory and the address of a user page.\<close>

definition user_page :: "u32 \<Rightarrow> bool" where
  "user_page va \<longleftrightarrow> page_aligned va \<and> va \<noteq> 0 \<and> va < 0x80000000"

definition space_of :: "nat \<Rightarrow> vm_space" where
  "space_of d = \<lparr>l1_table = d, segs = fresh_as\<rparr>"

definition page_view :: "nat set \<Rightarrow> vmem \<Rightarrow> nat \<times> u32 \<Rightarrow> (u32 \<times> u32) option" where
  "page_view D s = (\<lambda>(d, va). if d \<in> D \<and> user_page va then pmap_extract (space_of d) va s else None)"

definition page_ok :: "nat set \<Rightarrow> vmem \<Rightarrow> nat \<times> u32 \<Rightarrow> u32 \<times> u32 \<Rightarrow> bool" where
  "page_ok D s = (\<lambda>(d, va) (pa, fl). d \<in> D \<and> user_page va \<and> page_aligned pa \<and> flags_ok fl
     \<and> (\<not> is_phys fl \<longrightarrow> user_frame s D (pmap_pa_to_pf pa)))"

definition put_page :: "nat \<times> u32 \<Rightarrow> u32 \<times> u32 \<Rightarrow> vmem \<Rightarrow> (unit result \<times> vmem) option" where
  "put_page = (\<lambda>(d, va) (pa, fl). pmap_enter (space_of d) va pa fl)"

definition take_page :: "nat \<times> u32 \<Rightarrow> vmem \<Rightarrow> (unit result \<times> vmem) option" where
  "take_page = (\<lambda>(d, va). pmap_remove (space_of d) va)"

lemma space_of_dir [simp]: "l1_table (space_of d) = d"
  by (simp add: space_of_def)

lemma pmap_space_of:
  "pmap_enter (space_of (l1_table as)) = pmap_enter as" "pmap_remove (space_of (l1_table as)) = pmap_remove as"
  "pmap_extract (space_of (l1_table as)) = pmap_extract as"
  by (simp_all add: fun_eq_iff pmap_enter_def pmap_remove_def pmap_extract_def)

lemma slots_upd_view:
  assumes "slots_upd D s t d (pde_idx va) (pte_idx va) v" "d \<in> D" "user_page va"
  shows "page_view D t = (page_view D s)((d, va) := v)"
proof (rule ext, clarify)
  fix e x
  show "page_view D t (e, x) = ((page_view D s)((d, va) := v)) (e, x)"
  proof (cases "e \<in> D \<and> user_page x")
    case True
    then have "pde_idx x < 2048" using user_pde by (simp add: user_page_def)
    moreover have "pde_idx x = pde_idx va \<and> pte_idx x = pte_idx va \<longleftrightarrow> x = va"
      using page_idx_inj [of x va] True assms(3) by (auto simp: user_page_def)
    ultimately show ?thesis
      using True assms by (auto simp: page_view_def pmap_extract_slot slots_upd_def)
  next
    case False
    then show ?thesis using assms(2,3) by (auto simp: page_view_def)
  qed
qed

lemma view_slot: "d \<in> D \<Longrightarrow> user_page va \<Longrightarrow> page_view D s (d, va) = slot s d (pde_idx va) (pte_idx va)"
  by (simp add: page_view_def pmap_extract_slot)

lemma put_page_law:
  assumes wf: "maps_wf s D" and v: "page_view D s p = None" and ok: "page_ok D s p e"
  shows "\<exists>r s'. put_page p e s = Some (r, s') \<and> maps_wf s' D
    \<and> page_view D s' = (case r of Inl _ \<Rightarrow> page_view D s | Inr _ \<Rightarrow> (page_view D s)(p \<mapsto> e))"
proof -
  obtain d va pa fl where p: "p = (d, va)" "e = (pa, fl)" by (cases p, cases e) blast
  with ok have o: "d \<in> D" "user_page va" "page_aligned pa" "flags_ok fl" "\<not> is_phys fl \<longrightarrow> user_frame s D (pmap_pa_to_pf pa)"
    by (simp_all add: page_ok_def)
  have va: "page_aligned va" "va \<noteq> 0" "va < 0x80000000" using o(2) by (simp_all add: user_page_def)
  have "slot s d (pde_idx va) (pte_idx va) = None" using v p o by (simp add: view_slot)
  from pmap_enter_slot [of s D "space_of d", OF wf _ va _ o(3-5)] o(1) this
  consider "pmap_enter (space_of d) va pa fl s = Some (Inl ENOMEM, s)"
    | s' where "pmap_enter (space_of d) va pa fl s = Some (Inr (), s')" "maps_wf s' D"
        "slots_upd D s s' d (pde_idx va) (pte_idx va) (Some (pa, fl))" by auto
  then show ?thesis
  proof cases
    case 1
    then show ?thesis using wf p by (simp add: put_page_def)
  next
    case 2
    then show ?thesis using slots_upd_view [OF 2(3) o(1,2)] p by (simp add: put_page_def)
  qed
qed

lemma take_page_keeps:
  assumes wf: "maps_wf s D" and v: "page_view D s p = Some e"
  shows "\<exists>s'. take_page p s = Some (Inr (), s') \<and> maps_wf s' D \<and> page_view D s' = (page_view D s)(p := None) \<and> keeps D s s'"
proof -
  obtain d va pa fl where p: "p = (d, va)" "e = (pa, fl)" by (cases p, cases e) blast
  with v have o: "d \<in> D" "user_page va" by (simp_all add: page_view_def split: if_splits)
  have "slot s d (pde_idx va) (pte_idx va) = Some (pa, fl)" using v p o by (simp add: view_slot)
  from pmap_remove_slot [of s D "space_of d" va pa fl, OF wf] o this obtain s' where s':
    "pmap_remove (space_of d) va s = Some (Inr (), s')" "maps_wf s' D" "keeps D s s'"
    "slots_upd D s s' d (pde_idx va) (pte_idx va) None" by (auto simp: user_page_def)
  then show ?thesis using slots_upd_view [OF s'(4) o] p by (simp add: take_page_def)
qed

interpretation pages: place_map "\<lambda>s. maps_wf s D" "page_view D" "page_ok D" put_page take_page for D
proof unfold_locales
  fix s p e s' q e'
  assume "maps_wf s D" "page_view D s p = Some e" "take_page p s = Some (Inr (), s')" "page_ok D s q e'"
  with take_page_keeps [of s D p e] show "page_ok D s' q e'" by (auto simp: page_ok_def keeps_def)
qed (use put_page_law take_page_keeps in blast)+

text \<open>C33: The page maps of all processes behave as one partial map from (page directory, user page) to
  (physical address, flags).  For a user page \<open>va\<close> of a process, \<open>pmap_remove\<close> fails and changes nothing if the page is
  not there, and otherwise empties exactly this place; \<open>pmap_enter\<close> of an unmapped page fills exactly
  this place or leaves every map as it is; \<open>pmap_protect\<close> changes exactly the flags of this place; and
  \<open>pmap_enter\<close> followed by \<open>pmap_remove\<close> is the identity.  Each of them preserves the invariant of
  directories, page tables, reference counts and frames.\<close>

theorem pmap_refines_map:
  assumes "maps_wf s D" "l1_table as \<in> D" "user_page va"
  shows "case pmap_extract as va s of
      None \<Rightarrow> (\<exists>e. pmap_remove as va s = Some (Inl e, s))
        \<and> (\<forall>pa fl. page_aligned pa \<and> flags_ok fl \<and> (\<not> is_phys fl \<longrightarrow> user_frame s D (pmap_pa_to_pf pa)) \<longrightarrow>
             (\<exists>r s'. pmap_enter as va pa fl s = Some (r, s') \<and> maps_wf s' D
                \<and> (case r of
                     Inl _ \<Rightarrow> page_view D s' = page_view D s
                   | Inr _ \<Rightarrow> page_view D s' = (page_view D s)((l1_table as, va) \<mapsto> (pa, fl))
                       \<and> (\<exists>t. pmap_remove as va s' = Some (Inr (), t) \<and> maps_wf t D \<and> page_view D t = page_view D s))))
    | Some (pa, fl) \<Rightarrow>
        (\<exists>s'. pmap_remove as va s = Some (Inr (), s') \<and> maps_wf s' D \<and> page_view D s' = (page_view D s)((l1_table as, va) := None))
        \<and> (\<forall>fl'. flags_ok fl' \<and> is_phys fl' = is_phys fl \<longrightarrow>
             (\<exists>s'. pmap_protect as va fl' s = Some s' \<and> maps_wf s' D
                \<and> page_view D s' = (page_view D s)((l1_table as, va) \<mapsto> (pa, fl'))))"
proof -
  let ?p = "(l1_table as, va)"
  have v: "page_view D s ?p = pmap_extract as va s" using assms(2,3) by (simp add: view_slot pmap_extract_slot)
  have va: "page_aligned va" "va < 0x80000000" using assms(3) by (simp_all add: user_page_def)
  show ?thesis
  proof (cases "pmap_extract as va s")
    case None
    have "\<exists>e. pmap_remove as va s = Some (Inl e, s)" using None pmap_remove_none by (simp add: pmap_extract_slot)
    moreover have "\<exists>r s'. pmap_enter as va pa fl s = Some (r, s') \<and> maps_wf s' D
        \<and> (case r of Inl _ \<Rightarrow> page_view D s' = page_view D s
           | Inr _ \<Rightarrow> page_view D s' = (page_view D s)(?p \<mapsto> (pa, fl))
               \<and> (\<exists>t. pmap_remove as va s' = Some (Inr (), t) \<and> maps_wf t D \<and> page_view D t = page_view D s))"
      if "page_aligned pa \<and> flags_ok fl \<and> (\<not> is_phys fl \<longrightarrow> user_frame s D (pmap_pa_to_pf pa))" for pa fl
    proof -
      have ok: "page_ok D s ?p (pa, fl)" using that assms(2,3) by (simp add: page_ok_def)
      have n: "page_view D s ?p = None" using v None by simp
      from pages.put_law [OF assms(1) n ok] pages.put_take [OF assms(1) n ok]
      show ?thesis by (fastforce simp: put_page_def take_page_def pmap_space_of split: sum.split)
    qed
    ultimately show ?thesis using None by simp
  next
    case (Some e)
    obtain pa fl where e: "e = (pa, fl)" by (cases e)
    from pages.take_law [OF assms(1), of ?p e] Some v
    have "\<exists>s'. pmap_remove as va s = Some (Inr (), s') \<and> maps_wf s' D \<and> page_view D s' = (page_view D s)(?p := None)"
      by (simp add: take_page_def pmap_space_of)
    moreover have "\<exists>s'. pmap_protect as va fl' s = Some s' \<and> maps_wf s' D \<and> page_view D s' = (page_view D s)(?p \<mapsto> (pa, fl'))"
      if "flags_ok fl' \<and> is_phys fl' = is_phys fl" for fl'
      using pmap_protect_slot [OF assms(1,2) va(2,1), of pa fl fl'] Some e that slots_upd_view [OF _ assms(2,3)]
      by (fastforce simp: pmap_extract_slot)
    ultimately show ?thesis using Some e by simp
  qed
qed

text \<open>A first process: an address space made by \<open>pmap_create\<close> in the memory after start-up.\<close>

definition demo_created :: "vm_space \<times> vmem" where
  "demo_created = (case pmap_create (space_of 0) demo_memory of Some (Some as, s) \<Rightarrow> (as, s) | _ \<Rightarrow> (space_of 0, demo_memory))"

definition demo_as :: vm_space where
  "demo_as = fst demo_created"

definition demo_maps :: vmem where
  "demo_maps = snd demo_created"

lemma demo_memory_maps: "maps_wf demo_memory {}"
  by (simp add: maps_wf_def demo_memory_wf dirs_wf_def pdes_wf_def tables_inj_def counts_wf_def ptes_wf_def slots_wf_def
      dir_frames_def tables_def)

lemma demo_create: "pmap_create (space_of 0) demo_memory = Some (Some demo_as, demo_maps)"
proof -
  have "\<not> pf_lists_empty 16384 demo_memory" by (simp add: pf_lists_empty_def demo_memory_eq)
  with pmap_create_slot [OF demo_memory_maps, of "space_of 0"]
  show ?thesis by (auto simp: demo_as_def demo_maps_def demo_created_def)
qed

lemma demo_maps_wf: "maps_wf demo_maps {l1_table demo_as}" "i < 2048 \<Longrightarrow> slot demo_maps (l1_table demo_as) i j = None"
proof -
  from pmap_create_slot [OF demo_memory_maps, of "space_of 0"] demo_create obtain d where d:
    "demo_as = (space_of 0)\<lparr>l1_table := d\<rparr>" "maps_wf demo_maps {d}" "\<forall>i < 2048. \<forall>j. slot demo_maps d i j = None" by auto
  have "l1_table demo_as = d" unfolding d(1) by simp
  then show "maps_wf demo_maps {l1_table demo_as}" "i < 2048 \<Longrightarrow> slot demo_maps (l1_table demo_as) i j = None"
    using d(2,3) by simp_all
qed

lemma demo_maps_avail: "16 \<le> avail demo_maps"
proof -
  have "avail demo_memory = 32" by (simp add: avail_def demo_memory_eq demo_pageframes_def)
  then show ?thesis using pmap_create_avail [OF demo_memory_wf demo_create] by simp
qed

theorem pmap_refines_map_witness:
  "\<exists>r s'. pmap_enter demo_as 0x100000 0x20000000 MEM_PHYS demo_maps = Some (r, s') \<and> maps_wf s' {l1_table demo_as}"
proof -
  have up: "user_page 0x100000" by (simp add: user_page_def page_aligned_def)
  have "pde_idx 0x100000 < 2048" by (simp add: pde_idx_div)
  then have "pmap_extract demo_as 0x100000 demo_maps = None" by (simp add: pmap_extract_slot demo_maps_wf(2))
  moreover have "page_aligned 0x20000000" "flags_ok MEM_PHYS" "is_phys MEM_PHYS"
    by (simp_all add: page_aligned_def flags_ok_def is_phys_def MEM_PHYS_def MEM_MASK_def)
  ultimately show ?thesis using pmap_refines_map [OF demo_maps_wf(1) insertI1 up] by simp blast
qed

end
