(* ===== verification/Address_Spaces.thy ===== *)
theory Address_Spaces
  imports Page_Maps
begin

unbundle bit_operations_syntax

text \<open>
  Address spaces, \<^verbatim>\<open>kernel/vm/as.c\<close>, \<^verbatim>\<open>kernel/vm/vm.c\<close> and \<^verbatim>\<open>kernel/vm/pagefault.c\<close>: fork with
  copy-on-write, the write fault, and the allocation of memory by a process.  An operation takes the
  \<^verbatim>\<open>struct AddressSpace\<close> of the process and the memory; \<open>None\<close> is a panic or a memory error of
  the kernel.  A loop over the pages from one address to another runs over the list \<open>page_range\<close>.

  The second half gives the invariant \<open>vm_wf\<close>: no frame has more mappings than its reference count
  says, and a page that can be written has one mapping only.  Fork, write faults and allocation keep
  it, and it makes the memory of a process its own.
\<close>

section \<open>Fork and exit\<close>

definition VM_USER_BASE :: u32 where
  "VM_USER_BASE = 0x00008000"

definition page_range :: "u32 \<Rightarrow> u32 \<Rightarrow> u32 list" where
  "page_range lo hi = (if lo < hi then map (\<lambda>k. lo + of_nat k * PAGE_SIZE) [0..<(unat (hi - lo) + 4095) div 4096] else [])"

definition free_space :: "AddressSpace \<Rightarrow> AddressSpace" where
  "free_space sg = sg\<lparr>segment_cnt := 1,
     segment_table := (segment_table sg)[0 := VM_USER_BASE OR SEG_TYPE_FREE, 1 := VM_USER_CEILING OR SEG_TYPE_CEILING]\<rparr>"

fun cleanup_pages :: "vm_space \<Rightarrow> u32 list \<Rightarrow> vmem \<Rightarrow> vmem option" where
  "cleanup_pages as [] s = Some s"
| "cleanup_pages as (va # vas) s =
     (if \<not> pmap_is_page_present as va s then cleanup_pages as vas s
      else case pmap_extract as va s of
        None \<Rightarrow> cleanup_pages as vas s
      | Some (pa, flags) \<Rightarrow> do {
          (r, s) \<leftarrow> pmap_remove as va s;
          case r of
            Inl _ \<Rightarrow> cleanup_pages as vas s
          | Inr _ \<Rightarrow>
              if flags AND MEM_PHYS = MEM_PHYS then cleanup_pages as vas s
              else do {
                s \<leftarrow> upd_frame (pmap_pa_to_pf pa) (\<lambda>pf. pf\<lparr>reference_cnt := reference_cnt pf - 1\<rparr>) s;
                pf \<leftarrow> frame s (pmap_pa_to_pf pa);
                cleanup_pages as vas (if reference_cnt pf = 0 then free_pageframe (pmap_pa_to_pf pa) s else s) } })"

fun cleanup_tables :: "vm_space \<Rightarrow> u32 list \<Rightarrow> vmem \<Rightarrow> vmem option" where
  "cleanup_tables as [] s = Some s"
| "cleanup_tables as (vpt # vpts) s =
     (if \<not> pmap_is_pagetable_present as vpt s then cleanup_tables as vpts s
      else do {
        s \<leftarrow> cleanup_pages as (map (\<lambda>k. vpt + of_nat k * PAGE_SIZE) [0..<N_PAGETABLE_PTE]) s;
        cleanup_tables as vpts s })"

text \<open>The addresses \<^verbatim>\<open>vpt\<close> of the page tables up to \<^verbatim>\<open>VM_USER_CEILING\<close>; fork stops before it, clean-up at it.\<close>

definition table_addrs :: "nat \<Rightarrow> u32 list" where
  "table_addrs n = map (\<lambda>k. of_nat k * 0x100000) [0..<n]"

definition cleanup_address_space :: "vm_space \<Rightarrow> vmem \<Rightarrow> (vm_space \<times> vmem) option" where
  "cleanup_address_space as s = do {
     s \<leftarrow> cleanup_tables as (table_addrs 2033) s;
     Some (as\<lparr>segs := free_space (segs as)\<rparr>, s) }"

definition free_address_space :: "vm_space \<Rightarrow> vmem \<Rightarrow> vmem" where
  "free_address_space as s = pmap_destroy as s"

text \<open>One page of fork; the result \<open>False\<close> is the jump to \<^verbatim>\<open>cleanup\<close>.\<close>

definition fork_page :: "vm_space \<Rightarrow> vm_space \<Rightarrow> u32 \<Rightarrow> vmem \<Rightarrow> (bool \<times> vmem) option" where
  "fork_page new_as old_as va s =
     (if \<not> pmap_is_page_present old_as va s then Some (True, s)
      else case pmap_extract old_as va s of
        None \<Rightarrow> Some (False, s)
      | Some (pa, flags) \<Rightarrow>
          if flags AND MEM_PHYS \<noteq> MEM_PHYS \<and> flags AND PROT_WRITE \<noteq> 0 then do {
            let flags = flags OR MAP_COW;
            s \<leftarrow> pmap_protect old_as va flags s;
            (r, s) \<leftarrow> pmap_enter new_as va pa flags s;
            case r of
              Inl _ \<Rightarrow> Some (False, s)
            | Inr _ \<Rightarrow> do {
                s \<leftarrow> upd_frame (pmap_pa_to_pf pa) (\<lambda>pf. pf\<lparr>reference_cnt := reference_cnt pf + 1\<rparr>) s;
                Some (True, s) } }
          else if flags AND MEM_PHYS \<noteq> MEM_PHYS then do {
            (r, s) \<leftarrow> pmap_enter new_as va pa flags s;
            case r of
              Inl _ \<Rightarrow> Some (False, s)
            | Inr _ \<Rightarrow> do {
                s \<leftarrow> upd_frame (pmap_pa_to_pf pa) (\<lambda>pf. pf\<lparr>reference_cnt := reference_cnt pf + 1\<rparr>) s;
                Some (True, s) } }
          else do {
            let flags = MEM_PHYS OR PROT_READ OR PROT_WRITE;
            (r, s) \<leftarrow> pmap_enter new_as va pa flags s;
            case r of Inl _ \<Rightarrow> Some (False, s) | Inr _ \<Rightarrow> Some (True, s) })"

fun fork_pages :: "vm_space \<Rightarrow> vm_space \<Rightarrow> u32 list \<Rightarrow> vmem \<Rightarrow> (bool \<times> vmem) option" where
  "fork_pages new_as old_as [] s = Some (True, s)"
| "fork_pages new_as old_as (va # vas) s = do {
     (ok, s) \<leftarrow> fork_page new_as old_as va s;
     if ok then fork_pages new_as old_as vas s else Some (False, s) }"

fun fork_tables :: "vm_space \<Rightarrow> vm_space \<Rightarrow> u32 list \<Rightarrow> vmem \<Rightarrow> (bool \<times> vmem) option" where
  "fork_tables new_as old_as [] s = Some (True, s)"
| "fork_tables new_as old_as (vpt # vpts) s =
     (if \<not> pmap_is_pagetable_present old_as vpt s then fork_tables new_as old_as vpts s
      else do {
        (ok, s) \<leftarrow> fork_pages new_as old_as (map (\<lambda>k. vpt + of_nat k * PAGE_SIZE) [0..<N_PAGETABLE_PTE]) s;
        if ok then fork_tables new_as old_as vpts s else Some (False, s) })"

definition fork_segments :: "AddressSpace \<Rightarrow> AddressSpace \<Rightarrow> AddressSpace option" where
  "fork_segments new old =
     (if segment_cnt old < length (segment_table old) \<and> segment_cnt old < length (segment_table new)
      then Some (new\<lparr>segment_cnt := segment_cnt old,
             segment_table := take (Suc (segment_cnt old)) (segment_table old) @ drop (Suc (segment_cnt old)) (segment_table new)\<rparr>)
      else None)"

definition fork_address_space :: "vm_space \<Rightarrow> vm_space \<Rightarrow> vmem \<Rightarrow> (bool \<times> vm_space \<times> vmem) option" where
  "fork_address_space new_as old_as s = do {
     (as, s) \<leftarrow> pmap_create new_as s;
     case as of
       None \<Rightarrow> Some (False, new_as, s)
     | Some new_as \<Rightarrow> do {
         sg \<leftarrow> fork_segments (segs new_as) (segs old_as);
         let new_as = new_as\<lparr>segs := sg\<rparr>;
         (ok, s) \<leftarrow> fork_tables new_as old_as (table_addrs 2032) s;
         if ok then Some (True, new_as, s)
         else do {
           (new_as, s) \<leftarrow> cleanup_address_space new_as s;
           Some (False, new_as, free_address_space new_as s) } } }"

section \<open>Page faults\<close>

text \<open>A write to a page that others share: the process gets a copy.\<close>

definition cow_copy :: "vm_space \<Rightarrow> u32 \<Rightarrow> u32 \<Rightarrow> u32 \<Rightarrow> vmem \<Rightarrow> (bool \<times> vmem) option" where
  "cow_copy as addr paddr page_flags s = do {
     s \<leftarrow> upd_frame (pmap_pa_to_pf paddr) (\<lambda>pf. pf\<lparr>reference_cnt := reference_cnt pf - 1\<rparr>) s;
     (r, s) \<leftarrow> pmap_remove as addr s;
     case r of
       Inl _ \<Rightarrow> Some (False, s)
     | Inr _ \<Rightarrow> do {
         (new, s) \<leftarrow> alloc_pageframe PAGE_SIZE s;
         case new of
           None \<Rightarrow> Some (False, s)
         | Some f \<Rightarrow> do {
             new_pa \<leftarrow> pmap_pf_to_pa s f;
             let s = s\<lparr>page_bytes := (page_bytes s)(pmap_pa_to_pf new_pa := page_bytes s (pmap_pa_to_pf paddr))\<rparr>;
             let page_flags = (page_flags OR PROT_WRITE) AND NOT MAP_COW;
             (r, s) \<leftarrow> pmap_enter as addr new_pa page_flags s;
             case r of
               Inl _ \<Rightarrow> Some (False, free_pageframe f s)
             | Inr _ \<Rightarrow> do {
                 s \<leftarrow> upd_frame f (\<lambda>pf. pf\<lparr>reference_cnt := reference_cnt pf + 1\<rparr>) s;
                 Some (True, s) } } } }"

text \<open>A write to a page that nobody else maps any more: it becomes writable.\<close>

definition cow_reuse :: "vm_space \<Rightarrow> u32 \<Rightarrow> u32 \<Rightarrow> u32 \<Rightarrow> vmem \<Rightarrow> (bool \<times> vmem) option" where
  "cow_reuse as addr paddr page_flags s = do {
     (r, s) \<leftarrow> pmap_remove as addr s;
     case r of
       Inl _ \<Rightarrow> Some (False, s)
     | Inr _ \<Rightarrow> do {
         let page_flags = (page_flags OR PROT_WRITE) AND NOT MAP_COW;
         (r, s) \<leftarrow> pmap_enter as addr paddr page_flags s;
         case r of
           Inl _ \<Rightarrow> do {
             s \<leftarrow> upd_frame (pmap_pa_to_pf paddr) (\<lambda>pf. pf\<lparr>reference_cnt := reference_cnt pf - 1\<rparr>) s;
             Some (False, s) }
         | Inr _ \<Rightarrow> Some (True, s) } }"

definition page_fault :: "vm_space \<Rightarrow> u32 \<Rightarrow> u32 \<Rightarrow> vmem \<Rightarrow> (bool \<times> vmem) option" where
  "page_fault as addr access s =
     (let addr = ALIGN_DOWN addr PAGE_SIZE
      in case pmap_extract as addr s of
           None \<Rightarrow> Some (False, s)
         | Some (paddr, page_flags) \<Rightarrow>
             if page_flags AND MEM_MASK = MEM_PHYS then Some (False, s)
             else if page_flags AND MEM_MASK \<noteq> MEM_ALLOC then Some (False, s)
             else if access AND PROT_WRITE = 0 then Some (False, s)
             else if page_flags AND (PROT_WRITE OR MAP_COW) = PROT_WRITE then Some (False, s)
             else if page_flags AND (PROT_WRITE OR MAP_COW) \<noteq> PROT_WRITE OR MAP_COW then Some (False, s)
             else do {
               pf \<leftarrow> frame s (pmap_pa_to_pf paddr);
               if 1 < reference_cnt pf then cow_copy as addr paddr page_flags s
               else if reference_cnt pf = 1 then cow_reuse as addr paddr page_flags s
               else None })"

section \<open>Memory of a process\<close>

definition MAP_FIXED :: u32 where
  "MAP_FIXED = 8"

definition sys_virtualtophysaddr :: "vm_space \<Rightarrow> u32 \<Rightarrow> vmem \<Rightarrow> u32" where
  "sys_virtualtophysaddr as addr s =
     (let va = ALIGN_DOWN addr PAGE_SIZE
      in if \<not> pmap_is_page_present as va s then 0
         else case pmap_extract as va s of None \<Rightarrow> 0 | Some (pa, flags) \<Rightarrow> pa)"

text \<open>The allocation loops return the address at which they failed.\<close>

fun alloc_pages :: "vm_space \<Rightarrow> u32 \<Rightarrow> u32 list \<Rightarrow> vmem \<Rightarrow> (u32 option \<times> vmem) option" where
  "alloc_pages as flags [] s = Some (None, s)"
| "alloc_pages as flags (va # vas) s = do {
     (pf, s) \<leftarrow> alloc_pageframe PAGE_SIZE s;
     case pf of
       None \<Rightarrow> Some (Some va, s)
     | Some f \<Rightarrow> do {
         pa \<leftarrow> pmap_pf_to_pa s f;
         (r, s) \<leftarrow> pmap_enter as va pa flags s;
         case r of
           Inl _ \<Rightarrow> Some (Some va, s)
         | Inr _ \<Rightarrow> do {
             s \<leftarrow> upd_frame f (\<lambda>pf. pf\<lparr>reference_cnt := 1\<rparr>) s;
             alloc_pages as flags vas s } } }"

text \<open>
  The loops at \<^verbatim>\<open>cleanup\<close> call \<open>pmap_extract\<close> with NULL for the flags; for a page that is
  present, it stores the flags there.
\<close>

fun alloc_cleanup :: "vm_space \<Rightarrow> u32 list \<Rightarrow> vmem \<Rightarrow> vmem option" where
  "alloc_cleanup as [] s = Some s"
| "alloc_cleanup as (va # vas) s =
     (case pmap_extract as va s of
        None \<Rightarrow> alloc_cleanup as vas s
      | Some _ \<Rightarrow> None)"

definition sys_virtualalloc :: "vm_space \<Rightarrow> u32 \<Rightarrow> u32 \<Rightarrow> u32 \<Rightarrow> vmem \<Rightarrow> (u32 option \<times> vm_space \<times> vmem) option" where
  "sys_virtualalloc as addr len flags s = do {
     let addr = ALIGN_DOWN addr PAGE_SIZE;
     let len = ALIGN_UP len PAGE_SIZE;
     let flags = (flags AND NOT VM_SYSTEM_MASK) OR MEM_ALLOC;
     (r, sg) \<leftarrow> segment_create (segs as) addr len SEG_TYPE_ALLOC (flags AND MAP_FIXED \<noteq> 0);
     let as = as\<lparr>segs := sg\<rparr>;
     case r of
       None \<Rightarrow> Some (None, as, s)
     | Some addr \<Rightarrow> do {
         (failed, s) \<leftarrow> alloc_pages as flags (page_range addr (addr + len)) s;
         case failed of
           None \<Rightarrow> Some (Some addr, as, s)
         | Some ceiling \<Rightarrow> do {
             s \<leftarrow> alloc_cleanup as (page_range addr ceiling) s;
             sg \<leftarrow> segment_free (segs as) addr len;
             Some (None, as\<lparr>segs := sg\<rparr>, s) } } }"

fun phys_pages :: "vm_space \<Rightarrow> u32 \<Rightarrow> u32 list \<Rightarrow> u32 \<Rightarrow> vmem \<Rightarrow> (u32 option \<times> vmem) option" where
  "phys_pages as flags [] pa s = Some (None, s)"
| "phys_pages as flags (va # vas) pa s = do {
     (r, s) \<leftarrow> pmap_enter as va pa flags s;
     case r of
       Inl _ \<Rightarrow> Some (Some va, s)
     | Inr _ \<Rightarrow> phys_pages as flags vas (pa + PAGE_SIZE) s }"

definition sys_virtualallocphys :: "vm_space \<Rightarrow> u32 \<Rightarrow> u32 \<Rightarrow> u32 \<Rightarrow> u32 \<Rightarrow> vmem \<Rightarrow> (u32 option \<times> vm_space \<times> vmem) option" where
  "sys_virtualallocphys as addr len flags paddr s = do {
     let addr = ALIGN_DOWN addr PAGE_SIZE;
     let paddr = ALIGN_DOWN paddr PAGE_SIZE;
     let len = ALIGN_UP len PAGE_SIZE;
     let flags = (flags AND NOT VM_SYSTEM_MASK) OR MEM_PHYS;
     (r, sg) \<leftarrow> segment_create (segs as) addr len SEG_TYPE_PHYS (flags AND MAP_FIXED \<noteq> 0);
     let as = as\<lparr>segs := sg\<rparr>;
     case r of
       None \<Rightarrow> Some (None, as, s)
     | Some addr \<Rightarrow> do {
         (failed, s) \<leftarrow> phys_pages as flags (page_range addr (addr + len)) paddr s;
         case failed of
           None \<Rightarrow> Some (Some addr, as, s)
         | Some ceiling \<Rightarrow> do {
             s \<leftarrow> alloc_cleanup as (page_range addr ceiling) s;
             sg \<leftarrow> segment_free (segs as) addr len;
             Some (None, as\<lparr>segs := sg\<rparr>, s) } } }"

fun free_pages :: "vm_space \<Rightarrow> u32 list \<Rightarrow> vmem \<Rightarrow> vmem option" where
  "free_pages as [] s = Some s"
| "free_pages as (va # vas) s = do {
     (r, s) \<leftarrow> pmap_remove as va s;
     free_pages as vas s }"

definition sys_virtualfree :: "vm_space \<Rightarrow> u32 \<Rightarrow> u32 \<Rightarrow> vmem \<Rightarrow> (vm_space \<times> vmem) option" where
  "sys_virtualfree as addr len s = do {
     let addr = ALIGN_DOWN addr PAGE_SIZE;
     let len = ALIGN_UP len PAGE_SIZE;
     s \<leftarrow> free_pages as (page_range addr (addr + len)) s;
     sg \<leftarrow> segment_free (segs as) addr len;
     Some (as\<lparr>segs := sg\<rparr>, s) }"

text \<open>\<^verbatim>\<open>sys_virtualprotect\<close> returns 0 before its first effect.\<close>

definition sys_virtualprotect :: "vm_space \<Rightarrow> u32 \<Rightarrow> u32 \<Rightarrow> u32 \<Rightarrow> vmem \<Rightarrow> int \<times> vmem" where
  "sys_virtualprotect as addr len flags s = (0, s)"

section \<open>Reference counts\<close>

text \<open>The places at which a frame is mapped, in a map \<open>m\<close> from directory and indices to address and
  flags; and the invariant on the counts \<open>c\<close>.\<close>

type_synonym slots = "nat \<Rightarrow> nat \<Rightarrow> nat \<Rightarrow> (u32 \<times> u32) option"

definition mappers :: "nat set \<Rightarrow> slots \<Rightarrow> nat \<Rightarrow> (nat \<times> nat \<times> nat) set" where
  "mappers D m f = {(d, i, j). d \<in> D \<and> i < 2048 \<and> j < 256 \<and> (\<exists>pa fl. m d i j = Some (pa, fl) \<and> \<not> is_phys fl \<and> pmap_pa_to_pf pa = f)}"

definition refs_ok :: "nat set \<Rightarrow> slots \<Rightarrow> (nat \<Rightarrow> int) \<Rightarrow> bool" where
  "refs_ok D m c \<longleftrightarrow> (\<forall>f. mappers D m f \<noteq> {} \<longrightarrow> int (card (mappers D m f)) \<le> c f)
     \<and> (\<forall>d \<in> D. \<forall>i < 2048. \<forall>j < 256. \<forall>pa fl. m d i j = Some (pa, fl) \<longrightarrow> \<not> is_phys fl \<longrightarrow> writable fl
          \<longrightarrow> mappers D m (pmap_pa_to_pf pa) = {(d, i, j)})"

definition counts :: "vmem \<Rightarrow> nat \<Rightarrow> int" where
  "counts s f = reference_cnt (pageframe_table s ! f)"

definition vm_wf :: "vmem \<Rightarrow> nat set \<Rightarrow> bool" where
  "vm_wf s D \<longleftrightarrow> maps_wf s D \<and> refs_ok D (slot s) (counts s)"

definition slot_set :: "slots \<Rightarrow> nat \<Rightarrow> nat \<Rightarrow> nat \<Rightarrow> (u32 \<times> u32) option \<Rightarrow> slots" where
  "slot_set m d i j v = (\<lambda>e k l. if e = d \<and> k = i \<and> l = j then v else m e k l)"

lemma mappers_finite: "finite D \<Longrightarrow> finite (mappers D m f)"
  by (rule finite_subset [of _ "D \<times> {..<2048} \<times> {..<256}"]) (auto simp: mappers_def)

lemma mappers_cong:
  "(\<And>e k l. e \<in> D \<Longrightarrow> k < 2048 \<Longrightarrow> l < 256 \<Longrightarrow> m e k l = m' e k l) \<Longrightarrow> mappers D m f = mappers D m' f"
  by (auto simp: mappers_def)

lemma refs_ok_cong:
  assumes "\<And>e k l. e \<in> D \<Longrightarrow> k < 2048 \<Longrightarrow> l < 256 \<Longrightarrow> m' e k l = m e k l"
    and "\<And>f. mappers D m f \<noteq> {} \<Longrightarrow> c f \<le> c' f"
  shows "refs_ok D m c \<Longrightarrow> refs_ok D m' c'"
proof -
  have e: "mappers D m' f = mappers D m f" for f by (intro mappers_cong) (simp add: assms(1))
  assume R: "refs_ok D m c"
  have "int (card (mappers D m f)) \<le> c' f" if "mappers D m f \<noteq> {}" for f
    using R assms(2) [OF that] that unfolding refs_ok_def by (meson order_trans)
  then show "refs_ok D m' c'"
    using R assms(1) unfolding refs_ok_def e by simp
qed

lemma mappers_set:
  assumes "d \<in> D" "i < 2048" "j < 256"
  shows "mappers D (slot_set m d i j v) f =
    (if \<exists>pa fl. v = Some (pa, fl) \<and> \<not> is_phys fl \<and> pmap_pa_to_pf pa = f then insert (d, i, j) (mappers D m f)
     else mappers D m f - {(d, i, j)})"
  using assms by (auto simp: mappers_def slot_set_def)

lemma mapper_None: "m d i j = None \<Longrightarrow> (d, i, j) \<notin> mappers D m f"
  by (simp add: mappers_def)

lemma refs_ok_writable:
  assumes "refs_ok D m c" "(x, k, l) \<in> mappers D m f" "m x k l = Some (q, fl)" "writable fl"
  shows "mappers D m f = {(x, k, l)}"
proof -
  have "x \<in> D" "k < 2048" "l < 256" "\<not> is_phys fl" "pmap_pa_to_pf q = f" using assms(2,3) by (auto simp: mappers_def)
  then show ?thesis using assms unfolding refs_ok_def by blast
qed

text \<open>Entering a mapping of a frame that has a reference to spare, of which no other mapping can be
  written.\<close>

lemma refs_enter:
  assumes R: "refs_ok D m c" and D: "finite D" "d \<in> D" "i < 2048" "j < 256" and free: "m d i j = None"
    and fl: "\<not> is_phys fl" and c: "\<And>g. mappers D m g \<noteq> {} \<Longrightarrow> c g \<le> c' g"
      "int (card (mappers D m (pmap_pa_to_pf pa))) + 1 \<le> c' (pmap_pa_to_pf pa)"
    and ro: "\<And>e k l q fl. (e, k, l) \<in> mappers D m (pmap_pa_to_pf pa) \<Longrightarrow> m e k l = Some (q, fl) \<Longrightarrow> \<not> writable fl"
    and w: "writable fl \<Longrightarrow> mappers D m (pmap_pa_to_pf pa) = {}"
  shows "refs_ok D (slot_set m d i j (Some (pa, fl))) c'"
proof -
  let ?f = "pmap_pa_to_pf pa" and ?m = "slot_set m d i j (Some (pa, fl))"
  have new: "mappers D ?m g = (if g = ?f then insert (d, i, j) (mappers D m g) else mappers D m g)" for g
    using mappers_set [OF D(2,3,4), of m "Some (pa, fl)" g] fl mapper_None [of m d i j D g, OF free] by auto
  have nin: "(d, i, j) \<notin> mappers D m ?f" using free by (simp add: mapper_None)
  show ?thesis
    unfolding refs_ok_def
  proof (intro conjI allI ballI impI)
    fix g assume "mappers D ?m g \<noteq> {}"
    then show "int (card (mappers D ?m g)) \<le> c' g"
      using R c(1) [of g] c(2) nin mappers_finite [OF D(1), of m] unfolding refs_ok_def new
      by (cases "g = ?f") (auto intro: order_trans)
  next
    fix e k l q fl' assume E: "e \<in> D" "k < 2048" "l < 256" "?m e k l = Some (q, fl')" "\<not> is_phys fl'" "writable fl'"
    show "mappers D ?m (pmap_pa_to_pf q) = {(e, k, l)}"
    proof (cases "(e, k, l) = (d, i, j)")
      case True
      then have "q = pa" "fl' = fl" using E(4) by (auto simp: slot_set_def)
      then show ?thesis using w E(6) True by (simp add: new)
    next
      case False
      then have m: "m e k l = Some (q, fl')" using E(4) by (auto simp: slot_set_def)
      have "(e, k, l) \<in> mappers D m (pmap_pa_to_pf q)" using E m by (auto simp: mappers_def)
      then have "pmap_pa_to_pf q \<noteq> ?f" using ro m E(6) by metis
      then show ?thesis using R E m unfolding refs_ok_def new by auto
    qed
  qed
qed

lemma refs_enter_phys:
  assumes R: "refs_ok D m c" and D: "d \<in> D" "i < 2048" "j < 256" and free: "m d i j = None" and fl: "is_phys fl"
    and c: "\<And>g. mappers D m g \<noteq> {} \<Longrightarrow> c g \<le> c' g"
  shows "refs_ok D (slot_set m d i j (Some (pa, fl))) c'"
proof -
  let ?m = "slot_set m d i j (Some (pa, fl))"
  have new: "mappers D ?m g = mappers D m g" for g
    using mappers_set [OF D, of m "Some (pa, fl)" g] fl mapper_None [of m d i j D g, OF free] by auto
  show ?thesis
    unfolding refs_ok_def new
  proof (intro conjI allI ballI impI)
    show "int (card (mappers D m g)) \<le> c' g" if "mappers D m g \<noteq> {}" for g
      using R c [OF that] that unfolding refs_ok_def by (meson order_trans)
    show "mappers D m (pmap_pa_to_pf q) = {(e, k, l)}"
      if "e \<in> D" "k < 2048" "l < 256" "?m e k l = Some (q, fl')" "\<not> is_phys fl'" "writable fl'" for e k l q fl'
    proof -
      have "m e k l = Some (q, fl')" using that fl by (auto simp: slot_set_def split: if_splits)
      then show ?thesis using R that unfolding refs_ok_def by auto
    qed
  qed
qed

text \<open>Removing a mapping; its frame may lose one reference.\<close>

lemma refs_remove:
  assumes R: "refs_ok D m c" and D: "finite D" "d \<in> D" "i < 2048" "j < 256"
    and c: "\<And>g. mappers D m g \<noteq> {} \<Longrightarrow> c g \<le> c' g \<or> (d, i, j) \<in> mappers D m g \<and> c g - 1 \<le> c' g"
  shows "refs_ok D (slot_set m d i j None) c'"
proof -
  let ?m = "slot_set m d i j None"
  have new: "mappers D ?m g = mappers D m g - {(d, i, j)}" for g
    using mappers_set [OF D(2,3,4), of m None g] by simp
  show ?thesis
    unfolding refs_ok_def
  proof (intro conjI allI ballI impI)
    fix g assume ne: "mappers D ?m g \<noteq> {}"
    then have ne': "mappers D m g \<noteq> {}" unfolding new by auto
    then have le: "int (card (mappers D m g)) \<le> c g" using R by (simp add: refs_ok_def)
    show "int (card (mappers D ?m g)) \<le> c' g"
    proof (cases "(d, i, j) \<in> mappers D m g")
      case True
      then have "0 < card (mappers D m g)" using mappers_finite [OF D(1)] by (auto simp: card_gt_0_iff)
      then show ?thesis using True le c [OF ne'] by (auto simp: new of_nat_diff)
    next
      case False
      then show ?thesis using le c [OF ne'] by (simp add: new)
    qed
  next
    fix e k l q fl' assume E: "e \<in> D" "k < 2048" "l < 256" "?m e k l = Some (q, fl')" "\<not> is_phys fl'" "writable fl'"
    then have m: "m e k l = Some (q, fl')" and ne: "(e, k, l) \<noteq> (d, i, j)" by (auto simp: slot_set_def split: if_splits)
    then have "mappers D m (pmap_pa_to_pf q) = {(e, k, l)}" using R E unfolding refs_ok_def by blast
    then show "mappers D ?m (pmap_pa_to_pf q) = {(e, k, l)}" using ne by (auto simp: new)
  qed
qed

text \<open>Making a mapping read-only.\<close>

lemma refs_protect:
  assumes R: "refs_ok D m c" and D: "d \<in> D" "i < 2048" "j < 256" and m: "m d i j = Some (pa, fl0)"
    and fl: "is_phys fl = is_phys fl0" "\<not> writable fl" and c: "\<And>g. mappers D m g \<noteq> {} \<Longrightarrow> c g \<le> c' g"
  shows "refs_ok D (slot_set m d i j (Some (pa, fl))) c'"
proof -
  let ?m = "slot_set m d i j (Some (pa, fl))"
  have new: "mappers D ?m g = mappers D m g" for g
    using D m fl(1) by (auto simp: mappers_def slot_set_def)
  show ?thesis
    unfolding refs_ok_def new
  proof (intro conjI allI ballI impI)
    show "int (card (mappers D m g)) \<le> c' g" if "mappers D m g \<noteq> {}" for g
      using R c [OF that] that unfolding refs_ok_def by (meson order_trans)
    show "mappers D m (pmap_pa_to_pf q) = {(e, k, l)}"
      if "e \<in> D" "k < 2048" "l < 256" "?m e k l = Some (q, fl')" "\<not> is_phys fl'" "writable fl'" for e k l q fl'
    proof -
      have "m e k l = Some (q, fl')" using that fl(2) by (auto simp: slot_set_def split: if_splits)
      then show ?thesis using R that unfolding refs_ok_def by auto
    qed
  qed
qed

section \<open>The memory a process sees\<close>

text \<open>A page is not mapped, or maps physical memory, or has contents of its own.\<close>

definition upage :: "vmem \<Rightarrow> nat \<Rightarrow> nat \<Rightarrow> nat \<Rightarrow> (u32 + (nat \<Rightarrow> u8)) option" where
  "upage s d i j = (case slot s d i j of
      None \<Rightarrow> None
    | Some (pa, fl) \<Rightarrow> Some (if is_phys fl then Inl pa else Inr (page_bytes s (pmap_pa_to_pf pa))))"

lemma mapped_user:
  assumes "maps_wf s D" "mappers D (slot s) f \<noteq> {}"
  shows "user_frame s D f"
  using assms slots_wfD(2) [OF assms(1)] by (fastforce simp: mappers_def)

lemma keeps_counts: "keeps D s t \<Longrightarrow> maps_wf s D \<Longrightarrow> mappers D (slot s) f \<noteq> {} \<Longrightarrow> counts t f = counts s f"
  using mapped_user by (simp add: keeps_def counts_def)

lemma slots_upd_set:
  "slots_upd D s t d i j v \<Longrightarrow> e \<in> D \<Longrightarrow> k < 2048 \<Longrightarrow> l < 256 \<Longrightarrow> slot t e k l = slot_set (slot s) d i j v e k l"
  by (simp add: slots_upd_def slot_set_def)

lemma refs_upd:
  assumes "slots_upd D s t d i j v" "refs_ok D (slot_set (slot s) d i j v) c"
  shows "refs_ok D (slot t) c"
  by (rule refs_ok_cong [OF _ _ assms(2)]) (simp_all add: slots_upd_set [OF assms(1)])

text \<open>A step that keeps the frames shows every process the pages whose entries it does not change.\<close>

lemma keeps_upage:
  assumes "maps_wf s D" "keeps D s t" "e \<in> D" "k < 2048" "l < 256" "slot t e k l = slot s e k l"
  shows "upage t e k l = upage s e k l"
  using assms slots_wfD(2) [OF assms(1,3,4,5)] by (auto simp: upage_def keeps_def split: option.split)

text \<open>Changing the count of a frame of user memory.\<close>

lemma upd_count:
  assumes wf: "maps_wf s D" and f: "user_frame s D f"
  shows "\<exists>s'. upd_frame f (\<lambda>pf. pf\<lparr>reference_cnt := h (reference_cnt pf)\<rparr>) s = Some s' \<and> maps_wf s' D \<and> slot s' = slot s
    \<and> page_bytes s' = page_bytes s \<and> counts s' = (counts s)(f := h (counts s f)) \<and> user_frame s' D = user_frame s D
    \<and> free_frames s' = free_frames s \<and> length (pageframe_table s') = length (pageframe_table s)
    \<and> root_pagedir s' = root_pagedir s \<and> pd_words s' = pd_words s"
proof -
  let ?s = "s\<lparr>pageframe_table := (pageframe_table s)[f := (pageframe_table s ! f)\<lparr>reference_cnt := h (reference_cnt (pageframe_table s ! f))\<rparr>]\<rparr>"
  have len: "f < length (pageframe_table s)" and nt: "f \<notin> tables s D" using f by (simp_all add: user_frame_def in_use_def)
  have at: "pt_at ?s = pt_at s" "pte_slot ?s = pte_slot s" "slot ?s = slot s" "valid_ptes ?s = valid_ptes s" "pte_ok ?s = pte_ok s"
    "in_use ?s = in_use s" "tables ?s = tables s" "user_frame ?s = user_frame s"
    by (simp_all add: fun_eq_iff pt_at_def pte_slot_def slot_def valid_ptes_def pte_ok_def in_use_def tables_def user_frame_def)
  have "frames_wf ?s = frames_wf s" by (rule frames_wf_counts) (use len in \<open>simp_all add: nth_list_update\<close>)
  moreover have "counts_wf ?s D = counts_wf s D" using len nt by (auto simp: counts_wf_def at nth_list_update)
  ultimately have "maps_wf ?s D"
    using wf by (simp add: maps_wf_def dirs_wf_def pdes_wf_def tables_inj_def ptes_wf_def slots_wf_def at)
  moreover have "counts ?s = (counts s)(f := h (counts s f))"
    using len by (auto simp: counts_def fun_eq_iff nth_list_update)
  ultimately show ?thesis
    using len at by (simp add: upd_frame_def)
qed

text \<open>Writing to a page.\<close>

lemma write_page:
  "maps_wf (s\<lparr>page_bytes := b\<rparr>) D = maps_wf s D" "slot (s\<lparr>page_bytes := b\<rparr>) = slot s"
  "counts (s\<lparr>page_bytes := b\<rparr>) = counts s" "user_frame (s\<lparr>page_bytes := b\<rparr>) = user_frame s"
  "pd_words (s\<lparr>page_bytes := b\<rparr>) = pd_words s"
proof -
  let ?s = "s\<lparr>page_bytes := b\<rparr>"
  have at: "pt_at ?s = pt_at s" "pte_slot ?s = pte_slot s" "slot ?s = slot s" "valid_ptes ?s = valid_ptes s" "pte_ok ?s = pte_ok s"
    "tables ?s = tables s" "user_frame ?s = user_frame s"
    by (simp_all add: fun_eq_iff pt_at_def pte_slot_def slot_def valid_ptes_def pte_ok_def in_use_def tables_def user_frame_def)
  then show "maps_wf ?s D = maps_wf s D" "slot ?s = slot s" "user_frame ?s = user_frame s"
    by (simp_all add: maps_wf_def dirs_wf_def pdes_wf_def tables_inj_def counts_wf_def ptes_wf_def slots_wf_def)
  show "counts ?s = counts s" by (simp add: counts_def fun_eq_iff)
qed simp

section \<open>Fork\<close>

lemma cow_flags:
  "(fl OR MAP_COW) AND MEM_MASK = fl AND MEM_MASK" "\<not> writable (fl OR MAP_COW)"
  "is_phys (fl OR MAP_COW) = is_phys fl" "flags_ok (fl OR MAP_COW) = flags_ok fl"
proof -
  show m: "(fl OR MAP_COW) AND MEM_MASK = fl AND MEM_MASK" by (simp add: mem_consts bit.conj_disj_distrib2)
  have "(fl OR MAP_COW) AND MAP_COW = MAP_COW" by simp
  then show "\<not> writable (fl OR MAP_COW)" by (simp add: writable_def MAP_COW_def)
  show "is_phys (fl OR MAP_COW) = is_phys fl" "flags_ok (fl OR MAP_COW) = flags_ok fl"
    by (simp_all add: is_phys_def flags_ok_def m)
qed

lemma upage_None: "upage s d i j = None \<longleftrightarrow> slot s d i j = None"
  by (simp add: upage_def split: option.split)

lemma upage_cong: "slot t = slot s \<Longrightarrow> page_bytes t = page_bytes s \<Longrightarrow> upage t = upage s"
  by (simp add: upage_def fun_eq_iff split: option.split)

definition pages_upd :: "nat set \<Rightarrow> vmem \<Rightarrow> vmem \<Rightarrow> nat \<Rightarrow> nat \<Rightarrow> nat \<Rightarrow> (u32 + (nat \<Rightarrow> u8)) option \<Rightarrow> bool" where
  "pages_upd D s t d i j v \<longleftrightarrow> (\<forall>e \<in> D. \<forall>k < 2048. \<forall>l < 256.
     upage t e k l = (if e = d \<and> k = i \<and> l = j then v else upage s e k l))"

definition pages_same :: "nat set \<Rightarrow> vmem \<Rightarrow> vmem \<Rightarrow> bool" where
  "pages_same D s t \<longleftrightarrow> (\<forall>e \<in> D. \<forall>k < 2048. \<forall>l < 256. upage t e k l = upage s e k l)"

lemma pages_same_refl [simp]: "pages_same D s s"
  by (simp add: pages_same_def)

lemma pages_same_trans: "pages_same D s t \<Longrightarrow> pages_same D t u \<Longrightarrow> pages_same D s u"
  by (simp add: pages_same_def)

text \<open>Entering a page in a second address space, with one more reference.\<close>

lemma share_page:
  assumes wf: "vm_wf s D" and d: "l1_table new \<in> D" "e \<in> D" and va: "page_aligned va" "va \<noteq> 0" "va < 0x80000000"
    and free: "slot s (l1_table new) (pde_idx va) (pte_idx va) = None"
    and src: "slot s e (pde_idx va) (pte_idx va) = Some (pa, fl)" and fl: "\<not> is_phys fl" "\<not> writable fl"
  shows "pmap_enter new va pa fl s = Some (Inl ENOMEM, s) \<and> pf_lists_empty 4096 s
    \<or> (\<exists>s1 s2. pmap_enter new va pa fl s = Some (Inr (), s1)
         \<and> upd_frame (pmap_pa_to_pf pa) (\<lambda>pf. pf\<lparr>reference_cnt := reference_cnt pf + 1\<rparr>) s1 = Some s2
         \<and> vm_wf s2 D \<and> pages_upd D s s2 (l1_table new) (pde_idx va) (pte_idx va) (upage s e (pde_idx va) (pte_idx va)))"
proof -
  let ?d = "l1_table new" and ?i = "pde_idx va" and ?j = "pte_idx va" and ?f = "pmap_pa_to_pf pa"
  have mw: "maps_wf s D" and R: "refs_ok D (slot s) (counts s)" using wf by (simp_all add: vm_wf_def)
  have i: "?i < 2048" using va(3) user_pde by simp
  note S = slots_wfD [OF mw d(2) i pte_idx_less src]
  have pa: "page_aligned pa" by (rule slot_aligned [OF mw d(2) i pte_idx_less src])
  have uf: "user_frame s D ?f" using S(2) fl(1) by simp
  have fin: "finite D" using mw by (simp add: maps_wf_def dirs_wf_def)
  from pmap_enter_slot [OF mw d(1) va free pa S] show ?thesis
  proof (elim disjE exE conjE)
    fix s1 assume e1: "pmap_enter new va pa fl s = Some (Inr (), s1)" "maps_wf s1 D" "keeps D s s1"
      "slots_upd D s s1 ?d ?i ?j (Some (pa, fl))"
    then have "user_frame s1 D ?f" using uf by (simp add: keeps_def)
    from upd_count [OF e1(2) this, of "\<lambda>n. n + 1"] obtain s2 where
      s2: "upd_frame ?f (\<lambda>pf. pf\<lparr>reference_cnt := reference_cnt pf + 1\<rparr>) s1 = Some s2" "maps_wf s2 D" "slot s2 = slot s1"
        "page_bytes s2 = page_bytes s1" "counts s2 = (counts s1)(?f := counts s1 ?f + 1)" by blast
    have src': "(e, ?i, ?j) \<in> mappers D (slot s) ?f" using d i src fl by (auto simp: mappers_def)
    then have ne: "mappers D (slot s) ?f \<noteq> {}" by auto
    have c: "counts s1 g = counts s g" if "mappers D (slot s) g \<noteq> {}" for g using keeps_counts [OF e1(3) mw that] .
    have "refs_ok D (slot_set (slot s) ?d ?i ?j (Some (pa, fl))) (counts s2)"
    proof (rule refs_enter [OF R fin d(1) i pte_idx_less free fl(1)])
      show "counts s g \<le> counts s2 g" if "mappers D (slot s) g \<noteq> {}" for g using c [OF that] by (auto simp: s2(5))
      show "int (card (mappers D (slot s) ?f)) + 1 \<le> counts s2 ?f"
        using R ne c [OF ne] by (simp add: s2(5) refs_ok_def)
      show "\<not> writable fl'" if "(x, k, l) \<in> mappers D (slot s) ?f" "slot s x k l = Some (q, fl')" for x k l q fl'
      proof
        assume "writable fl'"
        then have "mappers D (slot s) ?f = {(x, k, l)}"
          using refs_ok_writable [OF R that] by simp
        then have "(x, k, l) = (e, ?i, ?j)" using src' by auto
        then show False using that(2) src fl(2) \<open>writable fl'\<close> by simp
      qed
    qed (use fl in simp)
    then have "vm_wf s2 D" using refs_upd [OF e1(4)] s2 by (simp add: vm_wf_def)
    moreover have "pages_upd D s s2 ?d ?i ?j (upage s e ?i ?j)"
      unfolding pages_upd_def
    proof (intro ballI allI impI)
      fix x k l assume x: "x \<in> D" "k < (2048 :: nat)" "l < (256 :: nat)"
      have u: "upage s2 = upage s1" by (rule upage_cong [OF s2(3,4)])
      show "upage s2 x k l = (if x = ?d \<and> k = ?i \<and> l = ?j then upage s e ?i ?j else upage s x k l)"
        using e1(3,4) x uf src keeps_upage [OF mw e1(3) x] unfolding u
        by (auto simp: slots_upd_def upage_def keeps_def)
    qed
    ultimately show ?thesis using e1(1) s2(1) by blast
  qed simp
qed

lemma protect_cow:
  assumes wf: "vm_wf s D" and d: "l1_table old \<in> D" and va: "page_aligned va" "va < 0x80000000"
    and src: "slot s (l1_table old) (pde_idx va) (pte_idx va) = Some (pa, fl)"
  shows "\<exists>s'. pmap_protect old va (fl OR MAP_COW) s = Some s' \<and> vm_wf s' D \<and> pages_same D s s'
    \<and> slots_upd D s s' (l1_table old) (pde_idx va) (pte_idx va) (Some (pa, fl OR MAP_COW))"
proof -
  let ?d = "l1_table old" and ?i = "pde_idx va" and ?j = "pte_idx va"
  have mw: "maps_wf s D" and R: "refs_ok D (slot s) (counts s)" using wf by (simp_all add: vm_wf_def)
  have i: "?i < 2048" using va(2) user_pde by simp
  note S = slots_wfD [OF mw d i pte_idx_less src]
  from pmap_protect_slot [OF mw d va(2,1) src, of "fl OR MAP_COW"] S(1) obtain s' where
    s': "pmap_protect old va (fl OR MAP_COW) s = Some s'" "maps_wf s' D" "keeps D s s'"
      "slots_upd D s s' ?d ?i ?j (Some (pa, fl OR MAP_COW))" by (auto simp: cow_flags)
  have "refs_ok D (slot_set (slot s) ?d ?i ?j (Some (pa, fl OR MAP_COW))) (counts s')"
    by (rule refs_protect [OF R d i pte_idx_less src]) (simp_all add: cow_flags keeps_counts [OF s'(3) mw])
  then have "vm_wf s' D" using refs_upd [OF s'(4)] s'(2) by (simp add: vm_wf_def)
  moreover have "pages_same D s s'"
    unfolding pages_same_def
  proof (intro ballI allI impI)
    fix x k l assume x: "x \<in> D" "k < (2048 :: nat)" "l < (256 :: nat)"
    show "upage s' x k l = upage s x k l"
    proof (cases "x = ?d \<and> k = ?i \<and> l = ?j")
      case True
      have "slot s' ?d ?i ?j = Some (pa, fl OR MAP_COW)" using s'(4) d i by (simp add: slots_upd_def)
      then show ?thesis using True src S(2) s'(3) by (auto simp: upage_def cow_flags keeps_def)
    next
      case False
      then show ?thesis using keeps_upage [OF mw s'(3) x] s'(4) x by (auto simp: slots_upd_def)
    qed
  qed
  ultimately show ?thesis using s' by blast
qed

lemma pages_same_upd: "pages_same D s t \<Longrightarrow> pages_upd D t u d i j v \<Longrightarrow> pages_upd D s u d i j v"
  by (simp add: pages_same_def pages_upd_def)

text \<open>One page of fork: it is copied to the new address space, or the fork fails; no process sees a
  change.\<close>

lemma fork_page_cases:
  assumes wf: "vm_wf s D" and d: "l1_table new \<in> D" "l1_table old \<in> D" and va: "page_aligned va" "va < 0x80000000"
    and free: "slot s (l1_table new) (pde_idx va) (pte_idx va) = None" and ne: "l1_table new \<noteq> l1_table old"
  shows "(\<exists>s'. fork_page new old va s = Some (False, s') \<and> vm_wf s' D \<and> pages_same D s s' \<and> pf_lists_empty 4096 s')
    \<or> (\<exists>s'. fork_page new old va s = Some (True, s') \<and> vm_wf s' D
          \<and> pages_upd D s s' (l1_table new) (pde_idx va) (pte_idx va) (upage s (l1_table old) (pde_idx va) (pte_idx va)))"
proof (cases "slot s (l1_table old) (pde_idx va) (pte_idx va)")
  case None
  then have "fork_page new old va s = Some (True, s)" by (simp add: fork_page_def page_present_slot)
  moreover have "pages_upd D s s (l1_table new) (pde_idx va) (pte_idx va) (upage s (l1_table old) (pde_idx va) (pte_idx va))"
    using None free by (simp add: pages_upd_def upage_def)
  ultimately show ?thesis using wf by blast
next
  case (Some v)
  let ?n = "l1_table new" and ?o = "l1_table old" and ?i = "pde_idx va" and ?j = "pte_idx va"
  obtain pa fl where v: "v = (pa, fl)" by (cases v)
  note src = Some [unfolded v]
  have mw: "maps_wf s D" and R: "refs_ok D (slot s) (counts s)" using wf by (simp_all add: vm_wf_def)
  have i: "?i < 2048" using va(2) user_pde by simp
  note S = slots_wfD [OF mw d(2) i pte_idx_less src]
  have ph: "fl AND MEM_PHYS = MEM_PHYS \<longleftrightarrow> is_phys fl" using flags_ok_mem [OF S(1)] by simp
  have va0: "va \<noteq> 0" using slot_va_nonzero [OF mw d(2)] src by auto
  consider (cow) "\<not> is_phys fl" "fl AND PROT_WRITE \<noteq> 0" | (ro) "\<not> is_phys fl" "fl AND PROT_WRITE = 0" | (phys) "is_phys fl"
    by blast
  then show ?thesis
  proof cases
    case cow
    from protect_cow [OF wf d(2) va src] obtain t where t: "pmap_protect old va (fl OR MAP_COW) s = Some t" "vm_wf t D"
      "pages_same D s t" "slots_upd D s t ?o ?i ?j (Some (pa, fl OR MAP_COW))" by blast
    have st: "slot t ?n ?i ?j = None" "slot t ?o ?i ?j = Some (pa, fl OR MAP_COW)"
      using t(4) d i free ne by (simp_all add: slots_upd_def)
    have eq: "upage t ?o ?i ?j = upage s ?o ?i ?j" using t(3) d i by (simp add: pages_same_def)
    from share_page [OF t(2) d(1,2) va(1) va0 va(2) st] cow(1) show ?thesis
      using t pages_same_upd [OF t(3)] eq cow ph src
      by (auto simp: fork_page_def page_present_slot pmap_extract_slot cow_flags)
  next
    case ro
    then have "\<not> writable fl" by (simp add: writable_def)
    from share_page [OF wf d(1,2) va(1) va0 va(2) free src ro(1) this] show ?thesis
      using wf ro ph src by (auto simp: fork_page_def page_present_slot pmap_extract_slot)
  next
    case phys
    let ?fl = "MEM_PHYS OR PROT_READ OR PROT_WRITE"
    have fl: "flags_ok ?fl" "is_phys ?fl" by (simp_all add: flags_ok_def is_phys_def mem_consts)
    have pa: "page_aligned pa" by (rule slot_aligned [OF mw d(2) i pte_idx_less src])
    from pmap_enter_slot [OF mw d(1) va(1) va0 va(2) free pa fl(1)] fl(2) consider
        "pmap_enter new va pa ?fl s = Some (Inl ENOMEM, s)" "pf_lists_empty 4096 s"
      | s' where "pmap_enter new va pa ?fl s = Some (Inr (), s')" "maps_wf s' D" "keeps D s s'" "slots_upd D s s' ?n ?i ?j (Some (pa, ?fl))"
      by blast
    then show ?thesis
    proof cases
      case 1
      then show ?thesis using wf phys ph src by (auto simp: fork_page_def page_present_slot pmap_extract_slot)
    next
      case 2
      have "refs_ok D (slot_set (slot s) ?n ?i ?j (Some (pa, ?fl))) (counts s')"
        by (rule refs_enter_phys [OF R d(1) i pte_idx_less free fl(2)]) (simp add: keeps_counts [OF 2(3) mw])
      then have "vm_wf s' D" using refs_upd [OF 2(4)] 2(2) by (simp add: vm_wf_def)
      moreover have "pages_upd D s s' ?n ?i ?j (upage s ?o ?i ?j)"
        unfolding pages_upd_def
      proof (intro ballI allI impI)
        fix x k l assume x: "x \<in> D" "k < (2048 :: nat)" "l < (256 :: nat)"
        show "upage s' x k l = (if x = ?n \<and> k = ?i \<and> l = ?j then upage s ?o ?i ?j else upage s x k l)"
          using 2(4) x src phys fl(2) keeps_upage [OF mw 2(3) x] by (auto simp: slots_upd_def upage_def)
      qed
      ultimately show ?thesis
        using 2(1) phys ph src by (auto simp: fork_page_def page_present_slot pmap_extract_slot)
    qed
  qed
qed

lemma table_va:
  assumes "t < 2048" "k < 256"
  shows "page_aligned (of_nat t * 0x100000 + of_nat k * 4096)" "pde_idx (of_nat t * 0x100000 + of_nat k * 4096) = t"
    "pte_idx (of_nat t * 0x100000 + of_nat k * 4096) = k" "of_nat t * 0x100000 + of_nat k * (4096 :: u32) < 0x80000000"
proof -
  let ?va = "of_nat t * 0x100000 + of_nat k * (4096 :: u32)"
  have u: "unat ?va = t * 0x100000 + k * 4096"
    using assms by (simp add: unat_word_ariths unat_of_nat)
  show "page_aligned ?va" by (simp add: page_aligned_mod u mod_eq_0_iff_dvd)
  show p: "pde_idx ?va = t" using assms by (simp add: pde_idx_div u)
  have "t * 0x100000 + k * 4096 = (t * 256 + k) * 4096" by simp
  then show "pte_idx ?va = k" using assms unfolding pte_idx_div u by simp
  show "?va < 0x80000000" using p assms(1) by (simp add: user_pde)
qed

lemma fork_pages_cases:
  assumes wf: "vm_wf s D" and d: "l1_table new \<in> D" "l1_table old \<in> D" "l1_table new \<noteq> l1_table old"
    and vas: "\<forall>va \<in> set vas. page_aligned va \<and> va < 0x80000000" "distinct vas"
    and free: "\<forall>va \<in> set vas. slot s (l1_table new) (pde_idx va) (pte_idx va) = None"
  shows "\<exists>ok s'. fork_pages new old vas s = Some (ok, s') \<and> vm_wf s' D \<and> (\<not> ok \<longrightarrow> pf_lists_empty 4096 s')
    \<and> (\<forall>e \<in> D. \<forall>k < 2048. \<forall>l < 256. e \<noteq> l1_table new \<or> (\<forall>va \<in> set vas. (pde_idx va, pte_idx va) \<noteq> (k, l))
          \<longrightarrow> upage s' e k l = upage s e k l)
    \<and> (ok \<longrightarrow> (\<forall>va \<in> set vas. upage s' (l1_table new) (pde_idx va) (pte_idx va) = upage s (l1_table old) (pde_idx va) (pte_idx va)))"
  using wf vas free
proof (induction vas arbitrary: s)
  case Nil
  then show ?case by auto
next
  case (Cons va vas)
  let ?n = "l1_table new" and ?o = "l1_table old" and ?i = "pde_idx va" and ?j = "pte_idx va"
  have va: "page_aligned va" "va < 0x80000000" "slot s ?n ?i ?j = None" "?i < 2048" using Cons.prems user_pde by auto
  have other: "(pde_idx v, pte_idx v) \<noteq> (?i, ?j)" if "v \<in> set vas" for v
    using that Cons.prems(2,3) page_idx_inj [of v va] by auto
  from fork_page_cases [OF Cons.prems(1) d(1,2) va(1,2,3) d(3)] show ?case
  proof (elim disjE exE conjE)
    fix s' assume "fork_page new old va s = Some (False, s')" "vm_wf s' D" "pages_same D s s'" "pf_lists_empty 4096 s'"
    then show ?thesis by (auto simp: pages_same_def)
  next
    fix t assume t: "fork_page new old va s = Some (True, t)" "vm_wf t D" "pages_upd D s t ?n ?i ?j (upage s ?o ?i ?j)"
    have "\<forall>v \<in> set vas. slot t ?n (pde_idx v) (pte_idx v) = None"
    proof
      fix v assume v: "v \<in> set vas"
      have "upage t ?n (pde_idx v) (pte_idx v) = upage s ?n (pde_idx v) (pte_idx v)"
        using t(3) other [OF v] d(1) v Cons.prems(2) user_pde by (auto simp: pages_upd_def)
      moreover have "slot s ?n (pde_idx v) (pte_idx v) = None" using v Cons.prems(4) by simp
      ultimately show "slot t ?n (pde_idx v) (pte_idx v) = None" using upage_None by metis
    qed
    then obtain ok u where u: "fork_pages new old vas t = Some (ok, u)" "vm_wf u D"
      "\<not> ok \<longrightarrow> pf_lists_empty 4096 u"
      "\<And>e k l. e \<in> D \<Longrightarrow> k < 2048 \<Longrightarrow> l < 256 \<Longrightarrow> e \<noteq> ?n \<or> (\<forall>va \<in> set vas. (pde_idx va, pte_idx va) \<noteq> (k, l)) \<Longrightarrow> upage u e k l = upage t e k l"
      "ok \<Longrightarrow> \<forall>va \<in> set vas. upage u ?n (pde_idx va) (pte_idx va) = upage t ?o (pde_idx va) (pte_idx va)"
      using Cons.IH [OF t(2)] Cons.prems(2,3) by auto
    have "fork_pages new old (va # vas) s = Some (ok, u)" using t(1) u(1) by simp
    moreover have "upage u e k l = upage s e k l"
      if "e \<in> D" "k < 2048" "l < 256" "e \<noteq> ?n \<or> (\<forall>v \<in> set (va # vas). (pde_idx v, pte_idx v) \<noteq> (k, l))" for e k l
      using u(4) [OF that(1,2,3)] that t(3) by (auto simp: pages_upd_def)
    moreover have "upage u ?n (pde_idx v) (pte_idx v) = upage s ?o (pde_idx v) (pte_idx v)" if "ok" "v \<in> set (va # vas)" for v
    proof (cases "v = va")
      case True
      have "upage u ?n ?i ?j = upage t ?n ?i ?j" by (rule u(4) [OF d(1) va(4) pte_idx_less]) (use other in blast)
      then show ?thesis using True t(3) d(1) va(4) by (simp add: pages_upd_def)
    next
      case False
      then have v: "v \<in> set vas" "pde_idx v < 2048" using that Cons.prems(2) user_pde by auto
      then have "upage u ?n (pde_idx v) (pte_idx v) = upage t ?o (pde_idx v) (pte_idx v)" using u(5) that(1) by blast
      then show ?thesis using t(3) d v(2) by (simp add: pages_upd_def)
    qed
    ultimately show ?thesis using u(2,3) by blast
  qed
qed

definition table_vas :: "u32 \<Rightarrow> u32 list" where
  "table_vas vpt = map (\<lambda>k. vpt + of_nat k * PAGE_SIZE) [0..<N_PAGETABLE_PTE]"

lemma table_vas_idx:
  assumes "t < 2048"
  shows "\<forall>va \<in> set (table_vas (of_nat t * 0x100000)). page_aligned va \<and> va < 0x80000000" "distinct (table_vas (of_nat t * 0x100000))"
    "(\<lambda>va. (pde_idx va, pte_idx va)) ` set (table_vas (of_nat t * 0x100000)) = {t} \<times> {..<256}"
proof -
  have s: "set (table_vas (of_nat t * 0x100000)) = (\<lambda>k. of_nat t * 0x100000 + of_nat k * 4096) ` {..<256}"
    by (auto simp: table_vas_def N_PAGETABLE_PTE_def PAGE_SIZE_def)
  show "\<forall>va \<in> set (table_vas (of_nat t * 0x100000)). page_aligned va \<and> va < 0x80000000"
    using table_va [OF assms] by (auto simp: s)
  show "distinct (table_vas (of_nat t * 0x100000))"
    unfolding table_vas_def distinct_map N_PAGETABLE_PTE_def PAGE_SIZE_def
    by (intro conjI distinct_upt inj_onI) (metis atLeastLessThan_iff set_upt table_va(3) [OF assms])
  show "(\<lambda>va. (pde_idx va, pte_idx va)) ` set (table_vas (of_nat t * 0x100000)) = {t} \<times> {..<256}"
    using table_va [OF assms] by (force simp: s image_iff)
qed

lemma fork_tables_cases:
  assumes wf: "vm_wf s D" and d: "l1_table new \<in> D" "l1_table old \<in> D" "l1_table new \<noteq> l1_table old"
    and ts: "\<forall>t \<in> set ts. t < 2048" "distinct ts"
    and free: "\<forall>t \<in> set ts. \<forall>l < 256. slot s (l1_table new) t l = None"
  shows "\<exists>ok s'. fork_tables new old (map (\<lambda>t. of_nat t * 0x100000) ts) s = Some (ok, s') \<and> vm_wf s' D \<and> (\<not> ok \<longrightarrow> pf_lists_empty 4096 s')
    \<and> (\<forall>e \<in> D. \<forall>k < 2048. \<forall>l < 256. e \<noteq> l1_table new \<or> k \<notin> set ts \<longrightarrow> upage s' e k l = upage s e k l)
    \<and> (ok \<longrightarrow> (\<forall>t \<in> set ts. \<forall>l < 256. upage s' (l1_table new) t l = upage s (l1_table old) t l))"
  using wf ts free
proof (induction ts arbitrary: s)
  case Nil
  then show ?case by auto
next
  case (Cons t ts)
  let ?n = "l1_table new" and ?o = "l1_table old" and ?vpt = "of_nat t * 0x100000 :: u32"
  have t: "t < 2048" using Cons.prems by simp
  have idx: "pde_idx ?vpt = t" using table_va(2) [OF t, of 0] by simp
  show ?case
  proof (cases "pt_at s ?o t")
    case None
    then have none: "upage s ?o t l = None" for l by (simp add: slot_def upage_None)
    have "fork_tables new old (map (\<lambda>t. of_nat t * 0x100000) (t # ts)) s = fork_tables new old (map (\<lambda>t. of_nat t * 0x100000) ts) s"
      using None by (simp add: pagetable_present_pt idx)
    moreover have "\<forall>t \<in> set ts. t < 2048" "distinct ts" "\<forall>t \<in> set ts. \<forall>l < 256. slot s ?n t l = None" using Cons.prems by simp_all
    note Cons.IH [OF Cons.prems(1) this]
    ultimately obtain ok s' where r:
      "fork_tables new old (map (\<lambda>t. of_nat t * 0x100000) (t # ts)) s = Some (ok, s')" "vm_wf s' D" "\<not> ok \<longrightarrow> pf_lists_empty 4096 s'"
      "\<And>e k l. e \<in> D \<Longrightarrow> k < 2048 \<Longrightarrow> l < 256 \<Longrightarrow> e \<noteq> ?n \<or> k \<notin> set ts \<Longrightarrow> upage s' e k l = upage s e k l"
      "ok \<Longrightarrow> \<forall>t \<in> set ts. \<forall>l < 256. upage s' ?n t l = upage s ?o t l" by (simp only:) blast
    have "upage s' ?n t l = upage s ?o t l" if "l < 256" for l
      using r(4) [OF d(1) t that] Cons.prems(3,4) none that by (auto simp: upage_def)
    then have "ok \<longrightarrow> (\<forall>t' \<in> set (t # ts). \<forall>l < 256. upage s' ?n t' l = upage s ?o t' l)" using r(5) by auto
    moreover have "\<forall>e \<in> D. \<forall>k < 2048. \<forall>l < 256. e \<noteq> ?n \<or> k \<notin> set (t # ts) \<longrightarrow> upage s' e k l = upage s e k l"
      using r(4) by auto
    ultimately show ?thesis using r(1,2,3) by (intro exI [of _ ok] exI [of _ s'] conjI)
  next
    case (Some pt)
    have free: "\<forall>va \<in> set (table_vas ?vpt). slot s ?n (pde_idx va) (pte_idx va) = None"
    proof
      fix va assume "va \<in> set (table_vas ?vpt)"
      then have "(pde_idx va, pte_idx va) \<in> {t} \<times> {..<256}" using table_vas_idx(3) [OF t] by blast
      then show "slot s ?n (pde_idx va) (pte_idx va) = None" using Cons.prems(4) by simp
    qed
    from fork_pages_cases [OF Cons.prems(1) d table_vas_idx(1,2) [OF t] this] obtain ok u where
      u: "fork_pages new old (table_vas ?vpt) s = Some (ok, u)" "vm_wf u D" "\<not> ok \<longrightarrow> pf_lists_empty 4096 u"
      "\<And>e k l. e \<in> D \<Longrightarrow> k < 2048 \<Longrightarrow> l < 256 \<Longrightarrow> e \<noteq> ?n \<or> (\<forall>va \<in> set (table_vas ?vpt). (pde_idx va, pte_idx va) \<noteq> (k, l))
         \<Longrightarrow> upage u e k l = upage s e k l"
      "ok \<Longrightarrow> \<forall>va \<in> set (table_vas ?vpt). upage u ?n (pde_idx va) (pte_idx va) = upage s ?o (pde_idx va) (pte_idx va)"
      by blast
    have u3: "upage u e k l = upage s e k l" if "e \<in> D" "k < 2048" "l < 256" "e \<noteq> ?n \<or> k \<noteq> t" for e k l
    proof -
      have "\<forall>va \<in> set (table_vas ?vpt). pde_idx va = t" using table_vas_idx(3) [OF t] by auto
      then show ?thesis using u(4) [OF that(1,2,3)] that(4) by auto
    qed
    have u4: "upage u ?n t l = upage s ?o t l" if "ok" "l < 256" for l
    proof -
      have "(t, l) \<in> (\<lambda>va. (pde_idx va, pte_idx va)) ` set (table_vas ?vpt)" using table_vas_idx(3) [OF t] that(2) by simp
      then show ?thesis using u(5) [OF that(1)] by auto
    qed
    have step: "fork_tables new old (map (\<lambda>t. of_nat t * 0x100000) (t # ts)) s
      = (if ok then fork_tables new old (map (\<lambda>t. of_nat t * 0x100000) ts) u else Some (False, u))"
      using Some u(1) by (simp add: pagetable_present_pt idx table_vas_def)
    show ?thesis
    proof (cases ok)
      case False
      have "upage u e k l = upage s e k l" if "e \<in> D" "k < 2048" "l < 256" "e \<noteq> ?n \<or> k \<notin> set (t # ts)" for e k l
        using u3 [OF that(1,2,3)] that(4) by simp
      moreover have "fork_tables new old (map (\<lambda>t. of_nat t * 0x100000) (t # ts)) s = Some (False, u)" using step False by simp
      ultimately show ?thesis using u(2,3) False by (intro exI [of _ False] exI [of _ u] conjI) simp_all
    next
      case True
      have ts: "\<forall>t \<in> set ts. t < 2048" "distinct ts" using Cons.prems by simp_all
      have "slot u ?n t' l = None" if x: "t' \<in> set ts" "l < 256" for t' l
      proof -
        have "t' < 2048" "t' \<noteq> t" using x(1) Cons.prems(2,3) by auto
        then have "upage u ?n t' l = upage s ?n t' l" using u3 [OF d(1) _ x(2)] by simp
        moreover have "slot s ?n t' l = None" using Cons.prems(4) x by simp
        ultimately show ?thesis using upage_None by metis
      qed
      then have "\<forall>t \<in> set ts. \<forall>l < 256. slot u ?n t l = None" by blast
      from Cons.IH [OF u(2) ts this] obtain ok' v where v: "fork_tables new old (map (\<lambda>t. of_nat t * 0x100000) ts) u = Some (ok', v)" "vm_wf v D" "\<not> ok' \<longrightarrow> pf_lists_empty 4096 v"
        "\<And>e k l. e \<in> D \<Longrightarrow> k < 2048 \<Longrightarrow> l < 256 \<Longrightarrow> e \<noteq> ?n \<or> k \<notin> set ts \<Longrightarrow> upage v e k l = upage u e k l"
        "ok' \<Longrightarrow> \<forall>t \<in> set ts. \<forall>l < 256. upage v ?n t l = upage u ?o t l" by blast
      have "upage v ?n t' l = upage s ?o t' l" if x: "ok'" "t' \<in> set (t # ts)" "l < 256" for t' l
      proof (cases "t' = t")
        case True
        then show ?thesis using v(4) [OF d(1) t x(3)] u4 [OF \<open>ok\<close> x(3)] Cons.prems(3) by simp
      next
        case False
        then have t': "t' \<in> set ts" "t' < 2048" using x(2) Cons.prems(2) by auto
        then show ?thesis using v(5) [OF x(1)] u3 [OF d(2) t'(2) x(3)] d(3) x(3) by simp
      qed
      moreover have "upage v e k l = upage s e k l" if "e \<in> D" "k < 2048" "l < 256" "e \<noteq> ?n \<or> k \<notin> set (t # ts)" for e k l
        using v(4) [OF that(1,2,3)] u3 [OF that(1,2,3)] that(4) by simp
      moreover have "fork_tables new old (map (\<lambda>t. of_nat t * 0x100000) (t # ts)) s = Some (ok', v)" using step True v(1) by simp
      ultimately show ?thesis using v(2,3) by (intro exI [of _ ok'] exI [of _ v] conjI) simp_all
    qed
  qed
qed

section \<open>Clean-up\<close>

text \<open>Unmapping a page of an address space, with or without taking a reference back.\<close>

lemma unmap_page:
  assumes wf: "vm_wf s D" and d: "l1_table as \<in> D" and va: "va < 0x80000000"
    and src: "slot s (l1_table as) (pde_idx va) (pte_idx va) = Some (pa, fl)"
  shows "\<exists>s1. pmap_remove as va s = Some (Inr (), s1) \<and> vm_wf s1 D \<and> keeps D s s1
    \<and> slots_upd D s s1 (l1_table as) (pde_idx va) (pte_idx va) None
    \<and> pages_upd D s s1 (l1_table as) (pde_idx va) (pte_idx va) None
    \<and> (\<not> is_phys fl \<longrightarrow> (\<exists>s2. upd_frame (pmap_pa_to_pf pa) (\<lambda>pf. pf\<lparr>reference_cnt := reference_cnt pf - 1\<rparr>) s1 = Some s2
          \<and> vm_wf s2 D \<and> slot s2 = slot s1 \<and> page_bytes s2 = page_bytes s1 \<and> user_frame s2 D = user_frame s1 D
          \<and> pages_upd D s s2 (l1_table as) (pde_idx va) (pte_idx va) None
          \<and> length (pageframe_table s2) = length (pageframe_table s)))"
proof -
  let ?d = "l1_table as" and ?i = "pde_idx va" and ?j = "pte_idx va" and ?f = "pmap_pa_to_pf pa"
  have mw: "maps_wf s D" and R: "refs_ok D (slot s) (counts s)" using wf by (simp_all add: vm_wf_def)
  have fin: "finite D" using mw by (simp add: maps_wf_def dirs_wf_def)
  have i: "?i < 2048" using va user_pde by simp
  from pmap_remove_slot [OF mw d va src] obtain s1 where s1: "pmap_remove as va s = Some (Inr (), s1)" "maps_wf s1 D"
    "keeps D s s1" "slots_upd D s s1 ?d ?i ?j None" by blast
  have c: "counts s1 g = counts s g" if "mappers D (slot s) g \<noteq> {}" for g using keeps_counts [OF s1(3) mw that] .
  have "refs_ok D (slot_set (slot s) ?d ?i ?j None) (counts s1)"
    by (rule refs_remove [OF R fin d i pte_idx_less]) (simp add: c)
  then have w1: "vm_wf s1 D" using refs_upd [OF s1(4)] s1(2) by (simp add: vm_wf_def)
  have p1: "pages_upd D s s1 ?d ?i ?j None"
    unfolding pages_upd_def
  proof (intro ballI allI impI)
    fix x k l assume x: "x \<in> D" "k < (2048 :: nat)" "l < (256 :: nat)"
    show "upage s1 x k l = (if x = ?d \<and> k = ?i \<and> l = ?j then None else upage s x k l)"
      using s1(4) x keeps_upage [OF mw s1(3) x] by (auto simp: slots_upd_def upage_None)
  qed
  have "\<exists>s2. upd_frame ?f (\<lambda>pf. pf\<lparr>reference_cnt := reference_cnt pf - 1\<rparr>) s1 = Some s2
      \<and> vm_wf s2 D \<and> slot s2 = slot s1 \<and> page_bytes s2 = page_bytes s1 \<and> user_frame s2 D = user_frame s1 D
      \<and> pages_upd D s s2 ?d ?i ?j None \<and> length (pageframe_table s2) = length (pageframe_table s)"
    if np: "\<not> is_phys fl"
  proof -
    have "user_frame s1 D ?f" using slots_wfD(2) [OF mw d i pte_idx_less src] np s1(3) by (simp add: keeps_def)
    from upd_count [OF s1(2) this, of "\<lambda>n. n - 1"] obtain s2 where s2:
      "upd_frame ?f (\<lambda>pf. pf\<lparr>reference_cnt := reference_cnt pf - 1\<rparr>) s1 = Some s2" "maps_wf s2 D" "slot s2 = slot s1"
      "page_bytes s2 = page_bytes s1" "counts s2 = (counts s1)(?f := counts s1 ?f - 1)" "user_frame s2 D = user_frame s1 D"
      "length (pageframe_table s2) = length (pageframe_table s1)" by blast
    have "(?d, ?i, ?j) \<in> mappers D (slot s) ?f" using d i src np by (auto simp: mappers_def)
    then have "refs_ok D (slot_set (slot s) ?d ?i ?j None) (counts s2)"
    proof (intro refs_remove [OF R fin d i pte_idx_less])
      fix g assume "(?d, ?i, ?j) \<in> mappers D (slot s) ?f" "mappers D (slot s) g \<noteq> {}"
      then show "counts s g \<le> counts s2 g \<or> (?d, ?i, ?j) \<in> mappers D (slot s) g \<and> counts s g - 1 \<le> counts s2 g"
        using c [of g] by (cases "g = ?f") (simp_all add: s2(5))
    qed
    then have "vm_wf s2 D" using refs_upd [OF s1(4)] s2(2,3) by (simp add: vm_wf_def)
    moreover have "pages_upd D s s2 ?d ?i ?j None" using p1 upage_cong [OF s2(3,4)] by (simp add: pages_upd_def)
    ultimately show ?thesis using s2 s1(3) by (auto simp: keeps_def)
  qed
  then show ?thesis using s1 w1 p1 by blast
qed

lemma cleanup_pages_spec:
  assumes wf: "vm_wf s D" and d: "l1_table as \<in> D" and vas: "\<forall>va \<in> set vas. page_aligned va \<and> va < 0x80000000"
  shows "\<exists>s'. cleanup_pages as vas s = Some s' \<and> vm_wf s' D
    \<and> (\<forall>e \<in> D. \<forall>k < 2048. \<forall>l < 256. upage s' e k l =
         (if e = l1_table as \<and> (\<exists>va \<in> set vas. (pde_idx va, pte_idx va) = (k, l)) then None else upage s e k l))"
  using wf vas
proof (induction vas arbitrary: s)
  case Nil
  then show ?case by simp
next
  case (Cons va vas)
  let ?d = "l1_table as" and ?i = "pde_idx va" and ?j = "pte_idx va"
  have va: "va < 0x80000000" and vas: "\<forall>va \<in> set vas. page_aligned va \<and> va < 0x80000000" using Cons.prems by auto
  have i: "?i < 2048" using va user_pde by simp
  have mw: "maps_wf s D" using Cons.prems by (simp add: vm_wf_def)
  have "\<exists>t. cleanup_pages as (va # vas) s = cleanup_pages as vas t \<and> vm_wf t D \<and> pages_upd D s t ?d ?i ?j None"
  proof (cases "slot s ?d ?i ?j")
    case None
    then have "pages_upd D s s ?d ?i ?j None" using upage_None by (auto simp: pages_upd_def)
    then show ?thesis using None Cons.prems(1) by (auto simp: page_present_slot)
  next
    case (Some v)
    obtain pa fl where v: "v = (pa, fl)" by (cases v)
    note src = Some [unfolded v]
    have ph: "fl AND MEM_PHYS = MEM_PHYS \<longleftrightarrow> is_phys fl"
      using flags_ok_mem slots_wfD(1) [OF mw d i pte_idx_less src] by simp
    from unmap_page [OF Cons.prems(1) d va src] obtain s1 where s1: "pmap_remove as va s = Some (Inr (), s1)" "vm_wf s1 D"
      "pages_upd D s s1 ?d ?i ?j None" "\<not> is_phys fl \<longrightarrow> (\<exists>s2. upd_frame (pmap_pa_to_pf pa) (\<lambda>pf. pf\<lparr>reference_cnt := reference_cnt pf - 1\<rparr>) s1 = Some s2
          \<and> vm_wf s2 D \<and> pages_upd D s s2 ?d ?i ?j None)" by blast
    show ?thesis
    proof (cases "is_phys fl")
      case True
      then show ?thesis using src s1 ph by (auto simp: page_present_slot pmap_extract_slot)
    next
      case False
      then obtain s2 where s2: "upd_frame (pmap_pa_to_pf pa) (\<lambda>pf. pf\<lparr>reference_cnt := reference_cnt pf - 1\<rparr>) s1 = Some s2"
          "vm_wf s2 D" "pages_upd D s s2 ?d ?i ?j None" using s1(4) by blast
      then have "\<exists>pf. frame s2 (pmap_pa_to_pf pa) = Some pf" by (auto simp: upd_frame_def frame_def split: if_splits)
      then show ?thesis
        using s2 src s1 ph False by (auto simp: page_present_slot pmap_extract_slot free_pageframe_def)
    qed
  qed
  then obtain t where t: "cleanup_pages as (va # vas) s = cleanup_pages as vas t" "vm_wf t D" "pages_upd D s t ?d ?i ?j None" by blast
  from Cons.IH [OF t(2) vas] obtain s' where s': "cleanup_pages as vas t = Some s'" "vm_wf s' D"
    "\<forall>e \<in> D. \<forall>k < 2048. \<forall>l < 256. upage s' e k l =
         (if e = ?d \<and> (\<exists>va \<in> set vas. (pde_idx va, pte_idx va) = (k, l)) then None else upage t e k l)" by blast
  show ?case
    unfolding t(1) using s' t(3) by (intro exI [of _ s']) (auto simp: pages_upd_def)
qed

lemma cleanup_tables_spec:
  assumes wf: "vm_wf s D" and d: "l1_table as \<in> D" and ts: "\<forall>t \<in> set ts. t < 2048"
  shows "\<exists>s'. cleanup_tables as (map (\<lambda>t. of_nat t * 0x100000) ts) s = Some s' \<and> vm_wf s' D
    \<and> (\<forall>e \<in> D. \<forall>k < 2048. \<forall>l < 256. upage s' e k l = (if e = l1_table as \<and> k \<in> set ts then None else upage s e k l))"
  using wf ts
proof (induction ts arbitrary: s)
  case Nil
  then show ?case by simp
next
  case (Cons t ts)
  let ?vpt = "of_nat t * 0x100000 :: u32"
  have t: "t < 2048" and ts: "\<forall>t \<in> set ts. t < 2048" using Cons.prems by auto
  have idx: "pde_idx ?vpt = t" using table_va(2) [OF t, of 0] by simp
  have "\<exists>u. cleanup_tables as (map (\<lambda>t. of_nat t * 0x100000) (t # ts)) s = cleanup_tables as (map (\<lambda>t. of_nat t * 0x100000) ts) u \<and> vm_wf u D
    \<and> (\<forall>e \<in> D. \<forall>k < 2048. \<forall>l < 256. upage u e k l = (if e = l1_table as \<and> k = t then None else upage s e k l))"
  proof (cases "pt_at s (l1_table as) t")
    case None
    then have "upage s (l1_table as) t l = None" for l by (simp add: slot_def upage_None)
    then show ?thesis using None Cons.prems(1) by (auto simp: pagetable_present_pt idx)
  next
    case (Some pt)
    from cleanup_pages_spec [OF Cons.prems(1) d table_vas_idx(1) [OF t]] obtain u where
      u: "cleanup_pages as (table_vas ?vpt) s = Some u" "vm_wf u D"
      "\<And>e k l. e \<in> D \<Longrightarrow> k < 2048 \<Longrightarrow> l < 256 \<Longrightarrow> upage u e k l =
         (if e = l1_table as \<and> (k, l) \<in> (\<lambda>va. (pde_idx va, pte_idx va)) ` set (table_vas ?vpt) then None else upage s e k l)"
      by (auto simp: image_iff eq_commute)
    then show ?thesis
      using Some by (auto simp: pagetable_present_pt idx table_vas_def [symmetric] table_vas_idx(3) [OF t])
  qed
  then obtain u where u: "cleanup_tables as (map (\<lambda>t. of_nat t * 0x100000) (t # ts)) s = cleanup_tables as (map (\<lambda>t. of_nat t * 0x100000) ts) u" "vm_wf u D"
    "\<forall>e \<in> D. \<forall>k < 2048. \<forall>l < 256. upage u e k l = (if e = l1_table as \<and> k = t then None else upage s e k l)" by blast
  from Cons.IH [OF u(2) ts] obtain s' where s': "cleanup_tables as (map (\<lambda>t. of_nat t * 0x100000) ts) u = Some s'" "vm_wf s' D"
    "\<forall>e \<in> D. \<forall>k < 2048. \<forall>l < 256. upage s' e k l = (if e = l1_table as \<and> k \<in> set ts then None else upage u e k l)" by blast
  show ?case
    unfolding u(1) using s' u(3) by (intro exI [of _ s']) auto
qed

lemma cleanup_address_space_spec:
  assumes "vm_wf s D" "l1_table as \<in> D"
  shows "\<exists>s'. cleanup_address_space as s = Some (as\<lparr>segs := free_space (segs as)\<rparr>, s') \<and> vm_wf s' D
    \<and> (\<forall>e \<in> D. \<forall>k < 2048. \<forall>l < 256. upage s' e k l = (if e = l1_table as \<and> k < 2033 then None else upage s e k l))"
proof -
  have "\<forall>t \<in> set [0..<2033]. t < (2048 :: nat)" by auto
  from cleanup_tables_spec [OF assms this] show ?thesis
    by (auto simp: cleanup_address_space_def table_addrs_def)
qed

text \<open>Unmapping never touches the free lists.\<close>

definition lists_of :: "vmem \<Rightarrow> nat list \<times> nat list \<times> nat list" where
  "lists_of s = (free_4k_pf_list s, free_16k_pf_list s, free_64k_pf_list s)"

lemma lists_of_empty: "lists_of t = lists_of s \<Longrightarrow> pf_lists_empty sz t = pf_lists_empty sz s"
  by (simp add: lists_of_def pf_lists_empty_def)

lemma upd_frame_lists: "upd_frame f h s = Some t \<Longrightarrow> lists_of t = lists_of s"
  by (auto simp: upd_frame_def lists_of_def split: if_splits)

lemma vpte_rem_lists: "vpte_rem f v s = Some t \<Longrightarrow> lists_of t = lists_of s"
  by (auto simp: vpte_rem_def lists_of_def Let_def split: if_splits prod.splits)

lemma set_lists [simp]:
  "lists_of (set_vpte_flags pt j fl s) = lists_of s" "lists_of (set_pte pt j w s) = lists_of s"
  "lists_of (set_pde d i w s) = lists_of s" "lists_of (pmap_free_pagetable pt s) = lists_of s" "free_pageframe f s = s"
  by (simp_all add: set_vpte_flags_def set_pte_def set_pde_def pmap_free_pagetable_def free_pageframe_def lists_of_def)

lemma pmap_remove_lists: "pmap_remove as va s = Some (r, t) \<Longrightarrow> lists_of t = lists_of s"
  by (auto simp: pmap_remove_def Let_def split: if_splits bind_splits dest!: upd_frame_lists vpte_rem_lists)

lemma cleanup_pages_lists: "cleanup_pages as vas s = Some t \<Longrightarrow> lists_of t = lists_of s"
  by (induction vas arbitrary: s)
    (auto split: if_splits bind_splits option.splits sum.splits dest!: upd_frame_lists pmap_remove_lists)

lemma cleanup_tables_lists: "cleanup_tables as vpts s = Some t \<Longrightarrow> lists_of t = lists_of s"
  by (induction vpts arbitrary: s) (auto split: if_splits bind_splits dest!: cleanup_pages_lists)

section \<open>The address spaces of the system\<close>

lemma vm_wf_mono:
  assumes wf: "vm_wf s D" and sub: "E \<subseteq> D"
  shows "vm_wf s E"
proof -
  have mw: "maps_wf s D" and R: "refs_ok D (slot s) (counts s)" using wf by (simp_all add: vm_wf_def)
  have df: "dir_frames E \<subseteq> dir_frames D" and tb: "tables s E \<subseteq> tables s D"
    using sub by (auto simp: dir_frames_def tables_def)
  have uf: "user_frame s D f \<Longrightarrow> user_frame s E f" for f using df tb by (auto simp: user_frame_def)
  have fin: "finite D" using mw by (simp add: maps_wf_def dirs_wf_def)
  have "maps_wf s E"
    unfolding maps_wf_def
  proof (intro conjI)
    show "frames_wf s" using mw by (simp add: maps_wf_def)
    have "dirs_wf s D" using mw by (simp add: maps_wf_def)
    then show "dirs_wf s E" using sub df unfolding dirs_wf_def by (blast intro: finite_subset)
    have "pdes_wf s D" using mw by (simp add: maps_wf_def)
    then show "pdes_wf s E" using sub df unfolding pdes_wf_def by blast
    have "tables_inj s D" using mw by (simp add: maps_wf_def)
    then show "tables_inj s E" using sub unfolding tables_inj_def by blast
    show "counts_wf s E" "ptes_wf s E" using mw tb by (auto simp: maps_wf_def counts_wf_def ptes_wf_def)
    have "slots_wf s D" using mw by (simp add: maps_wf_def)
    then show "slots_wf s E" using sub uf unfolding slots_wf_def by blast
  qed
  moreover have "refs_ok E (slot s) (counts s)"
    unfolding refs_ok_def
  proof (intro conjI allI ballI impI)
    have le: "mappers E (slot s) f \<subseteq> mappers D (slot s) f" for f using sub by (auto simp: mappers_def)
    show "int (card (mappers E (slot s) f)) \<le> counts s f" if "mappers E (slot s) f \<noteq> {}" for f
    proof -
      have "mappers D (slot s) f \<noteq> {}" using that le by auto
      then have "int (card (mappers D (slot s) f)) \<le> counts s f" using R by (simp add: refs_ok_def)
      then show ?thesis using card_mono [OF mappers_finite [OF fin] le [of f]] by linarith
    qed
    show "mappers E (slot s) (pmap_pa_to_pf pa) = {(d, i, j)}"
      if x: "d \<in> E" "i < 2048" "j < 256" "slot s d i j = Some (pa, fl)" "\<not> is_phys fl" "writable fl" for d i j pa fl
    proof -
      have "mappers D (slot s) (pmap_pa_to_pf pa) = {(d, i, j)}"
        using R x sub unfolding refs_ok_def by blast
      moreover have "(d, i, j) \<in> mappers E (slot s) (pmap_pa_to_pf pa)" using x by (auto simp: mappers_def)
      ultimately show ?thesis using le [of "pmap_pa_to_pf pa"] by auto
    qed
  qed
  ultimately show ?thesis by (simp add: vm_wf_def)
qed

definition page_at :: "vmem \<Rightarrow> vm_space \<Rightarrow> u32 \<Rightarrow> (u32 + (nat \<Rightarrow> u8)) option" where
  "page_at s as va = upage s (l1_table as) (pde_idx va) (pte_idx va)"

lemma ceiling_pde: "va < VM_USER_CEILING \<Longrightarrow> pde_idx va < 2032"
proof -
  assume "va < VM_USER_CEILING"
  then have "unat va < 0x7F000000" by (simp add: VM_USER_CEILING_def word_less_nat_alt)
  then show ?thesis by (simp add: pde_idx_div div_less_iff_less_mult)
qed

lemma create_vm:
  assumes "vm_wf s D" "pmap_create as s = Some (Some new, t)"
  shows "l1_table new \<notin> D \<and> vm_wf t (insert (l1_table new) D) \<and> pages_same D s t \<and> segs new = segs as
    \<and> (\<forall>i < 2048. \<forall>j. slot t (l1_table new) i j = None)"
proof -
  have mw: "maps_wf s D" and R: "refs_ok D (slot s) (counts s)" using assms(1) by (simp_all add: vm_wf_def)
  from pmap_create_slot [OF mw, of as] assms(2) obtain d where d: "new = as\<lparr>l1_table := d\<rparr>" "d \<notin> D" "maps_wf t (insert d D)"
    "keeps D s t" "slots_same D s t" "\<forall>i < 2048. \<forall>j. slot t d i j = None" by auto
  have m: "mappers (insert d D) (slot t) f = mappers D (slot s) f" for f
    using d(5,6) by (auto simp: mappers_def slots_same_def)
  have "refs_ok (insert d D) (slot t) (counts t)"
    unfolding refs_ok_def m
  proof (intro conjI allI ballI impI)
    show "int (card (mappers D (slot s) f)) \<le> counts t f" if "mappers D (slot s) f \<noteq> {}" for f
      using R that keeps_counts [OF d(4) mw that] by (simp add: refs_ok_def)
    show "mappers D (slot s) (pmap_pa_to_pf pa) = {(e, i, j)}"
      if "e \<in> insert d D" "i < 2048" "j < 256" "slot t e i j = Some (pa, fl)" "\<not> is_phys fl" "writable fl" for e i j pa fl
    proof -
      have "e \<in> D" using that d(6) by auto
      moreover then have "slot s e i j = Some (pa, fl)" using that d(5) by (simp add: slots_same_def)
      ultimately show ?thesis using R that unfolding refs_ok_def by blast
    qed
  qed
  moreover have "pages_same D s t"
    using keeps_upage [OF mw d(4)] d(5) by (simp add: pages_same_def slots_same_def)
  ultimately show ?thesis using d by (simp add: vm_wf_def)
qed

lemma fork_address_space_cases:
  assumes wf: "vm_wf s D" and old: "l1_table old \<in> D"
    and sg: "segment_cnt (segs old) < length (segment_table (segs old))" "segment_cnt (segs old) < length (segment_table (segs new))"
  shows "\<exists>ok new' s'. fork_address_space new old s = Some (ok, new', s') \<and> vm_wf s' D \<and> pages_same D s s'
    \<and> (\<not> ok \<longrightarrow> pf_lists_empty 4096 s' \<or> pf_lists_empty 16384 s')
    \<and> (ok \<longrightarrow> l1_table new' \<notin> D \<and> vm_wf s' (insert (l1_table new') D)
         \<and> (\<forall>k < 2032. \<forall>l < 256. upage s' (l1_table new') k l = upage s (l1_table old) k l)
         \<and> entries (segs new') = entries (segs old))"
proof -
  obtain r t where r: "pmap_create new s = Some (r, t)"
    using pmap_create_slot [of s D new] wf by (auto simp: vm_wf_def)
  show ?thesis
  proof (cases r)
    case None
    then have "t = s" "pf_lists_empty 16384 s" using r pmap_create_slot [of s D new] wf by (auto simp: vm_wf_def)
    then show ?thesis using None r wf by (auto simp: fork_address_space_def)
  next
    case (Some n)
    note c = create_vm [OF wf r [unfolded Some]]
    obtain sg' where sg': "fork_segments (segs n) (segs old) = Some sg'" "entries sg' = entries (segs old)"
      using sg c by (auto simp: fork_segments_def entries_def)
    let ?n = "n\<lparr>segs := sg'\<rparr>" and ?D = "insert (l1_table n) D"
    have d: "l1_table ?n \<in> ?D" "l1_table old \<in> ?D" "l1_table ?n \<noteq> l1_table old" using c old by auto
    have ts: "\<forall>k \<in> set [0..<2032]. k < (2048 :: nat)" "distinct [0..<2032]" by auto
    have free: "\<forall>k \<in> set [0..<2032]. \<forall>l < 256. slot t (l1_table ?n) k l = None" using c by auto
    obtain ok u where u: "fork_tables ?n old (table_addrs 2032) t = Some (ok, u)" "vm_wf u ?D" "\<not> ok \<longrightarrow> pf_lists_empty 4096 u"
      "\<And>e k l. e \<in> ?D \<Longrightarrow> k < 2048 \<Longrightarrow> l < 256 \<Longrightarrow> e \<noteq> l1_table ?n \<or> k \<notin> set [0..<2032] \<Longrightarrow> upage u e k l = upage t e k l"
      "ok \<Longrightarrow> \<forall>k \<in> set [0..<2032]. \<forall>l < 256. upage u (l1_table ?n) k l = upage t (l1_table old) k l"
      using fork_tables_cases [OF _ d ts free] c unfolding table_addrs_def by blast
    have nD: "l1_table n \<notin> D" using c by simp
    have su: "pages_same D s u"
      unfolding pages_same_def
    proof (intro ballI allI impI)
      fix e k l assume x: "e \<in> D" "k < (2048 :: nat)" "l < (256 :: nat)"
      then have "upage u e k l = upage t e k l" using nD by (intro u(4)) auto
      then show "upage u e k l = upage s e k l" using c x by (simp add: pages_same_def)
    qed
    show ?thesis
    proof (cases ok)
      case True
      have "upage u (l1_table n) k l = upage s (l1_table old) k l" if "k < 2032" "l < 256" for k l
      proof -
        have "upage u (l1_table ?n) k l = upage t (l1_table old) k l" using u(5) [OF True] that by simp
        also have "\<dots> = upage s (l1_table old) k l" using c that old by (simp add: pages_same_def)
        finally show ?thesis by simp
      qed
      then show ?thesis
        using True r Some sg' u(1,2) su nD vm_wf_mono [OF u(2), of D] by (auto simp: fork_address_space_def)
    next
      case False
      from cleanup_address_space_spec [OF u(2) d(1)] obtain v where v:
        "cleanup_address_space ?n u = Some (?n\<lparr>segs := free_space (segs ?n)\<rparr>, v)" "vm_wf v ?D"
        "\<And>e k l. e \<in> ?D \<Longrightarrow> k < 2048 \<Longrightarrow> l < 256 \<Longrightarrow> upage v e k l = (if e = l1_table ?n \<and> k < 2033 then None else upage u e k l)"
        by blast
      have "pages_same D u v" unfolding pages_same_def
      proof (intro ballI allI impI)
        fix e k l assume x: "e \<in> D" "k < (2048 :: nat)" "l < (256 :: nat)"
        then show "upage v e k l = upage u e k l" using v(3) [of e k l] nD by auto
      qed
      have "lists_of v = lists_of u" using v(1) cleanup_tables_lists by (auto simp: cleanup_address_space_def split: bind_splits)
      then have "pf_lists_empty 4096 v" using u(3) False lists_of_empty by blast
      moreover have "pages_same D s v" using \<open>pages_same D u v\<close> su pages_same_trans by blast
      ultimately show ?thesis
        using False r Some sg'(1) u(1) v(1) vm_wf_mono [OF v(2), of D]
        by (auto simp: fork_address_space_def free_address_space_def pmap_destroy_def free_pageframe_def)
    qed
  qed
qed

section \<open>The write fault\<close>

lemma page_aligned_word_mod: "page_aligned va \<Longrightarrow> va mod 4096 = 0"
  by (simp add: page_aligned_mod word_unat_eq_iff unat_mod)

lemma align_down_aligned: "page_aligned va \<Longrightarrow> ALIGN_DOWN va PAGE_SIZE = va"
  by (simp add: ALIGN_DOWN_def PAGE_SIZE_def page_aligned_word_mod)

lemma unshare_flags:
  assumes "flags_ok fl"
  shows "flags_ok ((fl OR PROT_WRITE) AND NOT MAP_COW)" "is_phys ((fl OR PROT_WRITE) AND NOT MAP_COW) = is_phys fl"
    "writable ((fl OR PROT_WRITE) AND NOT MAP_COW)"
proof -
  have "((fl OR PROT_WRITE) AND NOT MAP_COW) AND MEM_MASK = (fl OR PROT_WRITE) AND (NOT MAP_COW AND MEM_MASK)"
    by (simp only: and.assoc)
  also have "\<dots> = fl AND MEM_MASK" by (simp add: mem_consts bit.conj_disj_distrib2)
  finally have m: "((fl OR PROT_WRITE) AND NOT MAP_COW) AND MEM_MASK = fl AND MEM_MASK" .
  then show "flags_ok ((fl OR PROT_WRITE) AND NOT MAP_COW)" "is_phys ((fl OR PROT_WRITE) AND NOT MAP_COW) = is_phys fl"
    using assms by (simp_all add: flags_ok_def is_phys_def)
  have "((fl OR PROT_WRITE) AND NOT MAP_COW) AND PROT_WRITE = (fl OR PROT_WRITE) AND (NOT MAP_COW AND PROT_WRITE)"
    by (simp only: and.assoc)
  also have "\<dots> = PROT_WRITE" by (simp add: mem_consts bit.conj_disj_distrib2)
  finally show "writable ((fl OR PROT_WRITE) AND NOT MAP_COW)"
    by (simp add: writable_def mem_consts) (simp add: and.assoc)
qed

lemma fresh_user:
  assumes fb: "fresh_block f n s t" and wf: "maps_wf s D" and n: "0 < n"
  shows "user_frame t D f" "mappers D (slot s) f = {}" "\<not> user_frame s D f" "page_aligned (of_nat f * 4096 :: u32)"
    "pmap_pa_to_pf (of_nat f * 4096) = f" "pmap_pf_to_pa t f = Some (of_nat f * 4096)"
proof -
  have fwf: "frames_wf s" using wf by (simp add: maps_wf_def)
  have f: "f \<in> {f..<f + n}" using n by simp
  note u = fresh_block_in_use(2,3) [OF fb fwf f] and m = fresh_block_maps [OF fb wf]
  show nu: "\<not> user_frame s D f" using u by (simp add: user_frame_def)
  then show "mappers D (slot s) f = {}" using mapped_user [OF wf] by blast
  have "f \<notin> dir_frames D" using u(2) wf by (auto simp: maps_wf_def dirs_wf_def)
  moreover have "f \<notin> tables t D" unfolding m(4) using u(2) maps_wf_pt(1) [OF wf] by (auto simp: tables_def)
  ultimately show "user_frame t D f" using u(1) by (simp add: user_frame_def)
  have "frames_wf t" using m(1) by (simp add: maps_wf_def)
  then have l: "f < 2 ^ 20" "pmap_pf_to_pa t f = Some (of_nat f * 4096)"
    using u(1) by (simp_all add: frames_wf_def in_use_def pmap_pf_to_pa_def frame_def PAGE_SIZE_def)
  show "page_aligned (of_nat f * 4096 :: u32)" "pmap_pa_to_pf (of_nat f * 4096) = f" using frame_word [OF l(1)] .
  show "pmap_pf_to_pa t f = Some (of_nat f * 4096)" by (rule l(2))
qed

lemma page_frame_addr:
  assumes "maps_wf s D" "user_frame s D (pmap_pa_to_pf pa)" "page_aligned pa"
  shows "frame s (pmap_pa_to_pf pa) = Some (pageframe_table s ! pmap_pa_to_pf pa)"
    "physical_addr (pageframe_table s ! pmap_pa_to_pf pa) = pa"
proof -
  have l: "pmap_pa_to_pf pa < length (pageframe_table s)" using assms(2) by (simp add: user_frame_def in_use_def)
  then show "frame s (pmap_pa_to_pf pa) = Some (pageframe_table s ! pmap_pa_to_pf pa)" by (simp add: frame_def)
  have "physical_addr (pageframe_table s ! pmap_pa_to_pf pa) = of_nat (pmap_pa_to_pf pa) * 4096"
    using assms(1) l by (simp add: maps_wf_def frames_wf_def PAGE_SIZE_def)
  also have "\<dots> = pa"
    using page_aligned_word_mod [OF assms(3)] div_mult_mod_eq [of pa 4096]
    by (simp add: pmap_pa_to_pf_def PAGE_SIZE_def)
  finally show "physical_addr (pageframe_table s ! pmap_pa_to_pf pa) = pa" .
qed

text \<open>A new frame is entered with the contents \<open>b\<close>; it can be written.\<close>

lemma enter_new_frame:
  assumes wf: "vm_wf s D" and d: "l1_table as \<in> D" and va: "page_aligned va" "va \<noteq> 0" "va < 0x80000000"
    and free: "slot s (l1_table as) (pde_idx va) (pte_idx va) = None"
    and fl: "flags_ok fl" "\<not> is_phys fl"
    and fb: "fresh_block f 1 s t" and b: "t' = t\<lparr>page_bytes := (page_bytes t)(f := b)\<rparr>" and h: "h 0 = (1 :: int)"
  shows "pmap_enter as va (of_nat f * 4096) fl t' = Some (Inl ENOMEM, t') \<and> pf_lists_empty 4096 t' \<and> vm_wf t' D \<and> pages_same D s t'
    \<or> (\<exists>u v. pmap_enter as va (of_nat f * 4096) fl t' = Some (Inr (), u)
         \<and> upd_frame f (\<lambda>pf. pf\<lparr>reference_cnt := h (reference_cnt pf)\<rparr>) u = Some v \<and> vm_wf v D
         \<and> pages_upd D s v (l1_table as) (pde_idx va) (pte_idx va) (Some (Inr b))
         \<and> slot v (l1_table as) (pde_idx va) (pte_idx va) = Some (of_nat f * 4096, fl))"
proof -
  let ?d = "l1_table as" and ?i = "pde_idx va" and ?j = "pte_idx va" and ?pa = "of_nat f * 4096 :: u32"
  have mw: "maps_wf s D" and R: "refs_ok D (slot s) (counts s)" using wf by (simp_all add: vm_wf_def)
  have fin: "finite D" using mw by (simp add: maps_wf_def dirs_wf_def)
  have i: "?i < 2048" using va(3) user_pde by simp
  note m = fresh_block_maps [OF fb mw] and F = fresh_user [OF fb mw zero_less_one]
  have t': "maps_wf t' D" "slot t' = slot t" "counts t' = counts t" "user_frame t' D f"
    using m(1) F(1) by (simp_all add: b write_page)
  have c: "counts t' g = counts s g" if "mappers D (slot s) g \<noteq> {}" for g
    using keeps_counts [OF m(2) mw that] t'(3) by simp
  have R': "refs_ok D (slot t') (counts t')"
    by (rule refs_ok_cong [OF _ _ R]) (use m(3) c t'(2) in \<open>simp_all add: slots_same_def\<close>)
  have nf: "pmap_pa_to_pf pa \<noteq> f" if "x \<in> D" "k < 2048" "l < 256" "slot s x k l = Some (pa, fl')" "\<not> is_phys fl'" for x k l pa fl'
    using slots_wfD(2) [OF mw that(1-4)] that(5) F(3) by auto
  have same: "pages_same D s t'"
    unfolding pages_same_def
  proof (intro ballI allI impI)
    fix x k l assume x: "x \<in> D" "k < (2048 :: nat)" "l < (256 :: nat)"
    have sl: "slot t' x k l = slot s x k l" using m(3) x t'(2) by (simp add: slots_same_def)
    have kt: "upage t x k l = upage s x k l" using keeps_upage [OF mw m(2) x] m(3) x by (simp add: slots_same_def)
    show "upage t' x k l = upage s x k l"
    proof (cases "slot s x k l")
      case (Some w)
      then show ?thesis
        using sl t'(2) kt nf [OF x, of "fst w" "snd w"] by (cases w) (auto simp: upage_def b)
    qed (use sl in \<open>simp add: upage_def\<close>)
  qed
  have free': "slot t' ?d ?i ?j = None" using free m(3) d i t'(2) by (simp add: slots_same_def)
  have "\<not> is_phys fl \<longrightarrow> user_frame t' D (pmap_pa_to_pf ?pa)" using t'(4) F(5) by simp
  from pmap_enter_slot [OF t'(1) d va free' F(4) fl(1) this] show ?thesis
  proof (elim disjE exE conjE)
    assume "pmap_enter as va ?pa fl t' = Some (Inl ENOMEM, t')" "pf_lists_empty 4096 t'"
    then show ?thesis using R' t'(1) same by (simp add: vm_wf_def)
  next
    fix u assume u: "pmap_enter as va ?pa fl t' = Some (Inr (), u)" "maps_wf u D" "keeps D t' u" "slots_upd D t' u ?d ?i ?j (Some (?pa, fl))"
    have "user_frame u D f" using t'(4) u(3) by (simp add: keeps_def)
    from upd_count [OF u(2) this, of h] obtain v where v: "upd_frame f (\<lambda>pf. pf\<lparr>reference_cnt := h (reference_cnt pf)\<rparr>) u = Some v"
      "maps_wf v D" "slot v = slot u" "page_bytes v = page_bytes u" "counts v = (counts u)(f := h (counts u f))" by blast
    have "counts t f = 0" using fb by (simp add: fresh_block_def counts_def)
    moreover have "counts u f = counts t' f" using u(3) t'(4) by (simp add: keeps_def counts_def)
    ultimately have cf: "counts v f = 1" using t'(3) h v(5) by simp
    have mf: "mappers D (slot t') f = {}"
      using F(2) mappers_cong [of D "slot t'" "slot s"] m(3) t'(2) by (simp add: slots_same_def)
    have "refs_ok D (slot_set (slot t') ?d ?i ?j (Some (?pa, fl))) (counts v)"
    proof (rule refs_enter [OF R' fin d i pte_idx_less free' fl(2)])
      fix g assume g: "mappers D (slot t') g \<noteq> {}"
      then have "g \<noteq> f" using mf by auto
      then show "counts t' g \<le> counts v g" using keeps_counts [OF u(3) t'(1) g] v(5) by simp
    qed (use mf cf F(5) in auto)
    then have "vm_wf v D" using refs_upd [OF u(4)] v(2,3) by (simp add: vm_wf_def)
    moreover have "page_bytes u f = b" using u(3) t'(4) b by (simp add: keeps_def)
    then have "pages_upd D s v ?d ?i ?j (Some (Inr b))"
      unfolding pages_upd_def upage_cong [OF v(3,4)]
    proof (intro ballI allI impI)
      fix x k l assume x: "x \<in> D" "k < (2048 :: nat)" "l < (256 :: nat)"
      show "upage u x k l = (if x = ?d \<and> k = ?i \<and> l = ?j then Some (Inr b) else upage s x k l)"
      proof (cases "x = ?d \<and> k = ?i \<and> l = ?j")
        case True
        then have "slot u x k l = Some (?pa, fl)" using u(4) x by (simp add: slots_upd_def)
        then show ?thesis using True \<open>page_bytes u f = b\<close> fl(2) F(5) by (simp add: upage_def)
      next
        case False
        then have "upage u x k l = upage t' x k l" using keeps_upage [OF t'(1) u(3) x] u(4) x by (auto simp: slots_upd_def)
        then show ?thesis using False same x by (auto simp: pages_same_def)
      qed
    qed
    moreover have "slot v ?d ?i ?j = Some (?pa, fl)" using u(4) d i v(3) by (simp add: slots_upd_def)
    ultimately show ?thesis using u(1) v(1) by blast
  qed
qed

text \<open>Taking one reference and the mapping away, in the order of the fault handler.\<close>

lemma unshare_page:
  assumes wf: "vm_wf s D" and d: "l1_table as \<in> D" and va: "va < 0x80000000"
    and src: "slot s (l1_table as) (pde_idx va) (pte_idx va) = Some (pa, fl)" and np: "\<not> is_phys fl"
  shows "\<exists>s1 s2. upd_frame (pmap_pa_to_pf pa) (\<lambda>pf. pf\<lparr>reference_cnt := reference_cnt pf - 1\<rparr>) s = Some s1
    \<and> pmap_remove as va s1 = Some (Inr (), s2) \<and> vm_wf s2 D \<and> page_bytes s2 (pmap_pa_to_pf pa) = page_bytes s (pmap_pa_to_pf pa)
    \<and> user_frame s2 D (pmap_pa_to_pf pa) \<and> pages_upd D s s2 (l1_table as) (pde_idx va) (pte_idx va) None"
proof -
  let ?d = "l1_table as" and ?i = "pde_idx va" and ?j = "pte_idx va" and ?f = "pmap_pa_to_pf pa"
  have mw: "maps_wf s D" and R: "refs_ok D (slot s) (counts s)" using wf by (simp_all add: vm_wf_def)
  have fin: "finite D" using mw by (simp add: maps_wf_def dirs_wf_def)
  have i: "?i < 2048" using va user_pde by simp
  have uf: "user_frame s D ?f" using slots_wfD(2) [OF mw d i pte_idx_less src] np by simp
  from upd_count [OF mw uf, of "\<lambda>n. n - 1"] obtain s1 where s1:
    "upd_frame ?f (\<lambda>pf. pf\<lparr>reference_cnt := reference_cnt pf - 1\<rparr>) s = Some s1" "maps_wf s1 D" "slot s1 = slot s"
    "page_bytes s1 = page_bytes s" "counts s1 = (counts s)(?f := counts s ?f - 1)" "user_frame s1 D = user_frame s D" by blast
  have src1: "slot s1 ?d ?i ?j = Some (pa, fl)" using src s1(3) by simp
  from pmap_remove_slot [OF s1(2) d va this] obtain s2 where s2: "pmap_remove as va s1 = Some (Inr (), s2)" "maps_wf s2 D"
    "keeps D s1 s2" "slots_upd D s1 s2 ?d ?i ?j None" by blast
  have "refs_ok D (slot_set (slot s) ?d ?i ?j None) (counts s2)"
  proof (rule refs_remove [OF R fin d i pte_idx_less])
    fix g assume g: "mappers D (slot s) g \<noteq> {}"
    then have "counts s2 g = counts s1 g" using keeps_counts [OF s2(3) s1(2), of g] s1(3) by simp
    moreover have "(?d, ?i, ?j) \<in> mappers D (slot s) ?f" using d i src np by (auto simp: mappers_def)
    ultimately show "counts s g \<le> counts s2 g \<or> (?d, ?i, ?j) \<in> mappers D (slot s) g \<and> counts s g - 1 \<le> counts s2 g"
      by (cases "g = ?f") (simp_all add: s1(5))
  qed
  then have "vm_wf s2 D" using refs_upd [OF s2(4)] s2(2) s1(3) by (simp add: vm_wf_def)
  moreover have "pages_upd D s s2 ?d ?i ?j None"
    unfolding pages_upd_def
  proof (intro ballI allI impI)
    fix x k l assume x: "x \<in> D" "k < (2048 :: nat)" "l < (256 :: nat)"
    show "upage s2 x k l = (if x = ?d \<and> k = ?i \<and> l = ?j then None else upage s x k l)"
      using s2(4) x keeps_upage [OF s1(2) s2(3) x] upage_cong [OF s1(3,4)] by (auto simp: slots_upd_def upage_None)
  qed
  ultimately show ?thesis using s1 s2 uf by (auto simp: keeps_def)
qed

lemma cow_copy_cases:
  assumes wf: "vm_wf s D" and d: "l1_table as \<in> D" and va: "page_aligned va" "va < 0x80000000"
    and src: "slot s (l1_table as) (pde_idx va) (pte_idx va) = Some (pa, fl)" and np: "\<not> is_phys fl"
  shows "\<exists>ok s'. cow_copy as va pa fl s = Some (ok, s') \<and> vm_wf s' D
    \<and> (ok \<longrightarrow> pages_same D s s' \<and> (\<exists>pa' fl'. slot s' (l1_table as) (pde_idx va) (pte_idx va) = Some (pa', fl') \<and> \<not> is_phys fl' \<and> writable fl'))
    \<and> (\<not> ok \<longrightarrow> pages_upd D s s' (l1_table as) (pde_idx va) (pte_idx va) None \<and> pf_lists_empty 4096 s')"
proof -
  let ?d = "l1_table as" and ?i = "pde_idx va" and ?j = "pte_idx va" and ?f = "pmap_pa_to_pf pa"
  let ?fl = "(fl OR PROT_WRITE) AND NOT MAP_COW" and ?b = "page_bytes s (pmap_pa_to_pf pa)"
  have mw: "maps_wf s D" using wf by (simp add: vm_wf_def)
  have i: "?i < 2048" using va(2) user_pde by simp
  note fl' = unshare_flags [OF slots_wfD(1) [OF mw d i pte_idx_less src]]
  have va0: "va \<noteq> 0" using slot_va_nonzero [OF mw d] src by auto
  have up: "upage s ?d ?i ?j = Some (Inr ?b)" using src np by (simp add: upage_def)
  from unshare_page [OF wf d va(2) src np] obtain s1 s2 where u:
    "upd_frame ?f (\<lambda>pf. pf\<lparr>reference_cnt := reference_cnt pf - 1\<rparr>) s = Some s1" "pmap_remove as va s1 = Some (Inr (), s2)"
    "vm_wf s2 D" "page_bytes s2 ?f = ?b" "user_frame s2 D ?f" "pages_upd D s s2 ?d ?i ?j None" by blast
  have mw2: "maps_wf s2 D" using u(3) by (simp add: vm_wf_def)
  then have fwf: "frames_wf s2" by (simp add: maps_wf_def)
  have "upage s2 ?d ?i ?j = None" using u(6) d i by (simp add: pages_upd_def)
  then have free: "slot s2 ?d ?i ?j = None" by (simp only: upage_None)
  from alloc_cases [OF fwf, of 4096] consider
      (none) "alloc_pageframe 4096 s2 = Some (None, s2)" "pf_lists_empty 4096 s2"
    | (some) g t where "alloc_pageframe 4096 s2 = Some (Some g, t)" "fresh_block g 1 s2 t"
    by (auto simp: PAGE_SIZE_def)
  then show ?thesis
  proof cases
    case none
    then show ?thesis using u by (auto simp: cow_copy_def PAGE_SIZE_def)
  next
    case some
    note F = fresh_user [OF some(2) mw2 zero_less_one]
    let ?t = "t\<lparr>page_bytes := (page_bytes t)(g := ?b)\<rparr>"
    have bt: "page_bytes t ?f = ?b"
      using fresh_block_maps(2) [OF some(2) mw2] u(4,5) by (simp add: keeps_def)
    have step: "cow_copy as va pa fl s = do {
        (r, s) \<leftarrow> pmap_enter as va (of_nat g * 4096) ?fl ?t;
        case r of Inl _ \<Rightarrow> Some (False, free_pageframe g s)
        | Inr _ \<Rightarrow> do { s \<leftarrow> upd_frame g (\<lambda>pf. pf\<lparr>reference_cnt := reference_cnt pf + 1\<rparr>) s; Some (True, s) } }"
      using u(1,2) some(1) F(5,6) bt by (simp add: cow_copy_def PAGE_SIZE_def)
    from enter_new_frame [where h = "\<lambda>n. n + 1" and b = ?b, OF u(3) d va(1) va0 va(2) free fl'(1) _ some(2) refl] np fl'(2)
    have "pmap_enter as va (of_nat g * 4096) ?fl ?t = Some (Inl ENOMEM, ?t) \<and> pf_lists_empty 4096 ?t \<and> vm_wf ?t D \<and> pages_same D s2 ?t
      \<or> (\<exists>w v. pmap_enter as va (of_nat g * 4096) ?fl ?t = Some (Inr (), w)
       \<and> upd_frame g (\<lambda>pf. pf\<lparr>reference_cnt := reference_cnt pf + 1\<rparr>) w = Some v \<and> vm_wf v D
       \<and> pages_upd D s2 v ?d ?i ?j (Some (Inr ?b)) \<and> slot v ?d ?i ?j = Some (of_nat g * 4096, ?fl))" by simp
    then show ?thesis
    proof (elim disjE exE conjE)
      assume e: "pmap_enter as va (of_nat g * 4096) ?fl ?t = Some (Inl ENOMEM, ?t)" "pf_lists_empty 4096 ?t" "vm_wf ?t D" "pages_same D s2 ?t"
      have "pages_upd D s ?t ?d ?i ?j None" using u(6) e(4) by (simp add: pages_upd_def pages_same_def)
      then show ?thesis using step e by (auto simp: free_pageframe_def)
    next
      fix w v assume e: "pmap_enter as va (of_nat g * 4096) ?fl ?t = Some (Inr (), w)"
        "upd_frame g (\<lambda>pf. pf\<lparr>reference_cnt := reference_cnt pf + 1\<rparr>) w = Some v" "vm_wf v D"
        "pages_upd D s2 v ?d ?i ?j (Some (Inr ?b))" "slot v ?d ?i ?j = Some (of_nat g * 4096, ?fl)"
      have "pages_same D s v" using u(6) e(4) up by (auto simp: pages_upd_def pages_same_def)
      then show ?thesis using step e fl'(2,3) np by auto
    qed
  qed
qed

lemma cow_reuse_cases:
  assumes wf: "vm_wf s D" and d: "l1_table as \<in> D" and va: "page_aligned va" "va < 0x80000000"
    and src: "slot s (l1_table as) (pde_idx va) (pte_idx va) = Some (pa, fl)" and np: "\<not> is_phys fl"
    and one: "counts s (pmap_pa_to_pf pa) = 1"
    and m0: "mappers D (slot s) (pmap_pa_to_pf pa) = {(l1_table as, pde_idx va, pte_idx va)}"
  shows "\<exists>ok s'. cow_reuse as va pa fl s = Some (ok, s') \<and> vm_wf s' D
    \<and> (ok \<longrightarrow> pages_same D s s' \<and> (\<exists>pa' fl'. slot s' (l1_table as) (pde_idx va) (pte_idx va) = Some (pa', fl') \<and> \<not> is_phys fl' \<and> writable fl'))
    \<and> (\<not> ok \<longrightarrow> pages_upd D s s' (l1_table as) (pde_idx va) (pte_idx va) None \<and> pf_lists_empty 4096 s')"
proof -
  let ?d = "l1_table as" and ?i = "pde_idx va" and ?j = "pte_idx va" and ?f = "pmap_pa_to_pf pa"
  let ?fl = "(fl OR PROT_WRITE) AND NOT MAP_COW" and ?b = "page_bytes s (pmap_pa_to_pf pa)"
  have mw: "maps_wf s D" using wf by (simp add: vm_wf_def)
  have fin: "finite D" using mw by (simp add: maps_wf_def dirs_wf_def)
  have i: "?i < 2048" using va(2) user_pde by simp
  note S = slots_wfD [OF mw d i pte_idx_less src]
  have va0: "va \<noteq> 0" using slot_va_nonzero [OF mw d] src by auto
  have uf: "user_frame s D ?f" using S(2) np by simp
  have pa: "page_aligned pa" by (rule slot_aligned [OF mw d i pte_idx_less src])
  note fl' = unshare_flags [OF S(1)]
  have nph: "\<not> is_phys ?fl" using np fl'(2) by simp
  have up: "upage s ?d ?i ?j = Some (Inr ?b)" using src np by (simp add: upage_def)
  from unmap_page [OF wf d va(2) src] obtain s1 where s1: "pmap_remove as va s = Some (Inr (), s1)" "vm_wf s1 D" "keeps D s s1"
    "slots_upd D s s1 ?d ?i ?j None" "pages_upd D s s1 ?d ?i ?j None" by blast
  have mw1: "maps_wf s1 D" and R1: "refs_ok D (slot s1) (counts s1)" using s1(2) by (simp_all add: vm_wf_def)
  have uf1: "user_frame s1 D ?f" "page_bytes s1 ?f = ?b" "counts s1 ?f = 1"
    using uf s1(3) one by (simp_all add: keeps_def counts_def)
  have free: "slot s1 ?d ?i ?j = None" using s1(4) d i by (simp add: slots_upd_def)
  have "mappers D (slot s1) ?f = mappers D (slot_set (slot s) ?d ?i ?j None) ?f"
    by (intro mappers_cong) (simp add: slots_upd_set [OF s1(4)])
  then have m1: "mappers D (slot s1) ?f = {}" using mappers_set [where m = "slot s" and v = None and f = ?f, OF d i pte_idx_less] m0 by simp
  from pmap_enter_slot [OF mw1 d va(1) va0 va(2) free pa fl'(1)] uf1(1) consider
      (none) "pmap_enter as va pa ?fl s1 = Some (Inl ENOMEM, s1)" "pf_lists_empty 4096 s1"
    | (some) t where "pmap_enter as va pa ?fl s1 = Some (Inr (), t)" "maps_wf t D" "keeps D s1 t" "slots_upd D s1 t ?d ?i ?j (Some (pa, ?fl))"
    by blast
  then show ?thesis
  proof cases
    case none
    from upd_count [OF mw1 uf1(1), of "\<lambda>n. n - 1"] obtain t where t:
      "upd_frame ?f (\<lambda>pf. pf\<lparr>reference_cnt := reference_cnt pf - 1\<rparr>) s1 = Some t" "maps_wf t D" "slot t = slot s1"
      "page_bytes t = page_bytes s1" "counts t = (counts s1)(?f := counts s1 ?f - 1)" by blast
    have "refs_ok D (slot t) (counts t)"
    proof (rule refs_ok_cong [OF _ _ R1])
      show "counts s1 g \<le> counts t g" if "mappers D (slot s1) g \<noteq> {}" for g
        using that m1 t(5) by (cases "g = ?f") simp_all
    qed (simp add: t(3))
    then have "vm_wf t D" using t(2) by (simp add: vm_wf_def)
    moreover have "pages_upd D s t ?d ?i ?j None" using s1(5) upage_cong [OF t(3,4)] by (simp add: pages_upd_def)
    ultimately show ?thesis using s1(1) none t(1) lists_of_empty [OF upd_frame_lists [OF t(1)]] by (auto simp: cow_reuse_def)
  next
    case some
    have "counts t ?f = 1" using some(3) uf1 by (simp add: keeps_def counts_def)
    then have "refs_ok D (slot_set (slot s1) ?d ?i ?j (Some (pa, ?fl))) (counts t)"
      using m1 keeps_counts [OF some(3) mw1] by (intro refs_enter [OF R1 fin d i pte_idx_less free nph]) auto
    then have "vm_wf t D" using refs_upd [OF some(4)] some(2) by (simp add: vm_wf_def)
    moreover have "pages_same D s t"
      unfolding pages_same_def
    proof (intro ballI allI impI)
      fix x k l assume x: "x \<in> D" "k < (2048 :: nat)" "l < (256 :: nat)"
      show "upage t x k l = upage s x k l"
      proof (cases "x = ?d \<and> k = ?i \<and> l = ?j")
        case True
        have "page_bytes t ?f = ?b" using some(3) uf1 by (simp add: keeps_def)
        then show ?thesis using True some(4) x up nph by (simp add: slots_upd_def upage_def)
      next
        case False
        then have "upage t x k l = upage s1 x k l" using keeps_upage [OF mw1 some(3) x] some(4) x by (auto simp: slots_upd_def)
        then show ?thesis using False s1(5) x by (auto simp: pages_upd_def)
      qed
    qed
    moreover have "slot t ?d ?i ?j = Some (pa, ?fl)" using some(4) d i by (simp add: slots_upd_def)
    ultimately show ?thesis using nph fl'(3) s1(1) some(1) by (auto simp: cow_reuse_def)
  qed
qed

lemma page_fault_cow:
  assumes wf: "vm_wf s D" and d: "l1_table as \<in> D" and va: "page_aligned va" "va < 0x80000000"
    and src: "slot s (l1_table as) (pde_idx va) (pte_idx va) = Some (pa, fl)" and np: "\<not> is_phys fl"
    and cow: "fl AND (PROT_WRITE OR MAP_COW) = PROT_WRITE OR MAP_COW" and access: "access AND PROT_WRITE \<noteq> 0"
  shows "\<exists>ok s'. page_fault as va access s = Some (ok, s') \<and> vm_wf s' D
    \<and> (ok \<longrightarrow> pages_same D s s' \<and> (\<exists>pa' fl'. slot s' (l1_table as) (pde_idx va) (pte_idx va) = Some (pa', fl') \<and> \<not> is_phys fl' \<and> writable fl'))
    \<and> (\<not> ok \<longrightarrow> pages_upd D s s' (l1_table as) (pde_idx va) (pte_idx va) None \<and> pf_lists_empty 4096 s')"
proof -
  let ?d = "l1_table as" and ?i = "pde_idx va" and ?j = "pte_idx va" and ?f = "pmap_pa_to_pf pa"
  have mw: "maps_wf s D" and R: "refs_ok D (slot s) (counts s)" using wf by (simp_all add: vm_wf_def)
  have fin: "finite D" using mw by (simp add: maps_wf_def dirs_wf_def)
  have i: "?i < 2048" using va(2) user_pde by simp
  note S = slots_wfD [OF mw d i pte_idx_less src]
  have uf: "user_frame s D ?f" using S(2) np by simp
  note pf = page_frame_addr [OF mw uf slot_aligned [OF mw d i pte_idx_less src]]
  have mem: "fl AND MEM_MASK = MEM_ALLOC" "MEM_ALLOC \<noteq> MEM_PHYS" "PROT_WRITE OR MAP_COW \<noteq> PROT_WRITE"
    using S(1) np by (auto simp: flags_ok_def is_phys_def mem_consts)
  have step: "page_fault as va access s = (if 1 < counts s ?f then cow_copy as va pa fl s
      else if counts s ?f = 1 then cow_reuse as va pa fl s else None)"
    using src access cow mem pf
    by (simp add: page_fault_def Let_def align_down_aligned [OF va(1)] pmap_extract_slot counts_def)
  have in_m: "(?d, ?i, ?j) \<in> mappers D (slot s) ?f" using d i src np by (auto simp: mappers_def)
  then have pos: "0 < card (mappers D (slot s) ?f)" using mappers_finite [OF fin] by (auto simp: card_gt_0_iff)
  have le: "int (card (mappers D (slot s) ?f)) \<le> counts s ?f" using R in_m by (auto simp: refs_ok_def)
  show ?thesis
  proof (cases "1 < counts s ?f")
    case True
    then show ?thesis using step cow_copy_cases [OF wf d va src np] by simp
  next
    case False
    then have one: "counts s ?f = 1" using le pos by linarith
    then have "card (mappers D (slot s) ?f) = 1" using le pos by simp
    then have "mappers D (slot s) ?f = {(?d, ?i, ?j)}" using in_m by (auto simp: card_1_singleton_iff)
    from cow_reuse_cases [OF wf d va src np one this] show ?thesis using step one by simp
  qed
qed

section \<open>Writing to memory\<close>

text \<open>
  A store by a process: the MMU walks the two tables and stores the byte if the access bits of the
  entry let the user write; otherwise the exception handler calls \<open>page_fault\<close>, and the
  instruction is tried again if that returns 0.
\<close>

definition mmu_store :: "vm_space \<Rightarrow> u32 \<Rightarrow> u8 \<Rightarrow> vmem \<Rightarrow> vmem option" where
  "mmu_store as va x s =
     (case pt_at s (l1_table as) (pde_idx va) of
        None \<Rightarrow> None
      | Some pt \<Rightarrow>
          let w = pt_words s pt (pte_idx va);
              f = pmap_pa_to_pf (w AND L2_ADDR_MASK)
          in if w AND L2_TYPE_MASK = L2_TYPE_INV \<or> w AND L2_AP2 \<noteq> 0 then None
             else Some (s\<lparr>page_bytes := (page_bytes s)(f := (page_bytes s f)(unat va mod 4096 := x))\<rparr>))"

definition user_store :: "vm_space \<Rightarrow> u32 \<Rightarrow> u8 \<Rightarrow> vmem \<Rightarrow> (bool \<times> vmem) option" where
  "user_store as va x s =
     (case mmu_store as va x s of
        Some s' \<Rightarrow> Some (True, s')
      | None \<Rightarrow> do {
          (ok, s) \<leftarrow> page_fault as va PROT_WRITE s;
          Some (if ok then (case mmu_store as va x s of Some s' \<Rightarrow> (True, s') | None \<Rightarrow> (False, s)) else (False, s)) })"

lemma mmu_store_slot:
  assumes wf: "maps_wf s D" and d: "l1_table as \<in> D" "va < 0x80000000"
    and sl: "slot s (l1_table as) (pde_idx va) (pte_idx va) = Some (pa, fl)"
  shows "mmu_store as va x s = (if writable fl
    then Some (s\<lparr>page_bytes := (page_bytes s)(pmap_pa_to_pf pa := (page_bytes s (pmap_pa_to_pf pa))(unat va mod 4096 := x))\<rparr>)
    else None)"
proof -
  have i: "pde_idx va < 2048" using d(2) user_pde by simp
  from slot_pt [OF sl] obtain pt where pt: "pt_at s (l1_table as) (pde_idx va) = Some pt"
    "pt_words s pt (pte_idx va) AND L2_TYPE_MASK \<noteq> L2_TYPE_INV" "pt_words s pt (pte_idx va) AND L2_ADDR_MASK = pa"
    "vpte_flags s pt (pte_idx va) = fl" by blast
  have "pt \<in> tables s D" by (rule maps_wf_pt(3) [OF wf d(1) i pt(1)])
  then have "pte_ok s pt (pte_idx va)" using wf by (simp add: maps_wf_def ptes_wf_def)
  moreover have "pt_words s pt (pte_idx va) \<noteq> 0" using pt(2) by (auto simp: L2_TYPE_INV_def)
  ultimately obtain q where q: "page_aligned q" "pt_words s pt (pte_idx va) = q OR pmap_calc_pa_bits fl"
    using pt(4) by (auto simp: pte_ok_def)
  then have "pt_words s pt (pte_idx va) AND L2_AP2 = 0 \<longleftrightarrow> writable fl" using pte_word(3) [OF q(1)] by simp
  then show ?thesis using pt by (simp add: mmu_store_def Let_def)
qed

text \<open>A store to a writable page is seen at this page only.\<close>

lemma store_page:
  assumes wf: "vm_wf s D" and d: "l1_table as \<in> D" "va < 0x80000000"
    and sl: "slot s (l1_table as) (pde_idx va) (pte_idx va) = Some (pa, fl)" and fl: "\<not> is_phys fl" "writable fl"
  shows "\<exists>s'. mmu_store as va x s = Some s' \<and> vm_wf s' D
    \<and> pages_upd D s s' (l1_table as) (pde_idx va) (pte_idx va) (Some (Inr ((page_bytes s (pmap_pa_to_pf pa))(unat va mod 4096 := x))))"
proof -
  let ?f = "pmap_pa_to_pf pa" and ?d = "l1_table as" and ?i = "pde_idx va" and ?j = "pte_idx va"
  let ?b = "(page_bytes s)(?f := (page_bytes s ?f)(unat va mod 4096 := x))"
  let ?t = "s\<lparr>page_bytes := ?b\<rparr>"
  have mw: "maps_wf s D" and R: "refs_ok D (slot s) (counts s)" using wf by (simp_all add: vm_wf_def)
  have i: "?i < 2048" using d(2) user_pde by simp
  have in_m: "(e, k, l) \<in> mappers D (slot s) ?f"
    if "e \<in> D" "k < 2048" "l < 256" "slot s e k l = Some (q, fl')" "\<not> is_phys fl'" "pmap_pa_to_pf q = ?f" for e k l q fl'
    using that by (simp add: mappers_def)
  have m: "mappers D (slot s) ?f = {(?d, ?i, ?j)}"
    by (rule refs_ok_writable [OF R in_m [OF d(1) i pte_idx_less sl fl(1) refl] sl fl(2)])
  note only = in_m [unfolded m singleton_iff]
  have "vm_wf ?t D" using wf by (simp add: vm_wf_def write_page)
  moreover have "pages_upd D s ?t ?d ?i ?j (Some (Inr ((page_bytes s ?f)(unat va mod 4096 := x))))"
    unfolding pages_upd_def
  proof (intro ballI allI impI)
    fix e k l assume x: "e \<in> D" "k < (2048 :: nat)" "l < (256 :: nat)"
    show "upage ?t e k l = (if e = ?d \<and> k = ?i \<and> l = ?j
       then Some (Inr ((page_bytes s ?f)(unat va mod 4096 := x))) else upage s e k l)"
    proof (cases "slot s e k l")
      case (Some w)
      obtain q fl' where w: "slot s e k l = Some (q, fl')" using Some by (cases w) simp
      show ?thesis
      proof (cases "e = ?d \<and> k = ?i \<and> l = ?j")
        case True
        then show ?thesis using sl fl by (simp add: upage_def write_page(2))
      next
        case False
        then have "is_phys fl' \<or> pmap_pa_to_pf q \<noteq> ?f" using only [OF x w] by blast
        then show ?thesis using False w by (auto simp: upage_def write_page(2))
      qed
    qed (use sl in \<open>auto simp: upage_def write_page(2)\<close>)
  qed
  moreover have "mmu_store as va x s = Some ?t" using mmu_store_slot [OF mw d sl] fl(2) by simp
  ultimately show ?thesis by blast
qed

lemma align_down_unat: "unat (ALIGN_DOWN va PAGE_SIZE) = unat va div 4096 * 4096"
proof -
  have "va mod 4096 \<le> va" by (simp add: word_le_nat_alt unat_mod)
  from unat_sub [OF this] have "unat (va - va mod 4096) = unat va div 4096 * 4096"
    using minus_mod_eq_div_mult [of "unat va" 4096] by (simp add: unat_mod del: minus_mod_eq_div_mult)
  then show ?thesis by (simp only: ALIGN_DOWN_def PAGE_SIZE_def)
qed

lemma align_down_page:
  "page_aligned (ALIGN_DOWN va PAGE_SIZE)" "pde_idx (ALIGN_DOWN va PAGE_SIZE) = pde_idx va"
  "pte_idx (ALIGN_DOWN va PAGE_SIZE) = pte_idx va" "va < 0x80000000 \<Longrightarrow> ALIGN_DOWN va PAGE_SIZE < 0x80000000"
proof -
  let ?a = "ALIGN_DOWN va PAGE_SIZE"
  note u = align_down_unat [of va]
  show "page_aligned ?a" by (simp add: page_aligned_mod u)
  show p: "pde_idx ?a = pde_idx va" "pte_idx ?a = pte_idx va"
    using div_mult2_eq [of "unat va" 4096 256] div_mult2_eq [of "unat va div 4096 * 4096" 4096 256]
    by (simp_all add: pde_idx_div pte_idx_div u)
  show "va < 0x80000000 \<Longrightarrow> ?a < 0x80000000" using user_pde p(1) by simp
qed

lemma page_fault_align: "page_fault as (ALIGN_DOWN va PAGE_SIZE) access s = page_fault as va access s"
  by (simp add: page_fault_def align_down_aligned [OF align_down_page(1)])

section \<open>Allocation of memory\<close>

lemma zero_page_entered:
  assumes wf: "vm_wf s D" and d: "l1_table as \<in> D" and va: "user_page va" and free: "slot s (l1_table as) (pde_idx va) (pte_idx va) = None"
    and fl: "flags_ok fl" "\<not> is_phys fl"
  shows "(\<exists>s'. alloc_pages as fl (va # vas) s = Some (Some va, s') \<and> vm_wf s' D \<and> pages_same D s s' \<and> avail s < 2)
    \<or> (\<exists>t. alloc_pages as fl (va # vas) s = alloc_pages as fl vas t \<and> vm_wf t D \<and> avail s \<le> avail t + 2
         \<and> pages_upd D s t (l1_table as) (pde_idx va) (pte_idx va) (Some (Inr (\<lambda>_. 0))))"
proof -
  have mw: "maps_wf s D" using wf by (simp add: vm_wf_def)
  then have fwf: "frames_wf s" by (simp add: maps_wf_def)
  have v: "page_aligned va" "va \<noteq> 0" "va < 0x80000000" using va by (simp_all add: user_page_def)
  from alloc_cases [OF fwf, of 4096] consider
      (none) "alloc_pageframe 4096 s = Some (None, s)" "pf_lists_empty 4096 s"
    | (some) f t where "alloc_pageframe 4096 s = Some (Some f, t)" "fresh_block f 1 s t"
    by (auto simp: PAGE_SIZE_def)
  then show ?thesis
  proof cases
    case none
    then show ?thesis using wf by (simp add: PAGE_SIZE_def avail_empty)
  next
    case some
    have at: "avail s \<le> avail t + 1" using alloc_avail [OF fwf some(1)] by simp
    have z: "page_bytes t f = (\<lambda>_. 0)" using some(2) by (simp add: fresh_block_def clear_on_def)
    then have t: "t = t\<lparr>page_bytes := (page_bytes t)(f := (\<lambda>_. 0))\<rparr>" by (simp add: fun_upd_idem)
    note pa = fresh_user(6) [OF some(2) mw zero_less_one]
    have "frames_wf t" using some(2) by (simp add: fresh_block_def)
    note e = pmap_enter_avail [OF this, of as va "of_nat f * 4096" fl]
    from enter_new_frame [where h = "\<lambda>_. 1", OF wf d v free fl some(2) t refl] show ?thesis
    proof (elim disjE exE conjE)
      assume "pmap_enter as va (of_nat f * 4096) fl t = Some (Inl ENOMEM, t)" "pf_lists_empty 4096 t" "vm_wf t D" "pages_same D s t"
      then show ?thesis using some(1) pa at by (simp add: PAGE_SIZE_def avail_empty)
    next
      fix u v assume u: "pmap_enter as va (of_nat f * 4096) fl t = Some (Inr (), u)"
        "upd_frame f (\<lambda>pf. pf\<lparr>reference_cnt := 1\<rparr>) u = Some v" "vm_wf v D"
        "pages_upd D s v (l1_table as) (pde_idx va) (pte_idx va) (Some (Inr (\<lambda>_. 0)))"
      have "avail s \<le> avail v + 2" using e [OF u(1)] upd_frame_avail [OF u(2)] at by simp
      then show ?thesis using some(1) pa u by (intro disjI2 exI [of _ v]) (simp add: PAGE_SIZE_def)
    qed
  qed
qed

definition zeroed_at :: "nat set \<Rightarrow> vmem \<Rightarrow> vmem \<Rightarrow> nat \<Rightarrow> u32 list \<Rightarrow> bool" where
  "zeroed_at D s t d vas \<longleftrightarrow> (\<forall>e \<in> D. \<forall>k < 2048. \<forall>l < 256. upage t e k l =
     (if e = d \<and> (\<exists>va \<in> set vas. (pde_idx va, pte_idx va) = (k, l)) then Some (Inr (\<lambda>_. 0)) else upage s e k l))"

lemma alloc_pages_cases:
  assumes wf: "vm_wf s D" and d: "l1_table as \<in> D" and vas: "\<forall>va \<in> set vas. user_page va" "distinct vas"
    and free: "\<forall>va \<in> set vas. slot s (l1_table as) (pde_idx va) (pte_idx va) = None"
    and fl: "flags_ok fl" "\<not> is_phys fl"
  shows "\<exists>r s'. alloc_pages as fl vas s = Some (r, s') \<and> vm_wf s' D
    \<and> (case r of
         None \<Rightarrow> zeroed_at D s s' (l1_table as) vas
       | Some v \<Rightarrow> v \<in> set vas \<and> avail s < 2 * length vas \<and> zeroed_at D s s' (l1_table as) (takeWhile (\<lambda>x. x \<noteq> v) vas))"
  using wf vas free
proof (induction vas arbitrary: s)
  case Nil
  then show ?case by (simp add: zeroed_at_def)
next
  case (Cons va vas)
  let ?d = "l1_table as" and ?i = "pde_idx va" and ?j = "pte_idx va"
  have va: "user_page va" "slot s ?d ?i ?j = None" "va \<notin> set vas" "distinct vas" using Cons.prems by auto
  from zero_page_entered [OF Cons.prems(1) d va(1,2) fl, of vas] show ?case
  proof (elim disjE exE conjE)
    fix s' assume "alloc_pages as fl (va # vas) s = Some (Some va, s')" "vm_wf s' D" "pages_same D s s'" "avail s < 2"
    then show ?thesis by (simp add: zeroed_at_def pages_same_def)
  next
    fix t assume t: "alloc_pages as fl (va # vas) s = alloc_pages as fl vas t" "vm_wf t D" "avail s \<le> avail t + 2"
      "pages_upd D s t ?d ?i ?j (Some (Inr (\<lambda>_. 0)))"
    have "\<forall>v \<in> set vas. slot t ?d (pde_idx v) (pte_idx v) = None"
    proof
      fix v assume v: "v \<in> set vas"
      then have u: "user_page v" "slot s ?d (pde_idx v) (pte_idx v) = None" using Cons.prems by auto
      have "\<not> (pde_idx v = ?i \<and> pte_idx v = ?j)" using page_idx_inj [of v va] u(1) va(1,3) v by (auto simp: user_page_def)
      then have "upage t ?d (pde_idx v) (pte_idx v) = upage s ?d (pde_idx v) (pte_idx v)"
        using t(4) d u(1) user_pde by (auto simp: pages_upd_def user_page_def)
      then show "slot t ?d (pde_idx v) (pte_idx v) = None" using u(2) upage_None by metis
    qed
    with Cons.IH [OF t(2)] Cons.prems(2) va(4) obtain r s' where r: "alloc_pages as fl vas t = Some (r, s')" "vm_wf s' D"
      "case r of None \<Rightarrow> zeroed_at D t s' ?d vas
       | Some v \<Rightarrow> v \<in> set vas \<and> avail t < 2 * length vas \<and> zeroed_at D t s' ?d (takeWhile (\<lambda>x. x \<noteq> v) vas)" by auto
    have z: "zeroed_at D t s' ?d us \<Longrightarrow> zeroed_at D s s' ?d (va # us)" for us
      using t(4) unfolding zeroed_at_def pages_upd_def by auto
    have "case r of None \<Rightarrow> zeroed_at D s s' ?d (va # vas)
       | Some v \<Rightarrow> v \<in> set (va # vas) \<and> avail s < 2 * length (va # vas) \<and> zeroed_at D s s' ?d (takeWhile (\<lambda>x. x \<noteq> v) (va # vas))"
      using r(3) z va(3) t(3) by (auto split: option.splits)
    then show ?thesis unfolding t(1) using r(1,2) by blast
  qed
qed

lemma ALIGN_UP_aligned: "page_aligned (ALIGN_UP len PAGE_SIZE)"
proof -
  let ?q = "(len + 4096 - 1) div 4096"
  have "unat ?q < 2 ^ 20" using unsigned_less [of "len + 4096 - 1", where 'a = nat] by (simp add: unat_div div_less_iff_less_mult)
  then have "unat (?q * 4096) = unat ?q * 4096" by (subst unat_mult_lem [THEN iffD1]) simp_all
  then show ?thesis by (simp add: ALIGN_UP_def PAGE_SIZE_def page_aligned_mod)
qed

lemma page_range_pages:
  assumes "page_aligned a" "page_aligned n" "unat a + unat n < 2 ^ 32"
  shows "distinct (page_range a (a + n))" "va \<in> set (page_range a (a + n)) \<longleftrightarrow> page_aligned va \<and> a \<le> va \<and> va < a + n"
    "0 < n \<Longrightarrow> hd (page_range a (a + n)) = a"
proof -
  obtain m where m: "unat n = 4096 * m" using assms(2) by (auto simp: page_aligned_mod)
  obtain p where p: "unat a = 4096 * p" using assms(1) by (auto simp: page_aligned_mod)
  have an: "unat (a + n) = unat a + unat n" by (rule unat_add_nowrap [OF assms(3)])
  have lt: "a < a + n \<longleftrightarrow> 0 < m" by (simp add: word_less_nat_alt an m)
  have pr: "page_range a (a + n) = map (\<lambda>k. a + of_nat k * 4096) [0..<m]"
    using lt by (auto simp: page_range_def PAGE_SIZE_def m)
  have u: "unat (a + of_nat k * 4096) = unat a + k * 4096" if "k < m" for k
  proof -
    have "unat a + k * 4096 < 2 ^ 32" using that assms(3) m by simp
    then show ?thesis by (simp add: unat_word_ariths unat_of_nat)
  qed
  show "distinct (page_range a (a + n))"
    unfolding pr distinct_map by (intro conjI distinct_upt inj_onI) (use u in \<open>fastforce dest: arg_cong [where f = unat]\<close>)
  show "va \<in> set (page_range a (a + n)) \<longleftrightarrow> page_aligned va \<and> a \<le> va \<and> va < a + n"
  proof
    assume "va \<in> set (page_range a (a + n))"
    then obtain k where k: "k < m" "va = a + of_nat k * 4096" by (auto simp: pr)
    then show "page_aligned va \<and> a \<le> va \<and> va < a + n"
      using u [OF k(1)] m p by (simp add: page_aligned_mod word_le_nat_alt word_less_nat_alt an mult.commute)
  next
    assume v: "page_aligned va \<and> a \<le> va \<and> va < a + n"
    then obtain q where q: "unat va = 4096 * q" by (auto simp: page_aligned_mod)
    have "p \<le> q" "q < p + m" using v q p m by (simp_all add: word_le_nat_alt word_less_nat_alt an)
    then have "q - p < m" "unat va = unat (a + of_nat (q - p) * 4096)" using u [of "q - p"] p q by simp_all
    then show "va \<in> set (page_range a (a + n))" unfolding pr by (force simp: word_unat_eq_iff)
  qed
  show "0 < n \<Longrightarrow> hd (page_range a (a + n)) = a"
    using m by (cases m) (auto simp: pr hd_map word_less_nat_alt upt_rec)
qed

lemma alloc_flags:
  "flags_ok ((fl AND NOT VM_SYSTEM_MASK) OR MEM_ALLOC)" "\<not> is_phys ((fl AND NOT VM_SYSTEM_MASK) OR MEM_ALLOC)"
proof -
  have "NOT VM_SYSTEM_MASK AND MEM_MASK = 0" "MEM_ALLOC AND MEM_MASK = MEM_ALLOC" by (simp_all add: VM_SYSTEM_MASK_def MAP_USER_def mem_consts)
  then have "((fl AND NOT VM_SYSTEM_MASK) OR MEM_ALLOC) AND MEM_MASK = MEM_ALLOC"
    by (simp add: bit.conj_disj_distrib2 and.assoc)
  then show "flags_ok ((fl AND NOT VM_SYSTEM_MASK) OR MEM_ALLOC)" "\<not> is_phys ((fl AND NOT VM_SYSTEM_MASK) OR MEM_ALLOC)"
    by (simp_all add: flags_ok_def is_phys_def mem_consts)
qed

lemma fixed_flag: "((fl AND NOT VM_SYSTEM_MASK) OR MEM_ALLOC) AND MAP_FIXED = fl AND MAP_FIXED"
proof -
  have "NOT VM_SYSTEM_MASK AND MAP_FIXED = MAP_FIXED" "MEM_ALLOC AND MAP_FIXED = 0"
    by (simp_all add: VM_SYSTEM_MASK_def MAP_USER_def MAP_FIXED_def mem_consts)
  then show ?thesis by (simp add: bit.conj_disj_distrib2 and.assoc)
qed

text \<open>The segments and the page maps of a process agree: no page of a free segment is mapped.\<close>

definition segs_agree :: "vmem \<Rightarrow> vm_space \<Rightarrow> bool" where
  "segs_agree s as \<longleftrightarrow> seg_wf (segs as) \<and> VM_USER_BASE \<le> seg_addr (hd (entries (segs as)))
     \<and> (\<forall>va. type_at (entries (segs as)) va = Some SEG_TYPE_FREE \<longrightarrow> page_at s as va = None)"

lemma type_at_user:
  assumes "segs_agree s as" "type_at (entries (segs as)) va = Some ty"
  shows "va \<noteq> 0" "va < 0x80000000"
proof -
  have wf: "seg_wf (segs as)" using assms(1) by (simp add: segs_agree_def)
  then have "sorted_wrt (<) (map seg_addr (entries (segs as)))" by (simp add: seg_wf_def)
  note r = type_at_range [OF this assms(2)]
  have "last (entries (segs as)) = ceiling_entry" using wf last_entries [of "segs as"] by (simp add: seg_wf_def)
  then have "va < VM_USER_CEILING" using r ceiling_entry_sel(1) by simp
  then show "va < 0x80000000" by (simp add: VM_USER_CEILING_def word_less_nat_alt)
  have "VM_USER_BASE \<le> va" using assms(1) r by (auto simp: segs_agree_def intro: order_trans)
  then show "va \<noteq> 0" by (auto simp: VM_USER_BASE_def)
qed

lemma align_down_between:
  assumes "page_aligned a" "page_aligned n" "unat a + unat n < 2 ^ 32"
  shows "a \<le> ALIGN_DOWN va PAGE_SIZE \<and> ALIGN_DOWN va PAGE_SIZE < a + n \<longleftrightarrow> a \<le> va \<and> va < a + n"
proof -
  obtain m p where mp: "unat n = 4096 * m" "unat a = 4096 * p" using assms(1,2) by (auto simp: page_aligned_mod elim!: dvdE)
  have an: "unat (a + n) = unat a + unat n" by (rule unat_add_nowrap [OF assms(3)])
  have "unat (ALIGN_DOWN va PAGE_SIZE) = 4096 * (unat va div 4096)" by (simp add: align_down_unat)
  moreover have "p \<le> unat va div 4096 \<longleftrightarrow> 4096 * p \<le> unat va" by (simp add: less_eq_div_iff_mult_less_eq mult.commute)
  moreover have "unat va div 4096 < p + m \<longleftrightarrow> unat va < 4096 * (p + m)" by (simp add: div_less_iff_less_mult mult.commute)
  moreover have "4096 * (unat va div 4096) < 4096 * p + 4096 * m \<longleftrightarrow> unat va div 4096 < p + m" by linarith
  ultimately show ?thesis by (simp add: word_le_nat_alt word_less_nat_alt an mp)
qed

lemma page_at_zeroed:
  assumes z: "zeroed_at D s t (l1_table as) (page_range a (a + n))" and a: "page_aligned a" "page_aligned n" "unat a + unat n < 2 ^ 32"
    and b: "l1_table b \<in> D" "va < 0x80000000"
  shows "page_at t b va = (if l1_table b = l1_table as \<and> a \<le> va \<and> va < a + n then Some (Inr (\<lambda>_. 0)) else page_at s b va)"
proof -
  have i: "pde_idx va < 2048" using b(2) user_pde by simp
  have "(\<exists>v \<in> set (page_range a (a + n)). (pde_idx v, pte_idx v) = (pde_idx va, pte_idx va))
    \<longleftrightarrow> ALIGN_DOWN va PAGE_SIZE \<in> set (page_range a (a + n))"
    using page_range_pages(2) [OF a] page_idx_inj [OF _ align_down_page(1), of _ va] align_down_page(2,3) [of va] by (metis prod.inject)
  also have "\<dots> \<longleftrightarrow> a \<le> va \<and> va < a + n"
    using page_range_pages(2) [OF a] align_down_page(1) [of va] align_down_between [OF a] by simp
  finally have "(\<exists>v \<in> set (page_range a (a + n)). (pde_idx v, pte_idx v) = (pde_idx va, pte_idx va)) \<longleftrightarrow> a \<le> va \<and> va < a + n" .
  then show ?thesis using z b i unfolding zeroed_at_def page_at_def by auto
qed

lemma segs_agree_alloc:
  assumes ag: "segs_agree s as" and d: "l1_table as \<in> D" and wf: "seg_wf sg"
    and old: "\<And>x. a \<le> x \<Longrightarrow> x < e \<Longrightarrow> type_at (entries (segs as)) x = Some SEG_TYPE_FREE"
    and new: "\<And>x. type_at (entries sg) x = (if a \<le> x \<and> x < e then Some SEG_TYPE_ALLOC else type_at (entries (segs as)) x)"
    and pages: "\<And>b va. l1_table b \<in> D \<Longrightarrow> va < 0x80000000 \<Longrightarrow> page_at t b va =
      (if l1_table b = l1_table as \<and> a \<le> va \<and> va < e then Some (Inr (\<lambda>_. 0)) else page_at s b va)"
  shows "segs_agree t (as\<lparr>segs := sg\<rparr>)"
proof -
  have l: "length (entries sg) = Suc (segment_cnt sg)" "0 < segment_cnt sg" "sorted_wrt (<) (map seg_addr (entries sg))"
    using length_entries [OF wf] wf by (simp_all add: seg_wf_def)
  then obtain x y es where es: "entries sg = x # y # es" by (cases "entries sg" rule: remdups_adj.cases) auto
  then have "type_at (entries sg) (seg_addr x) = Some (seg_type x)" using l(3) by simp
  then obtain ty where "type_at (entries (segs as)) (seg_addr x) = Some ty"
    using new [of "seg_addr x"] old [of "seg_addr x"] by (auto split: if_splits)
  moreover have "sorted_wrt (<) (map seg_addr (entries (segs as)))" using ag by (simp add: segs_agree_def seg_wf_def)
  ultimately have "seg_addr (hd (entries (segs as))) \<le> seg_addr x" using type_at_range by blast
  then have base: "VM_USER_BASE \<le> seg_addr (hd (entries sg))" using ag es by (auto simp: segs_agree_def intro: order_trans)
  have "page_at t (as\<lparr>segs := sg\<rparr>) va = None" if f: "type_at (entries sg) va = Some SEG_TYPE_FREE" for va
  proof -
    have o: "\<not> (a \<le> va \<and> va < e)" "type_at (entries (segs as)) va = Some SEG_TYPE_FREE"
      using f new [of va] by (auto simp: SEG_TYPE_FREE_def SEG_TYPE_ALLOC_def split: if_splits)
    have "page_at t as va = page_at s as va" using pages [OF d type_at_user(2) [OF ag o(2)]] o(1) by auto
    then show ?thesis using ag o(2) by (simp add: segs_agree_def page_at_def)
  qed
  then show ?thesis using wf base by (simp add: segs_agree_def)
qed

text \<open>The clean-up reaches the page mapped first.\<close>

lemma alloc_cleanup_crash:
  assumes z: "zeroed_at D s t (l1_table as) (takeWhile (\<lambda>x. x \<noteq> v) (page_range a (a + n)))" and d: "l1_table as \<in> D"
    and a: "page_aligned a" "page_aligned n" "unat a + unat n < 2 ^ 32"
    and v: "v \<in> set (page_range a (a + n))" and up: "\<forall>va \<in> set (page_range a (a + n)). user_page va"
  shows "v = a \<or> alloc_cleanup (as\<lparr>segs := sg\<rparr>) (page_range a v) t = None"
proof (cases "v = a")
  case False
  note pr = page_range_pages [OF a]
  have av: "page_aligned v" "a < v" "v < a + n" using v pr(2) [of v] False by auto
  then have "0 < n" by (cases "n = 0") (simp_all add: word_neq_0_conv)
  then have hd: "hd (page_range a (a + n)) = a" by (rule pr(3))
  then obtain vas where vas: "page_range a (a + n) = a # vas" using v by (cases "page_range a (a + n)") auto
  then have i: "user_page a" "pde_idx a < 2048" using up user_pde by (auto simp: user_page_def)
  have "upage t (l1_table as) (pde_idx a) (pte_idx a) = Some (Inr (\<lambda>_. 0))"
    using z d i(2) vas False unfolding zeroed_at_def by auto
  then have mapped: "slot t (l1_table as) (pde_idx a) (pte_idx a) \<noteq> None" using upage_None by (metis option.distinct(1))
  have "0 < unat (v - a)" using av(2) by (simp add: unat_gt_0)
  then have "0 < (unat (v - a) + 4095) div 4096" by (simp add: div_greater_zero_iff)
  then have "page_range a v = a # tl (page_range a v)"
    using av(2) by (simp add: page_range_def PAGE_SIZE_def upt_conv_Cons)
  then have "alloc_cleanup (as\<lparr>segs := sg\<rparr>) (page_range a v) t = alloc_cleanup (as\<lparr>segs := sg\<rparr>) (a # tl (page_range a v)) t" by simp
  also have "\<dots> = None" using mapped by (auto simp: pmap_extract_slot)
  finally show ?thesis by simp
qed simp

lemma sys_virtualalloc_cases:
  assumes "vm_wf s D" "l1_table as \<in> D" "segs_agree s as"
    "unat (ALIGN_DOWN addr PAGE_SIZE) + unat (ALIGN_UP len PAGE_SIZE) + 0x800000 < 2 ^ 32"
  shows "sys_virtualalloc as addr len flags s = Some (None, as, s)
      \<and> segment_create (segs as) (ALIGN_DOWN addr PAGE_SIZE) (ALIGN_UP len PAGE_SIZE) SEG_TYPE_ALLOC (flags AND MAP_FIXED \<noteq> 0)
        = Some (None, segs as)
    \<or> (\<exists>a as' s'. sys_virtualalloc as addr len flags s = Some (Some a, as', s') \<and> vm_wf s' D \<and> segs_agree s' as'
         \<and> l1_table as' = l1_table as \<and> (flags AND MAP_FIXED \<noteq> 0 \<longrightarrow> a = ALIGN_DOWN addr PAGE_SIZE)
         \<and> (\<forall>b va. l1_table b \<in> D \<and> va < 0x80000000 \<longrightarrow> page_at s' b va =
             (if l1_table b = l1_table as \<and> a \<le> va \<and> va < a + ALIGN_UP len PAGE_SIZE then Some (Inr (\<lambda>_. 0)) else page_at s b va))
         \<and> (\<forall>va. a \<le> va \<and> va < a + ALIGN_UP len PAGE_SIZE \<longrightarrow> page_at s as va = None)
         \<and> (\<forall>va. type_at (entries (segs as')) va =
             (if a \<le> va \<and> va < a + ALIGN_UP len PAGE_SIZE then Some SEG_TYPE_ALLOC else type_at (entries (segs as)) va)))
    \<or> (\<exists>a as' v t. alloc_pages as' ((flags AND NOT VM_SYSTEM_MASK) OR MEM_ALLOC) (page_range a (a + ALIGN_UP len PAGE_SIZE)) s = Some (Some v, t)
         \<and> avail s < 2 * length (page_range a (a + ALIGN_UP len PAGE_SIZE)) \<and> (v = a \<or> sys_virtualalloc as addr len flags s = None))"
proof -
  let ?n = "ALIGN_UP len PAGE_SIZE" and ?x = "ALIGN_DOWN addr PAGE_SIZE" and ?fl = "(flags AND NOT VM_SYSTEM_MASK) OR MEM_ALLOC"
  have wf: "seg_wf (segs as)" using assms(3) by (simp add: segs_agree_def)
  note fx = fixed_flag [of flags]
  from segment_create_result [OF wf align_down_page(1) ALIGN_UP_aligned assms(4), of SEG_TYPE_ALLOC "?fl AND MAP_FIXED \<noteq> 0"]
  obtain r sg where c: "segment_create (segs as) ?x ?n SEG_TYPE_ALLOC (?fl AND MAP_FIXED \<noteq> 0) = Some (r, sg)" "seg_wf sg"
    "case r of None \<Rightarrow> sg = segs as
     | Some a \<Rightarrow> page_aligned a \<and> (?fl AND MAP_FIXED \<noteq> 0 \<longrightarrow> a = ?x) \<and> unat a + unat ?n < 2 ^ 32
         \<and> (\<forall>x. a \<le> x \<and> x < a + ?n \<longrightarrow> type_at (entries (segs as)) x = Some SEG_TYPE_FREE)
         \<and> (\<forall>x. type_at (entries sg) x = (if a \<le> x \<and> x < a + ?n then Some (SEG_TYPE_ALLOC AND SEG_TYPE_MASK) else type_at (entries (segs as)) x))"
    by blast
  show ?thesis
  proof (cases r)
    case None
    then show ?thesis using c fx by (simp add: sys_virtualalloc_def Let_def)
  next
    case (Some a)
    let ?as = "as\<lparr>segs := sg\<rparr>" and ?vas = "page_range a (a + ?n)"
    have a: "page_aligned a" "unat a + unat ?n < 2 ^ 32"
      "flags AND MAP_FIXED \<noteq> 0 \<longrightarrow> a = ?x"
      "\<And>x. a \<le> x \<Longrightarrow> x < a + ?n \<Longrightarrow> type_at (entries (segs as)) x = Some SEG_TYPE_FREE"
      "\<And>x. type_at (entries sg) x = (if a \<le> x \<and> x < a + ?n then Some SEG_TYPE_ALLOC else type_at (entries (segs as)) x)"
      using c(3) fx unfolding Some by (auto simp: SEG_TYPE_ALLOC_def SEG_TYPE_MASK_def)
    note pr = page_range_pages [OF a(1) ALIGN_UP_aligned a(2)]
    have none: "page_at s as x = None" if "a \<le> x" "x < a + ?n" for x using assms(3) a(4) [OF that] by (simp add: segs_agree_def)
    have up: "\<forall>va \<in> set ?vas. user_page va" using pr(2) a(4) type_at_user [OF assms(3)] by (auto simp: user_page_def)
    have "\<forall>va \<in> set ?vas. slot s (l1_table ?as) (pde_idx va) (pte_idx va) = None"
      using none pr(2) upage_None by (auto simp: page_at_def)
    moreover have "l1_table ?as \<in> D" using assms(2) by simp
    moreover have dir: "l1_table ?as = l1_table as" by simp
    ultimately obtain r' t where t:
      "alloc_pages ?as ?fl ?vas s = Some (r', t)" "vm_wf t D"
      "case r' of None \<Rightarrow> zeroed_at D s t (l1_table as) ?vas
       | Some v \<Rightarrow> v \<in> set ?vas \<and> avail s < 2 * length ?vas \<and> zeroed_at D s t (l1_table as) (takeWhile (\<lambda>x. x \<noteq> v) ?vas)"
      using alloc_pages_cases [of s D ?as, OF assms(1) _ up pr(1) _ alloc_flags] unfolding dir by blast
    show ?thesis
    proof (cases r')
      case None
      then have z: "zeroed_at D s t (l1_table as) ?vas" using t(3) by simp
      note p = page_at_zeroed [OF z a(1) ALIGN_UP_aligned a(2)]
      have "segs_agree t ?as" by (rule segs_agree_alloc [OF assms(3,2) c(2) a(4,5) p])
      then show ?thesis
        using None Some c(1) t(1,2) a(3,5) p none by (intro disjI2 disjI1) (auto simp: sys_virtualalloc_def Let_def)
    next
      case (Some v)
      then have v: "v \<in> set ?vas" "avail s < 2 * length ?vas" "zeroed_at D s t (l1_table as) (takeWhile (\<lambda>x. x \<noteq> v) ?vas)"
        using t(3) by simp_all
      have "v = a \<or> sys_virtualalloc as addr len flags s = None"
        using alloc_cleanup_crash [OF v(3) assms(2) a(1) ALIGN_UP_aligned a(2) v(1) up, of sg] \<open>r = Some a\<close> Some c(1) t(1)
        by (auto simp: sys_virtualalloc_def Let_def)
      then show ?thesis using t(1) Some v(2) by blast
    qed
  qed
qed


text \<open>The first process of the examples allocates a page.\<close>

lemma demo_segs: "segs demo_as = fresh_as"
proof -
  from pmap_create_slot [OF demo_memory_maps, of "space_of 0"] demo_create obtain d where
    d: "demo_as = (space_of 0)\<lparr>l1_table := d\<rparr>" by auto
  show ?thesis unfolding d by (simp add: space_of_def)
qed

lemma demo_vm: "vm_wf demo_maps {l1_table demo_as}" "segs_agree demo_maps demo_as"
proof -
  have "mappers {l1_table demo_as} (slot demo_maps) f = {}" for f by (auto simp: mappers_def demo_maps_wf(2))
  then show "vm_wf demo_maps {l1_table demo_as}" by (simp add: vm_wf_def demo_maps_wf refs_ok_def)
  have t: "va < 0x80000000" if "type_at (entries fresh_as) va = Some ty" for va ty
  proof -
    have "va < VM_USER_CEILING"
      using that type_at_range [of "entries fresh_as" va ty] fresh_as_wf ceiling_entry_sel(1) by (simp add: seg_wf_def)
    then show ?thesis by (simp add: VM_USER_CEILING_def word_less_nat_alt)
  qed
  have "page_at demo_maps demo_as va = None" if "va < 0x80000000" for va
    using that user_pde demo_maps_wf(2) by (simp add: page_at_def upage_None)
  then show "segs_agree demo_maps demo_as"
    using t fresh_as_wf by (auto simp: segs_agree_def demo_segs VM_USER_BASE_def seg_addr_def SEG_ADDR_MASK_def)
qed

lemma demo_page:
  "\<exists>as s. sys_virtualalloc demo_as 0x800000 0x1000 (MAP_FIXED OR PROT_WRITE) demo_maps = Some (Some 0x800000, as, s)
    \<and> vm_wf s {l1_table demo_as} \<and> l1_table as = l1_table demo_as \<and> page_at s as 0x800000 = Some (Inr (\<lambda>_. 0))"
proof -
  let ?fl = "MAP_FIXED OR PROT_WRITE"
  have al: "ALIGN_DOWN 0x800000 PAGE_SIZE = 0x800000" "ALIGN_UP 0x1000 PAGE_SIZE = 0x1000" "?fl AND MAP_FIXED \<noteq> 0"
    by (simp_all add: ALIGN_DOWN_def ALIGN_UP_def PAGE_SIZE_def MAP_FIXED_def PROT_WRITE_def)
  have n: "unat (ALIGN_DOWN 0x800000 PAGE_SIZE) + unat (ALIGN_UP 0x1000 PAGE_SIZE) + 0x800000 < 2 ^ 32" unfolding al by simp
  have c: "segment_create fresh_as 0x800000 0x1000 SEG_TYPE_ALLOC True \<noteq> Some (None, fresh_as)" by code_simp
  have len: "length (page_range a (a + 0x1000)) \<le> 1" for a by (simp add: page_range_def)
  from sys_virtualalloc_cases [OF demo_vm(1) insertI1 demo_vm(2) n, of ?fl] show ?thesis
    unfolding al demo_segs
  proof (elim disjE exE conjE)
    assume "segment_create fresh_as 0x800000 0x1000 SEG_TYPE_ALLOC (?fl AND MAP_FIXED \<noteq> 0) = Some (None, fresh_as)"
    then show ?thesis using c al(3) by simp
  next
    fix a as' v t assume "avail demo_maps < 2 * length (page_range a (a + 0x1000))"
    then show ?thesis using demo_maps_avail len [of a] by simp
  next
    fix a as' v t assume "avail demo_maps < 2 * length (page_range a (a + 0x1000))"
    then show ?thesis using demo_maps_avail len [of a] by simp
  next
    fix a as' s' assume r: "sys_virtualalloc demo_as 0x800000 0x1000 ?fl demo_maps = Some (Some a, as', s')" "vm_wf s' {l1_table demo_as}"
      "l1_table as' = l1_table demo_as" "?fl AND MAP_FIXED \<noteq> 0 \<longrightarrow> a = 0x800000"
      and p: "\<forall>b va. l1_table b \<in> {l1_table demo_as} \<and> va < 0x80000000 \<longrightarrow> page_at s' b va =
        (if l1_table b = l1_table demo_as \<and> a \<le> va \<and> va < a + 0x1000 then Some (Inr (\<lambda>_. 0)) else page_at demo_maps b va)"
    have "a = 0x800000" using r(4) al(3) by simp
    moreover from this have "page_at s' as' 0x800000 = Some (Inr (\<lambda>_. 0))" using p [rule_format, of as' "0x800000"] r(3) by simp
    ultimately show ?thesis using r by blast
  qed
qed


section \<open>Isolation\<close>

lemma same_page: "pde_idx a = pde_idx b \<and> pte_idx a = pte_idx b \<longleftrightarrow> ALIGN_DOWN a PAGE_SIZE = ALIGN_DOWN b PAGE_SIZE"
  using page_idx_inj [OF align_down_page(1) align_down_page(1), of a b] align_down_page(2,3) by metis

lemma pages_upd_at:
  assumes "pages_upd D s t (l1_table as) (pde_idx va) (pte_idx va) v" "l1_table b \<in> D" "va' < 0x80000000"
  shows "page_at t b va' = (if l1_table b = l1_table as \<and> ALIGN_DOWN va' PAGE_SIZE = ALIGN_DOWN va PAGE_SIZE then v else page_at s b va')"
  using assms user_pde unfolding pages_upd_def page_at_def same_page [symmetric] by simp

lemma store_flags:
  "writable fl \<or> fl AND (PROT_WRITE OR MAP_COW) = PROT_WRITE OR MAP_COW \<and> \<not> writable fl \<and> fl AND PROT_WRITE \<noteq> 0
    \<or> fl AND PROT_WRITE = 0 \<and> \<not> writable fl"
proof -
  have one: "fl AND 2 ^ n = 0 \<or> fl AND 2 ^ n = 2 ^ n" for n
    by (cases "bit fl n") (auto intro!: bit_word_eqI simp: bit_simps)
  have "fl AND PROT_WRITE = 0 \<or> fl AND PROT_WRITE = PROT_WRITE" "fl AND MAP_COW = 0 \<or> fl AND MAP_COW = MAP_COW"
    using one [of 1] one [of 26] by (simp_all add: PROT_WRITE_def MAP_COW_def)
  then show ?thesis by (auto simp: writable_def bit.conj_disj_distrib)
qed

lemma page_fault_ro:
  assumes "slot s (l1_table as) (pde_idx va) (pte_idx va) = Some (pa, fl)" "fl AND PROT_WRITE = 0"
  shows "page_fault as va access s = Some (False, s)"
proof -
  let ?a = "ALIGN_DOWN va PAGE_SIZE"
  have e: "pmap_extract as ?a s = Some (pa, fl)" using assms(1) by (simp add: pmap_extract_slot align_down_page)
  have "(fl AND (PROT_WRITE OR MAP_COW)) AND PROT_WRITE = fl AND PROT_WRITE"
    by (simp add: and.assoc PROT_WRITE_def MAP_COW_def)
  then have "(fl AND (PROT_WRITE OR MAP_COW)) AND PROT_WRITE = 0" using assms(2) by simp
  then have "fl AND (PROT_WRITE OR MAP_COW) \<noteq> PROT_WRITE \<and> fl AND (PROT_WRITE OR MAP_COW) \<noteq> PROT_WRITE OR MAP_COW"
    by (auto simp: PROT_WRITE_def MAP_COW_def)
  then show ?thesis using e by (auto simp: page_fault_def Let_def)
qed



text \<open>C35: Fork gives the child the memory of its parent.  \<open>fork_address_space\<close> always returns; whether it succeeds or not, every
  process sees the pages it saw before.  If it succeeds, the new page directory belongs to no other process,
  the child sees at every user address exactly what the parent sees there and has the parent's segments,
  and the counts and page maps of all processes, the child among them, are consistent.  It
  fails only when no frames are left.\<close>

theorem fork_copies_memory:
  assumes "vm_wf s D" "l1_table old \<in> D" "seg_wf (segs old)" "length (segment_table (segs new)) = NSEGMENT"
  shows "\<exists>ok new' s'. fork_address_space new old s = Some (ok, new', s')
    \<and> (\<forall>b va. l1_table b \<in> D \<and> va < 0x80000000 \<longrightarrow> page_at s' b va = page_at s b va)
    \<and> (if ok then l1_table new' \<notin> D \<and> vm_wf s' (insert (l1_table new') D)
           \<and> entries (segs new') = entries (segs old)
           \<and> (\<forall>va. va < VM_USER_CEILING \<longrightarrow> page_at s' new' va = page_at s old va)
       else vm_wf s' D \<and> (pf_lists_empty 4096 s' \<or> pf_lists_empty 16384 s'))"
proof -
  have sg: "segment_cnt (segs old) < length (segment_table (segs old))" "segment_cnt (segs old) < length (segment_table (segs new))"
    using assms(3,4) by (simp_all add: seg_wf_def)
  from fork_address_space_cases [OF assms(1,2) sg] obtain ok new' s' where f:
    "fork_address_space new old s = Some (ok, new', s')" "vm_wf s' D" "pages_same D s s'"
    "\<not> ok \<longrightarrow> pf_lists_empty 4096 s' \<or> pf_lists_empty 16384 s'"
    "ok \<longrightarrow> l1_table new' \<notin> D \<and> vm_wf s' (insert (l1_table new') D)
       \<and> (\<forall>k < 2032. \<forall>l < 256. upage s' (l1_table new') k l = upage s (l1_table old) k l) \<and> entries (segs new') = entries (segs old)"
    by blast
  have "page_at s' b va = page_at s b va" if "l1_table b \<in> D" "va < 0x80000000" for b va
    using f(3) that user_pde by (simp add: pages_same_def page_at_def)
  moreover have "page_at s' new' va = page_at s old va" if ok "va < VM_USER_CEILING" for va
    using f(5) that ceiling_pde by (simp add: page_at_def)
  ultimately show ?thesis using f by (intro exI [of _ ok] exI [of _ new'] exI [of _ s']) simp
qed

theorem fork_copies_memory_witness:
  "\<exists>ok new' s'. fork_address_space (space_of 0) demo_as demo_maps = Some (ok, new', s')
    \<and> page_at s' demo_as 0x800000 = page_at demo_maps demo_as 0x800000"
proof -
  have "seg_wf (segs demo_as)" "length (segment_table (segs (space_of 0))) = NSEGMENT"
    using fresh_as_wf by (simp_all add: demo_segs space_of_def seg_wf_def)
  from fork_copies_memory [OF demo_vm(1) insertI1 this] show ?thesis by auto
qed

end
