(* ===== verification/Processes.thy ===== *)
theory Processes
  imports VNodes Address_Spaces
begin

unbundle bit_operations_syntax

text \<open>
  The life of a process, \<^verbatim>\<open>kernel/proc/proc.c\<close>, with the parts of \<^verbatim>\<open>boards/raspberry_pi_4/proc.c\<close> that it
  calls: fork, exit and wait.  These functions put the other components together: a fork allocates a slot
  of the process table, shares the open files of the caller, copies its registers and its address
  space, and starts the child; an exit closes the files, gives back the memory, hands the children to
  the root process, wakes the parent and leaves the processor as a zombie; a wait takes the zombie away.

  A process is named by its index in the process table, which is its \<^verbatim>\<open>pid\<close>.  The fields of
  \<^verbatim>\<open>struct Process\<close> that belong to scheduling, timers, open files, messages and identity are in the states
  of those components; the others are the record \<open>task\<close>.  The result \<open>None\<close> is a NULL
  dereference or a panic; \<^verbatim>\<open>KASSERT\<close> is compiled out (\<^verbatim>\<open>KDEBUG\<close> is undefined).
\<close>

section \<open>State\<close>

definition max_process :: nat where
  "max_process = 256"

definition WNOHANG :: u32 where
  "WNOHANG = 1"

record Signal =
  handler :: "nat \<Rightarrow> u32"
  handler_mask :: "nat \<Rightarrow> u32"
  si_code :: "nat \<Rightarrow> int"
  sig_info :: u32
  sig_mask :: u32
  sig_pending :: u32
  sig_resethand :: u32
  sig_nodefer :: u32
  sigsuspend_oldmask :: u32
  use_sigsuspend_mask :: bool
  restorer :: u32

record UserContext =
  uc_r0 :: u32
  uc_r1 :: u32
  uc_r2 :: u32
  uc_r3 :: u32
  uc_r4 :: u32
  uc_r5 :: u32
  uc_r6 :: u32
  uc_r7 :: u32
  uc_r8 :: u32
  uc_r9 :: u32
  uc_r10 :: u32
  uc_r11 :: u32
  uc_r12 :: u32
  uc_sp :: u32
  uc_lr :: u32
  uc_pc :: u32
  uc_cpsr :: u32

text \<open>The routine whose address the saved kernel context of a process returns to.\<close>

datatype entry = No_entry | StartForkProcess | StartExecProcess

record task =
  in_use :: bool
  parent :: "nat option"
  child_list :: "nat list"
  exit_status :: int
  log_level :: int
  basename :: string
  p_as :: vm_space
  p_uc :: UserContext
  p_context :: entry
  catch_pc :: u32
  p_signal :: Signal

record processes = vnodes +
  process_table :: "nat \<Rightarrow> task"
  vm :: vmem
  root_process :: nat

definition upd_task :: "nat \<Rightarrow> (task \<Rightarrow> task) \<Rightarrow> 'a processes_scheme \<Rightarrow> 'a processes_scheme" where
  "upd_task p f s = s\<lparr>process_table := (process_table s)(p := f (process_table s p))\<rparr>"

definition zombie :: "'a sched_scheme \<Rightarrow> nat \<Rightarrow> bool" where
  "zombie s p \<longleftrightarrow> pstate (procs s p) = PROC_STATE_ZOMBIE"

section \<open>The process table\<close>

definition zero_signal :: Signal where
  "zero_signal = \<lparr>handler = (\<lambda>_. 0), handler_mask = (\<lambda>_. 0), si_code = (\<lambda>_. 0), sig_info = 0, sig_mask = 0,
     sig_pending = 0, sig_resethand = 0, sig_nodefer = 0, sigsuspend_oldmask = 0, use_sigsuspend_mask = False,
     restorer = 0\<rparr>"

definition zero_context :: UserContext where
  "zero_context = \<lparr>uc_r0 = 0, uc_r1 = 0, uc_r2 = 0, uc_r3 = 0, uc_r4 = 0, uc_r5 = 0, uc_r6 = 0, uc_r7 = 0,
     uc_r8 = 0, uc_r9 = 0, uc_r10 = 0, uc_r11 = 0, uc_r12 = 0, uc_sp = 0, uc_lr = 0, uc_pc = 0, uc_cpsr = 0\<rparr>"

definition zero_space :: vm_space where
  "zero_space = \<lparr>l1_table = 0, segs = \<lparr>segment_table = replicate NSEGMENT 0, segment_cnt = 0\<rparr>\<rparr>"

definition zero_timer :: timer where
  "zero_timer = \<lparr>armed = False, expiration_time = 0, targ = None, callback = None, tprocess = None\<rparr>"

definition zero_cred :: cred where
  "zero_cred = \<lparr>cr_uid = 0, cr_gid = 0, cr_euid = 0, cr_egid = 0, cr_pgrp = 0\<rparr>"

text \<open>
  The whole slot is cleared and some of its fields are set; those that the scheduler reads are
  \<open>child_process\<close>, which copies the priority and the policy of the caller.
\<close>

definition new_task :: "nat \<Rightarrow> int \<Rightarrow> task" where
  "new_task c lvl = \<lparr>in_use = True, parent = Some c, child_list = [], exit_status = 0, log_level = lvl,
     basename = [], p_as = zero_space, p_uc = zero_context, p_context = No_entry, catch_pc = 0,
     p_signal = zero_signal\<rparr>"

definition clear_slot :: "nat \<Rightarrow> 'a processes_scheme \<Rightarrow> 'a processes_scheme" where
  "clear_slot p s =
     (let c = current s;
          s = upd_proc p (\<lambda>_. child_process (procs s c)) s;
          s = upd_timer (Sleep_timer p) (\<lambda>_. zero_timer) s;
          s = upd_timer (Timeout_timer p) (\<lambda>_. zero_timer) s;
          s = upd_cred p (\<lambda>_. zero_cred) s;
          s = s\<lparr>fprocs := (fprocs s)(p := None)\<rparr>
      in upd_task p (\<lambda>_. new_task c (log_level (process_table s c))) s)"

text \<open>
  A page for the open files of process \<open>p\<close>; \<open>kmalloc_page\<close> clears it.  The file mode mask is a field
  of this page.
\<close>

definition zero_fproc :: fproc where
  "zero_fproc = \<lparr>fd_table = (\<lambda>_. None), fd_close_on_exec_set = (\<lambda>_. False), fd_in_use_set = (\<lambda>_. False),
     current_dir = None, root_dir = None\<rparr>"

definition files_page :: "nat \<Rightarrow> 'a processes_scheme \<Rightarrow> (fproc option \<times> 'a processes_scheme) option" where
  "files_page p s = do {
     (va, m) \<leftarrow> kmalloc_page (vm s);
     let s = s\<lparr>vm := m\<rparr>;
     case va of
       None \<Rightarrow> Some (None, s)
     | Some _ \<Rightarrow> Some (Some zero_fproc, s\<lparr>umasks := (umasks s)(p := 0)\<rparr>)
   }"

definition AllocProcess :: "'a processes_scheme \<Rightarrow> (nat option \<times> 'a processes_scheme) option" where
  "AllocProcess s =
     (case find (\<lambda>p. \<not> in_use (process_table s p)) [0..<max_process] of
        None \<Rightarrow> Some (None, s)
      | Some p \<Rightarrow> do {
          let s = clear_slot p s;
          let s = init_msgport (Reply_port p) s;
          (page, s) \<leftarrow> files_page p s;
          let (_, s) = init_fproc p page s;
          Some (Some p, InitRendez (Rz_proc p) s)
        })"

definition FreeProcess :: "nat \<Rightarrow> 'a processes_scheme \<Rightarrow> 'a processes_scheme" where
  "FreeProcess p s = upd_task p (\<lambda>t. t\<lparr>in_use := False\<rparr>) s"

definition GetProcess :: "int \<Rightarrow> nat option" where
  "GetProcess pid = (if pid < 0 \<or> pid \<ge> int max_process then None else Some (nat pid))"

definition GetProcessPid :: "nat \<Rightarrow> int" where
  "GetProcessPid p = int p"

definition GetPid :: "'a processes_scheme \<Rightarrow> int" where
  "GetPid s = GetProcessPid (current s)"

definition sys_getppid :: "'a processes_scheme \<Rightarrow> int option" where
  "sys_getppid s = map_option GetProcessPid (parent (process_table s (current s)))"

section \<open>Fork\<close>

definition arch_fork_process :: "nat \<Rightarrow> nat \<Rightarrow> 'a processes_scheme \<Rightarrow> 'a processes_scheme" where
  "arch_fork_process p c s =
     (let uc = (p_uc (process_table s c))\<lparr>uc_r0 := 0\<rparr>
      in upd_task p (\<lambda>t. t\<lparr>p_uc := uc, p_context := StartForkProcess,
           catch_pc := catch_pc (process_table s c)\<rparr>) s)"

definition arch_free_process :: "nat \<Rightarrow> 'a processes_scheme \<Rightarrow> 'a processes_scheme" where
  "arch_free_process p s = s"

text \<open>
  The registers of a process that starts a new program.  The function then loads this context and does
  not return.
\<close>

definition USR_MODE :: u32 where
  "USR_MODE = 0x10"

definition CPSR_DEFAULT_BITS :: u32 where
  "CPSR_DEFAULT_BITS = 0x40"

definition arch_init_exec ::
  "nat \<Rightarrow> u32 \<Rightarrow> u32 \<Rightarrow> u32 \<Rightarrow> u32 \<Rightarrow> u32 \<Rightarrow> u32 \<Rightarrow> 'a processes_scheme \<Rightarrow> 'a processes_scheme" where
  "arch_init_exec p entry_point stack_pointer argc argv envc envv s =
     upd_task p (\<lambda>t. t\<lparr>p_uc := zero_context\<lparr>uc_r0 := argc, uc_r1 := argv, uc_r2 := envc, uc_r3 := envv,
         uc_pc := entry_point, uc_sp := stack_pointer, uc_cpsr := USR_MODE OR CPSR_DEFAULT_BITS\<rparr>,
       p_context := StartExecProcess, catch_pc := 0xdeadbeef\<rparr>) s"

text \<open>The references that the child takes to its current and its root directory.\<close>

definition inc_dir :: "nat option \<Rightarrow> 'a processes_scheme \<Rightarrow> 'a processes_scheme option" where
  "inc_dir d s = (case d of None \<Rightarrow> Some s | Some v \<Rightarrow> vnode_inc_ref v s)"

definition fork_files :: "nat \<Rightarrow> nat \<Rightarrow> 'a processes_scheme \<Rightarrow> 'a processes_scheme option" where
  "fork_files p c s = do {
     (page, s) \<leftarrow> files_page p s;
     (r, s) \<leftarrow> fork_process_fds p c page s;
     case r of
       Inl _ \<Rightarrow> Some s
     | Inr _ \<Rightarrow> do {
         fp \<leftarrow> fprocs s p;
         s \<leftarrow> inc_dir (current_dir fp) s;
         inc_dir (root_dir fp) s
       }
   }"

definition sys_fork :: "'a processes_scheme \<Rightarrow> (int result \<times> 'a processes_scheme) option" where
  "sys_fork s = do {
     let c = current s;
     (new, s) \<leftarrow> AllocProcess s;
     case new of
       None \<Rightarrow> Some (Inl ENOMEM, s)
     | Some p \<Rightarrow> do {
         s \<leftarrow> fork_files p c s;
         let s = upd_task p (\<lambda>t. t\<lparr>basename := basename (process_table s c)\<rparr>) s;
         let s = arch_fork_process p c s;
         (ok, as, m) \<leftarrow> fork_address_space (p_as (process_table s p)) (p_as (process_table s c)) (vm s);
         let s = upd_task p (\<lambda>t. t\<lparr>p_as := as\<rparr>) (s\<lparr>vm := m\<rparr>);
         if ok then do {
           let s = upd_task c (\<lambda>t. t\<lparr>child_list := child_list t @ [p]\<rparr>) s;
           let s = upd_proc p (\<lambda>x. x\<lparr>pstate := PROC_STATE_READY\<rparr>) s;
           s \<leftarrow> SchedReady p s;
           Some (Inr (GetProcessPid p), s)
         }
         else do {
           s \<leftarrow> fini_fproc p s;
           Some (Inl ENOMEM, FreeProcess p s)
         }
       }
   }"

section \<open>Exit\<close>

text \<open>Gives back a zombie: its page directory and its slot.\<close>

definition free_zombie :: "nat \<Rightarrow> 'a processes_scheme \<Rightarrow> 'a processes_scheme" where
  "free_zombie p s =
     (let s = s\<lparr>vm := free_address_space (p_as (process_table s p)) (vm s)\<rparr>;
          s = arch_free_process p s
      in FreeProcess p s)"

text \<open>The loop over the children of the process \<open>c\<close> that exits; it ends if \<open>c\<close> is not the root process.\<close>

partial_function (option) exit_children :: "nat \<Rightarrow> 'a processes_scheme \<Rightarrow> 'a processes_scheme option" where
  "exit_children c s =
     (case child_list (process_table s c) of
        [] \<Rightarrow> Some s
      | p # ps \<Rightarrow>
          (let s = upd_task c (\<lambda>t. t\<lparr>child_list := ps\<rparr>) s
           in if zombie s p then exit_children c (free_zombie p s)
              else (let s = upd_task (root_process s) (\<lambda>t. t\<lparr>child_list := child_list t @ [p]\<rparr>) s;
                        s = upd_task p (\<lambda>t. t\<lparr>parent := Some (root_process s)\<rparr>) s
                    in exit_children c s)))"

definition sys_exit :: "int \<Rightarrow> 'a processes_scheme \<Rightarrow> 'a processes_scheme option" where
  "sys_exit status s = do {
     let c = current s;
     q \<leftarrow> parent (process_table s c);
     let s = upd_task c (\<lambda>t. t\<lparr>exit_status := status\<rparr>) s;
     s \<leftarrow> fini_fproc c s;
     (as, m) \<leftarrow> cleanup_address_space (p_as (process_table s c)) (vm s);
     let s = upd_task c (\<lambda>t. t\<lparr>p_as := as\<rparr>) (s\<lparr>vm := m\<rparr>);
     s \<leftarrow> exit_children c s;
     exit_switch (TaskWakeup (Rz_proc q) s)
   }"

section \<open>Wait\<close>

text \<open>The search for a zombie of process group \<open>g\<close>; \<open>n\<close> counts the children in the group.\<close>

fun scan_pgrp :: "int \<Rightarrow> nat list \<Rightarrow> nat \<Rightarrow> 'a processes_scheme \<Rightarrow> nat option \<times> nat" where
  "scan_pgrp g [] n s = (None, n)"
| "scan_pgrp g (p # ps) n s =
     (if cr_pgrp (creds s p) = g
      then (if zombie s p then (Some p, Suc n) else scan_pgrp g ps (Suc n) s)
      else scan_pgrp g ps n s)"

definition wait_pgrp :: "int \<Rightarrow> 'a processes_scheme \<Rightarrow> nat option result" where
  "wait_pgrp g s =
     (let ch = child_list (process_table s (current s))
      in if ch = [] then Inl EINVAL
         else let (found, n) = scan_pgrp g ch 0 s
              in if n = 0 then Inl EINVAL else Inr found)"

text \<open>One pass of the loop: an error, the zombie found, or none yet.\<close>

definition wait_pass :: "int \<Rightarrow> 'a processes_scheme \<Rightarrow> nat option result" where
  "wait_pass pid s =
     (let c = current s; ch = child_list (process_table s c)
      in if pid > 0 then
           (case GetProcess pid of
              None \<Rightarrow> Inl EINVAL
            | Some p \<Rightarrow>
                if in_use (process_table s p) \<and> parent (process_table s p) = Some c
                then Inr (if zombie s p then Some p else None)
                else Inl EINVAL)
         else if pid = 0 then wait_pgrp (cr_pgrp (creds s c)) s
         else if pid = - 1 then
           (if ch = [] \<and> c \<noteq> root_process s then Inl EINVAL else Inr (find (zombie s) ch))
         else wait_pgrp (- pid) s)"

text \<open>
  \<open>status\<close> is \<open>None\<close> for a NULL pointer and otherwise tells whether the word can be written.  The
  result holds the number of the child and the status that is written.  A call that sleeps runs the
  loop again when it is woken, so it is called again.
\<close>

definition sys_waitpid ::
  "int \<Rightarrow> bool option \<Rightarrow> u32 \<Rightarrow> 'a processes_scheme \<Rightarrow> ((int \<times> int option) result sys \<times> 'a processes_scheme) option" where
  "sys_waitpid pid status options s =
     (let c = current s
      in if - pid \<ge> int max_process \<or> pid \<ge> int max_process then Some (Done (Inl EINVAL), s)
         else case wait_pass pid s of
           Inl e \<Rightarrow> Some (Done (Inl e), s)
         | Inr None \<Rightarrow>
             (if options AND WNOHANG \<noteq> 0 then Some (Done (Inl EAGAIN), s)
              else do { s \<leftarrow> TaskSleep (Rz_proc c) s; Some (Blocked, s) })
         | Inr (Some p) \<Rightarrow>
             (if status = Some False then Some (Done (Inl EFAULT), s)
              else let out = (if status = None then None else Some (exit_status (process_table s p)));
                       s = upd_task c (\<lambda>t. t\<lparr>child_list := remove1 p (child_list t)\<rparr>) s
                   in Some (Done (Inr (GetProcessPid p, out)), free_zombie p s)))"

section \<open>What the operations change\<close>

text \<open>Operations that leave the scheduler, or the process table, as it is.\<close>

definition same_sched :: "'a sched_scheme \<Rightarrow> 'b sched_scheme \<Rightarrow> bool" where
  "same_sched s t \<longleftrightarrow> sched.truncate t = sched.truncate s"

definition same_procs :: "'a processes_scheme \<Rightarrow> 'a processes_scheme \<Rightarrow> bool" where
  "same_procs s t \<longleftrightarrow> process_table t = process_table s \<and> vm t = vm s \<and> root_process t = root_process s"

lemma same_schedD:
  assumes "same_sched s t"
  shows "procs t = procs s" "sched_queue t = sched_queue s" "current t = current s" "idle_process t = idle_process s"
    "bkl_locked t = bkl_locked s" "bkl_owner t = bkl_owner s" "bkl_blocked_list t = bkl_blocked_list s"
    "blocked_list t = blocked_list s"
  using assms by (simp_all add: same_sched_def sched.truncate_def)

lemma same_sched_inv:
  assumes "same_sched s t"
  shows "sched_inv t = sched_inv s" "queued t p = queued s p" "zombie t p = zombie s p"
  unfolding sched_inv_def runq_inv_def waits_inv_def current_inv_def owner_inv_def queued_def zombie_def same_schedD [OF assms]
  by (rule refl)+

lemma same_refl [simp]: "same_sched s s" "same_procs r r"
  by (simp_all add: same_sched_def same_procs_def)

lemma same_trans:
  "same_sched s t \<Longrightarrow> same_sched t u \<Longrightarrow> same_sched s u"
  "same_procs s' t' \<Longrightarrow> same_procs t' u' \<Longrightarrow> same_procs s' u'"
  by (simp_all add: same_sched_def same_procs_def)

lemma same_procs_vnodes: "vnodes.more t = vnodes.more s \<Longrightarrow> same_procs s t"
  by (cases s, cases t) (simp add: same_procs_def)

lemma same_procs_files: "files.more t = files.more s \<Longrightarrow> same_procs s t"
  by (cases s, cases t) (simp add: same_procs_def)

lemma same_procs_sched: "sched.more t = sched.more s \<Longrightarrow> same_procs s t"
  by (rule same_procs_vnodes) (rule vnodes_more(10))

definition files_only :: "'a files_scheme \<Rightarrow> 'a files_scheme \<Rightarrow> bool" where
  "files_only s t \<longleftrightarrow> same_sched s t \<and> files.more t = files.more s"

lemma files_only_refl [simp]: "files_only s s"
  by (simp add: files_only_def)

lemma files_only_trans: "files_only s t \<Longrightarrow> files_only t u \<Longrightarrow> files_only s u"
  by (auto simp: files_only_def intro: same_trans)

lemma files_only_set [simp]:
  "files_only s (upd_filp f g t) = files_only s t" "files_only s (set_fproc p fp t) = files_only s t"
  "files_only s (t\<lparr>fprocs := x\<rparr>) = files_only s t" "files_only s (t\<lparr>filp_free_list := l\<rparr>) = files_only s t"
  "files_only (upd_filp f g s) t = files_only s t" "files_only (set_fproc p fp s) t = files_only s t"
  by (simp_all add: files_only_def same_sched_def sched.truncate_def upd_filp_def set_fproc_def)

lemma free_fd_only: "free_fd p fd s = Some (r, t) \<Longrightarrow> files_only s t"
  by (auto simp: free_fd_def split: if_splits Option.bind_splits)

lemma free_filp_only: "files_only s (free_filp fo s)"
  by (auto simp: free_filp_def Let_def intro: files_only_trans split: option.split)

lemma free_fd_filp_only: "free_fd_filp p fd s = Some (r, t) \<Longrightarrow> files_only s t"
  by (auto simp: free_fd_filp_def Let_def intro: files_only_trans free_filp_only dest!: free_fd_only
      split: if_splits Option.bind_splits option.splits)

lemma do_close_only:
  assumes "do_close p fd s = Some (r, t)"
  shows "files_only s t"
  using assms
  by (auto simp: do_close_def close_item_def Let_def split: if_splits Option.bind_splits option.splits
      dest!: free_fd_filp_only free_fd_only)

lemma close_loop_only: "close_loop p fd n s = Some t \<Longrightarrow> files_only s t"
proof (induction n arbitrary: fd s)
  case (Suc n)
  then show ?case by (auto split: Option.bind_splits dest!: do_close_only intro: files_only_trans)
qed simp

lemma fini_fproc_only: "fini_fproc p s = Some t \<Longrightarrow> files_only s t"
  by (auto simp: fini_fproc_def split: Option.bind_splits dest!: close_loop_only intro: files_only_trans)

text \<open>Closing the files of a process leaves the tables of the others alone.\<close>

lemma free_fd_other: "free_fd p fd s = Some (r, t) \<Longrightarrow> q \<noteq> p \<Longrightarrow> fprocs t q = fprocs s q"
  by (auto simp: free_fd_def split: if_splits Option.bind_splits)

lemma free_filp_fprocs [simp]: "fprocs (free_filp fo s) = fprocs s"
  by (simp add: free_filp_def Let_def split: option.split)

lemma free_fd_filp_other: "free_fd_filp p fd s = Some (r, t) \<Longrightarrow> q \<noteq> p \<Longrightarrow> fprocs t q = fprocs s q"
  by (auto simp: free_fd_filp_def Let_def dest: free_fd_other split: if_splits Option.bind_splits option.splits)

lemma do_close_other: "do_close p fd s = Some (r, t) \<Longrightarrow> q \<noteq> p \<Longrightarrow> fprocs t q = fprocs s q"
  by (auto simp: do_close_def close_item_def Let_def split: if_splits Option.bind_splits option.splits
      dest: free_fd_filp_other free_fd_other)

lemma close_loop_other: "close_loop p fd n s = Some t \<Longrightarrow> q \<noteq> p \<Longrightarrow> fprocs t q = fprocs s q"
proof (induction n arbitrary: fd s)
  case (Suc n)
  then show ?case by (auto split: Option.bind_splits dest: do_close_other)
qed simp

lemma fini_fproc_fprocs: "fini_fproc p s = Some t \<Longrightarrow> fprocs t = (fprocs s)(p := None)"
  by (auto simp: fini_fproc_def fun_eq_iff split: Option.bind_splits dest: close_loop_other)

lemma fork_fd_other: "fork_fd newp oldp fd s = Some t \<Longrightarrow> q \<noteq> newp \<Longrightarrow> fprocs t q = fprocs s q"
  by (auto simp: fork_fd_def Let_def split: Option.bind_splits option.splits)

lemma fork_loop_other: "fork_loop newp oldp fd n s = Some t \<Longrightarrow> q \<noteq> newp \<Longrightarrow> fprocs t q = fprocs s q"
proof (induction n arbitrary: fd s)
  case (Suc n)
  then show ?case by (auto split: Option.bind_splits dest: fork_fd_other)
qed simp

lemma fork_process_fds_other:
  "fork_process_fds newp oldp page s = Some (r, t) \<Longrightarrow> q \<noteq> newp \<Longrightarrow> fprocs t q = fprocs s q"
  by (auto simp: fork_process_fds_def split: Option.bind_splits option.splits dest: fork_loop_other)

lemma fork_fd_only: "fork_fd newp oldp fd s = Some t \<Longrightarrow> files_only s t"
  by (auto simp: fork_fd_def Let_def split: Option.bind_splits option.splits intro: files_only_trans)

lemma fork_loop_only: "fork_loop newp oldp fd n s = Some t \<Longrightarrow> files_only s t"
proof (induction n arbitrary: fd s)
  case (Suc n)
  then show ?case by (auto split: Option.bind_splits dest!: fork_fd_only intro: files_only_trans)
qed simp

lemma fork_process_fds_only:
  assumes "fork_process_fds newp oldp page s = Some (r, t)"
  shows "files_only s t"
proof (cases page)
  case (Some fp)
  then obtain u new where "fork_loop newp oldp 0 OPEN_MAX (set_fproc newp fp s) = Some u" "t = set_fproc newp new u"
    using assms by (auto simp: fork_process_fds_def split: Option.bind_splits)
  then show ?thesis by (auto dest!: fork_loop_only)
qed (use assms in \<open>simp add: fork_process_fds_def\<close>)

lemma init_fproc_only: "files_only s (snd (init_fproc p page s))"
  by (simp add: init_fproc_def split: option.split)

lemma init_fproc_other: "q \<noteq> p \<Longrightarrow> fprocs (snd (init_fproc p page s)) q = fprocs s q"
  by (simp add: init_fproc_def split: option.split)

lemma inc_dir_only:
  assumes "inc_dir d s = Some t"
  shows "same_sched s t" "same_procs s t" "fprocs t = fprocs s"
  using assms
  by (auto simp: inc_dir_def vnode_inc_ref_def sb_count_def upd_vnode_def upd_sb_def same_sched_def sched.truncate_def same_procs_def
      split: option.splits Option.bind_splits)

section \<open>Zombies and the scheduler\<close>

text \<open>A process that is on no list of the scheduler.\<close>

definition off :: "'a sched_scheme \<Rightarrow> nat \<Rightarrow> bool" where
  "off s p \<longleftrightarrow> \<not> queued s p \<and> p \<notin> set (bkl_blocked_list s) \<and> (\<forall>r. p \<notin> set (blocked_list s r)) \<and> p \<noteq> idle_process s"

lemma same_sched_off: "same_sched s t \<Longrightarrow> off t p = off s p"
  by (simp add: off_def same_sched_inv(2) same_schedD)

lemma off_hd:
  "off s p \<Longrightarrow> bkl_blocked_list s = [] \<or> p \<noteq> hd (bkl_blocked_list s)"
  "off s p \<Longrightarrow> blocked_list s r = [] \<or> p \<noteq> hd (blocked_list s r)"
  by (metis off_def list.set_sel(1))+

lemma resched_account_pstate: "resched_account s = Some t \<Longrightarrow> pstate (procs t p) = pstate (procs s p)"
  by (auto simp: resched_account_def Let_def split: if_splits list.splits)

lemma Reschedule_pstate:
  "Reschedule s = Some t \<Longrightarrow> pstate (procs t p) = (if p = current t then PROC_STATE_RUNNING else pstate (procs s p))"
  by (auto simp: Reschedule_def Let_def resched_account_pstate split: Option.bind_splits)

lemma leave_queued:
  assumes inv: "runq_inv s" "queued s (current s)" and t: "SchedUnready (current s) s = Some t" "Reschedule t = Some u"
  shows "queued u p \<longleftrightarrow> queued s p \<and> p \<noteq> current s"
proof -
  note ti = SchedUnready_inv [OF inv t(1)] and sel = SchedUnready_sel [OF t(1)]
  have "acct_ok t" by (simp add: acct_ok_def sel SCHED_QUANTA_JIFFIES_def)
  from account_inv [OF ti(1) this] obtain v where v: "resched_account t = Some v" "\<And>p. queued v p = queued t p" by blast
  have "queued u p = queued v p" for p
    using t(2) v(1) by (auto simp: Reschedule_def Let_def queued_def split: if_splits)
  then show ?thesis using v(2) ti(2) by simp
qed

lemma pstate_queues [simp]:
  "runq_inv (upd_proc c (\<lambda>p. p\<lparr>pstate := st\<rparr>) s) = runq_inv s"
  "queued (upd_proc c (\<lambda>p. p\<lparr>pstate := st\<rparr>) s) p = queued s p"
  "runq_inv (s\<lparr>blocked_list := bl\<rparr>) = runq_inv s" "queued (s\<lparr>blocked_list := bl\<rparr>) p = queued s p"
proof -
  let ?t = "upd_proc c (\<lambda>p. p\<lparr>pstate := st\<rparr>) s"
  have "priority (procs ?t x) = priority (procs s x)" "desired_priority (procs ?t x) = desired_priority (procs s x)"
    "schedulable (procs ?t x) = schedulable (procs s x)" for x by (simp_all add: schedulable_def)
  then show "runq_inv ?t = runq_inv s" "queued ?t p = queued s p" by (simp_all only: runq_inv_def queued_def upd_proc_sel(2,5))
qed (simp_all add: runq_inv_def queued_def)

lemma bkl_pass_sel:
  assumes "bkl_pass w s = Some t"
  shows "queued t p \<Longrightarrow> queued s p \<or> p \<in> set (bkl_blocked_list s)"
    "pstate (procs t p) = (if bkl_blocked_list s \<noteq> [] \<and> p = hd (bkl_blocked_list s) then PROC_STATE_READY else pstate (procs s p))"
proof -
  show "queued t p \<Longrightarrow> queued s p \<or> p \<in> set (bkl_blocked_list s)"
    using assms by (cases "bkl_blocked_list s")
      (auto simp: bkl_pass_def Let_def queued_def SchedReady_def split: if_splits)
  show "pstate (procs t p) = (if bkl_blocked_list s \<noteq> [] \<and> p = hd (bkl_blocked_list s) then PROC_STATE_READY else pstate (procs s p))"
    using assms by (cases "bkl_blocked_list s") (auto simp: bkl_pass_def Let_def dest!: SchedReady_sel(2))
qed

lemma TaskWakeup_pstate:
  "pstate (procs (TaskWakeup r s) p) =
     (if blocked_list s r \<noteq> [] \<and> p = hd (blocked_list s r) then PROC_STATE_BKL_BLOCKED else pstate (procs s p))"
  by (simp add: TaskWakeup_def split: list.split)

lemma TaskWakeup_zombies:
  assumes "\<And>p. zombie s p \<Longrightarrow> off s p"
  shows "zombie (TaskWakeup r s) p = zombie s p" "off s p \<Longrightarrow> off (TaskWakeup r s) p"
proof -
  show "off (TaskWakeup r s) p" if o: "off s p"
  proof -
    have "p \<notin> set (blocked_list s r)" using o by (simp add: off_def)
    then show ?thesis using o by (cases "blocked_list s r") (auto simp: off_def TaskWakeup_def queued_def split: if_splits)
  qed
  show "zombie (TaskWakeup r s) p = zombie s p"
    using assms [of p] off_hd(2) [of s p r] by (auto simp: zombie_def TaskWakeup_pstate)
qed

text \<open>The last steps of an exit make the running process a zombie that is on no list.\<close>

lemma exit_switch_zombies:
  assumes inv: "sched_inv s" "bkl_owner s = Owner (current s)" "current s \<noteq> idle_process s"
    and z: "\<And>p. zombie s p \<Longrightarrow> off s p" and step: "exit_switch s = Some u"
  shows "zombie u p \<longleftrightarrow> zombie s p \<or> p = current s" "off s p \<or> p = current s \<Longrightarrow> off u p"
proof -
  let ?c = "current s"
  from bkl_pass_inv [OF inv, of 0] obtain t where t: "bkl_pass 0 s = Some t" "sched_inv t" "current t = ?c"
    "queued t (current t)" by metis
  let ?t = "upd_proc ?c (\<lambda>p. p\<lparr>pstate := PROC_STATE_ZOMBIE\<rparr>) t"
  obtain v where v: "SchedUnready ?c ?t = Some v" "Reschedule v = Some u"
    using step t(1) by (auto simp: exit_switch_def Let_def split: Option.bind_splits)
  have rt: "runq_inv ?t" "queued ?t (current ?t)" "queued ?t x = queued t x" for x
    using t(2,4) by (simp_all add: sched_inv_def)
  have q: "queued u x \<longleftrightarrow> queued t x \<and> x \<noteq> ?c" for x
    using leave_queued [OF rt(1,2), of v u x] v t(3) rt(3) by simp
  obtain u' where u': "exit_switch s = Some u'" "sched_inv u'" "idle_process u' = idle_process s"
    "bkl_blocked_list u' = tl (bkl_blocked_list s)" "blocked_list u' = blocked_list s"
    using exit_switch_inv [OF inv] by metis
  then have u: "sched_inv u" "idle_process u = idle_process s" "bkl_blocked_list u = tl (bkl_blocked_list s)"
    "blocked_list u = blocked_list s" using step by simp_all
  have cw: "?c \<notin> set (bkl_blocked_list s)" "?c \<notin> set (blocked_list s r)" for r
    using current_queued [OF inv(1,3)] queued_not_waiting [OF inv(1)] by auto
  have off: "off u x" if "off s x \<or> x = ?c" for x
    using that cw inv(3) q bkl_pass_sel(1) [OF t(1), of x] by (auto simp: off_def u dest: in_set_tlD)
  then show "off s p \<or> p = current s \<Longrightarrow> off u p" .
  have "current u = idle_process u \<or> queued u (current u)"
    using u(1) by (auto simp: sched_inv_def current_inv_def queued_def)
  then have cu: "\<not> off u (current u)" by (auto simp: off_def)
  have ps: "pstate (procs v x) = (if x = ?c then PROC_STATE_ZOMBIE else pstate (procs t x))" for x
    using SchedUnready_sel(2) [OF v(1)] by simp
  show "zombie u p \<longleftrightarrow> zombie s p \<or> p = ?c"
    using z [of p] off [of p] cu off_hd(1) [of s p] by (auto simp: zombie_def Reschedule_pstate [OF v(2)] ps bkl_pass_sel(2) [OF t(1)] split: if_splits)
qed

lemma exit_switch_more: "exit_switch s = Some u \<Longrightarrow> sched.more u = sched.more s"
  unfolding exit_switch_def Let_def
  by (fastforce dest: bkl_pass_more SchedUnready_more Reschedule_more split: Option.bind_splits)

lemma TaskSleep_zombies:
  assumes inv: "sched_inv s" "bkl_owner s = Owner (current s)" "current s \<noteq> idle_process s"
    and z: "\<And>p. zombie s p \<Longrightarrow> off s p" and c: "\<not> zombie s (current s)" and step: "TaskSleep r s = Some u"
  shows "zombie u p = zombie s p" "off s p \<Longrightarrow> off u p"
proof -
  let ?c = "current s"
  from bkl_pass_inv [OF inv, of "0xdeadbeef"] obtain t where t: "bkl_pass 0xdeadbeef s = Some t" "sched_inv t"
    "current t = ?c" "queued t (current t)" by metis
  let ?t = "upd_proc ?c (\<lambda>p. p\<lparr>pstate := PROC_STATE_RENDEZ_BLOCKED\<rparr>) (t\<lparr>blocked_list := (blocked_list t)(r := blocked_list t r @ [?c])\<rparr>)"
  obtain v where v: "SchedUnready ?c ?t = Some v" "Reschedule v = Some u"
    using step t(1) by (auto simp: TaskSleep_def Let_def split: Option.bind_splits)
  have rt: "runq_inv ?t" "queued ?t (current ?t)" "queued ?t x = queued t x" for x
    using t(2,4) by (simp_all add: sched_inv_def)
  have q: "queued u x \<longleftrightarrow> queued t x \<and> x \<noteq> ?c" for x
    using leave_queued [OF rt(1,2), of v u x] v t(3) rt(3) by simp
  obtain u' where u': "TaskSleep r s = Some u'" "sched_inv u'" "idle_process u' = idle_process s"
    "bkl_blocked_list u' = tl (bkl_blocked_list s)" "blocked_list u' = (blocked_list s)(r := blocked_list s r @ [?c])"
    using TaskSleep_inv [OF inv, of r] by metis
  then have u: "sched_inv u" "idle_process u = idle_process s" "bkl_blocked_list u = tl (bkl_blocked_list s)"
    "blocked_list u = (blocked_list s)(r := blocked_list s r @ [?c])" using step by simp_all
  have nc: "x \<noteq> ?c" if "off s x" for x
    using that current_queued [OF inv(1,3)] by (auto simp: off_def)
  have off: "off u x" if "off s x" for x
    using that nc [OF that] q bkl_pass_sel(1) [OF t(1), of x] by (auto simp: off_def u dest: in_set_tlD)
  then show "off s p \<Longrightarrow> off u p" .
  have "current u = idle_process u \<or> queued u (current u)"
    using u(1) by (auto simp: sched_inv_def current_inv_def queued_def)
  then have cu: "\<not> off u (current u)" by (auto simp: off_def)
  have ps: "pstate (procs v x) = (if x = ?c then PROC_STATE_RENDEZ_BLOCKED else pstate (procs t x))" for x
    using SchedUnready_sel(2) [OF v(1)] by simp
  show "zombie u p = zombie s p"
    using z [of p] off [of p] cu c off_hd(1) [of s p] by (auto simp: zombie_def Reschedule_pstate [OF v(2)] ps bkl_pass_sel(2) [OF t(1)] split: if_splits)
qed

section \<open>The family of processes\<close>

text \<open>
  What the process table promises: for every process its parent, if it has one, and the status of a
  process that has exited and was not yet waited for.
\<close>

type_synonym family = "nat \<rightharpoonup> nat option \<times> int option"

definition family :: "'a processes_scheme \<Rightarrow> family" where
  "family s p = (if in_use (process_table s p)
     then Some (parent (process_table s p), if zombie s p then Some (exit_status (process_table s p)) else None) else None)"

definition dies :: "nat \<Rightarrow> nat \<Rightarrow> int \<Rightarrow> family \<Rightarrow> family" where
  "dies root c status F q =
     (case F q of
        None \<Rightarrow> None
      | Some (pr, d) \<Rightarrow>
          if q = c then Some (pr, Some status)
          else if pr = Some c then (if d = None then Some (Some root, None) else None)
          else Some (pr, d))"

text \<open>
  The invariant of the table: the list of children of a process has exactly the processes whose parent
  it is, every parent is alive, and a free slot or a zombie is on no list of the scheduler and has no
  open files.
\<close>

definition kids_ok :: "(nat \<Rightarrow> task) \<Rightarrow> bool" where
  "kids_ok T \<longleftrightarrow> (\<forall>q. in_use (T q) \<longrightarrow> distinct (child_list (T q))
     \<and> set (child_list (T q)) = {p. in_use (T p) \<and> parent (T p) = Some q})"

definition parents_ok :: "(nat \<Rightarrow> task) \<Rightarrow> (nat \<Rightarrow> bool) \<Rightarrow> bool" where
  "parents_ok T Z \<longleftrightarrow> (\<forall>p q. in_use (T p) \<and> parent (T p) = Some q \<longrightarrow> in_use (T q) \<and> \<not> Z q \<and> p \<noteq> q)"

definition root_ok :: "(nat \<Rightarrow> task) \<Rightarrow> (nat \<Rightarrow> bool) \<Rightarrow> nat \<Rightarrow> bool" where
  "root_ok T Z r \<longleftrightarrow> in_use (T r) \<and> \<not> Z r \<and> parent (T r) = None"

definition slots_ok :: "(nat \<Rightarrow> task) \<Rightarrow> (nat \<Rightarrow> bool) \<Rightarrow> (nat \<Rightarrow> bool) \<Rightarrow> bool" where
  "slots_ok T Z R \<longleftrightarrow> (\<forall>p. (in_use (T p) \<longrightarrow> p < max_process) \<and> (\<not> in_use (T p) \<or> Z p \<longrightarrow> R p))"

definition tabs_ok :: "(nat \<Rightarrow> task) \<Rightarrow> (nat \<Rightarrow> bool) \<Rightarrow> (nat \<Rightarrow> fproc option) \<Rightarrow> bool" where
  "tabs_ok T Z F \<longleftrightarrow> (\<forall>p. \<not> in_use (T p) \<or> Z p \<longrightarrow> F p = None)"

definition proc_inv :: "'a processes_scheme \<Rightarrow> bool" where
  "proc_inv s \<longleftrightarrow> sched_inv s \<and> kids_ok (process_table s) \<and> parents_ok (process_table s) (zombie s)
     \<and> root_ok (process_table s) (zombie s) (root_process s) \<and> slots_ok (process_table s) (zombie s) (off s)
     \<and> tabs_ok (process_table s) (zombie s) (fprocs s)"

lemma proc_invD:
  assumes "proc_inv s"
  shows "sched_inv s" "kids_ok (process_table s)" "parents_ok (process_table s) (zombie s)"
    "root_ok (process_table s) (zombie s) (root_process s)" "slots_ok (process_table s) (zombie s) (off s)"
    "zombie s p \<Longrightarrow> off s p" "\<not> in_use (process_table s p) \<Longrightarrow> off s p" "tabs_ok (process_table s) (zombie s) (fprocs s)"
  using assms by (auto simp: proc_inv_def slots_ok_def)

lemma running_in_use:
  assumes "proc_inv s" "current s \<noteq> idle_process s"
  shows "in_use (process_table s (current s))" "\<not> zombie s (current s)" "\<not> off s (current s)"
proof -
  show o: "\<not> off s (current s)" using current_queued [OF proc_invD(1) [OF assms(1)] assms(2)] by (simp add: off_def)
  then show "in_use (process_table s (current s))" "\<not> zombie s (current s)" using assms(1) proc_invD(6,7) by blast+
qed

section \<open>Exit\<close>

definition same_files :: "'a files_scheme \<Rightarrow> 'a files_scheme \<Rightarrow> bool" where
  "same_files s t \<longleftrightarrow> fprocs t = fprocs s \<and> filps t = filps s \<and> filp_free_list t = filp_free_list s"

lemma same_files_inv:
  assumes "same_files s t"
  shows "files_inv t = files_inv s" "fd_filp t = fd_filp s"
proof -
  show e: "fd_filp t = fd_filp s" using assms by (simp add: same_files_def fd_filp_def fun_eq_iff)
  show "files_inv t = files_inv s" using assms unfolding files_inv_def e same_files_def by simp
qed

lemma same_files_sched: "sched.more t = sched.more s \<Longrightarrow> same_files s t"
  by (cases s, cases t) (simp add: same_files_def)

lemma upd_task_sel [simp]:
  "process_table (upd_task p f s) = (process_table s)(p := f (process_table s p))" "root_process (upd_task p f s) = root_process s"
  "zombie (upd_task p f s) q = zombie s q" "vm (upd_task p f s) = vm s" "current (upd_task p f s) = current s"
  "fprocs (upd_task p f s) = fprocs s" "same_files (upd_task p f s) t = same_files s t"
  by (simp_all add: upd_task_def zombie_def same_files_def)

lemma same_sched_upd [simp]:
  "same_sched r (upd_task p f s) = same_sched r s" "same_sched (upd_task p f s) r = same_sched s r"
  "same_sched r (s\<lparr>vm := m\<rparr>) = same_sched r s" "same_sched (s\<lparr>vm := m\<rparr>) r = same_sched s r"
  "zombie (s\<lparr>vm := m\<rparr>) p = zombie s p"
  by (simp_all add: same_sched_def sched.truncate_def upd_task_def zombie_def)

lemma free_zombie_sel [simp]:
  "process_table (free_zombie p s) = (process_table s)(p := (process_table s p)\<lparr>in_use := False\<rparr>)"
  "root_process (free_zombie p s) = root_process s" "zombie (free_zombie p s) q = zombie s q"
  "fprocs (free_zombie p s) = fprocs s" "vm (free_zombie p s) = vm s" "same_files (free_zombie p s) u = same_files s u"
  "same_sched t (free_zombie p s) = same_sched t s" "same_sched (free_zombie p s) t = same_sched s t"
  by (simp_all add: free_zombie_def FreeProcess_def arch_free_process_def Let_def same_files_def upd_task_def zombie_def same_sched_def sched.truncate_def
      free_address_space_def pmap_destroy_def free_pageframe_def)

definition orphaned :: "nat \<Rightarrow> nat \<Rightarrow> nat list \<Rightarrow> (nat \<Rightarrow> bool) \<Rightarrow> (nat \<Rightarrow> task) \<Rightarrow> nat \<Rightarrow> task" where
  "orphaned r c cs Z T p =
     (if p \<in> set cs then (if Z p then (T p)\<lparr>in_use := False\<rparr> else (T p)\<lparr>parent := Some r\<rparr>)
      else if p = c then (T p)\<lparr>child_list := []\<rparr>
      else if p = r then (T p)\<lparr>child_list := child_list (T p) @ filter (\<lambda>x. \<not> Z x) cs\<rparr>
      else T p)"

lemma exit_children_result:
  assumes "child_list (process_table s c) = cs" "c \<noteq> root_process s" "distinct cs" "c \<notin> set cs" "root_process s \<notin> set cs"
  shows "\<exists>t. exit_children c s = Some t \<and> same_sched s t \<and> root_process t = root_process s \<and> same_files s t \<and> vm t = vm s
    \<and> process_table t = orphaned (root_process s) c cs (zombie s) (process_table s)"
  using assms
proof (induction cs arbitrary: s)
  case Nil
  have "process_table s = orphaned (root_process s) c [] (zombie s) (process_table s)"
    using Nil(1) by (simp add: orphaned_def fun_eq_iff)
  then show ?case using Nil(1) by (simp add: exit_children.simps [of c s] same_files_def)
next
  case (Cons p ps)
  let ?s1 = "upd_task c (\<lambda>t. t\<lparr>child_list := ps\<rparr>) s"
  let ?s2 = "if zombie s p then free_zombie p ?s1
    else upd_task p (\<lambda>t. t\<lparr>parent := Some (root_process s)\<rparr>)
      (upd_task (root_process s) (\<lambda>t. t\<lparr>child_list := child_list t @ [p]\<rparr>) ?s1)"
  have e: "exit_children c s = exit_children c ?s2"
    using Cons.prems(1) by (simp add: exit_children.simps [of c s] Let_def)
  have s2: "root_process ?s2 = root_process s" "zombie ?s2 = zombie s" "same_sched s ?s2"
    "child_list (process_table ?s2 c) = ps" "vm ?s2 = vm s" "same_files ?s2 t = same_files s t" for t
    using Cons.prems(2,4) by (cases "zombie s p"; auto simp: fun_eq_iff)+
  have "orphaned (root_process s) c ps (zombie s) (process_table ?s2) = orphaned (root_process s) c (p # ps) (zombie s) (process_table s)"
    using Cons.prems(2-) by (cases "zombie s p") (auto simp: orphaned_def fun_eq_iff)
  moreover from Cons.IH [OF s2(4)] Cons.prems(2-) obtain t where "exit_children c ?s2 = Some t" "same_sched ?s2 t" "vm t = vm s" "same_files s t"
    "root_process t = root_process s" "process_table t = orphaned (root_process s) c ps (zombie s) (process_table ?s2)"
    unfolding s2 by auto
  ultimately show ?case using e s2(3) same_trans(1) by (intro exI [of _ t]) simp
qed

lemma orphaned_ok:
  assumes k: "kids_ok T" and p: "parents_ok T Z" and r: "root_ok T Z r" and c: "in_use (T c)" "parent (T c) = Some q" "\<not> Z c"
  shows "kids_ok (orphaned r c (child_list (T c)) Z T)" "parents_ok (orphaned r c (child_list (T c)) Z T) (\<lambda>x. Z x \<or> x = c)"
    "root_ok (orphaned r c (child_list (T c)) Z T) (\<lambda>x. Z x \<or> x = c) r"
proof -
  let ?cs = "child_list (T c)"
  let ?T = "orphaned r c ?cs Z T"
  have cs: "x \<in> set ?cs \<longleftrightarrow> in_use (T x) \<and> parent (T x) = Some c" "distinct ?cs" for x
    using k c(1) by (auto simp: kids_ok_def)
  have n: "c \<notin> set ?cs" "r \<notin> set ?cs" "c \<noteq> r"
    using p r c by (auto simp: cs parents_ok_def root_ok_def)
  have use: "in_use (?T x) \<longleftrightarrow> in_use (T x) \<and> \<not> (x \<in> set ?cs \<and> Z x)" for x
    by (auto simp: orphaned_def)
  have par: "parent (?T x) = (if x \<in> set ?cs \<and> \<not> Z x then Some r else parent (T x))" for x
    by (auto simp: orphaned_def)
  have kid: "child_list (?T x) = (if x = c then [] else if x = r then child_list (T x) @ filter (\<lambda>x. \<not> Z x) ?cs else child_list (T x))" for x
    using n by (auto simp: orphaned_def)
  show "root_ok ?T (\<lambda>x. Z x \<or> x = c) r" using r n by (auto simp: root_ok_def use par)
  have pp: "in_use (T y) \<and> \<not> Z y \<and> x \<noteq> y" if "in_use (T x)" "parent (T x) = Some y" for x y
    using p that by (auto simp: parents_ok_def)
  have rr: "in_use (T r)" "\<not> Z r" "parent (T r) = None" using r by (auto simp: root_ok_def)
  have "in_use (?T y) \<and> \<not> (Z y \<or> y = c) \<and> x \<noteq> y" if a: "in_use (?T x)" "parent (?T x) = Some y" for x y
  proof (cases "x \<in> set ?cs")
    case True
    then have "y = r" using a use par by auto
    then show ?thesis using True rr n use by auto
  next
    case False
    then have "in_use (T x)" "parent (T x) = Some y" using a use par by auto
    then show ?thesis using pp [of x y] False cs(1) use by auto
  qed
  then show "parents_ok ?T (\<lambda>x. Z x \<or> x = c)" unfolding parents_ok_def by blast
  have kx: "distinct (child_list (T x))" "set (child_list (T x)) = {y. in_use (T y) \<and> parent (T y) = Some x}" if "in_use (T x)" for x
    using k that by (auto simp: kids_ok_def)
  have key: "in_use (?T y) \<and> parent (?T y) = Some x \<longleftrightarrow>
      (if x = r then in_use (T y) \<and> parent (T y) = Some r \<or> y \<in> set ?cs \<and> \<not> Z y
       else x \<noteq> c \<and> in_use (T y) \<and> parent (T y) = Some x)" for x y
    using n(3) cs(1) [of y] by (cases "y \<in> set ?cs"; cases "Z y") (auto simp: use par)
  have "distinct (child_list (?T x)) \<and> set (child_list (?T x)) = {y. in_use (?T y) \<and> parent (?T y) = Some x}" if "in_use (?T x)" for x
    using kx [of x] that cs n unfolding key by (cases "x = r"; cases "x = c") (auto simp: kid use)
  then show "kids_ok ?T" by (simp add: kids_ok_def)
qed

lemma sys_exit_result:
  assumes inv: "proc_inv s" and ni: "current s \<noteq> idle_process s" and own: "bkl_owner s = Owner (current s)"
    and step: "sys_exit st s = Some u"
  shows "\<exists>q as. parent (process_table s (current s)) = Some q \<and> sched_inv u \<and> root_process u = root_process s
    \<and> process_table u = orphaned (root_process s) (current s) (child_list (process_table s (current s))) (zombie s)
        ((process_table s)(current s := (process_table s (current s))\<lparr>exit_status := st, p_as := as\<rparr>))
    \<and> (\<forall>p. zombie u p \<longleftrightarrow> zombie s p \<or> p = current s) \<and> (\<forall>p. off s p \<or> p = current s \<longrightarrow> off u p)
    \<and> blocked_list u (Rz_proc q) = tl (blocked_list s (Rz_proc q)) \<and> fprocs u = (fprocs s)(current s := None)"
proof -
  let ?c = "current s"
  let ?t = "(process_table s)(?c := (process_table s ?c)\<lparr>exit_status := st\<rparr>)"
  from step obtain q s2 as m s4 where q: "parent (process_table s ?c) = Some q"
    and s2: "fini_fproc ?c (upd_task ?c (\<lambda>t. t\<lparr>exit_status := st\<rparr>) s) = Some s2"
    and s4: "exit_children ?c (upd_task ?c (\<lambda>t. t\<lparr>p_as := as\<rparr>) (s2\<lparr>vm := m\<rparr>)) = Some s4"
    and u: "exit_switch (TaskWakeup (Rz_proc q) s4) = Some u"
    by (auto simp: sys_exit_def Let_def split: Option.bind_splits if_splits)
  let ?s3 = "upd_task ?c (\<lambda>t. t\<lparr>p_as := as\<rparr>) (s2\<lparr>vm := m\<rparr>)"
  have o2: "same_sched s s2" "same_procs (upd_task ?c (\<lambda>t. t\<lparr>exit_status := st\<rparr>) s) s2"
    using fini_fproc_only [OF s2] same_procs_files by (auto simp: files_only_def)
  have s3: "process_table ?s3 = (process_table s)(?c := (process_table s ?c)\<lparr>exit_status := st, p_as := as\<rparr>)"
    "root_process ?s3 = root_process s" "same_sched s ?s3"
    using o2 by (simp_all add: same_procs_def)
  have z3: "zombie ?s3 = zombie s" using same_sched_inv(3) [OF s3(3)] by (simp add: fun_eq_iff)
  note i = proc_invD [OF inv] and run = running_in_use [OF inv ni]
  have cl: "child_list (process_table ?s3 ?c) = child_list (process_table s ?c)" unfolding s3(1) by simp
  have "distinct (child_list (process_table s ?c))" "?c \<notin> set (child_list (process_table s ?c))"
    "root_process s \<notin> set (child_list (process_table s ?c))" "?c \<noteq> root_process s"
    using i(2-4) run q by (auto simp: kids_ok_def parents_ok_def root_ok_def)
  with exit_children_result [OF cl] s4
  have s4': "same_sched ?s3 s4" "root_process s4 = root_process s" "same_files ?s3 s4"
    "process_table s4 = orphaned (root_process s) ?c (child_list (process_table s ?c)) (zombie s) (process_table ?s3)"
    unfolding s3(2) z3 by auto
  have ss: "same_sched s s4" using s3(3) s4'(1) by (rule same_trans)
  let ?w = "TaskWakeup (Rz_proc q) s4"
  have z4: "zombie s4 p \<Longrightarrow> off s4 p" for p using i(6) ss by (simp add: same_sched_inv(3) same_sched_off)
  have "bkl_locked s" using i(1) own by (simp add: sched_inv_def owner_inv_def)
  then have iw: "sched_inv ?w" using TaskWakeup_inv(1) [of s4] i(1) ss by (simp add: same_sched_inv(1) TaskWakeup_sel same_schedD)
  have cw: "current ?w = ?c" "idle_process ?w = idle_process s" using ss by (simp_all add: TaskWakeup_sel same_schedD)
  have zw: "zombie ?w p \<Longrightarrow> off ?w p" for p using TaskWakeup_zombies [OF z4] z4 by blast
  have ow: "bkl_owner ?w = Owner (current ?w)" "current ?w \<noteq> idle_process ?w"
    using own ni ss by (simp_all add: TaskWakeup_sel same_schedD)
  obtain u' where u': "exit_switch ?w = Some u'" "sched_inv u'" "blocked_list u' = blocked_list ?w"
    using exit_switch_inv [OF iw ow] by metis
  have "sched.more u = sched.more ?w" using exit_switch_more [OF u] .
  then have pu: "process_table u = process_table s4" "root_process u = root_process s"
    using same_procs_sched [of u s4] s4'(2) by (auto simp: same_procs_def TaskWakeup_sel)
  have "fprocs u = (fprocs s)(?c := None)"
    using vnodes_more(6) [OF exit_switch_more [OF u]] vnodes_more(6) [of ?w s4] s4'(3) [unfolded same_files_def] fini_fproc_fprocs [OF s2]
    by (simp add: TaskWakeup_sel)
  moreover have "zombie u p \<longleftrightarrow> zombie s p \<or> p = ?c" for p
    using exit_switch_zombies(1) [OF iw ow zw u] TaskWakeup_zombies(1) [OF z4] same_sched_inv(3) [OF ss] by (simp add: cw same_schedD(3) [OF ss])
  moreover have "off u p" if "off s p \<or> p = ?c" for p
    using exit_switch_zombies(2) [OF iw ow zw u] TaskWakeup_zombies(2) [OF z4] same_sched_off [OF ss] that by (auto simp: cw same_schedD(3) [OF ss])
  moreover have "blocked_list u (Rz_proc q) = tl (blocked_list s (Rz_proc q))"
    using u' u ss by (simp add: TaskWakeup_sel same_schedD)
  ultimately show ?thesis using q u' u pu s4'(4) s3(1) by (intro exI [of _ q] exI [of _ as]) simp
qed

lemma sys_exit_family:
  assumes inv: "proc_inv s" and ni: "current s \<noteq> idle_process s" and own: "bkl_owner s = Owner (current s)"
    and step: "sys_exit st s = Some u"
  shows "proc_inv u" "family u = dies (root_process s) (current s) st (family s)"
proof -
  let ?c = "current s"
  from sys_exit_result [OF assms] obtain q as where q: "parent (process_table s ?c) = Some q" "sched_inv u"
    "root_process u = root_process s" and
    T: "process_table u = orphaned (root_process s) ?c (child_list (process_table s ?c)) (zombie s)
        ((process_table s)(?c := (process_table s ?c)\<lparr>exit_status := st, p_as := as\<rparr>))"
    and z: "\<And>p. zombie u p \<longleftrightarrow> zombie s p \<or> p = ?c" and o: "\<And>p. off s p \<or> p = ?c \<Longrightarrow> off u p"
    and F: "fprocs u = (fprocs s)(?c := None)" by blast
  note i = proc_invD [OF inv] and run = running_in_use [OF inv ni]
  let ?T = "(process_table s)(?c := (process_table s ?c)\<lparr>exit_status := st, p_as := as\<rparr>)"
  have same: "in_use (?T x) = in_use (process_table s x)" "parent (?T x) = parent (process_table s x)"
    "child_list (?T x) = child_list (process_table s x)" for x by simp_all
  have ok: "kids_ok ?T" "parents_ok ?T (zombie s)" "root_ok ?T (zombie s) (root_process s)"
    using i(2-4) unfolding kids_ok_def parents_ok_def root_ok_def same by blast+
  have zu: "zombie u = (\<lambda>x. zombie s x \<or> x = ?c)" using z by (simp add: fun_eq_iff)
  note orp = orphaned_ok [OF ok, of ?c q, unfolded same, OF run(1) q(1) run(2)]
  have cs: "x \<in> set (child_list (process_table s ?c)) \<longleftrightarrow> in_use (process_table s x) \<and> parent (process_table s x) = Some ?c" for x
    using i(2) run(1) by (auto simp: kids_ok_def)
  have use: "in_use (process_table u x) \<longleftrightarrow> in_use (process_table s x) \<and> \<not> (parent (process_table s x) = Some ?c \<and> zombie s x)" for x
    unfolding T orphaned_def cs by (auto simp: same)
  have "slots_ok (process_table u) (zombie u) (off u)"
    using i(5) o by (auto simp: slots_ok_def use z)
  moreover have "tabs_ok (process_table u) (zombie u) (fprocs u)"
    using i(8) by (auto simp: tabs_ok_def use z F)
  ultimately show "proc_inv u" using orp q(2,3) by (simp add: proc_inv_def T zu)
  have nc: "parent (process_table s ?c) \<noteq> Some ?c" using i(3) run(1) by (auto simp: parents_ok_def)
  have "family u x = dies (root_process s) ?c st (family s) x" for x
    unfolding family_def dies_def use z using nc run unfolding T orphaned_def cs by auto
  then show "family u = dies (root_process s) ?c st (family s)" by (rule ext)
qed

section \<open>Fork\<close>

lemma files_page_only:
  assumes "files_page p s = Some (page, t)"
  shows "same_sched s t" "process_table t = process_table s" "root_process t = root_process s" "fprocs t = fprocs s"
    "filps t = filps s" "filp_free_list t = filp_free_list s"
    "page = None \<or> page = Some zero_fproc"
  using assms by (auto simp: files_page_def Let_def same_sched_def sched.truncate_def split: Option.bind_splits option.splits)

lemma clear_slot_sel:
  "process_table (clear_slot p s) = (process_table s)(p := new_task (current s) (log_level (process_table s (current s))))"
  "root_process (clear_slot p s) = root_process s" "vm (clear_slot p s) = vm s"
  "procs (clear_slot p s) = (procs s)(p := child_process (procs s (current s)))"
  "sched_queue (clear_slot p s) = sched_queue s" "current (clear_slot p s) = current s" "idle_process (clear_slot p s) = idle_process s"
  "bkl_locked (clear_slot p s) = bkl_locked s" "bkl_owner (clear_slot p s) = bkl_owner s"
  "bkl_blocked_list (clear_slot p s) = bkl_blocked_list s" "blocked_list (clear_slot p s) = blocked_list s"
  "fprocs (clear_slot p s) = (fprocs s)(p := None)" "filps (clear_slot p s) = filps s" "filp_free_list (clear_slot p s) = filp_free_list s"
  "creds (clear_slot p s) = (creds s)(p := zero_cred)"
  by (simp_all add: clear_slot_def Let_def upd_proc_def upd_timer_def upd_cred_def upd_task_def)

text \<open>What a slot that was just allocated has in common with the state before.\<close>

definition alloced :: "nat \<Rightarrow> 'a processes_scheme \<Rightarrow> 'a processes_scheme \<Rightarrow> bool" where
  "alloced p s t \<longleftrightarrow> procs t = (procs s)(p := child_process (procs s (current s))) \<and> sched_queue t = sched_queue s
     \<and> current t = current s \<and> idle_process t = idle_process s \<and> bkl_locked t = bkl_locked s \<and> bkl_owner t = bkl_owner s
     \<and> bkl_blocked_list t = bkl_blocked_list s \<and> (\<forall>r. blocked_list t r = blocked_list s r \<or> blocked_list t r = [])
     \<and> root_process t = root_process s \<and> (\<forall>q. q \<noteq> p \<longrightarrow> fprocs t q = fprocs s q)"

lemma AllocProcess_cases:
  assumes "AllocProcess s = Some (new, t)"
  shows "new = None \<and> t = s \<or> (\<exists>p. new = Some p \<and> p < max_process \<and> \<not> in_use (process_table s p) \<and> alloced p s t
    \<and> process_table t = (process_table s)(p := new_task (current s) (log_level (process_table s (current s)))))"
proof (cases "find (\<lambda>p. \<not> in_use (process_table s p)) [0..<max_process]")
  case None
  then show ?thesis using assms by (simp add: AllocProcess_def)
next
  case (Some p)
  let ?a = "init_msgport (Reply_port p) (clear_slot p s)"
  have p: "p < max_process" "\<not> in_use (process_table s p)" using Some by (auto simp: find_Some_iff in_set_conv_nth)
  from assms Some obtain page b where b: "files_page p ?a = Some (page, b)" "new = Some p"
    "t = InitRendez (Rz_proc p) (snd (init_fproc p page b))"
    by (auto simp: AllocProcess_def split: Option.bind_splits prod.splits)
  have "files_only b (snd (init_fproc p page b))" by (rule init_fproc_only)
  then have o: "same_sched b (snd (init_fproc p page b))" "same_procs b (snd (init_fproc p page b))"
    using same_procs_files by (auto simp: files_only_def)
  note f = files_page_only [OF b(1)]
  have "alloced p s t"
    unfolding alloced_def b(3)
    by (simp add: InitRendez_def same_schedD [OF o(1)] same_schedD [OF f(1)] o(2) [unfolded same_procs_def] f(3)
        init_msgport_def port_rendez_def Let_def clear_slot_sel init_fproc_other f(4))
  moreover have "process_table t = (process_table s)(p := new_task (current s) (log_level (process_table s (current s))))"
    unfolding b(3) by (simp add: InitRendez_def o(2) [unfolded same_procs_def] f(2) init_msgport_def Let_def clear_slot_sel)
  ultimately show ?thesis using b(2) p by blast
qed

lemma alloced_waits:
  assumes w: "waits_inv s" and o: "off s p" and pr: "procs t = (procs s)(p := x)" and bk: "bkl_blocked_list t = bkl_blocked_list s"
    and bl: "\<And>r. blocked_list t r = blocked_list s r \<or> blocked_list t r = []" and q: "\<And>x. queued t x = queued s x"
  shows "waits_inv t"
proof -
  have e: "procs t y = procs s y" if "y \<noteq> p" for y using that pr by simp
  have sub: "y \<in> set (blocked_list s r)" if "y \<in> set (blocked_list t r)" for y r using bl [of r] that by auto
  have np: "y \<noteq> p" if "y \<in> set (bkl_blocked_list s) \<or> y \<in> set (blocked_list s r)" for y r using that o by (auto simp: off_def)
  have d: "distinct (blocked_list t r)" for r using w bl [of r] by (auto simp: waits_inv_def)
  have "set (blocked_list t r) \<inter> set (blocked_list t r') = {}" if "r \<noteq> r'" for r r'
    using w sub that unfolding waits_inv_def by (metis disjoint_iff)
  then show ?thesis using w d sub np e q unfolding waits_inv_def bk by metis
qed

lemma alloced_sched:
  assumes a: "alloced p s t" and inv: "sched_inv s" "current s \<noteq> idle_process s" and o: "off s p"
  shows "sched_inv t" "zombie t x \<longleftrightarrow> zombie s x \<and> x \<noteq> p" "off s x \<Longrightarrow> off t x"
proof -
  let ?c = "current s"
  have t: "procs t = (procs s)(p := child_process (procs s ?c))" "sched_queue t = sched_queue s" "current t = ?c"
    "idle_process t = idle_process s" "bkl_locked t = bkl_locked s" "bkl_owner t = bkl_owner s"
    "bkl_blocked_list t = bkl_blocked_list s" "blocked_list t r = blocked_list s r \<or> blocked_list t r = []" for r
    using a unfolding alloced_def by blast+
  have bl: "x \<in> set (blocked_list s r)" if "x \<in> set (blocked_list t r)" for x r using t(8) [of r] that by auto
  have nq: "p \<notin> set (sched_queue s k)" for k using o inv(1) by (simp add: off_def sched_inv_def runq_queued_iff)
  have c: "queued s ?c" using inv by (rule current_queued)
  then have pc: "p \<noteq> ?c" using o by (auto simp: off_def)
  have pi: "p \<noteq> idle_process s" "p \<notin> set (bkl_blocked_list s)" "p \<notin> set (blocked_list s r)" for r using o by (auto simp: off_def)
  have q: "queued t x = queued s x" for x using nq by (cases "x = p") (simp_all add: queued_def t)
  show "zombie t x \<longleftrightarrow> zombie s x \<and> x \<noteq> p" by (simp add: zombie_def t child_process_def)
  show "off s x \<Longrightarrow> off t x" using bl by (auto simp: off_def q t(4,7))
  have pr: "priority (procs t x) < 32 \<and> desired_priority (procs t x) < 32" for x
    using inv(1) by (simp add: sched_inv_def runq_inv_def t child_process_def)
  have eq: "procs t x = procs s x" if "x \<noteq> p" for x using that by (simp add: t)
  have m: "x \<noteq> p" if "x \<in> set (sched_queue s k)" for x k using that nq by auto
  have "runq_inv t" using inv(1) pr eq m pi(1) unfolding sched_inv_def runq_inv_def t(2,4) by metis
  moreover have "waits_inv t"
    using inv(1) by (intro alloced_waits [OF _ o t(1,7,8) q]) (simp_all add: sched_inv_def)
  moreover have "current_inv t" using inv(1) pc by (simp add: sched_inv_def current_inv_def t)
  moreover have "owner_inv t" using inv(1) unfolding sched_inv_def owner_inv_def t(4-7) q by blast
  ultimately show "sched_inv t" by (simp add: sched_inv_def)
qed

lemma fork_files_only:
  assumes "fork_files p c s = Some t"
  shows "same_sched s t" "process_table t = process_table s" "root_process t = root_process s" "q \<noteq> p \<Longrightarrow> fprocs t q = fprocs s q"
proof -
  from assms obtain page a r b where a: "files_page p s = Some (page, a)" and b: "fork_process_fds p c page a = Some (r, b)"
    and t: "t = b \<or> (\<exists>d d' e. inc_dir d b = Some e \<and> inc_dir d' e = Some t)"
    by (auto simp: fork_files_def split: Option.bind_splits sum.splits) blast+
  note f = files_page_only [OF a] and g = fork_process_fds_only [OF b, unfolded files_only_def]
  have g': "same_procs a b" using g same_procs_files by blast
  have bt: "same_sched b t \<and> same_procs b t" "fprocs t = fprocs b"
    using t inc_dir_only same_trans by (metis same_refl)+
  show "q \<noteq> p \<Longrightarrow> fprocs t q = fprocs s q" using bt(2) f(4) fork_process_fds_other [OF b] by simp
  show "same_sched s t" "process_table t = process_table s" "root_process t = root_process s"
    using bt(1) f(1-3) g g' same_trans(1) unfolding same_procs_def by metis+
qed

text \<open>The states of a fork: the slot is filled in, and either started or given back.\<close>

lemma sys_fork_cases:
  assumes inv: "proc_inv s" "current s \<noteq> idle_process s" and step: "sys_fork s = Some (r, u)"
  shows "r = Inl ENOMEM \<and> u = s
    \<or> (\<exists>p t x. p < max_process \<and> off s p \<and> \<not> in_use (process_table s p) \<and> alloced p s t \<and> in_use x
        \<and> parent x = Some (current s) \<and> child_list x = [] \<and> process_table t = (process_table s)(p := x)
        \<and> (r = Inl ENOMEM \<and> same_sched t u \<and> root_process u = root_process s
             \<and> process_table u = (process_table s)(p := x\<lparr>in_use := False\<rparr>) \<and> fprocs u = (fprocs t)(p := None)
           \<or> r = Inr (int p) \<and> SchedReady p (upd_proc p (\<lambda>x. x\<lparr>pstate := PROC_STATE_READY\<rparr>)
                (upd_task (current s) (\<lambda>t. t\<lparr>child_list := child_list t @ [p]\<rparr>) t)) = Some u))"
proof -
  let ?c = "current s"
  from step obtain new a where a: "AllocProcess s = Some (new, a)" by (auto simp: sys_fork_def Let_def split: Option.bind_splits)
  from AllocProcess_cases [OF a] consider "new = None" "a = s"
    | p where "new = Some p" "p < max_process" "\<not> in_use (process_table s p)" "alloced p s a"
      "process_table a = (process_table s)(p := new_task ?c (log_level (process_table s ?c)))" by blast
  then show ?thesis
  proof cases
    case 1
    then show ?thesis using step a by (simp add: sys_fork_def)
  next
    case 2
    have o: "off s p" using proc_invD(7) [OF inv(1)] 2(3) .
    have pc: "p \<noteq> ?c" using running_in_use(1) [OF inv] 2(3) by auto
    from step a 2(1) obtain b d ok as m where b: "fork_files p ?c a = Some b"
      and d: "arch_fork_process p ?c (upd_task p (\<lambda>t. t\<lparr>basename := basename (process_table b ?c)\<rparr>) b) = d"
      and m: "fork_address_space (p_as (process_table d p)) (p_as (process_table d ?c)) (vm d) = Some (ok, as, m)"
      by (auto simp: sys_fork_def Let_def bind_eq_Some_conv)
    have u: "if ok then r = Inr (int p) \<and> SchedReady p (upd_proc p (\<lambda>x. x\<lparr>pstate := PROC_STATE_READY\<rparr>)
            (upd_task ?c (\<lambda>t. t\<lparr>child_list := child_list t @ [p]\<rparr>) (upd_task p (\<lambda>t. t\<lparr>p_as := as\<rparr>) (d\<lparr>vm := m\<rparr>)))) = Some u
          else \<exists>e. fini_fproc p (upd_task p (\<lambda>t. t\<lparr>p_as := as\<rparr>) (d\<lparr>vm := m\<rparr>)) = Some e \<and> r = Inl ENOMEM \<and> u = FreeProcess p e"
      using step a 2(1) b d m by (auto simp: sys_fork_def Let_def GetProcessPid_def bind_eq_Some_conv)
    let ?t = "upd_task p (\<lambda>t. t\<lparr>p_as := as\<rparr>) (d\<lparr>vm := m\<rparr>)"
    define x where "x = process_table ?t p"
    note f = fork_files_only [OF b]
    have dd: "same_sched b d" "root_process d = root_process b" "\<And>y. y \<noteq> p \<Longrightarrow> process_table d y = process_table b y"
        "in_use (process_table d p) = in_use (process_table b p)" "parent (process_table d p) = parent (process_table b p)"
        "child_list (process_table d p) = child_list (process_table b p)" "fprocs d = fprocs b"
      using d by (auto simp: arch_fork_process_def Let_def)
    have al: "alloced p s ?t"
      using 2(4) f(3,4) dd(2,7) unfolding alloced_def
      by (simp add: same_schedD [OF f(1)] same_schedD [OF dd(1)] upd_task_def)
    have x: "in_use x" "parent x = Some ?c" "child_list x = []" "process_table ?t = (process_table s)(p := x)"
      using dd(4-) f(2) 2(5) by (auto simp: x_def new_task_def dd(3) fun_eq_iff)
    show ?thesis
    proof (cases ok)
      case True
      then show ?thesis using u al x o 2(2,3) by (intro disjI2 exI [of _ p] exI [of _ ?t] exI [of _ x]) simp
    next
      case False
      then obtain e where e: "fini_fproc p ?t = Some e" "r = Inl ENOMEM" "u = FreeProcess p e" using u by auto
      have o': "same_sched ?t e" "same_procs ?t e" using fini_fproc_only [OF e(1)] same_procs_files by (auto simp: files_only_def)
      have "root_process ?t = root_process s" using al by (simp add: alloced_def)
      then have "process_table u = (process_table s)(p := x\<lparr>in_use := False\<rparr>)" "same_sched ?t u" "root_process u = root_process s"
        "fprocs u = (fprocs ?t)(p := None)"
        using o' x(4) fini_fproc_fprocs [OF e(1)] by (simp_all add: e(3) FreeProcess_def same_procs_def)
      then show ?thesis using e(2) al x o 2(2,3) by (intro disjI2 exI [of _ p] exI [of _ ?t] exI [of _ x]) simp
    qed
  qed
qed

lemma born_ok:
  assumes k: "kids_ok T" and pa: "parents_ok T Z" and r: "root_ok T Z r" and c: "in_use (T c)" "\<not> Z c" and p: "\<not> in_use (T p)"
    and x: "in_use x" "parent x = Some c" "child_list x = []"
  shows "kids_ok (T(p := x, c := (T c)\<lparr>child_list := child_list (T c) @ [p]\<rparr>))"
    "parents_ok (T(p := x, c := (T c)\<lparr>child_list := child_list (T c) @ [p]\<rparr>)) (\<lambda>y. Z y \<and> y \<noteq> p)"
    "root_ok (T(p := x, c := (T c)\<lparr>child_list := child_list (T c) @ [p]\<rparr>)) (\<lambda>y. Z y \<and> y \<noteq> p) r"
proof -
  let ?T = "T(p := x, c := (T c)\<lparr>child_list := child_list (T c) @ [p]\<rparr>)"
  have pc: "p \<noteq> c" "p \<noteq> r" using c p r by (auto simp: root_ok_def)
  have use: "in_use (?T y) \<longleftrightarrow> in_use (T y) \<or> y = p" for y using x pc by auto
  have par: "parent (?T y) = (if y = p then Some c else parent (T y))" for y using x pc by auto
  have kid: "child_list (?T y) = (if y = p then [] else if y = c then child_list (T c) @ [p] else child_list (T y))" for y
    using x pc by auto
  have np: "parent (T y) \<noteq> Some p" if "in_use (T y)" for y using pa p that by (auto simp: parents_ok_def)
  have kx: "distinct (child_list (T y))" "set (child_list (T y)) = {z. in_use (T z) \<and> parent (T z) = Some y}" if "in_use (T y)" for y
    using k that by (auto simp: kids_ok_def)
  show "root_ok ?T (\<lambda>y. Z y \<and> y \<noteq> p) r" using r pc by (auto simp: root_ok_def use par)
  show "parents_ok ?T (\<lambda>y. Z y \<and> y \<noteq> p)"
    using pa c pc np unfolding parents_ok_def use par by auto
  have "distinct (child_list (?T y)) \<and> set (child_list (?T y)) = {z. in_use (?T z) \<and> parent (?T z) = Some y}" if "in_use (?T y)" for y
    using kx [of y] kx [OF c(1)] that np p pc unfolding use par kid by (cases "y = p"; cases "y = c") auto
  then show "kids_ok ?T" by (simp add: kids_ok_def)
qed

lemma unborn_ok:
  assumes "kids_ok T" "parents_ok T Z" "root_ok T Z r" "\<not> in_use (T p)" "\<not> in_use x"
  shows "kids_ok (T(p := x))" "parents_ok (T(p := x)) (\<lambda>y. Z y \<and> y \<noteq> p)" "root_ok (T(p := x)) (\<lambda>y. Z y \<and> y \<noteq> p) r"
proof -
  have e: "in_use ((T(p := x)) y) = in_use (T y)" for y using assms(4,5) by simp
  have f: "in_use (T y) \<Longrightarrow> (T(p := x)) y = T y" for y using assms(4) by auto
  have "{z. in_use ((T(p := x)) z) \<and> parent ((T(p := x)) z) = Some q} = {z. in_use (T z) \<and> parent (T z) = Some q}" for q
    using e f by (metis (no_types, lifting))
  then show "kids_ok (T(p := x))" using assms(1) e f by (simp add: kids_ok_def)
  show "parents_ok (T(p := x)) (\<lambda>y. Z y \<and> y \<noteq> p)" using assms(2) e f unfolding parents_ok_def by metis
  show "root_ok (T(p := x)) (\<lambda>y. Z y \<and> y \<noteq> p) r" using assms(3) e f unfolding root_ok_def by metis
qed

lemma ready_sched:
  assumes a: "alloced p s t" and inv: "sched_inv s" "current s \<noteq> idle_process s" and o: "off s p" and pc: "p \<noteq> current s"
    and step: "SchedReady p (upd_proc p (\<lambda>x. x\<lparr>pstate := PROC_STATE_READY\<rparr>) t) = Some u"
  shows "sched_inv u" "zombie u x \<longleftrightarrow> zombie s x \<and> x \<noteq> p" "off s x \<Longrightarrow> x \<noteq> p \<Longrightarrow> off u x" "sched.more u = sched.more t"
proof -
  note t = alloced_sched [OF a inv o]
  have "procs t p = child_process (procs t (current t))" "current t = current s" "idle_process t = idle_process s"
    using a pc by (simp_all add: alloced_def)
  moreover from this(1) have "upd_proc p (\<lambda>_. child_process (procs t (current t))) t = t"
    by (cases t) (simp add: upd_proc_def fun_upd_idem)
  ultimately have f: "fork_start p t = Some u" "current t \<noteq> idle_process t" using step inv(2) by (simp_all add: fork_start_def)
  have ot: "off t p" using t(3) o .
  then obtain u' where "fork_start p t = Some u'" "sched_inv u'" "sched.more u' = sched.more t"
    using fork_start_inv [OF t(1) f(2), of p] unfolding off_def by metis
  then show "sched_inv u" "sched.more u = sched.more t" using f(1) by simp_all
  note sel = SchedReady_sel [OF step]
  show "zombie u x \<longleftrightarrow> zombie s x \<and> x \<noteq> p" using t(2) [of x] by (auto simp: zombie_def sel(2))
  have "queued u x \<Longrightarrow> x = p \<or> queued t x" for x by (auto simp: queued_def sel(2,3) split: if_splits)
  then show "off s x \<Longrightarrow> x \<noteq> p \<Longrightarrow> off u x" using t(3) [of x] by (auto simp: off_def sel(5-))
qed

lemma sys_fork_family:
  assumes inv: "proc_inv s" "current s \<noteq> idle_process s" and step: "sys_fork s = Some (r, u)"
  shows "proc_inv u \<and> (case r of
      Inl e \<Rightarrow> e = ENOMEM \<and> family u = family s
    | Inr k \<Rightarrow> \<exists>p. k = int p \<and> family s p = None \<and> family u = (family s)(p \<mapsto> (Some (current s), None)))"
proof -
  let ?c = "current s"
  note i = proc_invD [OF inv(1)] and run = running_in_use [OF inv]
  from sys_fork_cases [OF assms] consider "r = Inl ENOMEM" "u = s"
    | p t x where "p < max_process" "off s p" "\<not> in_use (process_table s p)" "alloced p s t" "r = Inl ENOMEM" "same_sched t u"
        "root_process u = root_process s" "process_table u = (process_table s)(p := x\<lparr>in_use := False\<rparr>)" "fprocs u = (fprocs t)(p := None)"
    | p t x where "p < max_process" "off s p" "\<not> in_use (process_table s p)" "alloced p s t" "in_use x" "parent x = Some ?c"
        "child_list x = []" "process_table t = (process_table s)(p := x)" "r = Inr (int p)"
        "SchedReady p (upd_proc p (\<lambda>x. x\<lparr>pstate := PROC_STATE_READY\<rparr>)
          (upd_task ?c (\<lambda>t. t\<lparr>child_list := child_list t @ [p]\<rparr>) t)) = Some u" by blast
  then show ?thesis
  proof cases
    case 2
    note a = alloced_sched [OF 2(4) i(1) inv(2) 2(2)]
    have z: "zombie u = (\<lambda>y. zombie s y \<and> y \<noteq> p)" and o: "off s y \<Longrightarrow> off u y" and si: "sched_inv u" for y
      using a same_sched_inv [OF 2(6)] same_sched_off [OF 2(6)] by (simp_all add: fun_eq_iff)
    have "slots_ok (process_table u) (zombie u) (off u)"
      using i(5) o 2(2,3) by (auto simp: slots_ok_def 2(8) z)
    moreover have "tabs_ok (process_table u) (zombie u) (fprocs u)"
      using i(8) 2(4) by (auto simp: tabs_ok_def 2(8,9) z alloced_def)
    ultimately have "proc_inv u" using unborn_ok [OF i(2-4) 2(3), of "x\<lparr>in_use := False\<rparr>"] si by (simp add: proc_inv_def 2(7,8) z)
    moreover have "family u = family s" using 2(3) by (auto simp: family_def fun_eq_iff 2(8) z)
    ultimately show ?thesis using 2(5) by simp
  next
    case 3
    let ?t = "upd_task ?c (\<lambda>t. t\<lparr>child_list := child_list t @ [p]\<rparr>) t"
    have pc: "p \<noteq> ?c" using run(1) 3(3) by auto
    have "alloced p s ?t" using 3(4) by (simp add: alloced_def upd_task_def)
    note q = ready_sched [OF this i(1) inv(2) 3(2) pc 3(10)]
    have z: "zombie u = (\<lambda>y. zombie s y \<and> y \<noteq> p)" using q(2) by (simp add: fun_eq_iff)
    have T: "process_table u = (process_table s)(p := x, ?c := (process_table s ?c)\<lparr>child_list := child_list (process_table s ?c) @ [p]\<rparr>)"
      and R: "root_process u = root_process s"
      using same_procs_sched [OF q(4)] 3(4,8) pc by (simp_all add: same_procs_def alloced_def)
    have use: "in_use (process_table u y) \<longleftrightarrow> in_use (process_table s y) \<or> y = p" for y using 3(5) run(1) pc by (simp add: T)
    have "(in_use (process_table u y) \<longrightarrow> y < max_process) \<and> (\<not> in_use (process_table u y) \<or> zombie u y \<longrightarrow> off u y)" for y
      using i(5) [unfolded slots_ok_def, rule_format, of y] q(3) [of y] 3(1) by (cases "y = p") (auto simp: use z)
    then have "slots_ok (process_table u) (zombie u) (off u)" by (simp add: slots_ok_def)
    moreover have "fprocs u y = fprocs s y" if "y \<noteq> p" for y
      using vnodes_more(6) [OF q(4)] 3(4) that by (simp add: alloced_def)
    then have "tabs_ok (process_table u) (zombie u) (fprocs u)" using i(8) by (auto simp: tabs_ok_def use z)
    ultimately have "proc_inv u" using born_ok [OF i(2-4) run(1,2) 3(3,5-7)] q(1) by (simp add: proc_inv_def T R z)
    moreover have "family u = (family s)(p \<mapsto> (Some ?c, None))" using 3(5,6) pc by (auto simp: family_def fun_eq_iff T z)
    ultimately show ?thesis using 3(3,9) by (simp add: family_def)
  qed (use inv in simp)
qed

section \<open>Wait\<close>

lemma scan_pgrp_spec:
  "case scan_pgrp g ps n s of
     (Some p, m) \<Rightarrow> p \<in> set ps \<and> zombie s p \<and> cr_pgrp (creds s p) = g \<and> m > n
   | (None, m) \<Rightarrow> (\<forall>p \<in> set ps. cr_pgrp (creds s p) = g \<longrightarrow> \<not> zombie s p)
       \<and> n \<le> m \<and> (m = n \<longleftrightarrow> (\<forall>p \<in> set ps. cr_pgrp (creds s p) \<noteq> g))"
proof (induction ps arbitrary: n)
  case (Cons p ps)
  show ?case
  proof (cases "cr_pgrp (creds s p) = g \<and> \<not> zombie s p")
    case True
    then show ?thesis using Cons [of "Suc n"] by (auto split: prod.splits option.splits)
  next
    case False
    then show ?thesis using Cons [of n] by (auto split: prod.splits option.splits)
  qed
qed simp

text \<open>The children that a call waits for, by its argument.\<close>

definition waits_for :: "int \<Rightarrow> 'a processes_scheme \<Rightarrow> nat \<Rightarrow> bool" where
  "waits_for pid s p \<longleftrightarrow> (\<exists>d. family s p = Some (Some (current s), d))
     \<and> (pid > 0 \<longrightarrow> p = nat pid) \<and> (pid = 0 \<longrightarrow> cr_pgrp (creds s p) = cr_pgrp (creds s (current s)))
     \<and> (pid < - 1 \<longrightarrow> cr_pgrp (creds s p) = - pid)"

lemma wait_pgrp_spec:
  assumes ch: "\<And>p. p \<in> set (child_list (process_table s (current s))) \<longleftrightarrow> (\<exists>d. family s p = Some (Some (current s), d))"
    and w: "\<And>p. waits_for pid s p \<longleftrightarrow> (\<exists>d. family s p = Some (Some (current s), d)) \<and> cr_pgrp (creds s p) = g"
  shows "case wait_pgrp g s of
      Inl e \<Rightarrow> e = EINVAL \<and> (\<forall>p. \<not> waits_for pid s p)
    | Inr None \<Rightarrow> (\<exists>p. waits_for pid s p) \<and> (\<forall>p. waits_for pid s p \<longrightarrow> \<not> zombie s p)
    | Inr (Some p) \<Rightarrow> waits_for pid s p \<and> zombie s p"
proof -
  let ?ch = "child_list (process_table s (current s))"
  have w': "waits_for pid s p \<longleftrightarrow> p \<in> set ?ch \<and> cr_pgrp (creds s p) = g" for p using ch w by simp
  show ?thesis
  proof (cases "?ch = []")
    case True
    then show ?thesis using w' by (simp add: wait_pgrp_def)
  next
    case False
    then show ?thesis using scan_pgrp_spec [where g = g and ps = ?ch and n = 0 and s = s] w' by (auto simp: wait_pgrp_def split: prod.splits option.splits)
  qed
qed

lemma wait_pass_spec:
  assumes inv: "proc_inv s" "current s \<noteq> idle_process s" and pid: "pid < int max_process"
  shows "case wait_pass pid s of
      Inl e \<Rightarrow> e = EINVAL \<and> (\<forall>p. \<not> waits_for pid s p)
    | Inr None \<Rightarrow> ((\<exists>p. waits_for pid s p) \<or> pid = - 1 \<and> current s = root_process s) \<and> (\<forall>p. waits_for pid s p \<longrightarrow> \<not> zombie s p)
    | Inr (Some p) \<Rightarrow> waits_for pid s p \<and> zombie s p"
proof -
  let ?ch = "child_list (process_table s (current s))"
  have ch: "p \<in> set ?ch \<longleftrightarrow> (\<exists>d. family s p = Some (Some (current s), d))" for p
    using proc_invD(2) [OF inv(1)] running_in_use(1) [OF inv] by (auto simp: kids_ok_def family_def)
  consider "pid > 0" | "pid = 0" | "pid = - 1" | "pid < - 1" by linarith
  then show ?thesis
  proof cases
    case 1
    then have "waits_for pid s p \<longleftrightarrow> p = nat pid \<and> in_use (process_table s p) \<and> parent (process_table s p) = Some (current s)" for p
      by (auto simp: waits_for_def family_def)
    then show ?thesis using 1 pid by (auto simp: wait_pass_def GetProcess_def)
  next
    case 2
    then have "waits_for pid s p \<longleftrightarrow> (\<exists>d. family s p = Some (Some (current s), d)) \<and> cr_pgrp (creds s p) = cr_pgrp (creds s (current s))" for p
      by (simp add: waits_for_def)
    from wait_pgrp_spec [OF ch this] show ?thesis using 2 by (simp add: wait_pass_def split: sum.splits option.splits)
  next
    case 3
    then have w: "waits_for pid s p \<longleftrightarrow> p \<in> set ?ch" for p by (simp add: waits_for_def ch)
    have e: "wait_pass pid s = (if ?ch = [] \<and> current s \<noteq> root_process s then Inl EINVAL else Inr (find (zombie s) ?ch))"
      using 3 by (simp add: wait_pass_def Let_def)
    show ?thesis
    proof (cases "find (zombie s) ?ch")
      case None
      then have "\<forall>p \<in> set ?ch. \<not> zombie s p" by (simp add: find_None_iff)
      then show ?thesis unfolding e w using 3 None by (cases ?ch) auto
    next
      case (Some p)
      then have "p \<in> set ?ch" "zombie s p" by (auto simp: find_Some_iff)
      then show ?thesis unfolding e w using Some by auto
    qed
  next
    case 4
    then have "waits_for pid s p \<longleftrightarrow> (\<exists>d. family s p = Some (Some (current s), d)) \<and> cr_pgrp (creds s p) = - pid" for p
      by (simp add: waits_for_def)
    from wait_pgrp_spec [OF ch this] show ?thesis using 4 by (simp add: wait_pass_def split: sum.splits option.splits)
  qed
qed

lemma reaped_ok:
  assumes k: "kids_ok T" and pa: "parents_ok T Z" and r: "root_ok T Z r" and c: "in_use (T c)" "\<not> Z c"
    and p: "in_use (T p)" "parent (T p) = Some c" "Z p"
  defines "T' \<equiv> T(c := (T c)\<lparr>child_list := remove1 p (child_list (T c))\<rparr>, p := (T p)\<lparr>in_use := False\<rparr>)"
  shows "kids_ok T'" "parents_ok T' Z" "root_ok T' Z r" "in_use (T' y) \<longleftrightarrow> in_use (T y) \<and> y \<noteq> p"
    "parent (T' y) = parent (T y)" "exit_status (T' y) = exit_status (T y)"
proof -
  have pc: "p \<noteq> c" "p \<noteq> r" using c p r by (auto simp: root_ok_def)
  have use: "in_use (T' y) \<longleftrightarrow> in_use (T y) \<and> y \<noteq> p" for y using pc by (simp add: T'_def)
  have par: "parent (T' y) = parent (T y)" for y by (simp add: T'_def)
  have kid: "child_list (T' y) = (if y = c then remove1 p (child_list (T c)) else child_list (T y))" for y using pc by (simp add: T'_def)
  show "in_use (T' y) \<longleftrightarrow> in_use (T y) \<and> y \<noteq> p" "parent (T' y) = parent (T y)" using use par by auto
  show "exit_status (T' y) = exit_status (T y)" by (simp add: T'_def)
  have zp: "parent (T y) \<noteq> Some p" if "in_use (T y)" for y using pa p(3) that by (auto simp: parents_ok_def)
  show "root_ok T' Z r" using r pc by (simp add: root_ok_def use par)
  show "parents_ok T' Z" using pa zp unfolding parents_ok_def use par by blast
  have kx: "distinct (child_list (T y))" "set (child_list (T y)) = {z. in_use (T z) \<and> parent (T z) = Some y}" if "in_use (T y)" for y
    using k that by (auto simp: kids_ok_def)
  have "distinct (child_list (T' y)) \<and> set (child_list (T' y)) = {z. in_use (T' z) \<and> parent (T' z) = Some y}" if "in_use (T' y)" for y
    using kx [of y] that p(2) unfolding use par kid by (cases "y = c") auto
  then show "kids_ok T'" by (simp add: kids_ok_def)
qed

lemma reap_family:
  assumes inv: "proc_inv s" "current s \<noteq> idle_process s" and p: "family s p = Some (Some (current s), Some st)"
    and u: "u = free_zombie p (upd_task (current s) (\<lambda>t. t\<lparr>child_list := remove1 p (child_list t)\<rparr>) s)"
  shows "proc_inv u" "family u = (family s)(p := None)" "exit_status (process_table s p) = st"
proof -
  let ?c = "current s"
  note i = proc_invD [OF inv(1)] and run = running_in_use [OF inv]
  have z: "in_use (process_table s p)" "parent (process_table s p) = Some ?c" "zombie s p" "exit_status (process_table s p) = st"
    using p by (auto simp: family_def split: if_splits)
  then show "exit_status (process_table s p) = st" by simp
  have pc: "p \<noteq> ?c" using z run by auto
  have T: "process_table u = (process_table s)(?c := (process_table s ?c)\<lparr>child_list := remove1 p (child_list (process_table s ?c))\<rparr>,
      p := (process_table s p)\<lparr>in_use := False\<rparr>)" "root_process u = root_process s" "same_sched s u" "fprocs u = fprocs s"
    using pc by (simp_all add: u)
  have sz: "zombie u = zombie s" "sched_inv u = sched_inv s" "off u = off s"
    using same_sched_inv [OF T(3)] same_sched_off [OF T(3)] by (simp_all add: fun_eq_iff)
  note r = reaped_ok [OF i(2-4) run(1,2) z(1-3), folded T(1)]
  have "slots_ok (process_table u) (zombie s) (off s)" using i(5) z(3) by (auto simp: slots_ok_def r(4))
  moreover have "tabs_ok (process_table u) (zombie s) (fprocs u)" using i(8) z(3) by (auto simp: tabs_ok_def r(4) T(4))
  ultimately show "proc_inv u" using r(1-3) i(1) by (simp add: proc_inv_def T(2) sz)
  show "family u = (family s)(p := None)" by (auto simp: family_def fun_eq_iff r(4-6) sz)
qed

lemma sleep_family:
  assumes inv: "proc_inv s" "current s \<noteq> idle_process s" "bkl_owner s = Owner (current s)"
  shows "\<exists>u. TaskSleep (Rz_proc (current s)) s = Some u \<and> proc_inv u \<and> family u = family s
    \<and> current s \<in> set (blocked_list u (Rz_proc (current s)))"
proof -
  note i = proc_invD [OF inv(1)] and run = running_in_use [OF inv(1,2)]
  from TaskSleep_inv [OF i(1) inv(3,2), of "Rz_proc (current s)"] obtain u where
    u: "TaskSleep (Rz_proc (current s)) s = Some u" "sched_inv u" "sched.more u = sched.more s"
      "blocked_list u = (blocked_list s)(Rz_proc (current s) := blocked_list s (Rz_proc (current s)) @ [current s])" by blast
  note z = TaskSleep_zombies [OF i(1) inv(3,2) i(6) run(2) u(1)]
  have p: "process_table u = process_table s" "root_process u = root_process s" "fprocs u = fprocs s"
    using same_procs_sched [OF u(3)] vnodes_more(6) [OF u(3)] by (simp_all add: same_procs_def)
  have zu: "zombie u = zombie s" using z(1) by (simp add: fun_eq_iff)
  have "slots_ok (process_table s) (zombie s) (off u)" using i(5) z(2) by (auto simp: slots_ok_def)
  then have "proc_inv u" using i u(2) by (simp add: proc_inv_def p zu)
  moreover have "family u = family s" by (simp add: family_def fun_eq_iff p zu)
  ultimately show ?thesis using u by simp
qed

lemma sys_waitpid_cases:
  assumes inv: "proc_inv s" "current s \<noteq> idle_process s" "bkl_owner s = Owner (current s)"
  shows "\<exists>w u. sys_waitpid pid status options s = Some (w, u) \<and> proc_inv u \<and>
    (case w of
       Blocked \<Rightarrow> options AND WNOHANG = 0 \<and> family u = family s \<and> (\<forall>p. waits_for pid s p \<longrightarrow> \<not> zombie s p)
         \<and> current s \<in> set (blocked_list u (Rz_proc (current s)))
     | Done (Inr (k, out)) \<Rightarrow>
         (\<exists>p st. k = int p \<and> waits_for pid s p \<and> family s p = Some (Some (current s), Some st) \<and> family u = (family s)(p := None)
            \<and> out = (if status = None then None else Some st))
     | Done (Inl e) \<Rightarrow> u = s \<and>
         (e = EINVAL \<and> (int max_process \<le> \<bar>pid\<bar> \<or> (\<forall>p. \<not> waits_for pid s p))
          \<or> e = EAGAIN \<and> options AND WNOHANG \<noteq> 0 \<and> (\<forall>p. waits_for pid s p \<longrightarrow> \<not> zombie s p)
          \<or> e = EFAULT \<and> status = Some False \<and> (\<exists>p. waits_for pid s p \<and> zombie s p)))"
proof (cases "int max_process \<le> \<bar>pid\<bar>")
  case True
  then have "sys_waitpid pid status options s = Some (Done (Inl EINVAL), s)" by (auto simp: sys_waitpid_def Let_def)
  then show ?thesis using True inv(1) by simp
next
  case False
  then have rng: "\<not> int max_process \<le> - pid" "\<not> int max_process \<le> pid" by auto
  note sp = wait_pass_spec [OF inv(1,2), of pid]
  have e: "sys_waitpid pid status options s = (case wait_pass pid s of
      Inl e \<Rightarrow> Some (Done (Inl e), s)
    | Inr None \<Rightarrow> (if options AND WNOHANG \<noteq> 0 then Some (Done (Inl EAGAIN), s)
         else do { s \<leftarrow> TaskSleep (Rz_proc (current s)) s; Some (Blocked, s) })
    | Inr (Some p) \<Rightarrow> (if status = Some False then Some (Done (Inl EFAULT), s)
         else Some (Done (Inr (int p, if status = None then None else Some (exit_status (process_table s p)))),
           free_zombie p (upd_task (current s) (\<lambda>t. t\<lparr>child_list := remove1 p (child_list t)\<rparr>) s))))"
    using rng by (simp add: sys_waitpid_def Let_def GetProcessPid_def split: sum.split option.split)
  show ?thesis
  proof (cases "wait_pass pid s")
    case (Inl x)
    then show ?thesis using sp False e inv(1) by simp
  next
    case (Inr f)
    show ?thesis
    proof (cases f)
      case None
      with Inr sp False have "\<forall>p. waits_for pid s p \<longrightarrow> \<not> zombie s p" by simp
      then show ?thesis using sleep_family [OF inv] Inr None inv(1) unfolding e by (cases "options AND WNOHANG = 0") auto
    next
      case (Some p)
      with Inr sp False have w: "waits_for pid s p" "zombie s p" by simp_all
      obtain d where d: "family s p = Some (Some (current s), d)" using w(1) by (auto simp: waits_for_def)
      then obtain st where st: "d = Some st" using w(2) by (auto simp: family_def split: if_splits)
      let ?u = "free_zombie p (upd_task (current s) (\<lambda>t. t\<lparr>child_list := remove1 p (child_list t)\<rparr>) s)"
      note r = reap_family [OF inv(1,2) d [unfolded st] refl]
      show ?thesis using Inr Some w r d st inv(1) unfolding e by (cases "status = Some False") auto
    qed
  qed
qed

section \<open>Closing all files never fails\<close>

text \<open>
  A descriptor can be closed if its open file has one of the types that the kernel knows how to close,
  or if another process still refers to that file.
\<close>

definition closable :: "nat \<Rightarrow> 'a files_scheme \<Rightarrow> bool" where
  "closable p s \<longleftrightarrow> (\<forall>fd f. fd_filp s p fd = Some f \<longrightarrow>
     ftype (filps s f) \<in> set object_types \<or> (\<exists>q k. q \<noteq> p \<and> fd_filp s q k = Some f))"

lemma do_close_defined:
  assumes inv: "files_inv s" and fp: "fprocs s p = Some fp" and cl: "closable p s" and k: "k < OPEN_MAX"
  shows "do_close p (int k) s \<noteq> None"
proof (cases "fd_table fp k")
  case None
  then show ?thesis using fp k by (simp add: do_close_def get_filp_def)
next
  case (Some f)
  have tab: "fd_filp s p k = Some f" using fp Some by (simp add: fd_filp_def)
  have ok: "File_Descriptors.refs_ok (fd_filp s) (filps s) (filp_free_list s)" using inv by (simp add: files_inv_def)
  have r: "filp.reference_cnt (filps s f) = int (card (refs (fd_filp s) f))" "item_ok (filps s f)"
    using refs_okD(1,2) [OF ok tab] by simp_all
  have "ftype (filps s f) \<in> set object_types" if "filp.reference_cnt (filps s f) = 1"
  proof -
    have "card (refs (fd_filp s) f) = 1" using that r(1) by simp
    then obtain a where a: "refs (fd_filp s) f = {a}" by (auto simp: card_1_singleton_iff)
    have "(p, k) \<in> refs (fd_filp s) f" using tab by simp
    then have "(q, j) \<in> refs (fd_filp s) f \<Longrightarrow> q = p" for q j unfolding a by auto
    then have "fd_filp s q j = Some f \<Longrightarrow> q = p" for q j by simp
    then show ?thesis using cl tab unfolding closable_def by blast
  qed
  note ty = this
  show ?thesis
  proof (cases "filp.reference_cnt (filps s f) = 1")
    case True
    then have "fitem (filps s f) \<noteq> None" using ty r(2) by (simp add: item_ok_def)
    then show ?thesis using fp k Some True ty
      by (simp add: do_close_def get_filp_def close_item_def free_fd_filp_def free_fd_def free_filp_def Let_def)
  next
    case False
    then show ?thesis using fp k Some by (simp add: do_close_def get_filp_def free_fd_def Let_def)
  qed
qed

lemma close_loop_defined:
  "files_inv s \<Longrightarrow> fprocs s p \<noteq> None \<Longrightarrow> closable p s \<Longrightarrow> fd + n \<le> OPEN_MAX \<Longrightarrow> close_loop p fd n s \<noteq> None"
proof (induction n arbitrary: fd s)
  case (Suc n)
  then obtain fp r t where fp: "fprocs s p = Some fp" and t: "do_close p (int fd) s = Some (r, t)"
    using do_close_defined [of s p _ fd] by fastforce
  have c: "closed_fd p fd s t" using do_close_table [OF Suc.prems(1) t] Suc.prems(4) by simp
  have ty: "ftype (filps t f) = ftype (filps s f)" for f
    using t
  proof (cases rule: do_close_cases)
    case (2 g)
    obtain fp' n where "t = set_fproc p fp' (upd_filp g (\<lambda>_. (filps s g)\<lparr>filp.reference_cnt := n\<rparr>) s)"
      using do_close_entry [OF Suc.prems(1) 2 t] by metis
    then show ?thesis by simp
  qed simp
  have "closable p t"
    unfolding closable_def ty
  proof (intro allI impI)
    fix j f assume "fd_filp t p j = Some f"
    then have "fd_filp s p j = Some f" using c by (auto simp: closed_fd_def relink_def split: if_splits)
    moreover have "fd_filp t q = fd_filp s q" if "q \<noteq> p" for q using c that by (simp add: closed_fd_def relink_def)
    ultimately show "ftype (filps s f) \<in> set object_types \<or> (\<exists>q k. q \<noteq> p \<and> fd_filp t q k = Some f)"
      using Suc.prems(3) unfolding closable_def by metis
  qed
  then show ?case using t c Suc.IH [of t "Suc fd"] Suc.prems do_close_inv [OF Suc.prems(1) t] by (auto simp: closed_fd_def)
qed simp

lemma fini_fproc_defined:
  assumes "files_inv s" "fprocs s p \<noteq> None" "closable p s"
  shows "\<exists>t. fini_fproc p s = Some t \<and> files_inv t"
proof -
  obtain t where "fini_fproc p s = Some t"
    using close_loop_defined [OF assms, of 0 OPEN_MAX] by (auto simp: fini_fproc_def)
  then show ?thesis using fini_fproc_inv [OF assms(1)] by blast
qed

section \<open>Exit and fork never fail\<close>

lemma sys_exit_defined:
  assumes inv: "proc_inv s" "current s \<noteq> idle_process s" "bkl_owner s = Owner (current s)"
    and q: "parent (process_table s (current s)) = Some q"
    and fi: "files_inv s" "fprocs s (current s) \<noteq> None" "closable (current s) s"
    and mem: "vm_wf (vm s) D" "l1_table (p_as (process_table s (current s))) \<in> D"
  shows "\<exists>u as. sys_exit st s = Some u \<and> files_inv u
    \<and> cleanup_address_space (p_as (process_table s (current s))) (vm s) = Some (as, vm u)"
proof -
  let ?c = "current s"
  let ?s1 = "upd_task ?c (\<lambda>t. t\<lparr>exit_status := st\<rparr>) s"
  have sf: "same_files s ?s1" by (simp add: same_files_def upd_task_def)
  have "closable ?c ?s1" using fi(3) unfolding closable_def same_files_inv(2) [OF sf] by (simp add: upd_task_def)
  moreover have "files_inv ?s1" "fprocs ?s1 ?c \<noteq> None" using fi(1,2) same_files_inv(1) [OF sf] by simp_all
  ultimately obtain s2 where s2: "fini_fproc ?c ?s1 = Some s2" "files_inv s2" using fini_fproc_defined by blast
  have o: "same_sched s s2" "same_procs ?s1 s2" using fini_fproc_only [OF s2(1)] same_procs_files by (auto simp: files_only_def)
  have as: "p_as (process_table s2 ?c) = p_as (process_table s ?c)" "vm s2 = vm s" "root_process s2 = root_process s"
    using o(2) by (simp_all add: same_procs_def)
  obtain as m where m: "cleanup_address_space (p_as (process_table s ?c)) (vm s) = Some (as, m)"
    using cleanup_address_space_spec [OF mem] by blast
  let ?s3 = "upd_task ?c (\<lambda>t. t\<lparr>p_as := as\<rparr>) (s2\<lparr>vm := m\<rparr>)"
  note i = proc_invD [OF inv(1)] and run = running_in_use [OF inv(1,2)]
  have cl: "child_list (process_table ?s3 ?c) = child_list (process_table s ?c)" using o(2) by (simp add: same_procs_def)
  have "distinct (child_list (process_table s ?c))" "?c \<notin> set (child_list (process_table s ?c))"
    "root_process s \<notin> set (child_list (process_table s ?c))" "?c \<noteq> root_process s"
    using i(2-4) run q by (auto simp: kids_ok_def parents_ok_def root_ok_def)
  with exit_children_result [OF cl] as(3) obtain s4 where s4: "exit_children ?c ?s3 = Some s4" "same_sched ?s3 s4" "same_files ?s3 s4"
    "vm s4 = m" by auto
  have ss: "same_sched s s4" using o(1) s4(2) same_trans(1) by auto
  let ?w = "TaskWakeup (Rz_proc q) s4"
  have lk: "bkl_locked s" using i(1) inv(3) by (simp add: sched_inv_def owner_inv_def)
  have w: "sched_inv ?w" "bkl_locked ?w" "bkl_owner ?w = Owner ?c" "current ?w = ?c" "idle_process ?w = idle_process s"
    using TaskWakeup_inv(1) [of s4] i(1) ss lk inv(3) by (simp_all add: same_sched_inv(1) TaskWakeup_sel same_schedD)
  then obtain u where u: "exit_switch ?w = Some u" using exit_switch_inv [of ?w] inv(2) by auto
  have "sys_exit st s = Some u"
    using q s2(1) m as s4(1) w u by (simp add: sys_exit_def)
  moreover have "sched.more u = sched.more s4" using exit_switch_more [OF u] by (simp add: TaskWakeup_sel)
  then have "vm u = m" "same_files s4 u" using same_procs_sched same_files_sched s4(4) by (auto simp: same_procs_def)
  moreover have "files_inv s4" using s2(2) s4(3) same_files_inv(1) [of s2 ?s3] same_files_inv(1) [of ?s3 s4] by (simp add: same_files_def upd_task_def)
  ultimately show ?thesis using m same_files_inv(1) by blast
qed

lemma kmalloc_vm:
  assumes "vm_wf s D"
  shows "\<exists>va t. kmalloc_page s = Some (va, t) \<and> vm_wf t D \<and> pages_same D s t \<and> (va = None \<longrightarrow> avail s = 0) \<and> avail s \<le> avail t + 1"
proof -
  have mw: "maps_wf s D" and R: "refs_ok D (slot s) (counts s)" using assms by (simp_all add: vm_wf_def)
  have fwf: "frames_wf s" using mw by (simp add: maps_wf_def)
  from alloc_cases [OF fwf, of 4096] consider
      (none) "alloc_pageframe 4096 s = Some (None, s)" "pf_lists_empty 4096 s"
    | (some) f t where "alloc_pageframe 4096 s = Some (Some f, t)" "fresh_block f 1 s t"
    by (auto simp: PAGE_SIZE_def)
  then show ?thesis
  proof cases
    case none
    then show ?thesis using assms by (simp add: kmalloc_page_def PAGE_SIZE_def avail_empty)
  next
    case some
    note m = fresh_block_maps [OF some(2) mw]
    have sl: "slot t e k l = slot s e k l" if "e \<in> D" "k < 2048" "l < 256" for e k l using m(3) that by (simp add: slots_same_def)
    have "refs_ok D (slot t) (counts t)"
      by (rule refs_ok_cong [OF _ _ R]) (use sl keeps_counts [OF m(2) mw] in simp_all)
    moreover have "pages_same D s t" using keeps_upage [OF mw m(2)] sl by (simp add: pages_same_def)
    moreover have "\<exists>va. pmap_pf_to_va t f = Some va" using fresh_user(6) [OF some(2) mw] by (auto simp: pmap_pf_to_va_def pmap_pf_to_pa_def)
    ultimately show ?thesis using some(1) m(1) alloc_avail [OF fwf some(1)] by (auto simp: kmalloc_page_def PAGE_SIZE_def vm_wf_def)
  qed
qed

lemma files_page_defined:
  assumes "vm_wf (vm s) D"
  shows "\<exists>page t. files_page p s = Some (page, t) \<and> vm_wf (vm t) D \<and> pages_same D (vm s) (vm t)
    \<and> (page = Some zero_fproc \<or> page = None \<and> avail (vm s) = 0) \<and> same_files s t \<and> vnode_tab t = vnode_tab s \<and> creds t = creds s
    \<and> avail (vm s) \<le> avail (vm t) + 1"
proof -
  obtain va m where m: "kmalloc_page (vm s) = Some (va, m)" "vm_wf m D" "pages_same D (vm s) m" "va = None \<longrightarrow> avail (vm s) = 0"
    "avail (vm s) \<le> avail m + 1"
    using kmalloc_vm [OF assms] by blast
  then show ?thesis by (cases va) (auto simp: files_page_def same_files_def)
qed

lemma fproc_page_zero: "fproc_page zero_fproc" "fd_filp s p = (\<lambda>_. None) \<longleftrightarrow> (\<forall>fp. fprocs s p = Some fp \<longrightarrow> fd_table fp = (\<lambda>_. None))"
  by (auto simp: fproc_page_def zero_fproc_def fd_filp_def fun_eq_iff split: option.splits)

lemma AllocProcess_defined:
  assumes mem: "vm_wf (vm s) D" "avail (vm s) \<noteq> 0" and fi: "files_inv s" and p: "fprocs s p = None"
    and find: "find (\<lambda>p. \<not> in_use (process_table s p)) [0..<max_process] = Some p"
  shows "\<exists>a. AllocProcess s = Some (Some p, a) \<and> vm_wf (vm a) D \<and> pages_same D (vm s) (vm a) \<and> files_inv a
    \<and> fprocs a = (fprocs s)(p := Some (empty_fproc zero_fproc)) \<and> vnode_tab a = vnode_tab s \<and> creds a = (creds s)(p := zero_cred)
    \<and> avail (vm s) \<le> avail (vm a) + 1"
proof -
  let ?a = "init_msgport (Reply_port p) (clear_slot p s)"
  have a: "vm ?a = vm s" "fprocs ?a = fprocs s" "filps ?a = filps s" "filp_free_list ?a = filp_free_list s" "vnode_tab ?a = vnode_tab s"
    "creds ?a = (creds s)(p := zero_cred)"
    using p by (simp_all add: init_msgport_def Let_def InitRendez_def clear_slot_sel fun_upd_idem)
      (simp add: clear_slot_def Let_def upd_proc_def upd_timer_def upd_cred_def upd_task_def)
  from files_page_defined [of ?a D p] mem a obtain b where b: "files_page p ?a = Some (Some zero_fproc, b)" "vm_wf (vm b) D"
    "pages_same D (vm s) (vm b)" "same_files ?a b" "vnode_tab b = vnode_tab s" "creds b = (creds s)(p := zero_cred)"
    "avail (vm s) \<le> avail (vm b) + 1" by auto
  let ?b = "set_fproc p (empty_fproc zero_fproc) b"
  have "files_inv ?a" using fi a(2-4) same_files_inv(1) [of s ?a] by (simp add: same_files_def)
  then have "files_inv b" using same_files_inv(1) [OF b(4)] by simp
  moreover have "fprocs b p = None" using p a(2) b(4) by (simp add: same_files_def)
  ultimately have fb: "files_inv ?b" using init_fproc_inv [of b p "Some zero_fproc"] by (simp add: init_fproc_def fproc_page_zero(2))
  let ?u = "InitRendez (Rz_proc p) ?b"
  have e: "AllocProcess s = Some (Some p, ?u)" using find b(1) by (simp add: AllocProcess_def Let_def init_fproc_def)
  have "same_files ?b ?u" by (simp add: same_files_def InitRendez_def)
  then have "files_inv ?u" using fb same_files_inv(1) by blast
  moreover have "vm ?u = vm b" "vnode_tab ?u = vnode_tab b" "creds ?u = creds b" "fprocs ?u = (fprocs b)(p := Some (empty_fproc zero_fproc))"
    by (simp_all add: InitRendez_def set_fproc_def)
  moreover have "fprocs b = fprocs s" using b(4) a(2) by (simp add: same_files_def)
  ultimately show ?thesis using e b by simp
qed

lemma inc_dir_defined:
  assumes "\<And>v. d = Some v \<Longrightarrow> superblock (vnode_tab s v) \<noteq> None"
  shows "\<exists>t. inc_dir d s = Some t \<and> same_files s t \<and> vm t = vm s \<and> creds t = creds s \<and> (\<forall>v. superblock (vnode_tab t v) = superblock (vnode_tab s v))"
  using assms
  by (cases d) (auto simp: inc_dir_def vnode_inc_ref_def sb_count_def upd_vnode_def upd_sb_def same_files_def Let_def)

lemma fork_files_defined:
  assumes mem: "vm_wf (vm s) D" and fi: "files_inv s" and c: "fprocs s c = Some old" "p \<noteq> c" and p: "fprocs s p = Some new" "fd_filp s p = (\<lambda>_. None)"
    and dirs: "\<And>v. current_dir old = Some v \<or> root_dir old = Some v \<Longrightarrow> superblock (vnode_tab s v) \<noteq> None"
  shows "\<exists>t. fork_files p c s = Some t \<and> vm_wf (vm t) D \<and> pages_same D (vm s) (vm t) \<and> files_inv t \<and> creds t = creds s
    \<and> fprocs t p \<noteq> None \<and> fd_filp t c = fd_filp s c \<and> (fd_filp t p = fd_filp s c \<or> fd_filp t p = (\<lambda>_. None) \<and> avail (vm s) = 0)"
proof -
  obtain page a where a: "files_page p s = Some (page, a)" "vm_wf (vm a) D" "pages_same D (vm s) (vm a)"
    "page = Some zero_fproc \<or> page = None \<and> avail (vm s) = 0" "same_files s a" "vnode_tab a = vnode_tab s" "creds a = creds s"
    using files_page_defined [OF mem] by blast
  have ai: "files_inv a" "fprocs a c = Some old" "fd_filp a p = (\<lambda>_. None)" "fprocs a p = Some new" "fd_filp a = fd_filp s"
    using fi c p a(5) same_files_inv [OF a(5)] by (simp_all add: same_files_def)
  show ?thesis
  proof (cases page)
    case None
    then have "fork_files p c s = Some a" using a(1) by (simp add: fork_files_def fork_process_fds_def)
    then show ?thesis using a ai None by simp
  next
    case (Some fp)
    then have fp: "fp = zero_fproc" using a(4) by simp
    obtain b n where b: "fork_process_fds p c (Some zero_fproc) a = Some (Inr (), b)" "files_inv b" "fprocs b = (fprocs a)(p := Some n)"
      "fd_table n = fd_table old" "current_dir n = current_dir old" "root_dir n = root_dir old"
      using fork_process_fds_result [OF ai(1,2) c(2) ai(3) fproc_page_zero(1)] by blast
    have mb: "vm b = vm a" "vnode_tab b = vnode_tab a" "creds b = creds a"
      using fork_process_fds_only [OF b(1)] by (cases a, cases b, simp add: files_only_def)+
    obtain d where d: "inc_dir (current_dir n) b = Some d" "same_files b d" "vm d = vm b" "creds d = creds b"
      "\<And>v. superblock (vnode_tab d v) = superblock (vnode_tab b v)"
      using inc_dir_defined [of "current_dir n" b] dirs b(5) mb(2) a(6) by auto
    obtain e where e: "inc_dir (root_dir n) d = Some e" "same_files d e" "vm e = vm d" "creds e = creds d"
      using inc_dir_defined [of "root_dir n" d] dirs b(6) mb(2) a(6) d(5) by auto
    have be: "same_files b e" using d(2) e(2) by (simp add: same_files_def)
    have fe: "files_inv e" "fd_filp e = fd_filp b" "fprocs e = fprocs b" using same_files_inv [OF be] b(2) be by (simp_all add: same_files_def)
    have "fd_filp b p = fd_filp s c" "fd_filp b c = fd_filp s c"
      using b(3,4) c ai(2) by (auto simp: fd_filp_def fun_eq_iff)
    moreover have "fork_files p c s = Some e" using a(1) Some fp b d e by (simp add: fork_files_def)
    ultimately show ?thesis using a mb d e fe b(3) by simp
  qed
qed

text \<open>What a successful fork gives the child: the registers, the memory and the open files of the caller.\<close>

definition child_regs :: "'a processes_scheme \<Rightarrow> nat \<Rightarrow> 'a processes_scheme \<Rightarrow> bool" where
  "child_regs s p u \<longleftrightarrow> p_uc (process_table u p) = (p_uc (process_table s (current s)))\<lparr>uc_r0 := 0\<rparr>
     \<and> p_context (process_table u p) = StartForkProcess \<and> basename (process_table u p) = basename (process_table s (current s))
     \<and> creds u p = zero_cred"

definition child_mem :: "'a processes_scheme \<Rightarrow> nat set \<Rightarrow> nat \<Rightarrow> 'a processes_scheme \<Rightarrow> bool" where
  "child_mem s D p u \<longleftrightarrow> l1_table (p_as (process_table u p)) \<notin> D \<and> vm_wf (vm u) (insert (l1_table (p_as (process_table u p))) D)
     \<and> (\<forall>va. va < VM_USER_CEILING \<longrightarrow> page_at (vm u) (p_as (process_table u p)) va = page_at (vm s) (p_as (process_table s (current s))) va)"

definition child_files :: "'a processes_scheme \<Rightarrow> nat \<Rightarrow> 'a processes_scheme \<Rightarrow> bool" where
  "child_files s p u \<longleftrightarrow> fd_filp u p = fd_filp s (current s) \<or> fd_filp u p = (\<lambda>_. None) \<and> avail (vm s) = 1"

lemma pages_same_at:
  "pages_same D s t \<Longrightarrow> l1_table b \<in> D \<Longrightarrow> va < 0x80000000 \<Longrightarrow> page_at t b va = page_at s b va"
  using user_pde by (simp add: pages_same_def page_at_def)

lemma zero_space_len: "length (segment_table (segs zero_space)) = NSEGMENT"
  by (simp add: zero_space_def)

lemma alloced_same:
  "alloced p s a \<Longrightarrow> same_sched a b \<Longrightarrow> root_process b = root_process a \<Longrightarrow> (\<And>q. q \<noteq> p \<Longrightarrow> fprocs b q = fprocs a q) \<Longrightarrow> alloced p s b"
  by (simp add: alloced_def same_schedD)

lemma fork_slot:
  assumes inv: "proc_inv s" "current s \<noteq> idle_process s" and fi: "files_inv s" "fprocs s (current s) = Some old"
    and mem: "vm_wf (vm s) D" "avail (vm s) \<noteq> 0"
    and dirs: "\<And>v. current_dir old = Some v \<or> root_dir old = Some v \<Longrightarrow> superblock (vnode_tab s v) \<noteq> None"
    and find: "find (\<lambda>p. \<not> in_use (process_table s p)) [0..<max_process] = Some p"
  shows "\<exists>a b. AllocProcess s = Some (Some p, a) \<and> fork_files p (current s) a = Some b \<and> alloced p s b
    \<and> process_table b = (process_table s)(p := new_task (current s) (log_level (process_table s (current s))))
    \<and> vm_wf (vm b) D \<and> pages_same D (vm s) (vm b) \<and> files_inv b \<and> fprocs b p \<noteq> None
    \<and> fd_filp b (current s) = fd_filp s (current s) \<and> child_files s p b \<and> creds b p = zero_cred"
proof -
  let ?c = "current s"
  have np: "\<not> in_use (process_table s p)" using find by (auto simp: find_Some_iff)
  then have fp: "fprocs s p = None" and cp: "p \<noteq> ?c"
    using proc_invD(8) [OF inv(1)] running_in_use(1) [OF inv] by (auto simp: tabs_ok_def)
  obtain a where a: "AllocProcess s = Some (Some p, a)" "vm_wf (vm a) D" "pages_same D (vm s) (vm a)" "files_inv a"
    "fprocs a = (fprocs s)(p := Some (empty_fproc zero_fproc))" "vnode_tab a = vnode_tab s" "creds a = (creds s)(p := zero_cred)"
    "avail (vm s) \<le> avail (vm a) + 1"
    using AllocProcess_defined [OF mem fi(1) fp find] by blast
  have al: "alloced p s a" and Ta: "process_table a = (process_table s)(p := new_task ?c (log_level (process_table s ?c)))"
    using AllocProcess_cases [OF a(1)] by auto
  have fa: "fprocs a ?c = Some old" "fprocs a p = Some (empty_fproc zero_fproc)" "fd_filp a p = (\<lambda>_. None)" "fd_filp a ?c = fd_filp s ?c"
    using a(5) fi(2) cp by (auto simp: fd_filp_def empty_fproc_def)
  have da: "\<And>v. current_dir old = Some v \<or> root_dir old = Some v \<Longrightarrow> superblock (vnode_tab a v) \<noteq> None" using dirs a(6) by simp
  obtain b where b: "fork_files p ?c a = Some b" "vm_wf (vm b) D" "pages_same D (vm a) (vm b)" "files_inv b" "creds b = creds a"
    "fprocs b p \<noteq> None" "fd_filp b ?c = fd_filp a ?c" "fd_filp b p = fd_filp a ?c \<or> fd_filp b p = (\<lambda>_. None) \<and> avail (vm a) = 0"
    using fork_files_defined [OF a(2,4) fa(1) cp fa(2,3) da] by blast
  note bo = fork_files_only [OF b(1)]
  have "alloced p s b" using alloced_same [OF al bo(1,3,4)] .
  moreover have "child_files s p b" using b(8) a(8) mem(2) fa(4) unfolding child_files_def by auto
  moreover have "pages_same D (vm s) (vm b)" using a(3) b(3) by (rule pages_same_trans)
  ultimately show ?thesis using a(1,7) b bo(2) Ta fa(4) by simp
qed

lemma fork_prepared:
  assumes inv: "proc_inv s" "current s \<noteq> idle_process s" and fi: "files_inv s" "fprocs s (current s) = Some old"
    and mem: "vm_wf (vm s) D" "l1_table (p_as (process_table s (current s))) \<in> D" "seg_wf (segs (p_as (process_table s (current s))))"
      "avail (vm s) \<noteq> 0"
    and dirs: "\<And>v. current_dir old = Some v \<or> root_dir old = Some v \<Longrightarrow> superblock (vnode_tab s v) \<noteq> None"
    and find: "find (\<lambda>p. \<not> in_use (process_table s p)) [0..<max_process] = Some p"
  shows "\<exists>t ok. sys_fork s =
      (if ok then SchedReady p (upd_proc p (\<lambda>x. x\<lparr>pstate := PROC_STATE_READY\<rparr>)
          (upd_task (current s) (\<lambda>t. t\<lparr>child_list := child_list t @ [p]\<rparr>) t)) \<bind> (\<lambda>u. Some (Inr (int p), u))
       else fini_fproc p t \<bind> (\<lambda>u. Some (Inl ENOMEM, FreeProcess p u)))
    \<and> alloced p s t \<and> files_inv t \<and> fprocs t p \<noteq> None \<and> fd_filp t (current s) = fd_filp s (current s)
    \<and> child_files s p t \<and> child_regs s p t \<and> vm_wf (vm t) D \<and> pages_same D (vm s) (vm t) \<and> (ok \<longrightarrow> child_mem s D p t)"
proof -
  let ?c = "current s" and ?as = "p_as (process_table s (current s))"
  have cp: "p \<noteq> ?c" using find running_in_use(1) [OF inv] by (auto simp: find_Some_iff)
  obtain a b where ab: "AllocProcess s = Some (Some p, a)" "fork_files p ?c a = Some b" "alloced p s b"
    "process_table b = (process_table s)(p := new_task ?c (log_level (process_table s ?c)))"
    "vm_wf (vm b) D" "pages_same D (vm s) (vm b)" "files_inv b" "fprocs b p \<noteq> None"
    "fd_filp b ?c = fd_filp s ?c" "child_files s p b" "creds b p = zero_cred"
    using fork_slot [OF inv fi mem(1,4) dirs find] by blast
  let ?d = "upd_task p (\<lambda>t. t\<lparr>p_uc := (p_uc (process_table s ?c))\<lparr>uc_r0 := 0\<rparr>, p_context := StartForkProcess,
    catch_pc := catch_pc (process_table s ?c)\<rparr>) (upd_task p (\<lambda>t. t\<lparr>basename := basename (process_table s ?c)\<rparr>) b)"
  have d: "arch_fork_process p ?c (upd_task p (\<lambda>t. t\<lparr>basename := basename (process_table s ?c)\<rparr>) b) = ?d"
    using cp ab(4) by (simp add: arch_fork_process_def)
  have sg: "segment_cnt (segs ?as) < length (segment_table (segs ?as))" "segment_cnt (segs ?as) < length (segment_table (segs zero_space))"
    using mem(3) zero_space_len by (simp_all add: seg_wf_def)
  obtain ok as m where m: "fork_address_space zero_space ?as (vm b) = Some (ok, as, m)" "vm_wf m D" "pages_same D (vm b) m"
    "ok \<longrightarrow> l1_table as \<notin> D \<and> vm_wf m (insert (l1_table as) D)
      \<and> (\<forall>k < 2032. \<forall>l < 256. upage m (l1_table as) k l = upage (vm b) (l1_table ?as) k l)"
    using fork_address_space_cases [OF ab(5) mem(2) sg] by blast
  let ?t = "upd_task p (\<lambda>t. t\<lparr>p_as := as\<rparr>) (?d\<lparr>vm := m\<rparr>)"
  have step: "sys_fork s = (if ok then SchedReady p (upd_proc p (\<lambda>x. x\<lparr>pstate := PROC_STATE_READY\<rparr>)
          (upd_task ?c (\<lambda>t. t\<lparr>child_list := child_list t @ [p]\<rparr>) ?t)) \<bind> (\<lambda>u. Some (Inr (int p), u))
       else fini_fproc p ?t \<bind> (\<lambda>u. Some (Inl ENOMEM, FreeProcess p u)))"
    using ab(1,2,4) d m(1) cp by (simp add: sys_fork_def Let_def GetProcessPid_def new_task_def)
  have t: "same_files b ?t" "same_sched b ?t" "root_process ?t = root_process b"
    by (simp add: same_files_def upd_task_def, simp, simp)
  note ft = same_files_inv [OF t(1)] t(1) [unfolded same_files_def]
  have "alloced p s ?t" using alloced_same [OF ab(3) t(2,3)] ft(3) by simp
  moreover have "child_regs s p ?t" using ab(11) by (simp add: child_regs_def upd_task_def)
  moreover have "page_at m as va = page_at (vm s) ?as va" if ok "va < VM_USER_CEILING" for va
    using m(4) that ceiling_pde ab(6) mem(2) ceiling_pde [OF that(2)] by (simp add: page_at_def pages_same_def)
  then have "ok \<longrightarrow> child_mem s D p ?t" using m(4) by (simp add: child_mem_def)
  moreover have "pages_same D (vm s) m" using ab(6) m(3) by (rule pages_same_trans)
  ultimately show ?thesis using step ab ft m(2) by (intro exI [of _ ?t] exI [of _ ok]) (simp add: child_files_def)
qed

lemma sys_fork_defined:
  assumes inv: "proc_inv s" "current s \<noteq> idle_process s" and fi: "files_inv s" "fprocs s (current s) = Some old"
    and mem: "vm_wf (vm s) D" "l1_table (p_as (process_table s (current s))) \<in> D" "seg_wf (segs (p_as (process_table s (current s))))"
      "avail (vm s) \<noteq> 0"
    and dirs: "\<And>v. current_dir old = Some v \<or> root_dir old = Some v \<Longrightarrow> superblock (vnode_tab s v) \<noteq> None"
  shows "\<exists>r u. sys_fork s = Some (r, u) \<and> files_inv u \<and> pages_same D (vm s) (vm u)
    \<and> (r = Inl ENOMEM \<and> vm_wf (vm u) D \<or> (\<exists>p. r = Inr (int p) \<and> child_regs s p u \<and> child_mem s D p u \<and> child_files s p u \<and> queued u p))"
proof (cases "find (\<lambda>p. \<not> in_use (process_table s p)) [0..<max_process]")
  case None
  then have "sys_fork s = Some (Inl ENOMEM, s)" by (simp add: sys_fork_def AllocProcess_def)
  then show ?thesis using fi(1) mem(1) by simp
next
  case (Some p)
  let ?c = "current s"
  have np: "\<not> in_use (process_table s p)" using Some by (auto simp: find_Some_iff)
  have cp: "p \<noteq> ?c" and o: "off s p" using np running_in_use(1) [OF inv] proc_invD(7) [OF inv(1)] by auto
  obtain t ok where t: "sys_fork s =
      (if ok then SchedReady p (upd_proc p (\<lambda>x. x\<lparr>pstate := PROC_STATE_READY\<rparr>)
          (upd_task ?c (\<lambda>t. t\<lparr>child_list := child_list t @ [p]\<rparr>) t)) \<bind> (\<lambda>u. Some (Inr (int p), u))
       else fini_fproc p t \<bind> (\<lambda>u. Some (Inl ENOMEM, FreeProcess p u)))"
    "alloced p s t" "files_inv t" "fprocs t p \<noteq> None" "fd_filp t ?c = fd_filp s ?c"
    "child_files s p t" "child_regs s p t" "vm_wf (vm t) D" "pages_same D (vm s) (vm t)" "ok \<longrightarrow> child_mem s D p t"
    using fork_prepared [OF inv fi mem dirs Some] by blast
  show ?thesis
  proof (cases ok)
    case True
    let ?t = "upd_task ?c (\<lambda>t. t\<lparr>child_list := child_list t @ [p]\<rparr>) t"
    have al: "alloced p s ?t" using t(2) by (simp add: alloced_def upd_task_def)
    have "schedulable (procs s ?c)" using queued_schedulable [OF proc_invD(1) [OF inv(1)]] current_queued [OF proc_invD(1) [OF inv(1)] inv(2)] .
    then have "schedulable (procs (upd_proc p (\<lambda>x. x\<lparr>pstate := PROC_STATE_READY\<rparr>) ?t) p)"
      using al by (simp add: alloced_def schedulable_def child_process_def)
    then obtain u where u: "SchedReady p (upd_proc p (\<lambda>x. x\<lparr>pstate := PROC_STATE_READY\<rparr>) ?t) = Some u" using SchedReady_defined by blast
    have m: "sched.more u = sched.more ?t" using SchedReady_sel(11) [OF u] by simp
    have U: "vm u = vm t" "process_table u p = process_table t p" "creds u = creds t" "fd_filp u = fd_filp t" "files_inv u"
      using same_procs_sched [OF m] vnodes_more(9) [OF m] same_files_inv [OF same_files_sched [OF m]] t(3) cp
        same_files_inv [of t ?t] by (simp_all add: same_procs_def same_files_def upd_task_def)
    have "queued u p" using SchedReady_sel(2,3) [OF u] by (simp add: queued_def)
    then show ?thesis using t u True U by (auto simp: child_regs_def child_mem_def child_files_def)
  next
    case False
    have "closable p t" using t(5,6) cp unfolding closable_def child_files_def by (metis option.distinct(1))
    then obtain u where u: "fini_fproc p t = Some u" "files_inv u" using fini_fproc_defined [OF t(3,4)] by blast
    have "same_procs t u" using fini_fproc_only [OF u(1)] same_procs_files by (auto simp: files_only_def)
    then have "vm (FreeProcess p u) = vm t" by (simp add: same_procs_def FreeProcess_def)
    moreover have "files_inv (FreeProcess p u)"
      using u(2) same_files_inv(1) [of u "FreeProcess p u"] by (simp add: same_files_def FreeProcess_def upd_task_def)
    ultimately show ?thesis using t u False by auto
  qed
qed

section \<open>Properties\<close>

text \<open>
  A kernel for concrete runs: process 0 is the root process and runs, process 1 is its child, which has
  exited with status 7, and process 2 is the idle task.
\<close>

definition demo_task :: task where
  "demo_task = (new_task 0 5)\<lparr>p_as := demo_as, p_uc := zero_context\<lparr>uc_pc := 0x8000\<rparr>\<rparr>"

definition demo_tasks :: "nat \<Rightarrow> task" where
  "demo_tasks p = (if p = 0 then demo_task\<lparr>parent := None, child_list := [1]\<rparr>
     else if p = 1 then demo_task\<lparr>exit_status := 7\<rparr> else if p = 2 then demo_task\<lparr>parent := None\<rparr>
     else demo_task\<lparr>in_use := False\<rparr>)"

definition demo_procs :: processes where
  "demo_procs = vnodes.extend
     (demo_vnodes\<lparr>procs := (\<lambda>p. \<lparr>pstate = (if p = 1 then PROC_STATE_ZOMBIE else PROC_STATE_RUNNING),
          sched_policy = (if p = 2 then SCHED_IDLE else SCHED_RR), quanta_used = 0, priority = 16, desired_priority = 16, pflags = 0\<rparr>),
        sched_queue := (\<lambda>_. [])(16 := [0]), idle_process := 2, bkl_locked := True, bkl_owner := Owner 0,
        fprocs := [0 \<mapsto> no_fproc], filp_free_list := []\<rparr>)
     (processes.fields demo_tasks demo_maps 0)"

lemma demo_procs_sel [simp]:
  "process_table demo_procs = demo_tasks" "vm demo_procs = demo_maps" "root_process demo_procs = 0"
  "procs demo_procs = (\<lambda>p. \<lparr>pstate = (if p = 1 then PROC_STATE_ZOMBIE else PROC_STATE_RUNNING),
     sched_policy = (if p = 2 then SCHED_IDLE else SCHED_RR), quanta_used = 0, priority = 16, desired_priority = 16, pflags = 0\<rparr>)"
  "sched_queue demo_procs = (\<lambda>_. [])(16 := [0])" "current demo_procs = 0" "idle_process demo_procs = 2" "bkl_locked demo_procs"
  "bkl_owner demo_procs = Owner 0" "bkl_blocked_list demo_procs = []" "blocked_list demo_procs r = []" "fprocs demo_procs = [0 \<mapsto> no_fproc]"
  "filp_free_list demo_procs = []"
  by (simp_all add: demo_procs_def demo_vnodes_def demo_msgs_def demo_events_def zero_files_def zero_timers_def zero_sched_def
      vnodes.defs processes.defs msgs.defs events.defs files.defs timers.defs sched.defs)

lemma demo_procs_inv: "proc_inv demo_procs"
proof -
  have use: "in_use (demo_tasks p) \<longleftrightarrow> p < 3" for p by (auto simp: demo_tasks_def demo_task_def new_task_def)
  have z: "zombie demo_procs p \<longleftrightarrow> p = 1" for p by (simp add: zombie_def)
  have "queued demo_procs p \<longleftrightarrow> p = 0" for p by (simp add: queued_def)
  note q = this
  have "sched_inv demo_procs"
    by (auto simp: sched_inv_def runq_inv_def waits_inv_def current_inv_def owner_inv_def q schedulable_def)
  moreover have "kids_ok demo_tasks" "parents_ok demo_tasks (zombie demo_procs)" "root_ok demo_tasks (zombie demo_procs) 0"
    by (auto simp: kids_ok_def parents_ok_def root_ok_def use z demo_tasks_def demo_task_def new_task_def split: if_splits)
  moreover have "slots_ok demo_tasks (zombie demo_procs) (off demo_procs)" "tabs_ok demo_tasks (zombie demo_procs) (fprocs demo_procs)"
    by (auto simp: slots_ok_def tabs_ok_def use z off_def q max_process_def)
  ultimately show ?thesis by (simp add: proc_inv_def)
qed

lemma demo_procs_mem:
  "vm_wf (vm demo_procs) {l1_table demo_as}" "l1_table (p_as (process_table demo_procs 0)) \<in> {l1_table demo_as}"
  "seg_wf (segs (p_as (process_table demo_procs 0)))" "avail (vm demo_procs) \<noteq> 0"
  using demo_vm(1) demo_maps_avail fresh_as_wf by (simp_all add: demo_tasks_def demo_task_def demo_segs)

lemma demo_procs_files: "files_inv demo_procs" "fprocs demo_procs 0 = Some no_fproc"
proof -
  have "fd_filp demo_procs = (\<lambda>_ _. None)" by (auto simp: fd_filp_def no_fproc_def fun_eq_iff)
  then show "files_inv demo_procs" by (simp add: files_inv_def File_Descriptors.refs_ok_def refs_def fds_ok_def no_fproc_def)
qed simp

text \<open>
  C37: A fork never brings the kernel down while a page of memory is left, whatever else runs out.  It
  either fails with \<open>ENOMEM\<close> and leaves the family of processes as it was, or adds one child of the
  caller that is ready to run.  The child has the registers of the caller, except that its result is 0,
  sees the same contents at every address below the user ceiling, in an address space of its own, and
  refers to the same open files; if the last page went to the new slot it starts with no open file.
  It runs as user and group 0, whoever the caller is.  No process sees its memory change.
\<close>

theorem sys_fork_correct:
  assumes "proc_inv s" "current s \<noteq> idle_process s" "files_inv s" "fprocs s (current s) = Some old"
    and "vm_wf (vm s) D" "l1_table (p_as (process_table s (current s))) \<in> D" "seg_wf (segs (p_as (process_table s (current s))))"
      "avail (vm s) \<noteq> 0"
    and "\<And>v. current_dir old = Some v \<or> root_dir old = Some v \<Longrightarrow> superblock (vnode_tab s v) \<noteq> None"
  shows "\<exists>r u. sys_fork s = Some (r, u) \<and> proc_inv u \<and> files_inv u
    \<and> (\<forall>b va. l1_table b \<in> D \<and> va < 0x80000000 \<longrightarrow> page_at (vm u) b va = page_at (vm s) b va)
    \<and> (r = Inl ENOMEM \<and> family u = family s
       \<or> (\<exists>p. r = Inr (int p) \<and> family s p = None \<and> family u = (family s)(p \<mapsto> (Some (current s), None))
            \<and> child_regs s p u \<and> child_mem s D p u \<and> child_files s p u \<and> queued u p))"
proof -
  obtain r u where u: "sys_fork s = Some (r, u)" "files_inv u" "pages_same D (vm s) (vm u)"
    "r = Inl ENOMEM \<or> (\<exists>p. r = Inr (int p) \<and> child_regs s p u \<and> child_mem s D p u \<and> child_files s p u \<and> queued u p)"
    using sys_fork_defined [OF assms] by blast
  note f = sys_fork_family [OF assms(1,2) u(1)]
  have "\<forall>b va. l1_table b \<in> D \<and> va < 0x80000000 \<longrightarrow> page_at (vm u) b va = page_at (vm s) b va" using pages_same_at [OF u(3)] by blast
  then show ?thesis using u f by (intro exI [of _ r] exI [of _ u]) auto
qed

theorem sys_fork_correct_witness:
  "\<exists>r u. sys_fork demo_procs = Some (r, u) \<and> proc_inv u \<and> page_at (vm u) demo_as 0x8000 = page_at demo_maps demo_as 0x8000
    \<and> family u 1 = Some (Some 0, Some 7)"
proof -
  have f: "family demo_procs 1 = Some (Some 0, Some 7)" by (simp add: family_def zombie_def demo_tasks_def demo_task_def new_task_def)
  have h: "current demo_procs \<noteq> idle_process demo_procs" "fprocs demo_procs (current demo_procs) = Some no_fproc"
    "l1_table (p_as (process_table demo_procs (current demo_procs))) \<in> {l1_table demo_as}"
    "seg_wf (segs (p_as (process_table demo_procs (current demo_procs))))"
    using demo_procs_mem demo_procs_files(2) by (simp_all add: demo_tasks_def demo_task_def)
  have d: "superblock (vnode_tab demo_procs v) \<noteq> None" if "current_dir no_fproc = Some v \<or> root_dir no_fproc = Some v" for v
    using that by (simp add: no_fproc_def)
  obtain r u where u: "sys_fork demo_procs = Some (r, u)" "proc_inv u"
    "\<And>b va. l1_table b \<in> {l1_table demo_as} \<and> va < 0x80000000 \<longrightarrow> page_at (vm u) b va = page_at (vm demo_procs) b va"
    "family u = family demo_procs \<or> (\<exists>p. family demo_procs p = None \<and> family u = (family demo_procs)(p \<mapsto> (Some 0, None)))"
    using sys_fork_correct [OF demo_procs_inv h(1) demo_procs_files(1) h(2) demo_procs_mem(1) h(3,4) demo_procs_mem(4) d] by auto
  have "page_at (vm u) demo_as 0x8000 = page_at demo_maps demo_as 0x8000" using u(3) [of demo_as "0x8000"] by simp
  moreover have "family u 1 = Some (Some 0, Some 7)" using u(4) f by (metis fun_upd_apply option.distinct(1))
  ultimately show ?thesis using u(1,2) by blast
qed


text \<open>The same kernel when the child has not exited yet and runs.\<close>

definition demo_child :: processes where
  "demo_child = demo_procs\<lparr>procs := (procs demo_procs)(1 := (procs demo_procs 1)\<lparr>pstate := PROC_STATE_RUNNING\<rparr>),
     sched_queue := (\<lambda>_. [])(16 := [1, 0]), current := 1, bkl_owner := Owner 1, fprocs := [0 \<mapsto> no_fproc, 1 \<mapsto> no_fproc]\<rparr>"

lemma demo_child_sel [simp]:
  "process_table demo_child = demo_tasks" "vm demo_child = demo_maps" "root_process demo_child = 0"
  "procs demo_child = (\<lambda>p. \<lparr>pstate = PROC_STATE_RUNNING, sched_policy = (if p = 2 then SCHED_IDLE else SCHED_RR), quanta_used = 0,
     priority = 16, desired_priority = 16, pflags = 0\<rparr>)"
  "sched_queue demo_child = (\<lambda>_. [])(16 := [1, 0])" "current demo_child = 1" "idle_process demo_child = 2" "bkl_locked demo_child"
  "bkl_owner demo_child = Owner 1" "bkl_blocked_list demo_child = []" "blocked_list demo_child r = []"
  "fprocs demo_child = [0 \<mapsto> no_fproc, 1 \<mapsto> no_fproc]" "filp_free_list demo_child = []"
  by (simp_all add: demo_child_def fun_eq_iff)

lemma demo_child_inv: "proc_inv demo_child" "files_inv demo_child" "closable 1 demo_child"
proof -
  have use: "in_use (demo_tasks p) \<longleftrightarrow> p < 3" for p by (auto simp: demo_tasks_def demo_task_def new_task_def)
  have z: "\<not> zombie demo_child p" for p by (simp add: zombie_def)
  have q: "queued demo_child p \<longleftrightarrow> p < 2" for p by (auto simp: queued_def)
  have "sched_inv demo_child"
    by (auto simp: sched_inv_def runq_inv_def waits_inv_def current_inv_def owner_inv_def q schedulable_def)
  moreover have "kids_ok demo_tasks" "parents_ok demo_tasks (zombie demo_child)" "root_ok demo_tasks (zombie demo_child) 0"
    by (auto simp: kids_ok_def parents_ok_def root_ok_def use z demo_tasks_def demo_task_def new_task_def split: if_splits)
  moreover have "slots_ok demo_tasks (zombie demo_child) (off demo_child)" "tabs_ok demo_tasks (zombie demo_child) (fprocs demo_child)"
    by (auto simp: slots_ok_def tabs_ok_def use z off_def q max_process_def)
  ultimately show "proc_inv demo_child" by (simp add: proc_inv_def)
  have f: "fd_filp demo_child = (\<lambda>_ _. None)" by (auto simp: fd_filp_def no_fproc_def fun_eq_iff)
  then show "files_inv demo_child" by (simp add: files_inv_def File_Descriptors.refs_ok_def refs_def fds_ok_def no_fproc_def)
  show "closable 1 demo_child" by (simp add: closable_def f)
qed


text \<open>
  C39: A wait returns the number and the status of a child that has exited, of those the call asks for,
  and takes it out of the family; it fails with \<open>EINVAL\<close> only if there is no such child, with \<open>EAGAIN\<close>
  only if the caller does not want to sleep, and sleeps only while all such children are running.
\<close>

theorem sys_waitpid_correct:
  assumes "proc_inv s" "current s \<noteq> idle_process s" "bkl_owner s = Owner (current s)"
  shows "\<exists>w u. sys_waitpid pid status options s = Some (w, u) \<and> proc_inv u \<and>
    (case w of
       Blocked \<Rightarrow> options AND WNOHANG = 0 \<and> family u = family s \<and> (\<forall>p. waits_for pid s p \<longrightarrow> \<not> zombie s p)
         \<and> current s \<in> set (blocked_list u (Rz_proc (current s)))
     | Done (Inr (k, out)) \<Rightarrow>
         (\<exists>p st. k = int p \<and> waits_for pid s p \<and> family s p = Some (Some (current s), Some st) \<and> family u = (family s)(p := None)
            \<and> out = (if status = None then None else Some st))
     | Done (Inl e) \<Rightarrow> u = s \<and>
         (e = EINVAL \<and> (int max_process \<le> \<bar>pid\<bar> \<or> (\<forall>p. \<not> waits_for pid s p))
          \<or> e = EAGAIN \<and> options AND WNOHANG \<noteq> 0 \<and> (\<forall>p. waits_for pid s p \<longrightarrow> \<not> zombie s p)
          \<or> e = EFAULT \<and> status = Some False \<and> (\<exists>p. waits_for pid s p \<and> zombie s p)))"
  using sys_waitpid_cases [OF assms] .

theorem sys_waitpid_correct_witness:
  "\<exists>u. sys_waitpid (- 1) (Some True) 0 demo_procs = Some (Done (Inr (1, Some 7)), u) \<and> proc_inv u \<and> family u 1 = None"
proof -
  have w: "wait_pass (- 1) demo_procs = Inr (Some 1)"
    by (simp add: wait_pass_def Let_def demo_tasks_def demo_task_def new_task_def zombie_def)
  then obtain u where u: "sys_waitpid (- 1) (Some True) 0 demo_procs = Some (Done (Inr (1, Some 7)), u)"
    by (simp add: sys_waitpid_def max_process_def GetProcessPid_def demo_tasks_def)
  have "current demo_procs \<noteq> idle_process demo_procs" "bkl_owner demo_procs = Owner (current demo_procs)" by simp_all
  from sys_waitpid_correct [OF demo_procs_inv this, of "- 1" "Some True" 0] u show ?thesis by auto
qed

end
