(* ===== verification/Signals.thy ===== *)
theory Signals
  imports Processes
begin

unbundle bit_operations_syntax

text \<open>
  Signals, \<^verbatim>\<open>kernel/proc/signal.c\<close> and \<^verbatim>\<open>boards/raspberry_pi_4/signals.c\<close>: the settings of a process, sending,
  masking and waiting.  A set of signals is a word, in which signal \<open>n\<close> is bit \<open>n - 1\<close>.  A structure
  read from the caller is an option, where \<open>None\<close> is a failed copy, and a pointer that may be NULL adds
  another option.  A local variable that the code leaves uninitialised is the parameter \<open>junk\<close>.
\<close>

section \<open>Operations\<close>

definition NSIG :: int where "NSIG = 32"
definition SIGKILL :: int where "SIGKILL = 9"
definition SIGSTOP :: int where "SIGSTOP = 17"
definition SIG_DFL :: u32 where "SIG_DFL = 0"
definition SIG_IGN :: u32 where "SIG_IGN = 1"
definition SI_USER :: int where "SI_USER = 1"
definition SIG_SETMASK :: int where "SIG_SETMASK = 0"
definition SIG_BLOCK :: int where "SIG_BLOCK = 1"
definition SIG_UNBLOCK :: int where "SIG_UNBLOCK = 2"
definition SA_RESETHAND :: u32 where "SA_RESETHAND = 2"
definition SA_SIGINFO :: u32 where "SA_SIGINFO = 4"
definition SA_NODEFER :: u32 where "SA_NODEFER = 8"
definition SA_RESTORER :: u32 where "SA_RESTORER = 16"

definition SIGBIT :: "int \<Rightarrow> u32" where
  "SIGBIT sig = shl1 (nat (sig - 1))"

record sigaction =
  sa_flags :: u32
  sa_handler :: u32
  sa_mask :: u32
  sa_restorer :: u32

definition upd_signal :: "nat \<Rightarrow> (Signal \<Rightarrow> Signal) \<Rightarrow> 'a processes_scheme \<Rightarrow> 'a processes_scheme" where
  "upd_signal p f s = upd_task p (\<lambda>t. t\<lparr>p_signal := f (p_signal t)\<rparr>) s"

definition signal_of :: "'a processes_scheme \<Rightarrow> nat \<Rightarrow> Signal" where
  "signal_of s p = p_signal (process_table s p)"

text \<open>A table with one entry for each signal, \<open>handler[0]\<close> to \<open>handler[NSIG - 2]\<close>.\<close>

definition per_signal :: "(nat \<Rightarrow> 'b) \<Rightarrow> (nat \<Rightarrow> 'b) \<Rightarrow> nat \<Rightarrow> 'b" where
  "per_signal new old = (\<lambda>t. if t < nat NSIG - 1 then new t else old t)"

definition SigFork :: "nat \<Rightarrow> nat \<Rightarrow> 'a processes_scheme \<Rightarrow> 'a processes_scheme" where
  "SigFork src dst s =
     (let x = signal_of s src
      in upd_signal dst (\<lambda>y. y\<lparr>handler := per_signal (handler x) (handler y),
           handler_mask := per_signal (handler_mask x) (handler_mask y), si_code := per_signal (\<lambda>_. 0) (si_code y),
           sig_info := sig_info x, sig_mask := sig_mask x, sig_pending := 0, sig_resethand := sig_resethand x,
           sig_nodefer := sig_nodefer x, restorer := restorer x, sigsuspend_oldmask := 0, use_sigsuspend_mask := False\<rparr>) s)"

definition SigInit :: "nat \<Rightarrow> 'a processes_scheme \<Rightarrow> 'a processes_scheme" where
  "SigInit dst s =
     upd_signal dst (\<lambda>y. y\<lparr>handler := per_signal (\<lambda>_. SIG_DFL) (handler y),
       handler_mask := per_signal (\<lambda>_. 0) (handler_mask y), si_code := per_signal (\<lambda>_. 0) (si_code y),
       sig_info := 0, sig_mask := 0, sig_pending := 0, sig_resethand := 0, sig_nodefer := 0, restorer := 0,
       sigsuspend_oldmask := 0, use_sigsuspend_mask := False\<rparr>) s"

definition SigExec :: "nat \<Rightarrow> 'a processes_scheme \<Rightarrow> 'a processes_scheme" where
  "SigExec dst s =
     upd_signal dst (\<lambda>y. y\<lparr>handler := per_signal (\<lambda>t. if handler y t \<noteq> SIG_IGN then SIG_DFL else handler y t) (handler y),
       handler_mask := per_signal (\<lambda>_. 0) (handler_mask y), si_code := per_signal (\<lambda>_. 0) (si_code y),
       sig_info := 0, sig_resethand := 0, sig_nodefer := 0, restorer := 0, sigsuspend_oldmask := 0,
       use_sigsuspend_mask := False\<rparr>) s"

text \<open>
  The old action that is copied out, with the flags from \<open>junk\<close>; the test \<^verbatim>\<open>sig_info &= SIGBIT(signal)\<close> of
  the code assigns.
\<close>

definition old_action :: "int \<Rightarrow> u32 \<Rightarrow> Signal \<Rightarrow> sigaction \<Rightarrow> sigaction" where
  "old_action sig info x junk = junk\<lparr>sa_flags := (if info AND SIGBIT sig \<noteq> 0 then sa_flags junk OR SA_SIGINFO else sa_flags junk),
     sa_handler := handler x (nat (sig - 1)), sa_mask := handler_mask x (nat (sig - 1))\<rparr>"

definition set_action :: "int \<Rightarrow> sigaction \<Rightarrow> Signal \<Rightarrow> Signal" where
  "set_action sig act x =
     (let k = nat (sig - 1);
          x = (if sa_flags act AND SA_SIGINFO \<noteq> 0 then x\<lparr>sig_info := sig_info x OR SIGBIT sig\<rparr> else x);
          x = (if sa_flags act AND SA_NODEFER \<noteq> 0 then x\<lparr>sig_nodefer := sig_nodefer x OR SIGBIT sig\<rparr> else x);
          x = (if sa_flags act AND SA_RESETHAND \<noteq> 0 then x\<lparr>sig_resethand := sig_resethand x OR SIGBIT sig\<rparr> else x);
          x = (if sa_flags act AND SA_RESTORER \<noteq> 0 then x\<lparr>restorer := sa_restorer act\<rparr> else x)
      in x\<lparr>handler := (handler x)(k := sa_handler act),
           handler_mask := (handler_mask x)(k := sa_mask act AND NOT (SIGBIT SIGKILL OR SIGBIT SIGSTOP))\<rparr>)"

text \<open>\<open>oact\<close> is \<open>None\<close> for NULL and otherwise tells whether it can be written; the result holds what is written.\<close>

definition sys_sigaction ::
  "sigaction \<Rightarrow> int \<Rightarrow> sigaction option option \<Rightarrow> bool option \<Rightarrow> 'a processes_scheme
     \<Rightarrow> sigaction option result \<times> 'a processes_scheme" where
  "sys_sigaction junk sig act oact s =
     (let c = current s
      in if sig \<le> 0 \<or> sig \<ge> NSIG then (Inl EINVAL, s)
         else
           let s = (if oact \<noteq> None then upd_signal c (\<lambda>x. x\<lparr>sig_info := sig_info x AND SIGBIT sig\<rparr>) s else s);
               out = (if oact \<noteq> None then Some (old_action sig (sig_info (signal_of s c)) (signal_of s c) junk) else None)
           in if oact = Some False then (Inl EFAULT, s)
              else case act of
                None \<Rightarrow> (Inr out, s)
              | Some None \<Rightarrow> (Inl EFAULT, s)
              | Some (Some a) \<Rightarrow>
                  if sig = SIGKILL \<or> sig = SIGSTOP then (Inl EINVAL, s)
                  else (Inr out, upd_signal c (set_action sig a) s))"

text \<open>Sending to one process: the signal becomes pending, and a process that sleeps may be made ready.\<close>

definition post_signal :: "nat \<Rightarrow> int \<Rightarrow> 'a processes_scheme \<Rightarrow> 'a processes_scheme option" where
  "post_signal p sig s =
     (if handler (signal_of s p) (nat (sig - 1)) \<noteq> SIG_IGN then
        (let s = upd_signal p (\<lambda>x. x\<lparr>sig_pending := sig_pending x OR SIGBIT sig, si_code := (si_code x)(nat (sig - 1) := SI_USER)\<rparr>) s
         in if pstate (procs s p) = PROC_STATE_RENDEZ_BLOCKED \<and> sig_pending (signal_of s p) AND sig_mask (signal_of s p) \<noteq> 0
            then do {
              s \<leftarrow> SchedReady p (upd_proc p (\<lambda>x. x\<lparr>pstate := PROC_STATE_READY\<rparr>) s);
              Reschedule s
            }
            else Some s)
      else Some s)"

fun kill_group :: "int \<Rightarrow> int \<Rightarrow> nat list \<Rightarrow> 'a processes_scheme \<Rightarrow> 'a processes_scheme option" where
  "kill_group g sig [] s = Some s"
| "kill_group g sig (p # ps) s =
     (if pstate (procs s p) \<noteq> PROC_STATE_UNALLOC \<and> cr_pgrp (creds s p) = g
      then post_signal p sig s \<bind> kill_group g sig ps
      else kill_group g sig ps s)"

definition sys_kill :: "int \<Rightarrow> int \<Rightarrow> 'a processes_scheme \<Rightarrow> (unit result \<times> 'a processes_scheme) option" where
  "sys_kill pid sig s =
     (if sig \<le> 0 \<or> sig \<ge> NSIG \<or> pid = 0 then Some (Inl EINVAL, s)
      else if pid > 0 then
        (case GetProcess pid of
           None \<Rightarrow> Some (Inl EINVAL, s)
         | Some p \<Rightarrow>
             if pstate (procs s p) = PROC_STATE_UNALLOC then Some (Inl EINVAL, s)
             else do { s \<leftarrow> post_signal p sig s; Some (Inr (), s) })
      else do { s \<leftarrow> kill_group (- pid) sig [0..<max_process] s; Some (Inr (), s) })"

text \<open>The call returns 0 when it is woken; the first component tells whether it slept.\<close>

definition sys_sigsuspend :: "u32 option \<Rightarrow> 'a processes_scheme \<Rightarrow> (unit result sys \<times> 'a processes_scheme) option" where
  "sys_sigsuspend new_mask s =
     (case new_mask of
        None \<Rightarrow> Some (Done (Inl EFAULT), s)
      | Some m \<Rightarrow>
          (let c = current s;
               s = upd_signal c (\<lambda>x. x\<lparr>sigsuspend_oldmask := sig_mask x, use_sigsuspend_mask := True, sig_mask := m\<rparr>) s
           in if sig_pending (signal_of s c) AND NOT (sig_mask (signal_of s c)) = 0
              then do { s \<leftarrow> TaskSleep (Rz_proc c) s; Some (Blocked, s) }
              else Some (Done (Inr ()), s)))"

definition sys_sigprocmask ::
  "u32 \<Rightarrow> int \<Rightarrow> u32 option option \<Rightarrow> bool option \<Rightarrow> 'a processes_scheme \<Rightarrow> u32 option result \<times> 'a processes_scheme" where
  "sys_sigprocmask junk how set_in oset s =
     (let c = current s; old = sig_mask (signal_of s c); out = (if oset = None then None else Some old)
      in if oset = Some False then (Inl EFAULT, s)
         else case set_in of
           None \<Rightarrow> (Inr out, s)
         | Some (Some w) \<Rightarrow> (Inl EFAULT, s)
         | Some None \<Rightarrow>
             if how = SIG_SETMASK then (Inr out, upd_signal c (\<lambda>x. x\<lparr>sig_mask := junk\<rparr>) s)
             else if how = SIG_BLOCK then (Inr out, upd_signal c (\<lambda>x. x\<lparr>sig_mask := sig_mask x OR junk\<rparr>) s)
             else if how = SIG_UNBLOCK then (Inr out, upd_signal c (\<lambda>x. x\<lparr>sig_mask := sig_mask x AND NOT junk\<rparr>) s)
             else (Inl EPERM, s))"

definition sys_sigpending :: "bool \<Rightarrow> 'a processes_scheme \<Rightarrow> u32 result" where
  "sys_sigpending ok s =
     (let x = signal_of s (current s) in if ok then Inr (sig_pending x AND NOT (sig_mask x)) else Inl EFAULT)"

definition SigExit :: "int \<Rightarrow> 'a processes_scheme \<Rightarrow> 'a processes_scheme option" where
  "SigExit sig s = sys_exit (sig * 256) s"

text \<open>The table \<^verbatim>\<open>sigprop\<close>, of which only the flag \<^verbatim>\<open>SP_KILL\<close> is read.\<close>

definition sp_kill :: "int list" where
  "sp_kill = [1, 2, 3, 4, 5, 6, 7, 8, 9, 10, 11, 12, 13, 14, 15, 24, 25, 26, 27, 30, 31]"

definition DoSignalDefault :: "int \<Rightarrow> 'a processes_scheme \<Rightarrow> 'a processes_scheme option" where
  "DoSignalDefault sig s = (if sig \<in> set sp_kill then SigExit sig s else Some s)"

text \<open>The machine part: the frame read by \<open>SigReturn\<close> holds the mask to restore, and \<open>CheckSignals\<close> returns at once.\<close>

definition SigReturn :: "u32 \<Rightarrow> u32 option \<Rightarrow> 'a processes_scheme \<Rightarrow> 'a processes_scheme option" where
  "SigReturn junk sigframe s = do {
     let c = current s;
     s \<leftarrow> (if sigframe = None then SigExit 11 s else Some s);
     Some (upd_signal c (\<lambda>x. x\<lparr>sig_mask := (case sigframe of None \<Rightarrow> junk | Some m \<Rightarrow> m)\<rparr>) s)
   }"

definition CheckSignals :: "'a processes_scheme \<Rightarrow> 'a processes_scheme" where
  "CheckSignals s = s"

definition PickSignal :: "u32 \<Rightarrow> int" where
  "PickSignal w = (case find (\<lambda>k. shl1 k AND w \<noteq> 0) [0..<32] of Some k \<Rightarrow> int k + 1 | None \<Rightarrow> 33)"

section \<open>Properties\<close>

lemma upd_signal_sel [simp]:
  "procs (upd_signal p f s) = procs s" "current (upd_signal p f s) = current s" "same_sched s (upd_signal p f s)"
  "signal_of (upd_signal p f s) q = (if q = p then f (signal_of s p) else signal_of s q)"
  by (simp_all add: upd_signal_def signal_of_def upd_task_def same_sched_def sched.truncate_def)

lemma Reschedule_keeps:
  assumes "runq_inv s" "acct_ok s"
  shows "\<exists>u. Reschedule s = Some u \<and> (\<forall>p. queued u p = queued s p) \<and> blocked_list u = blocked_list s"
proof -
  obtain v where v: "resched_account s = Some v" "\<And>p. queued v p = queued s p" "blocked_list v = blocked_list s"
    using account_inv [OF assms] by blast
  have "queued ((upd_proc n (\<lambda>p. p\<lparr>pstate := PROC_STATE_RUNNING\<rparr>) v)\<lparr>current := n\<rparr>) p = queued v p" for n p
    by (simp add: queued_def)
  then show ?thesis using v by (simp add: Reschedule_def Let_def)
qed

text \<open>
  C40: Sending a signal to a process that sleeps on a condition variable.  The signal becomes pending.  If no
  pending signal is in the mask of blocked signals, the process sleeps on, although the signal could be
  delivered; if one is, the process is put on a run queue while it stays on the list of the condition
  variable, which no state of a working scheduler allows.
\<close>

theorem sys_kill_sleeper:
  assumes inv: "sched_inv s" and p: "p \<in> set (blocked_list s r)" "0 < p" "p < max_process"
    and sig: "0 < sig" "sig < NSIG" and h: "handler (signal_of s p) (nat (sig - 1)) \<noteq> SIG_IGN"
  shows "\<exists>u. sys_kill (int p) sig s = Some (Inr (), u) \<and> p \<in> set (blocked_list u r)
    \<and> sig_pending (signal_of u p) = sig_pending (signal_of s p) OR SIGBIT sig
    \<and> (if (sig_pending (signal_of s p) OR SIGBIT sig) AND sig_mask (signal_of s p) = 0
       then same_sched s u else queued u p \<and> \<not> sched_inv u)"
proof -
  let ?s = "upd_signal p (\<lambda>x. x\<lparr>sig_pending := sig_pending x OR SIGBIT sig, si_code := (si_code x)(nat (sig - 1) := SI_USER)\<rparr>) s"
  have st: "pstate (procs s p) = PROC_STATE_RENDEZ_BLOCKED" "schedulable (procs s p)" "\<not> queued s p"
    using inv p(1) by (auto simp: sched_inv_def waits_inv_def)
  have k: "sys_kill (int p) sig s = post_signal p sig s \<bind> (\<lambda>s. Some (Inr (), s))"
    using p(2,3) sig st(1) by (simp add: sys_kill_def GetProcess_def)
  have ps: "sig_pending (signal_of ?s p) = sig_pending (signal_of s p) OR SIGBIT sig" by simp
  show ?thesis
  proof (cases "(sig_pending (signal_of s p) OR SIGBIT sig) AND sig_mask (signal_of s p) = 0")
    case True
    then have "post_signal p sig s = Some ?s" using h by (simp add: post_signal_def Let_def)
    moreover have "blocked_list ?s = blocked_list s" using same_schedD(8) [of s ?s] by simp
    ultimately show ?thesis using k p(1) ps True by (intro exI [of _ ?s]) simp
  next
    case False
    let ?t = "upd_proc p (\<lambda>x. x\<lparr>pstate := PROC_STATE_READY\<rparr>) ?s"
    note ss = same_schedD [of s ?s, OF upd_signal_sel(3)] same_sched_inv [of s ?s, OF upd_signal_sel(3)]
    have rt: "runq_inv ?t" "\<not> queued ?t p" using inv ss(9) st(3) ss(10) by (simp_all add: sched_inv_def)
    obtain v where v: "SchedReady p ?t = Some v" using SchedReady_defined [of ?t p] st(2) by (auto simp: schedulable_def)
    note vi = SchedReady_inv [OF rt v] and sel = SchedReady_sel [OF v]
    have "current_inv s" using inv by (simp add: sched_inv_def)
    then have "current_inv ?t" by (auto simp: current_inv_def ss(1-4))
    then have "acct_ok v" using vi(3) by (simp add: acct_ok_def)
    then obtain u where u: "Reschedule v = Some u" "\<And>x. queued u x = queued v x" "blocked_list u = blocked_list v"
      using Reschedule_keeps vi(1) by blast
    have e: "post_signal p sig s = Some u" using h False st(1) v u(1) by (simp add: post_signal_def Let_def)
    have q: "queued u p" "p \<in> set (blocked_list u r)" using u(2,3) vi(2) sel(10) ss(8) p(1) by simp_all
    have "\<not> sched_inv u" using q by (auto simp: sched_inv_def waits_inv_def)
    moreover have "sched.more u = sched.more ?s" using Reschedule_more [OF u(1)] sel(11) by simp
    then have "same_procs ?s u" by (rule same_procs_sched)
    then have "signal_of u p = signal_of ?s p" unfolding signal_of_def same_procs_def by simp
    ultimately show ?thesis using k e q False ps by (intro exI [of _ u]) simp
  qed
qed

text \<open>The child of the root process sleeps and has blocked signal 1.\<close>

definition demo_sleeper :: processes where
  "demo_sleeper = upd_signal 1 (\<lambda>x. x\<lparr>sig_mask := 1\<rparr>)
     (demo_procs\<lparr>procs := (procs demo_procs)(1 := (procs demo_procs 1)\<lparr>pstate := PROC_STATE_RENDEZ_BLOCKED\<rparr>),
        blocked_list := (\<lambda>_. [])(Rz_proc 1 := [1])\<rparr>)"

lemma demo_sleeper_sel [simp]:
  "procs demo_sleeper = (procs demo_procs)(1 := (procs demo_procs 1)\<lparr>pstate := PROC_STATE_RENDEZ_BLOCKED\<rparr>)"
  "blocked_list demo_sleeper = (\<lambda>_. [])(Rz_proc 1 := [1])" "sched_queue demo_sleeper = (\<lambda>_. [])(16 := [0])"
  "current demo_sleeper = 0" "idle_process demo_sleeper = 2" "bkl_owner demo_sleeper = Owner 0" "bkl_locked demo_sleeper"
  "bkl_blocked_list demo_sleeper = []" "signal_of demo_sleeper (Suc 0) = zero_signal\<lparr>sig_mask := 1\<rparr>"
  by (simp_all add: demo_sleeper_def upd_signal_def upd_task_def signal_of_def demo_tasks_def demo_task_def new_task_def)

lemma demo_sleeper_inv: "sched_inv demo_sleeper"
proof -
  have q: "queued demo_sleeper p \<longleftrightarrow> p = 0" for p by (simp add: queued_def)
  show ?thesis
    by (auto simp: sched_inv_def runq_inv_def waits_inv_def current_inv_def owner_inv_def q schedulable_def split: if_splits)
qed

theorem sys_kill_sleeper_witness:
  "\<exists>u. sys_kill 1 1 demo_sleeper = Some (Inr (), u) \<and> queued u 1 \<and> 1 \<in> set (blocked_list u (Rz_proc 1)) \<and> \<not> sched_inv u"
proof -
  have h: "1 \<in> set (blocked_list demo_sleeper (Rz_proc 1))" "(0 :: nat) < 1" "1 < max_process" "(0 :: int) < 1" "1 < NSIG"
    "handler (signal_of demo_sleeper 1) (nat (1 - 1)) \<noteq> SIG_IGN"
    by (simp_all add: max_process_def NSIG_def zero_signal_def SIG_IGN_def)
  have "(sig_pending (signal_of demo_sleeper 1) OR SIGBIT 1) AND sig_mask (signal_of demo_sleeper 1) \<noteq> 0"
    by (simp add: zero_signal_def SIGBIT_def shl1_def)
  with sys_kill_sleeper [OF demo_sleeper_inv h] show ?thesis by auto
qed

end
