(* ===== verification/Spec2Isabelle.thy ===== *)
theory Spec2Isabelle
  imports Kernel_Printf Name_Cache Pipes Signals
begin

text \<open>
  Verification of the kernel of Cheviot, a microkernel operating system for the Raspberry Pi, as in
  \<^verbatim>\<open>src/kernel\<close>.  All paths below are relative to that directory unless they start with \<^verbatim>\<open>src/\<close>.

  \<^bold>\<open>The program.\<close>  Processes enter the kernel by system calls and run there one at a time, under the
  big kernel lock.  A process that has to wait sleeps on a rendez, which gives the lock away.  File
  systems and drivers are processes too: the kernel sends them messages and they watch for events
  with kqueues.  A process has an address space, made of a segment table and ARM page tables over
  page frames, a table of open files, and a place in the family of processes.

  \<^bold>\<open>How code becomes definitions.\<close>  A C function is a HOL function of the same name on an explicit
  state.  Objects that live in a table (processes, filps, vnodes, frames) are named by their index.
  An intrusive list is a HOL list; \<open>Kernel_Lists\<close> justifies this on the pointers.  A negative error
  number is \<open>Inl\<close> of the error.  A NULL dereference, a \<^verbatim>\<open>KernelPanic\<close>, an access outside a table and a
  loop that does not end are \<open>None\<close>, so a theorem that a call gives \<open>Some\<close> excludes all of them.
  \<^verbatim>\<open>KASSERT\<close> is empty in the files that do not define \<^verbatim>\<open>KDEBUG\<close>, and has no counterpart there.  A call that
  may sleep returns \<open>Blocked\<close>, and what it does when it is woken is a further definition; other
  processes run in between.  Logging has no effect.  Machine words are \<open>word\<close>s where the code depends on
  their width, and integers elsewhere; the theories say where they assume that a counter does not
  overflow.  The states form a chain of records, each of which extends the one before: \<open>sched\<close>, \<open>timers\<close>,
  \<open>files\<close>, \<open>events\<close>, \<open>msgs\<close>, \<open>vnodes\<close>, and from there \<open>pipes\<close> and \<open>names\<close> on one side and \<open>processes\<close> on the
  other.  The memory is the record \<open>vmem\<close>, a field of \<open>processes\<close>.
\<close>

section \<open>Theories\<close>

text \<open>
  \<^item> \<open>Cheviot_Prelude\<close>: types, error codes, results, and lemmas that several theories use.

  \<^item> \<open>Kernel_Lists\<close>, \<^verbatim>\<open>h/kernel/lists.h\<close>: the list macros on link fields.  They implement the operations on
    HOL lists and leave disjoint lists alone.  The locales \<open>fifo_list\<close> and \<open>entry_list\<close> state the contract,
    interpreted for the three families of macros.

  \<^item> \<open>Kernel_Strings\<close> and \<open>Kernel_Printf\<close>, \<^verbatim>\<open>utility/string.c\<close> and \<^verbatim>\<open>utility/doprintf.c\<close>: printed integers read back
    as the argument; exactly when \<open>Snprintf\<close> stays inside its buffer.

  \<^item> \<open>Scheduler\<close>, \<^verbatim>\<open>proc/sched.c\<close>: run queues, the lock, sleep and wakeup as a step relation.  An invariant
    holds in every reachable state, no step panics, the highest ready task runs, the lock is handed
    over in order; a demotion can stop the machine.

  \<^item> \<open>Timers\<close>, \<^verbatim>\<open>proc/timer.c\<close>: the timing wheel.  A pass of the timer task ends and expires exactly the due
    timers, and a sleep does not return early.

  \<^item> \<open>File_Descriptors\<close>, \<^verbatim>\<open>fs/filedesc.c\<close> and \<^verbatim>\<open>fs/filp.c\<close>: reference counts are the numbers of descriptors in
    every reachable state; allocation, \<open>dup2\<close>, fork and exec; a close loses the filp.

  \<^item> \<open>Kqueue\<close>, \<^verbatim>\<open>fs/kqueue.c\<close>: a note is on the pending list exactly if it is enabled and pending, and events
    are reported once and in order.

  \<^item> \<open>Messages\<close>, \<^verbatim>\<open>fs/msg.c\<close>: a request reaches its server and the reply its sender; the identifiers of
    unanswered messages are a table (locale \<open>id_table\<close>); reading and writing parts of a message.

  \<^item> \<open>VNodes\<close>, \<^verbatim>\<open>fs/vnode.c\<close>, the tables of \<^verbatim>\<open>fs/mount.c\<close>, and calls of \<^verbatim>\<open>fs/seek.c\<close>, \<^verbatim>\<open>fs/access.c\<close>, \<^verbatim>\<open>fs/id.c\<close> and
    \<^verbatim>\<open>fs/dir.c\<close>: free list and counts agree; a lookup that recycles a vnode breaks this.

  \<^item> \<open>Pipes\<close>, \<^verbatim>\<open>fs/pipe.c\<close>: what is written is read; exactly which transfers end.

  \<^item> \<open>Name_Cache\<close>, \<^verbatim>\<open>fs/dnlc.c\<close>: the cache is a map that may forget but never lies (locale \<open>lossy_map\<close>);
    removal may hit another directory.

  \<^item> \<open>Segments\<close>, \<^verbatim>\<open>vm/segment.c\<close>: the binary search finds the segment of an address, and creating a segment
    reserves exactly its range; freeing corrupts the table.

  \<^item> \<open>Page_Frames\<close>, \<^verbatim>\<open>vm/page.c\<close> and \<^verbatim>\<open>boards/raspberry_pi_4/init_vm.c\<close>: the allocator hands out free, zeroed blocks,
    and its set-up puts exactly the unused frames on the free lists.

  \<^item> \<open>Page_Maps\<close>, \<^verbatim>\<open>boards/raspberry_pi_4/pmap.c\<close>: the page tables refine a map from pages to addresses and
    flags (locale \<open>place_map\<close>).

  \<^item> \<open>Address_Spaces\<close>, \<^verbatim>\<open>vm/as.c\<close>, \<^verbatim>\<open>vm/vm.c\<close> and \<^verbatim>\<open>vm/pagefault.c\<close>: copy on write keeps the memory of processes
    apart, fork copies it, and allocation maps fresh pages.

  \<^item> \<open>Processes\<close>, \<^verbatim>\<open>proc/proc.c\<close> and \<^verbatim>\<open>boards/raspberry_pi_4/proc.c\<close>: fork, exit and wait, on top of the scheduler,
    the open files and the memory.  Each call returns and refines a step of the family, the map from
    a process to its parent and exit status.

  \<^item> \<open>Signals\<close>, \<^verbatim>\<open>proc/signal.c\<close> and \<^verbatim>\<open>boards/raspberry_pi_4/signals.c\<close>: settings, sending and waiting; which sleepers a
    signal wakes.
\<close>

section \<open>Bounds and loops\<close>

text \<open>
  Table sizes are those of the source.  No definition uses fuel: a loop over data is structural
  recursion, other loops come with a termination proof, and those that may run for ever (transfers of
  a pipe, the children of a process that exits) are partial functions whose result \<open>None\<close> includes not
  returning; the theorems on them state that they return, and when.
\<close>

section \<open>Not modelled\<close>

text \<open>
  \<^item> Path names, opening, reading and writing files, directories and mounting (\<^verbatim>\<open>fs/lookup.c\<close>, \<^verbatim>\<open>fs/open.c\<close>,
    \<^verbatim>\<open>fs/read.c\<close>, \<^verbatim>\<open>fs/write.c\<close>, \<^verbatim>\<open>fs/vfs.c\<close>, the rest of \<^verbatim>\<open>fs/dir.c\<close> and \<^verbatim>\<open>fs/mount.c\<close>, and others): they depend on the
    answers of file system servers.  The file cache \<^verbatim>\<open>fs/cache.c\<close> and the loader \<^verbatim>\<open>fs/exec.c\<close> build on them.

  \<^item> Interrupt handlers of drivers (\<^verbatim>\<open>proc/interrupt.c\<close>): their lists change inside interrupts, and the
    development has no model of an interrupt during a system call.

  \<^item> Closing the last descriptor of an object from \<open>do_close\<close>: its effect on the descriptor is modelled,
    its effect on the object is in the theory of the object.

  \<^item> Context switches, exception entry, device registers, caches and translation buffers: assembler and
    hardware.

  \<^item> The Raspberry Pi 1, and everything outside the kernel: servers, drivers, boot loader, libraries
    and tools under \<^verbatim>\<open>src/system\<close>, \<^verbatim>\<open>src/lib\<close> and \<^verbatim>\<open>src/tools\<close>.
\<close>

end
